(* ===== verification/Prelude.thy ===== *)
theory Prelude
  imports Main "HOL-Library.Word"
begin

text \<open>
  Shared vocabulary of the development: the machine integer types of
  \<^verbatim>\<open>rx/types.hpp\<close>, the wrap-around of signed and unsigned C++ arithmetic where it is kept on
  \<^typ>\<open>int\<close>, the lv2 error codes of \<^verbatim>\<open>rpcs3/Emu/Cell/ErrorCodes.h\<close>, the outcome of a system
  call, and generic lemmas on lists, signed wrap-around and bit masks that the component
  theories use through the collections \<open>lv2_simps\<close> (rewrite rules), \<open>lv2_frame\<close> (what an
  operation leaves alone) and \<open>lv2_defs\<close> (definitions that witnesses unfold).
\<close>

unbundle bit_operations_syntax

named_theorems lv2_simps
named_theorems lv2_frame
named_theorems lv2_defs

section \<open>Machine integers\<close>

type_synonym u8 = "8 word"
type_synonym u16 = "16 word"
type_synonym u32 = "32 word"
type_synonym u64 = "64 word"

text \<open>
  Signed counters (\<^verbatim>\<open>s32\<close>, \<^verbatim>\<open>s64\<close>) are kept on \<^typ>\<open>int\<close>; every operation that could leave the
  width goes through \<open>wrap_s32\<close>, \<open>wrap_s64\<close> (two's complement) or \<open>wrap_u32\<close> (unsigned).
\<close>

definition wrap_u32 :: "int \<Rightarrow> int" where
  "wrap_u32 x = x mod 2 ^ 32"

definition wrap_s32 :: "int \<Rightarrow> int" where
  "wrap_s32 x = (x + 2 ^ 31) mod 2 ^ 32 - 2 ^ 31"

definition wrap_s64 :: "int \<Rightarrow> int" where
  "wrap_s64 x = (x + 2 ^ 63) mod 2 ^ 64 - 2 ^ 63"

lemma wrap_u32_id [lv2_simps]: "0 \<le> x \<Longrightarrow> x < 2 ^ 32 \<Longrightarrow> wrap_u32 x = x"
  by (simp add: wrap_u32_def)

lemma wrap_s32_id [lv2_simps]: "- (2 ^ 31) \<le> x \<Longrightarrow> x < 2 ^ 31 \<Longrightarrow> wrap_s32 x = x"
  by (simp add: wrap_s32_def)

lemma wrap_s64_id [lv2_simps]: "- (2 ^ 63) \<le> x \<Longrightarrow> x < 2 ^ 63 \<Longrightarrow> wrap_s64 x = x"
  by (simp add: wrap_s64_def)

lemma wrap_s32_range: "- (2 ^ 31) \<le> wrap_s32 x \<and> wrap_s32 x < 2 ^ 31"
  by (simp add: wrap_s32_def)

lemma int_or_one: "(x::int) OR 1 = (if even x then x + 1 else x)"
  by (simp add: or_one_eq)

lemma int_and_minus_two: "(x::int) AND -2 = x - x mod 2"
proof (rule bit_eqI)
  fix n
  have "x - x mod 2 = 2 * (x div 2)"
    by (simp add: minus_mod_eq_mult_div)
  moreover have "bit (2 * (x div 2)) n = (n \<noteq> 0 \<and> bit x n)"
    by (cases n) (simp_all add: bit_Suc bit_0)
  moreover have "bit (-2 :: int) n = (n \<noteq> 0)"
    by (cases n) (simp_all add: bit_Suc bit_0)
  ultimately show "bit (x AND -2) n = bit (x - x mod 2) n"
    by (auto simp: bit_and_iff)
qed

section \<open>Error codes and outcomes\<close>

type_synonym error_code = u32

abbreviation (input) CELL_OK :: error_code where "CELL_OK \<equiv> 0"
abbreviation (input) CELL_EAGAIN :: error_code where "CELL_EAGAIN \<equiv> 0x80010001"
abbreviation (input) CELL_EINVAL :: error_code where "CELL_EINVAL \<equiv> 0x80010002"
abbreviation (input) CELL_ESRCH :: error_code where "CELL_ESRCH \<equiv> 0x80010005"
abbreviation (input) CELL_ENOENT :: error_code where "CELL_ENOENT \<equiv> 0x80010006"
abbreviation (input) CELL_EDEADLK :: error_code where "CELL_EDEADLK \<equiv> 0x80010008"
abbreviation (input) CELL_EPERM :: error_code where "CELL_EPERM \<equiv> 0x80010009"
abbreviation (input) CELL_EBUSY :: error_code where "CELL_EBUSY \<equiv> 0x8001000A"
abbreviation (input) CELL_ETIMEDOUT :: error_code where "CELL_ETIMEDOUT \<equiv> 0x8001000B"
abbreviation (input) CELL_EFAULT :: error_code where "CELL_EFAULT \<equiv> 0x8001000D"
abbreviation (input) CELL_EKRESOURCE :: error_code where "CELL_EKRESOURCE \<equiv> 0x80010011"
abbreviation (input) CELL_ECANCELED :: error_code where "CELL_ECANCELED \<equiv> 0x80010013"
abbreviation (input) CELL_EEXIST :: error_code where "CELL_EEXIST \<equiv> 0x80010014"
abbreviation (input) CELL_EISCONN :: error_code where "CELL_EISCONN \<equiv> 0x80010015"
abbreviation (input) CELL_ENOTCONN :: error_code where "CELL_ENOTCONN \<equiv> 0x80010016"

text \<open>
  What one stretch of a handler ends with. \<open>Ret\<close> carries the value returned to the guest;
  \<open>Blocked\<close> means that the calling thread entered the handler's wait loop; \<open>Again\<close> is
  \<^verbatim>\<open>return {}\<close> after the flag \<^verbatim>\<open>cpu_flag::again\<close> was raised (the call is repeated when the save
  state is loaded); \<open>Fatal\<close> is a failed \<^verbatim>\<open>ensure\<close> or a thrown exception.
\<close>

datatype outcome = Ret error_code | Blocked | Again | Fatal

section \<open>Lists\<close>

lemma distinct_remove1_last_append:
  "distinct (xs @ [x]) \<Longrightarrow> remove1 x (xs @ [x]) = xs"
  by (simp add: remove1_append)

lemma remove1_distinct_filter: "distinct xs \<Longrightarrow> remove1 x xs = filter (\<lambda>y. y \<noteq> x) xs"
  by (induction xs) (auto intro!: filter_True [symmetric])

lemma length_remove1_mem [lv2_simps]: "x \<in> set xs \<Longrightarrow> Suc (length (remove1 x xs)) = length xs"
  by (induction xs) auto

lemma hd_remove1_other: "xs \<noteq> [] \<Longrightarrow> hd xs \<noteq> x \<Longrightarrow> hd (remove1 x xs) = hd xs \<and> remove1 x xs \<noteq> []"
  by (cases xs) auto

end
