(* ===== verification/Lv2_Thread.thy ===== *)
theory Lv2_Thread
  imports Prelude
begin

text \<open>
  The PPU threads as the lv2 kernel objects see them (\<^verbatim>\<open>ppu_thread\<close>, \<^verbatim>\<open>cpu_thread\<close>), and the
  intrusive wait queues of \<^verbatim>\<open>kernel/cellos/include/cellos/sys_sync.h\<close>: \<^verbatim>\<open>unqueue\<close>, \<^verbatim>\<open>schedule\<close> and
  \<^verbatim>\<open>emplace\<close>. A queue is a singly linked list through \<^verbatim>\<open>next_cpu\<close> whose head is the thread that was
  pushed last. The operations are modelled twice: on the pointer structure (\<open>unqueue_ptr\<close>,
  \<open>schedule_ptr\<close>, following the loops of the source) and on lists of thread ids (\<open>unqueue\<close>,
  \<open>schedule\<close>, \<open>emplace\<close>); the last section shows that the former implement the latter. The
  object theories use the list form.
\<close>

section \<open>Threads and the global scheduler state\<close>

datatype cpu_flag =
    F_stop | F_exit | F_wait | F_temp | F_pause | F_suspend | F_ret | F_again | F_signal
  | F_memory | F_pending | F_pending_recheck | F_notify | F_yield | F_preempt
  | F_dbg_global_pause | F_dbg_pause | F_dbg_step

type_synonym tid = u32

text \<open>
  \<^verbatim>\<open>ppu_prio_t\<close> packs a 13 bit signed priority, a 50 bit signed enqueue order and a preserve bit
  into 64 bits; the fields keep their widths here.
\<close>

record ppu_thread =
  prio :: "13 word"
  order :: "50 word"
  preserve_bit :: bool
  state :: "cpu_flag set"
  gpr :: "nat \<Rightarrow> u64"
  start_time :: u64
  end_time :: u64
  cancel_sleep :: int
  ack_suspend :: bool
  hw_sleep_time :: u32
  loaded_from_savestate :: bool
  sstate :: u64
  raddr :: u32

definition is_stopped :: "cpu_flag set \<Rightarrow> bool" where
  "is_stopped st \<longleftrightarrow> F_stop \<in> st \<or> F_exit \<in> st \<or> F_again \<in> st"

definition is_paused :: "cpu_flag set \<Rightarrow> bool" where
  "is_paused st \<longleftrightarrow>
     (F_suspend \<in> st \<or> F_dbg_global_pause \<in> st \<or> F_dbg_pause \<in> st) \<and> \<not> is_stopped st"

text \<open>
  The static members of \<^verbatim>\<open>lv2_obj\<close> and the file-level variables of \<^verbatim>\<open>lv2.cpp\<close>, the threads
  themselves, the part of the configuration that the scheduler reads, and the clocks it samples.
  \<open>cur\<close> is \<^verbatim>\<open>cpu_thread::get_current<ppu_thread>()\<close>; \<open>fatal\<close> records that an \<^verbatim>\<open>ensure\<close> of the
  scheduler failed.
\<close>

record lv2 =
  thr :: "tid \<Rightarrow> ppu_thread"
  g_priority_order_tag :: u64
  g_ppu :: "tid list"
  g_pending :: u32
  g_waiting :: "(u64 \<times> tid) list"
  g_to_sleep :: "tid list"
  g_to_awake :: "tid list"
  g_scheduler_ready :: bool
  ppu_threads :: nat
  all_timers :: bool
  cur :: "tid option"
  guest_time :: u64
  tsc :: u64
  s_yield_frequency :: u64
  s_max_allowed_yield_tsc :: u64
  s_last_yield_tsc :: u64
  g_lv2_preempts_taken :: u32
  fatal :: bool

definition upd_thr :: "tid \<Rightarrow> (ppu_thread \<Rightarrow> ppu_thread) \<Rightarrow> lv2 \<Rightarrow> lv2" where
  "upd_thr t f e = e\<lparr>thr := (thr e)(t := f (thr e t))\<rparr>"

definition add_flag :: "tid \<Rightarrow> cpu_flag \<Rightarrow> lv2 \<Rightarrow> lv2" where
  "add_flag t fl e = upd_thr t (\<lambda>p. p\<lparr>state := insert fl (state p)\<rparr>) e"

definition set_gpr :: "tid \<Rightarrow> nat \<Rightarrow> u64 \<Rightarrow> lv2 \<Rightarrow> lv2" where
  "set_gpr t i v e = upd_thr t (\<lambda>p. p\<lparr>gpr := (gpr p)(i := v)\<rparr>) e"

definition flagged :: "cpu_flag \<Rightarrow> lv2 \<Rightarrow> tid \<Rightarrow> bool" where
  "flagged fl e t \<longleftrightarrow> fl \<in> state (thr e t)"

section \<open>Wait queues as lists\<close>

abbreviation (input) SYS_SYNC_FIFO :: u32 where "SYS_SYNC_FIFO \<equiv> 1"
abbreviation (input) SYS_SYNC_PRIORITY :: u32 where "SYS_SYNC_PRIORITY \<equiv> 2"
abbreviation (input) SYS_SYNC_PRIORITY_INHERIT :: u32 where "SYS_SYNC_PRIORITY_INHERIT \<equiv> 3"
abbreviation (input) SYS_SYNC_RETRY :: u32 where "SYS_SYNC_RETRY \<equiv> 4"

text \<open>The comparison of \<^verbatim>\<open>schedule\<close>: smaller priority value first, then smaller enqueue order.\<close>

definition prio_before :: "(tid \<Rightarrow> ppu_thread) \<Rightarrow> tid \<Rightarrow> tid \<Rightarrow> bool" where
  "prio_before th a b \<longleftrightarrow>
     sint (prio (th a)) < sint (prio (th b)) \<or>
     prio (th a) = prio (th b) \<and> sint (order (th a)) < sint (order (th b))"

fun prio_pick :: "(tid \<Rightarrow> ppu_thread) \<Rightarrow> tid \<Rightarrow> tid list \<Rightarrow> tid" where
  "prio_pick th found [] = found"
| "prio_pick th found (x # xs) = prio_pick th (if prio_before th x found then x else found) xs"

definition pick :: "(tid \<Rightarrow> ppu_thread) \<Rightarrow> u32 \<Rightarrow> tid list \<Rightarrow> tid option" where
  "pick th protocol q =
     (case q of [] \<Rightarrow> None
      | x # xs \<Rightarrow> Some (if protocol = SYS_SYNC_FIFO then last q else prio_pick th x xs))"

definition schedule :: "(tid \<Rightarrow> ppu_thread) \<Rightarrow> u32 \<Rightarrow> tid list \<Rightarrow> tid option \<times> tid list" where
  "schedule th protocol q =
     (case pick th protocol q of
        None \<Rightarrow> (None, q)
      | Some t \<Rightarrow> (Some t, if F_again \<in> state (th t) then q else remove1 t q))"

definition unqueue :: "tid list \<Rightarrow> tid \<Rightarrow> bool \<times> tid list" where
  "unqueue q t = (t \<in> set q, remove1 t q)"

text \<open>
  \<^verbatim>\<open>emplace\<close> pushes at the head and stamps the thread with a fresh order tag, unless the thread was
  restored from a save state with its order preserved.
\<close>

definition stamp_order :: "tid \<Rightarrow> lv2 \<Rightarrow> lv2" where
  "stamp_order t e =
     (let tag = g_priority_order_tag e + 1
      in upd_thr t (\<lambda>p. p\<lparr>order := ucast tag\<rparr>) (e\<lparr>g_priority_order_tag := tag\<rparr>))"

definition emplace :: "tid \<Rightarrow> tid list \<Rightarrow> lv2 \<Rightarrow> tid list \<times> lv2" where
  "emplace t q e =
     (let tag = g_priority_order_tag e + 1; e' = e\<lparr>g_priority_order_tag := tag\<rparr>
      in (t # q,
          if preserve_bit (thr e t) then upd_thr t (\<lambda>p. p\<lparr>preserve_bit := False\<rparr>) e'
          else upd_thr t (\<lambda>p. p\<lparr>order := ucast tag\<rparr>) e'))"

section \<open>Wait queues as linked lists\<close>

text \<open>
  \<open>nx\<close> is the field \<^verbatim>\<open>next_cpu\<close> of every thread (\<^const>\<open>None\<close> is the null pointer). A loop over a
  cyclic structure would not end, which is the value \<^const>\<open>None\<close> of these functions.
\<close>

type_synonym links = "tid \<Rightarrow> tid option"

partial_function (option) unqueue_loop ::
  "bool \<Rightarrow> links \<Rightarrow> tid option \<Rightarrow> tid \<Rightarrow> (tid option \<times> links) option" where
  "unqueue_loop modify nx it obj =
     (case it of
        None \<Rightarrow> Some (None, nx)
      | Some p \<Rightarrow>
          if nx p = Some obj
          then Some (Some obj,
                 let nx1 = nx(p := nx obj) in if modify then nx1(obj := None) else nx1)
          else unqueue_loop modify nx (nx p) obj)"

definition unqueue_ptr ::
  "bool \<Rightarrow> links \<Rightarrow> tid option \<Rightarrow> tid \<Rightarrow> (tid option \<times> tid option \<times> links) option" where
  "unqueue_ptr modify nx first obj =
     (if first = Some obj
      then Some (Some obj, nx obj, if modify then nx(obj := None) else nx)
      else map_option (\<lambda>(r, nx'). (r, first, nx')) (unqueue_loop modify nx first obj))"

partial_function (option) fifo_loop :: "links \<Rightarrow> tid option \<Rightarrow> tid \<Rightarrow> (tid option \<times> tid) option" where
  "fifo_loop nx parent it =
     (case nx it of
        None \<Rightarrow> Some (parent, it)
      | Some n \<Rightarrow> fifo_loop nx (Some it) n)"

partial_function (option) prio_loop ::
  "(tid \<Rightarrow> ppu_thread) \<Rightarrow> links \<Rightarrow> tid option \<Rightarrow> tid \<Rightarrow> tid \<Rightarrow> (tid option \<times> tid) option" where
  "prio_loop th nx parent found it =
     (case nx it of
        None \<Rightarrow> Some (parent, found)
      | Some n \<Rightarrow>
          if prio_before th n found then prio_loop th nx (Some it) n n
          else prio_loop th nx parent found n)"

text \<open>
  \<open>write_link\<close> stores through \<^verbatim>\<open>parent_found\<close>, which points either to the queue head or to the
  link field of the predecessor.
\<close>

definition write_link :: "tid option \<Rightarrow> tid option \<Rightarrow> tid option \<times> links \<Rightarrow> tid option \<times> links" where
  "write_link parent v fl =
     (case parent of None \<Rightarrow> (v, snd fl) | Some p \<Rightarrow> (fst fl, (snd fl)(p := v)))"

definition schedule_ptr ::
  "(tid \<Rightarrow> ppu_thread) \<Rightarrow> u32 \<Rightarrow> bool \<Rightarrow> links \<Rightarrow> tid option
     \<Rightarrow> (tid option \<times> tid option \<times> links) option" where
  "schedule_ptr th protocol modify nx first =
     (case first of
        None \<Rightarrow> Some (None, first, nx)
      | Some it \<Rightarrow>
          if protocol = SYS_SYNC_FIFO
          then (case fifo_loop nx None it of
                  None \<Rightarrow> None
                | Some (parent, found) \<Rightarrow>
                    Some (Some found,
                      if F_again \<in> state (th found) then (first, nx)
                      else write_link parent None (first, nx)))
          else (case prio_loop th nx None it it of
                  None \<Rightarrow> None
                | Some (parent, found) \<Rightarrow>
                    Some (Some found,
                      if F_again \<in> state (th found) then (first, nx)
                      else (let (f', nx') = write_link parent (nx found) (first, nx)
                            in (f', if modify then nx'(found := None) else nx')))))"

fun lseg :: "links \<Rightarrow> tid option \<Rightarrow> tid list \<Rightarrow> bool" where
  "lseg nx p [] \<longleftrightarrow> p = None"
| "lseg nx p (x # xs) \<longleftrightarrow> p = Some x \<and> lseg nx (nx x) xs"

definition parent_of :: "tid list \<Rightarrow> tid option" where
  "parent_of ys = (if ys = [] then None else Some (last ys))"

section \<open>Lemmas: thread updates\<close>

lemma thr_upd_thr [simp]: "thr (upd_thr t f e) = (thr e)(t := f (thr e t))"
  by (simp add: upd_thr_def)

lemma upd_thr_sel [simp]:
  "g_priority_order_tag (upd_thr t f e) = g_priority_order_tag e"
  "g_ppu (upd_thr t f e) = g_ppu e" "g_pending (upd_thr t f e) = g_pending e"
  "g_waiting (upd_thr t f e) = g_waiting e" "g_to_sleep (upd_thr t f e) = g_to_sleep e"
  "g_to_awake (upd_thr t f e) = g_to_awake e" "g_scheduler_ready (upd_thr t f e) = g_scheduler_ready e"
  "ppu_threads (upd_thr t f e) = ppu_threads e" "cur (upd_thr t f e) = cur e"
  "guest_time (upd_thr t f e) = guest_time e" "fatal (upd_thr t f e) = fatal e"
  "all_timers (upd_thr t f e) = all_timers e" "tsc (upd_thr t f e) = tsc e"
  "s_yield_frequency (upd_thr t f e) = s_yield_frequency e"
  "s_max_allowed_yield_tsc (upd_thr t f e) = s_max_allowed_yield_tsc e"
  "s_last_yield_tsc (upd_thr t f e) = s_last_yield_tsc e"
  by (simp_all add: upd_thr_def)

lemma thr_add_flag: "thr (add_flag t fl e) u =
    (if u = t then (thr e t)\<lparr>state := insert fl (state (thr e t))\<rparr> else thr e u)"
  by (simp add: add_flag_def)

lemma thr_set_gpr: "thr (set_gpr t i v e) u =
    (if u = t then (thr e t)\<lparr>gpr := (gpr (thr e t))(i := v)\<rparr> else thr e u)"
  by (simp add: set_gpr_def)

lemma state_set_gpr [simp]: "state (thr (set_gpr t i v e) u) = state (thr e u)"
  by (simp add: thr_set_gpr)

lemma gpr_add_flag [simp]: "gpr (thr (add_flag t fl e) u) = gpr (thr e u)"
  by (simp add: thr_add_flag)

lemma prio_order_set_gpr [simp]:
  "prio (thr (set_gpr t i v e) u) = prio (thr e u)"
  "order (thr (set_gpr t i v e) u) = order (thr e u)"
  "prio (thr (add_flag t fl e) u) = prio (thr e u)"
  "order (thr (add_flag t fl e) u) = order (thr e u)"
  by (simp_all add: thr_set_gpr thr_add_flag)

section \<open>Lemmas: the list queues\<close>

lemma prio_before_irrefl [simp]: "\<not> prio_before th a a"
  by (simp add: prio_before_def)

lemma prio_before_trans: "prio_before th a b \<Longrightarrow> prio_before th b c \<Longrightarrow> prio_before th a c"
  by (auto simp: prio_before_def)

lemma not_prio_before_trans:
  "\<not> prio_before th a b \<Longrightarrow> \<not> prio_before th b c \<Longrightarrow> \<not> prio_before th a c"
  by (auto simp: prio_before_def not_less) (metis antisym signed_word_eqI)+

lemma prio_pick_mem: "prio_pick th x xs \<in> set (x # xs)"
  by (induction th x xs rule: prio_pick.induct) auto

lemma prio_pick_least: "y \<in> set (x # xs) \<Longrightarrow> \<not> prio_before th y (prio_pick th x xs)"
proof (induction xs arbitrary: x y)
  case (Cons z zs)
  let ?f = "if prio_before th z x then z else x"
  have f: "\<not> prio_before th ?f (prio_pick th x (z # zs))"
    using Cons.IH [of ?f ?f] by simp
  have "\<not> prio_before th x ?f" "\<not> prio_before th z ?f"
    by (auto dest: prio_before_trans)
  with f have "\<not> prio_before th x (prio_pick th x (z # zs))" "\<not> prio_before th z (prio_pick th x (z # zs))"
    using not_prio_before_trans by blast+
  with Cons show ?case by auto
qed simp

lemma pick_Nil [simp]: "pick th p [] = None"
  by (simp add: pick_def)

lemma pick_eq_None [simp]: "pick th p q = None \<longleftrightarrow> q = []"
  by (simp add: pick_def split: list.splits)

lemma pick_mem: "pick th p q = Some t \<Longrightarrow> t \<in> set q"
  using prio_pick_mem by (auto simp: pick_def split: list.splits if_splits)

lemma schedule_Nil [simp]: "schedule th p [] = (None, [])"
  by (simp add: schedule_def)

lemma schedule_None: "fst (schedule th p q) = None \<longleftrightarrow> q = []"
  by (auto simp: schedule_def split: option.splits)

lemma schedule_cases:
  obtains "q = []" "schedule th p q = (None, [])"
  | t where "t \<in> set q" "pick th p q = Some t" "F_again \<in> state (th t)" "schedule th p q = (Some t, q)"
  | t where "t \<in> set q" "pick th p q = Some t" "F_again \<notin> state (th t)"
      "schedule th p q = (Some t, remove1 t q)"
proof (cases "pick th p q")
  case None
  then show ?thesis using that(1) by simp
next
  case (Some t)
  then show ?thesis using that(2,3) [of t] pick_mem [OF Some]
    by (cases "F_again \<in> state (th t)") (simp_all add: schedule_def)
qed

lemma distinct_schedule: "distinct q \<Longrightarrow> distinct (snd (schedule th p q))"
  by (rule schedule_cases [of q th p]) simp_all

lemma set_schedule: "set (snd (schedule th p q)) \<subseteq> set q"
  by (rule schedule_cases [of q th p]) (auto dest: subsetD [OF set_remove1_subset])

section \<open>Lemmas: linked lists implement the list queues\<close>

lemma lseg_upd_other: "x \<notin> set xs \<Longrightarrow> lseg (nx(x := v)) p xs = lseg nx p xs"
  by (induction xs arbitrary: p) auto

lemma lseg_tail: "lseg nx p (ys @ t # zs) \<Longrightarrow> lseg nx (nx t) zs"
  by (induction ys arbitrary: p) auto

lemma parent_of_Nil [simp]: "parent_of [] = None"
  by (simp add: parent_of_def)

lemma parent_of_snoc [simp]: "parent_of (ys @ [y]) = Some y"
  by (simp add: parent_of_def)

text \<open>Redirecting the link that leads to \<open>t\<close> cuts \<open>t\<close> out of the chain.\<close>

lemma lseg_write_link:
  assumes "lseg nx p (ys @ t # zs)" "distinct (ys @ t # zs)" "lseg nx v zs"
    and "write_link (parent_of ys) v (p, nx) = (p', nx')"
  shows "lseg nx' p' (ys @ zs) \<and> nx' t = nx t \<and> (\<forall>u. u \<notin> set ys \<longrightarrow> nx' u = nx u)"
  using assms
proof (induction ys arbitrary: p p' nx')
  case Nil
  then show ?case by (simp add: write_link_def)
next
  case (Cons y ys)
  show ?case
  proof (cases ys rule: rev_cases)
    case Nil
    with Cons.prems show ?thesis
      by (auto simp: write_link_def parent_of_def lseg_upd_other)
  next
    case (snoc us l)
    then have par: "parent_of ys = Some l" "parent_of (y # ys) = Some l"
      by (simp_all add: parent_of_def)
    then have w: "write_link (parent_of ys) v (nx y, nx) = (nx y, nx')" "p' = p" "nx' = nx(l := v)"
      using Cons.prems(4) by (auto simp: write_link_def)
    have "lseg nx' (nx y) (ys @ zs) \<and> nx' t = nx t \<and> (\<forall>u. u \<notin> set ys \<longrightarrow> nx' u = nx u)"
      using Cons.prems w(1) by (intro Cons.IH) auto
    moreover have "nx' y = nx y"
      using w(3) Cons.prems(2) snoc by auto
    ultimately show ?thesis using Cons.prems(1) w(2) by auto
  qed
qed

lemma lseg_cut:
  assumes "lseg nx p (ys @ t # zs)" "distinct (ys @ t # zs)"
    and "write_link (parent_of ys) (nx t) (p, nx) = (p', nx')"
  shows "lseg nx' p' (ys @ zs)" "lseg (nx'(t := None)) p' (ys @ zs)"
  using lseg_write_link [OF assms(1,2) lseg_tail [OF assms(1)] assms(3)] assms(2)
  by (auto simp: lseg_upd_other)

lemma unqueue_loop_absent:
  "lseg nx p xs \<Longrightarrow> obj \<notin> set xs \<Longrightarrow> unqueue_loop modify nx p obj = Some (None, nx)"
proof (induction xs arbitrary: p)
  case Nil
  then show ?case by (simp add: unqueue_loop.simps)
next
  case (Cons x xs)
  then have "nx x \<noteq> Some obj" by (cases xs) auto
  with Cons show ?case by (simp add: unqueue_loop.simps)
qed

lemma unqueue_loop_found:
  "lseg nx p (ys @ obj # zs) \<Longrightarrow> distinct (ys @ obj # zs) \<Longrightarrow> ys \<noteq> [] \<Longrightarrow>
   unqueue_loop modify nx p obj =
     Some (Some obj, let nx1 = nx(last ys := nx obj) in if modify then nx1(obj := None) else nx1)"
proof (induction ys arbitrary: p)
  case (Cons y ys)
  show ?case
  proof (cases ys)
    case Nil
    with Cons.prems show ?thesis by (simp add: unqueue_loop.simps Let_def fun_upd_def)
  next
    case (Cons z zs')
    with Cons.prems have "nx y \<noteq> Some obj" by auto
    with Cons Cons.IH [of "nx y"] Cons.prems show ?thesis by (simp add: unqueue_loop.simps)
  qed
qed simp

text \<open>\<^verbatim>\<open>unqueue\<close> on a well-formed chain ends, reports whether the thread was queued, and removes it.\<close>

lemma unqueue_ptr_refines:
  assumes l: "lseg nx first q" and d: "distinct q"
  obtains first' nx' where
    "unqueue_ptr modify nx first obj = Some (if obj \<in> set q then Some obj else None, first', nx')"
    "lseg nx' first' (snd (unqueue q obj))"
proof (cases "obj \<in> set q")
  case False
  then have "first \<noteq> Some obj" using l by (cases q) auto
  with False that [of first nx] l show ?thesis
    by (simp add: unqueue_ptr_def unqueue_def unqueue_loop_absent remove1_idem)
next
  case True
  then obtain ys zs where q: "q = ys @ obj # zs" by (auto simp: in_set_conv_decomp)
  then have rem: "remove1 obj q = ys @ zs" using d by (simp add: remove1_append)
  obtain p' nx' where w: "write_link (parent_of ys) (nx obj) (first, nx) = (p', nx')"
    by fastforce
  note cut = lseg_cut [OF l [unfolded q] d [unfolded q] w]
  show ?thesis
  proof (cases "ys = []")
    case True
    with q l w have "first = Some obj" "p' = nx obj" "nx' = nx" by (auto simp: write_link_def)
    with True cut that [of "nx obj" "if modify then nx(obj := None) else nx"] rem q show ?thesis
      by (simp add: unqueue_ptr_def unqueue_def)
  next
    case False
    with q l d have "first \<noteq> Some obj" by (cases ys) auto
    moreover have "p' = first" "nx' = nx(last ys := nx obj)"
      using w False by (auto simp: write_link_def parent_of_def)
    ultimately have "unqueue_ptr modify nx first obj =
        Some (Some obj, first, if modify then nx'(obj := None) else nx')" "p' = first"
      using unqueue_loop_found [OF l [unfolded q] d [unfolded q] False]
      by (simp_all add: unqueue_ptr_def Let_def)
    moreover have "lseg (if modify then nx'(obj := None) else nx') p' (ys @ zs)"
      using cut by simp
    ultimately show ?thesis
      using that \<open>obj \<in> set q\<close> rem by (simp add: unqueue_def)
  qed
qed

lemma fifo_loop_lseg:
  "lseg nx (nx it) xs \<Longrightarrow>
   fifo_loop nx par it = Some (if xs = [] then par else Some (last (butlast (it # xs))), last (it # xs))"
proof (induction xs arbitrary: it par)
  case Nil
  then show ?case by (simp add: fifo_loop.simps)
next
  case (Cons x xs)
  then have "nx it = Some x" "lseg nx (nx x) xs" by auto
  with Cons.IH [of x "Some it"] show ?case by (simp add: fifo_loop.simps [of nx par it])
qed

lemma prio_loop_lseg:
  assumes "lseg nx (nx it) post" "pre @ [it] = ys @ found # zs"
  shows "\<exists>ys' zs'. prio_loop th nx (parent_of ys) found it = Some (parent_of ys', prio_pick th found post)
     \<and> pre @ it # post = ys' @ prio_pick th found post # zs'"
  using assms
proof (induction post arbitrary: pre it ys found zs)
  case Nil
  then show ?case by (intro exI [of _ ys] exI [of _ zs]) (simp add: prio_loop.simps)
next
  case (Cons x post)
  then have nx: "nx it = Some x" "lseg nx (nx x) post" by auto
  show ?case
  proof (cases "prio_before th x found")
    case True
    have "parent_of (pre @ [it]) = Some it" by simp
    with Cons.IH [OF nx(2), of "pre @ [it]" "pre @ [it]" x "[]"] True nx(1) show ?thesis
      by (simp add: prio_loop.simps [of th nx "parent_of ys" found it])
  next
    case False
    have "(pre @ [it]) @ [x] = ys @ found # (zs @ [x])" using Cons.prems(2) by simp
    from Cons.IH [OF nx(2) this] obtain ys' zs' where
      "prio_loop th nx (parent_of ys) found x = Some (parent_of ys', prio_pick th found post)"
      "(pre @ [it]) @ x # post = ys' @ prio_pick th found post # zs'" by blast
    with False nx(1) show ?thesis
      by (intro exI [of _ ys'] exI [of _ zs'])
         (simp add: prio_loop.simps [of th nx "parent_of ys" found it])
  qed
qed

text \<open>
  \<^verbatim>\<open>schedule\<close> on a well-formed chain ends, returns the thread that the list version picks, and
  leaves a chain for the remaining queue, whatever the protocol and the \<^verbatim>\<open>modify_node\<close> argument.
\<close>

lemma schedule_ptr_refines:
  assumes l: "lseg nx first q" and d: "distinct q"
  obtains first' nx' where
    "schedule_ptr th protocol modify nx first = Some (fst (schedule th protocol q), first', nx')"
    "lseg nx' first' (snd (schedule th protocol q))"
proof (cases q)
  case Nil
  with l that [of first nx] show ?thesis by (simp add: schedule_ptr_def)
next
  case (Cons it xs)
  with l have f: "first = Some it" and lx: "lseg nx (nx it) xs" by auto
  define found where "found = (if protocol = SYS_SYNC_FIFO then last q else prio_pick th it xs)"
  have pk: "pick th protocol q = Some found" by (simp add: pick_def Cons found_def)
  obtain ys zs where loop:
    "(if protocol = SYS_SYNC_FIFO then fifo_loop nx None it else prio_loop th nx None it it)
       = Some (parent_of ys, found)" and q: "q = ys @ found # zs"
    and z: "protocol = SYS_SYNC_FIFO \<longrightarrow> zs = []"
  proof (cases "protocol = SYS_SYNC_FIFO")
    case True
    have "fifo_loop nx None it = Some (parent_of (butlast q), found)"
      using fifo_loop_lseg [OF lx, of None] Cons True by (simp add: parent_of_def found_def)
    moreover have "q = butlast q @ found # []"
      using append_butlast_last_id [of q] Cons True by (simp add: found_def)
    ultimately show ?thesis using that [of "butlast q" "[]"] True by metis
  next
    case False
    from prio_loop_lseg [OF lx, of "[]" "[]" it "[]" th] obtain ys' zs' where
      "prio_loop th nx None it it = Some (parent_of ys', prio_pick th it xs)"
      "q = ys' @ prio_pick th it xs # zs'" using Cons by auto
    with that [of ys' zs'] False show ?thesis by (simp add: found_def)
  qed
  have rem: "remove1 found q = ys @ zs" using q d by (simp add: remove1_append)
  obtain p' nx' where w: "write_link (parent_of ys) (nx found) (first, nx) = (p', nx')" by fastforce
  note cut = lseg_cut [OF l [unfolded q] d [unfolded q] w]
  have tail: "protocol = SYS_SYNC_FIFO \<Longrightarrow> nx found = None"
    using lseg_tail [OF l [unfolded q]] z by simp
  show ?thesis
  proof (cases "F_again \<in> state (th found)")
    case True
    then have "schedule_ptr th protocol modify nx first = Some (Some found, first, nx)"
      using loop by (simp add: schedule_ptr_def f split: if_splits)
    with that True l pk show ?thesis by (simp add: schedule_def)
  next
    case False
    let ?nx = "if modify \<and> protocol \<noteq> SYS_SYNC_FIFO then nx'(found := None) else nx'"
    have "schedule_ptr th protocol modify nx first = Some (Some found, p', ?nx)"
    proof (cases "protocol = SYS_SYNC_FIFO")
      case True
      with loop w tail False show ?thesis by (simp add: schedule_ptr_def f)
    next
      case neq: False
      with loop w False show ?thesis by (simp add: schedule_ptr_def f)
    qed
    moreover have "lseg ?nx p' (remove1 found q)"
      using cut rem by simp
    ultimately show ?thesis using that False pk by (simp add: schedule_def)
  qed
qed

section \<open>Properties of the wait queues\<close>

text \<open>
  Claim C11. The linked-list code of \<^verbatim>\<open>lv2_obj::unqueue\<close> and \<^verbatim>\<open>lv2_obj::schedule\<close> implements the list
  operations: on an acyclic chain of distinct threads both loops end; \<^verbatim>\<open>unqueue\<close> returns the thread
  exactly when it was queued, \<^verbatim>\<open>schedule\<close> returns the thread that the list version picks, and in each
  case the remaining chain is the remaining list, for every protocol and either value of
  \<^verbatim>\<open>modify_node\<close>.
\<close>

theorem queue_pointers_refine_lists:
  assumes "lseg nx first q" "distinct q"
  shows "(\<exists>first' nx'. unqueue_ptr modify nx first obj =
            Some (if fst (unqueue q obj) then Some obj else None, first', nx') \<and>
          lseg nx' first' (snd (unqueue q obj))) \<and>
    (\<exists>first' nx'. schedule_ptr th protocol modify nx first =
            Some (fst (schedule th protocol q), first', nx') \<and>
          lseg nx' first' (snd (schedule th protocol q)))"
proof
  show "\<exists>first' nx'. unqueue_ptr modify nx first obj =
            Some (if fst (unqueue q obj) then Some obj else None, first', nx') \<and>
          lseg nx' first' (snd (unqueue q obj))"
    by (rule unqueue_ptr_refines [OF assms, of modify obj]) (auto simp: unqueue_def)
  show "\<exists>first' nx'. schedule_ptr th protocol modify nx first =
            Some (fst (schedule th protocol q), first', nx') \<and>
          lseg nx' first' (snd (schedule th protocol q))"
    by (rule schedule_ptr_refines [OF assms, of th protocol modify]) auto
qed

theorem queue_pointers_refine_lists_witness:
  "\<exists>first' nx'. unqueue_ptr True [7 \<mapsto> 8, 8 \<mapsto> 9] (Some 7) 8 = Some (Some 8, first', nx')
     \<and> lseg nx' first' [7, 9]"
proof -
  have "lseg [7 \<mapsto> 8, 8 \<mapsto> 9] (Some 7) [7, 8, 9]" "distinct [7, 8, 9 :: tid]" by simp_all
  from queue_pointers_refine_lists [OF this, of True 8] show ?thesis by (auto simp: unqueue_def)
qed

text \<open>
  The queues that \<^verbatim>\<open>emplace\<close> builds: every thread was stamped later than the ones behind it, with a
  tag the counter has already passed (and the counter is still inside the positive half of the
  50 bit order field).
\<close>

definition stamped :: "lv2 \<Rightarrow> tid list \<Rightarrow> bool" where
  "stamped e q \<longleftrightarrow> uint (g_priority_order_tag e) < 2 ^ 49 \<and>
     sorted_wrt (\<lambda>a b. sint (order (thr e b)) < sint (order (thr e a))) q \<and>
     (\<forall>x \<in> set q. sint (order (thr e x)) \<le> uint (g_priority_order_tag e))"

lemma sint_ucast_tag:
  assumes "uint (tag :: u64) < 2 ^ 49"
  shows "sint (ucast tag :: 50 word) = uint tag"
proof -
  have "uint (ucast tag :: 50 word) = uint tag"
    using assms by (simp add: unsigned_ucast_eq take_bit_int_eq_self)
  moreover have "- (2 ^ 49) \<le> uint tag"
    by (rule order.trans [of _ 0]) simp_all
  ultimately show ?thesis
    using assms by (simp add: sint_uint signed_take_bit_int_eq_self)
qed

lemma stamped_pick_priority:
  assumes s: "stamped e q" and p: "pick (thr e) protocol q = Some t" and n: "protocol \<noteq> SYS_SYNC_FIFO"
  shows "\<exists>us vs. q = us @ t # vs \<and> (\<forall>u \<in> set us. sint (prio (thr e t)) \<le> sint (prio (thr e u))) \<and>
    (\<forall>v \<in> set vs. sint (prio (thr e t)) < sint (prio (thr e v)))"
proof -
  from p obtain x xs where q: "q = x # xs" by (cases q) auto
  with p n have t: "t = prio_pick (thr e) x xs" by (simp add: pick_def)
  have least: "\<not> prio_before (thr e) y t" if "y \<in> set q" for y
    using prio_pick_least [of y x xs "thr e"] that by (simp add: q t)
  obtain us vs where uv: "q = us @ t # vs" using pick_mem [OF p] by (auto simp: in_set_conv_decomp)
  have "sint (prio (thr e t)) \<le> sint (prio (thr e u))" if "u \<in> set us" for u
    using least [of u] that uv by (auto simp: prio_before_def)
  moreover have "sint (prio (thr e t)) < sint (prio (thr e v))" if "v \<in> set vs" for v
  proof -
    have "sint (order (thr e v)) < sint (order (thr e t))"
      using s that uv by (auto simp: stamped_def sorted_wrt_append)
    then show ?thesis using least [of v] that uv
      by (auto simp: prio_before_def) (metis linorder_neqE_linordered_idom signed_word_eqI)
  qed
  ultimately show ?thesis using uv by blast
qed

text \<open>
  Claim C27. Waking is fair. A queue built by \<^verbatim>\<open>emplace\<close> stays in stamp order; \<^verbatim>\<open>schedule\<close> takes the
  thread that has waited longest under \<^verbatim>\<open>SYS_SYNC_FIFO\<close>, and under the priority protocols a thread
  of the best priority in the queue, the longest waiting one among equals (every thread behind it in
  the list, which waited longer, has a strictly worse priority).
\<close>

theorem schedule_fairness:
  assumes "stamped e q" "t \<notin> set q" "\<not> preserve_bit (thr e t)"
    and "uint (g_priority_order_tag e) + 1 < 2 ^ 49"
  shows "stamped (snd (emplace t q e)) (fst (emplace t q e)) \<and>
    pick (thr e) SYS_SYNC_FIFO (fst (emplace t q e)) = Some (last (t # q)) \<and>
    (\<forall>protocol w. protocol \<noteq> SYS_SYNC_FIFO \<and> pick (thr e) protocol q = Some w \<longrightarrow>
      (\<exists>us vs. q = us @ w # vs \<and> (\<forall>u \<in> set us. sint (prio (thr e w)) \<le> sint (prio (thr e u))) \<and>
        (\<forall>v \<in> set vs. sint (prio (thr e w)) < sint (prio (thr e v)))))"
proof -
  let ?tag = "g_priority_order_tag e"
  have tag: "uint (?tag + 1) = uint ?tag + 1"
    using assms(4) by (simp add: uint_word_ariths)
  then have "sint (ucast (?tag + 1) :: 50 word) = uint ?tag + 1"
    using assms(4) by (simp add: sint_ucast_tag)
  moreover have "x \<noteq> t" if "x \<in> set q" for x using assms(2) that by auto
  ultimately have "stamped (snd (emplace t q e)) (fst (emplace t q e))"
    using assms tag by (fastforce simp: emplace_def stamped_def Let_def intro: sorted_wrt_mono_rel [rotated])
  moreover have "pick (thr e) SYS_SYNC_FIFO (fst (emplace t q e)) = Some (last (t # q))"
    by (simp add: emplace_def pick_def Let_def)
  ultimately show ?thesis using stamped_pick_priority [OF assms(1)] by blast
qed

definition demo_thread :: "13 word \<Rightarrow> ppu_thread" where
  "demo_thread p = \<lparr>prio = p, order = 0, preserve_bit = False, state = {}, gpr = (\<lambda>_. 0),
     start_time = 0, end_time = 0, cancel_sleep = 0, ack_suspend = False, hw_sleep_time = 0,
     loaded_from_savestate = False, sstate = 0, raddr = 0\<rparr>"

definition demo_lv2 :: "tid list \<Rightarrow> lv2" where
  "demo_lv2 q = \<lparr>thr = (\<lambda>t. demo_thread (ucast t)), g_priority_order_tag = 0, g_ppu = q, g_pending = 0,
     g_waiting = [], g_to_sleep = [], g_to_awake = [], g_scheduler_ready = True, ppu_threads = 2,
     all_timers = False, cur = None, guest_time = 100, tsc = 0, s_yield_frequency = 0,
     s_max_allowed_yield_tsc = 0, s_last_yield_tsc = 0, g_lv2_preempts_taken = 0, fatal = False\<rparr>"

lemmas demo_defs = demo_thread_def demo_lv2_def

theorem schedule_fairness_witness:
  "stamped (snd (emplace 7 [] (demo_lv2 []))) [7] \<and> pick (thr (demo_lv2 [])) SYS_SYNC_FIFO [7] = Some 7"
proof -
  have "stamped (demo_lv2 []) []" "7 \<notin> set ([] :: tid list)" "\<not> preserve_bit (thr (demo_lv2 []) 7)"
    "uint (g_priority_order_tag (demo_lv2 [])) + 1 < 2 ^ 49"
    by (simp_all add: stamped_def demo_defs)
  from schedule_fairness [OF this] show ?thesis by (simp add: emplace_def Let_def)
qed

end
