(* ===== verification/Lv2_Scheduler.thy ===== *)
theory Lv2_Scheduler
  imports Lv2_Thread
begin

text \<open>
  The PPU scheduler of \<^verbatim>\<open>kernel/cellos/src/lv2.cpp\<close>: \<^verbatim>\<open>sleep\<close>, \<^verbatim>\<open>awake\<close>, \<^verbatim>\<open>yield\<close> and the functions
  under them. \<open>g_ppu\<close> is the queue of threads that may run, ordered by priority; the first
  \<open>ppu_threads\<close> of it hold a hardware thread. \<open>g_waiting\<close> lists the registered timeouts in order of
  expiry. Not modelled: the notification slots \<^verbatim>\<open>g_to_notify\<close> and the reservation notifications
  (both only wake host threads, which then look at their state again), logging, and the SPU branch
  of \<^verbatim>\<open>sleep_unlocked\<close>. The invariant \<open>sched_inv\<close> says that the run queue is sorted and free of
  duplicates and that no queued thread has a pending timeout; every operation keeps it.
\<close>

section \<open>Model\<close>

definition deadline :: "u64 \<Rightarrow> u64 \<Rightarrow> u64" where
  "deadline start timeout = start + min timeout (NOT start)"

fun insert_waiting :: "u64 \<Rightarrow> tid \<Rightarrow> (u64 \<times> tid) list \<Rightarrow> (u64 \<times> tid) list" where
  "insert_waiting w t [] = [(w, t)]"
| "insert_waiting w t ((w', t') # xs) =
     (if w' > w then (w, t) # (w', t') # xs else (w', t') # insert_waiting w t xs)"

definition sleep_unlocked :: "tid \<Rightarrow> u64 \<Rightarrow> u64 \<Rightarrow> lv2 \<Rightarrow> bool \<times> lv2" where
  "sleep_unlocked t timeout current_time e0 =
     (let e1 = (if ack_suspend (thr e0 t)
                then upd_thr t (\<lambda>p. p\<lparr>ack_suspend := False\<rparr>) (e0\<lparr>g_pending := g_pending e0 - 1\<rparr>)
                else e0);
          return_val = (cancel_sleep (thr e1 t) \<noteq> 2);
          e2 = upd_thr t (\<lambda>p. p\<lparr>cancel_sleep := 0\<rparr>) e1
      in if F_signal \<in> state (thr e2 t) then (False, e2)
         else
           (let e3 = (add_flag t F_suspend e2)
                      \<lparr>fatal := fatal e2 \<or> timeout \<noteq> 0 \<and> F_notify \<in> state (thr e2 t)\<rparr>
            in if t \<notin> set (g_ppu e3)
               then if t \<in> set (g_to_sleep e3)
                    then (True, upd_thr t (\<lambda>p. p\<lparr>start_time := current_time\<rparr>)
                                  (e3\<lparr>g_to_sleep := remove1 t (g_to_sleep e3)\<rparr>))
                    else (False, e3)
               else
                 (let e4 = upd_thr t (\<lambda>p. p\<lparr>raddr := 0, start_time := current_time,
                              end_time := (if timeout \<noteq> 0 then deadline current_time timeout else - 1)\<rparr>)
                            (e3\<lparr>g_ppu := remove1 t (g_ppu e3)\<rparr>)
                  in (return_val,
                      if timeout \<noteq> 0
                      then e4\<lparr>g_waiting := insert_waiting (deadline current_time timeout) t (g_waiting e4)\<rparr>
                      else e4))))"

text \<open>
  \<open>emplace_walk\<close> is the search of \<^verbatim>\<open>emplace_thread\<close> (always called with \<^verbatim>\<open>push_first = false\<close>):
  \<^const>\<open>None\<close> when the thread is met before its place.
\<close>

fun emplace_walk :: "(tid \<Rightarrow> ppu_thread) \<Rightarrow> tid \<Rightarrow> tid list \<Rightarrow> tid list option" where
  "emplace_walk th t [] = Some [t]"
| "emplace_walk th t (x # xs) =
     (if x = t then None
      else if sint (prio (th x)) > sint (prio (th t)) then Some (t # x # xs)
      else map_option (Cons x) (emplace_walk th t xs))"

fun drop_waiting :: "tid \<Rightarrow> (u64 \<times> tid) list \<Rightarrow> (u64 \<times> tid) list" where
  "drop_waiting t [] = []"
| "drop_waiting t ((w, u) # xs) = (if u = t then xs else (w, u) # drop_waiting t xs)"

definition emplace_thread :: "tid \<Rightarrow> lv2 \<Rightarrow> bool \<times> lv2" where
  "emplace_thread t e =
     (case emplace_walk (thr e) t (g_ppu e) of
        None \<Rightarrow>
          (False, if cancel_sleep (thr e t) = 1 then upd_thr t (\<lambda>p. p\<lparr>cancel_sleep := 2\<rparr>) e else e)
      | Some q \<Rightarrow> (True, e\<lparr>g_ppu := q, g_waiting := drop_waiting t (g_waiting e)\<rparr>))"

datatype awake_cmd = Enqueue_cmd | Yield_cmd | Set_prio "13 word"

definition set_prio :: "tid \<Rightarrow> 13 word \<Rightarrow> bool \<Rightarrow> bool \<Rightarrow> lv2 \<Rightarrow> lv2" where
  "set_prio t v order_last order_first e =
     (let tag = g_priority_order_tag e + 1;
          e1 = (if order_first \<or> order_last then e\<lparr>g_priority_order_tag := tag\<rparr> else e)
      in upd_thr t (\<lambda>p. (if order_first then p\<lparr>prio := v, order := ucast (NOT tag)\<rparr>
                         else if order_last then p\<lparr>prio := v, order := ucast tag\<rparr>
                         else p\<lparr>prio := v\<rparr>)) e1)"

text \<open>
  The yield command rotates the thread behind the run of threads of equal priority that follow it.
  The result is \<^const>\<open>None\<close> where the code returns early without touching the queue, otherwise the
  new queue and the index \<^verbatim>\<open>i\<close> at which the loop stopped.
\<close>

definition yield_rotate :: "(tid \<Rightarrow> ppu_thread) \<Rightarrow> tid \<Rightarrow> tid list \<Rightarrow> (tid list \<times> nat) option" where
  "yield_rotate th t q =
     (if t \<notin> set q then None
      else let pre = takeWhile (\<lambda>x. x \<noteq> t) q;
               rest = tl (dropWhile (\<lambda>x. x \<noteq> t) q);
               same = takeWhile (\<lambda>x. prio (th x) = prio (th t)) rest;
               more = dropWhile (\<lambda>x. prio (th x) = prio (th t)) rest
           in if same = [] then None else Some (pre @ same @ t # more, length pre + length same))"

fun awake_list :: "tid list \<Rightarrow> bool \<Rightarrow> int \<Rightarrow> lv2 \<Rightarrow> bool \<times> int \<times> lv2" where
  "awake_list [] changed lowest e = (changed, lowest, e)"
| "awake_list (t # ts) changed lowest e =
     (case emplace_thread t e of
        (ok, e') \<Rightarrow> if ok then awake_list ts True (min (sint (prio (thr e' t))) lowest) e'
                    else awake_list ts changed lowest e')"

fun suspend_rest :: "tid list \<Rightarrow> lv2 \<Rightarrow> lv2" where
  "suspend_rest [] e = e"
| "suspend_rest (t # ts) e =
     suspend_rest ts
       (if F_suspend \<notin> state (thr e t)
        then upd_thr t (\<lambda>p. p\<lparr>ack_suspend := True, state := insert F_suspend (state p)\<rparr>)
               (e\<lparr>g_pending := g_pending e + 1\<rparr>)
        else e)"

definition onproc_count :: "lv2 \<Rightarrow> nat" where
  "onproc_count e = min (length (g_ppu e)) (ppu_threads e)"

definition has_running :: "lv2 \<Rightarrow> bool" where
  "has_running e \<longleftrightarrow> length (g_ppu e) > ppu_threads e"

definition ack_current :: "lv2 \<Rightarrow> lv2" where
  "ack_current e =
     (case cur e of
        None \<Rightarrow> e
      | Some c \<Rightarrow>
          if ack_suspend (thr e c)
          then upd_thr c (\<lambda>p. p\<lparr>ack_suspend := False\<rparr>)
                 (e\<lparr>fatal := fatal e \<or> g_pending e = 0, g_pending := g_pending e - 1\<rparr>)
          else e)"

definition hw_delay :: "bool \<Rightarrow> bool \<Rightarrow> int \<Rightarrow> lv2 \<Rightarrow> lv2" where
  "hw_delay changed has_free lowest e =
     (case cur e of
        None \<Rightarrow> e
      | Some c \<Rightarrow>
          if changed \<and> has_free \<and> sint (prio (thr e c)) > lowest
             \<and> (gpr (thr e c) 11 = 0x35 \<or> all_timers e)
          then upd_thr c (\<lambda>p. p\<lparr>state := insert F_yield (state p),
                 hw_sleep_time := (if F_yield \<notin> state p \<or> hw_sleep_time p \<noteq> 0
                   then hw_sleep_time p + (if gpr p 11 = 0x35 then 51 else 35) else 30000)\<rparr>) e
          else e)"

definition awake_tail :: "tid option \<Rightarrow> bool \<Rightarrow> lv2 \<Rightarrow> bool \<times> lv2" where
  "awake_tail cpu is_yield e =
     (let has_free = onproc_count e < ppu_threads e;
          todo = (case cpu of Some t \<Rightarrow> if is_yield then g_to_awake e else [t] | None \<Rightarrow> g_to_awake e)
      in case awake_list todo is_yield (2 ^ 31 - 1) e of
           (changed, lowest, e1) \<Rightarrow>
             (changed, hw_delay changed has_free lowest
                (ack_current (suspend_rest (drop (ppu_threads e1) (g_ppu e1)) e1))))"

definition awake_unlocked :: "tid option \<Rightarrow> awake_cmd \<Rightarrow> lv2 \<Rightarrow> bool \<times> lv2" where
  "awake_unlocked cpu cmd e =
     (case (cmd, cpu) of
        (Set_prio v, Some t) \<Rightarrow>
          (let old = prio (thr e t)
           in if old = v \<and> cur e = Some t then (True, set_prio t v False False e)
              else if t \<notin> set (g_ppu e)
                   then (True, set_prio t v (sint old > sint v) (sint old < sint v) e)
              else awake_tail cpu False
                     (set_prio t v False False (e\<lparr>g_ppu := remove1 t (g_ppu e)\<rparr>)))
      | (Yield_cmd, Some t) \<Rightarrow>
          (case yield_rotate (thr e) t (g_ppu e) of
             None \<Rightarrow> (False, e)
           | Some (q, i) \<Rightarrow>
               if i < ppu_threads e then (False, e\<lparr>g_ppu := q\<rparr>)
               else awake_tail cpu True
                      (upd_thr t (\<lambda>p. p\<lparr>start_time := guest_time e\<rparr>) (e\<lparr>g_ppu := q\<rparr>)))
      | _ \<Rightarrow> awake_tail cpu False e)"

section \<open>Model: waking the selected threads\<close>

definition wake_thread :: "ppu_thread \<Rightarrow> ppu_thread" where
  "wake_thread p =
     (if F_suspend \<in> state p
      then p\<lparr>state := insert F_signal (state p)
                 - (if start_time p = 0 then {F_suspend} else {F_suspend, F_yield, F_preempt}),
             start_time := 0\<rparr>
      else p)"

fun wake_top :: "tid list \<Rightarrow> lv2 \<Rightarrow> lv2" where
  "wake_top [] e = e"
| "wake_top (t # ts) e = wake_top ts (upd_thr t wake_thread e)"

fun fire_timeouts :: "u64 \<Rightarrow> (u64 \<times> tid) list \<Rightarrow> lv2 \<Rightarrow> lv2" where
  "fire_timeouts now [] e = e\<lparr>g_waiting := []\<rparr>"
| "fire_timeouts now ((w, t) # xs) e =
     (if w \<le> now
      then fire_timeouts now xs
             (if cur e = Some t then e
              else (add_flag t F_notify e)\<lparr>fatal := fatal e \<or> F_notify \<in> state (thr e t)\<rparr>)
      else e\<lparr>g_waiting := (w, t) # xs\<rparr>)"

definition preempt_target :: "lv2 \<Rightarrow> tid option" where
  "preempt_target e =
     (case find (\<lambda>t. F_preempt \<notin> state (thr e t) \<and> F_wait \<notin> state (thr e t))
             (take (ppu_threads e) (g_ppu e)) of
        Some t \<Rightarrow> Some t
      | None \<Rightarrow>
          if g_ppu e \<noteq> [] \<and> F_preempt \<notin> state (thr e (hd (g_ppu e))) then Some (hd (g_ppu e))
          else (case cur e of
                  Some c \<Rightarrow> if F_suspend \<notin> state (thr e c) then Some c else None
                | None \<Rightarrow> None))"

definition preempt_step :: "lv2 \<Rightarrow> lv2" where
  "preempt_step e =
     (if s_yield_frequency e \<noteq> 0 \<and> tsc e \<ge> s_last_yield_tsc e \<and> tsc e \<le> s_max_allowed_yield_tsc e
         \<and> tsc e - s_last_yield_tsc e \<ge> s_yield_frequency e
      then (case preempt_target e of
              None \<Rightarrow> e
            | Some t \<Rightarrow>
                if F_preempt \<in> state (thr e t) then e
                else (add_flag t F_preempt e)\<lparr>s_last_yield_tsc := tsc e,
                        g_lv2_preempts_taken := g_lv2_preempts_taken e + 1\<rparr>)
      else e)"

definition schedule_all :: "lv2 \<Rightarrow> lv2" where
  "schedule_all e =
     (let e1 = (if g_pending e = 0 \<and> g_scheduler_ready e
                then wake_top (take (ppu_threads e) (g_ppu e)) e else e)
      in preempt_step (fire_timeouts (guest_time e1) (g_waiting e1) e1))"

section \<open>Model: the public operations\<close>

definition sleep :: "tid \<Rightarrow> u64 \<Rightarrow> lv2 \<Rightarrow> bool \<times> lv2" where
  "sleep t timeout e =
     (case sleep_unlocked t timeout (guest_time e) e of
        (r, e1) \<Rightarrow>
          (let e2 = (if g_to_awake e1 \<noteq> [] then snd (awake_unlocked None Enqueue_cmd e1) else e1)
           in (r, (schedule_all e2)\<lparr>g_to_awake := []\<rparr>)))"

definition awake :: "tid option \<Rightarrow> awake_cmd \<Rightarrow> lv2 \<Rightarrow> bool \<times> lv2" where
  "awake cpu cmd e = (case awake_unlocked cpu cmd e of (r, e1) \<Rightarrow> (r, schedule_all e1))"

definition awake1 :: "tid \<Rightarrow> lv2 \<Rightarrow> lv2" where
  "awake1 t e = snd (awake (Some t) Enqueue_cmd e)"

definition append_awake :: "tid \<Rightarrow> lv2 \<Rightarrow> lv2" where
  "append_awake t e = e\<lparr>g_to_awake := g_to_awake e @ [t]\<rparr>"

definition awake_all :: "lv2 \<Rightarrow> lv2" where
  "awake_all e = (snd (awake None Enqueue_cmd e))\<lparr>g_to_awake := []\<rparr>"

definition yield_thread :: "tid \<Rightarrow> lv2 \<Rightarrow> bool \<times> lv2" where
  "yield_thread t e =
     (let e1 = upd_thr t (\<lambda>p. p\<lparr>raddr := 0\<rparr>) e
      in if t \<notin> set (g_ppu e1) \<or> last (g_ppu e1) = t then (False, e1)
         else awake (Some t) Yield_cmd e1)"

definition set_priority :: "tid \<Rightarrow> int \<Rightarrow> lv2 \<Rightarrow> lv2" where
  "set_priority t v e =
     (if wrap_u32 (v + 512) < 3712 then snd (awake (Some t) (Set_prio (word_of_int v)) e)
      else e\<lparr>fatal := True\<rparr>)"

definition make_scheduler_ready :: "lv2 \<Rightarrow> lv2" where
  "make_scheduler_ready e = awake_all (e\<lparr>g_scheduler_ready := True\<rparr>)"

definition set_future_sleep :: "tid \<Rightarrow> lv2 \<Rightarrow> lv2" where
  "set_future_sleep t e = e\<lparr>g_to_sleep := g_to_sleep e @ [t]\<rparr>"

definition cleanup :: "lv2 \<Rightarrow> lv2" where
  "cleanup e = e\<lparr>g_ppu := [], g_scheduler_ready := False, g_to_sleep := [], g_waiting := [],
                 g_pending := 0, s_yield_frequency := 0\<rparr>"

section \<open>What the scheduler leaves alone\<close>

text \<open>
  The part of a thread that the synchronisation objects own: registers, priority, enqueue order, the
  flags that stop it, and its save-state data. No scheduler operation except \<^verbatim>\<open>set_priority\<close> touches
  it, which is all that the object theories need to know about the scheduler.
\<close>

definition regs where
  "regs p = (gpr p, prio p, order p, preserve_bit p, F_again \<in> state p, is_stopped (state p),
     loaded_from_savestate p, sstate p)"

definition thr_frame :: "lv2 \<Rightarrow> lv2 \<Rightarrow> bool" where
  "thr_frame e e' \<longleftrightarrow> g_priority_order_tag e' = g_priority_order_tag e \<and>
     (\<forall>u. regs (thr e' u) = regs (thr e u))"

lemma thr_frame_refl [lv2_frame]: "thr_frame e e"
  by (simp add: thr_frame_def)

lemma thr_frame_trans: "thr_frame a b \<Longrightarrow> thr_frame b c \<Longrightarrow> thr_frame a c"
  by (simp add: thr_frame_def)

lemma thr_frame_upd: "thr_frame e e' \<Longrightarrow> (\<And>p. regs (f p) = regs p) \<Longrightarrow> thr_frame e (upd_thr t f e')"
  by (simp add: thr_frame_def)

lemma thr_frame_sel [simp]:
  "thr_frame e (e'\<lparr>g_ppu := a\<rparr>) = thr_frame e e'" "thr_frame e (e'\<lparr>g_pending := b\<rparr>) = thr_frame e e'"
  "thr_frame e (e'\<lparr>g_waiting := c\<rparr>) = thr_frame e e'" "thr_frame e (e'\<lparr>g_to_sleep := d\<rparr>) = thr_frame e e'"
  "thr_frame e (e'\<lparr>g_to_awake := f\<rparr>) = thr_frame e e'" "thr_frame e (e'\<lparr>fatal := g\<rparr>) = thr_frame e e'"
  "thr_frame e (e'\<lparr>s_last_yield_tsc := h\<rparr>) = thr_frame e e'"
  "thr_frame e (e'\<lparr>g_lv2_preempts_taken := i\<rparr>) = thr_frame e e'"
  by (simp_all add: thr_frame_def)

lemma regs_simps [simp]:
  "regs (p\<lparr>ack_suspend := a\<rparr>) = regs p" "regs (p\<lparr>cancel_sleep := b\<rparr>) = regs p"
  "regs (p\<lparr>start_time := c\<rparr>) = regs p" "regs (p\<lparr>end_time := d\<rparr>) = regs p"
  "regs (p\<lparr>hw_sleep_time := f\<rparr>) = regs p" "regs (p\<lparr>raddr := g\<rparr>) = regs p" "regs (wake_thread p) = regs p"
  by (auto simp: regs_def wake_thread_def is_stopped_def)

lemma regs_insert [simp]:
  "fl \<notin> {F_again, F_stop, F_exit} \<Longrightarrow> regs (p\<lparr>state := insert fl (state p)\<rparr>) = regs p"
  by (auto simp: regs_def is_stopped_def)

lemma thr_frame_add_flag:
  "thr_frame e e' \<Longrightarrow> fl \<notin> {F_again, F_stop, F_exit} \<Longrightarrow> thr_frame e (add_flag t fl e')"
  unfolding add_flag_def by (rule thr_frame_upd) simp_all

lemmas thr_frame_intros = thr_frame_refl thr_frame_upd thr_frame_add_flag

lemma thr_frame_sleep_unlocked: "thr_frame e (snd (sleep_unlocked t timeout now e))"
  by (auto simp: sleep_unlocked_def Let_def intro!: thr_frame_intros)

lemma thr_frame_emplace_thread: "thr_frame e (snd (emplace_thread t e))"
  by (auto simp: emplace_thread_def intro!: thr_frame_intros split: option.splits)

lemma thr_frame_awake_list: "thr_frame e (snd (snd (awake_list ts c l e)))"
proof (induction ts c l e rule: awake_list.induct)
  case (2 t ts c l e)
  then show ?case
    using thr_frame_emplace_thread [of e t] by (auto split: prod.splits intro: thr_frame_trans)
qed (simp add: thr_frame_refl)

lemma thr_frame_suspend_rest: "thr_frame e (suspend_rest ts e)"
proof (induction ts arbitrary: e)
  case (Cons t ts)
  let ?f = "\<lambda>p. p\<lparr>ack_suspend := True, state := insert F_suspend (state p)\<rparr>"
  have "regs (?f p) = regs p" for p
    by (simp add: regs_def is_stopped_def)
  then have "thr_frame e (upd_thr t ?f (e\<lparr>g_pending := g_pending e + 1\<rparr>))"
    by (intro thr_frame_upd) (simp_all add: thr_frame_refl)
  then show ?case using Cons.IH by (auto intro: thr_frame_trans)
qed (simp add: thr_frame_refl)

lemma thr_frame_ack_current: "thr_frame e (ack_current e)"
  by (auto simp: ack_current_def intro!: thr_frame_intros split: option.splits)

lemma thr_frame_hw_delay: "thr_frame e (hw_delay c h l e)"
  by (auto simp: hw_delay_def regs_def is_stopped_def intro!: thr_frame_intros split: option.splits)

lemma thr_frame_awake_tail: "thr_frame e (snd (awake_tail cpu y e))"
proof -
  define todo where
    "todo = (case cpu of Some t \<Rightarrow> if y then g_to_awake e else [t] | None \<Rightarrow> g_to_awake e)"
  obtain c l e1 where a: "awake_list todo y (2 ^ 31 - 1) e = (c, l, e1)"
    using prod_cases3 by blast
  have "thr_frame e e1"
    using thr_frame_awake_list [of e todo y "2 ^ 31 - 1"] a by simp
  then have "thr_frame e (hw_delay c (onproc_count e < ppu_threads e) l
      (ack_current (suspend_rest (drop (ppu_threads e1) (g_ppu e1)) e1)))"
    by (meson thr_frame_trans thr_frame_hw_delay thr_frame_ack_current thr_frame_suspend_rest)
  then show ?thesis
    unfolding awake_tail_def Let_def todo_def [symmetric] a by simp
qed

lemma thr_frame_awake_enqueue: "thr_frame e (snd (awake_unlocked cpu Enqueue_cmd e))"
  by (simp add: awake_unlocked_def thr_frame_awake_tail)

lemma thr_frame_wake_top: "thr_frame e (wake_top ts e)"
proof (induction ts arbitrary: e)
  case (Cons t ts)
  have "thr_frame e (upd_thr t wake_thread e)" by (simp add: thr_frame_upd thr_frame_refl)
  then show ?case using Cons.IH thr_frame_trans by (metis wake_top.simps(2))
qed (simp add: thr_frame_refl)

lemma thr_frame_fire: "thr_frame e (fire_timeouts now ws e)"
proof (induction now ws e rule: fire_timeouts.induct)
  case (2 now w t xs e)
  have "thr_frame e (if cur e = Some t then e
      else (add_flag t F_notify e)\<lparr>fatal := fatal e \<or> F_notify \<in> state (thr e t)\<rparr>)"
    by (simp add: thr_frame_intros)
  with 2 show ?case by (auto intro: thr_frame_trans simp: thr_frame_refl)
qed (simp add: thr_frame_refl)

lemma thr_frame_preempt: "thr_frame e (preempt_step e)"
  by (auto simp: preempt_step_def intro!: thr_frame_intros split: option.splits)

lemma thr_frame_schedule_all: "thr_frame e (schedule_all e)"
proof -
  let ?e1 = "if g_pending e = 0 \<and> g_scheduler_ready e
    then wake_top (take (ppu_threads e) (g_ppu e)) e else e"
  have "thr_frame e ?e1" by (simp add: thr_frame_wake_top thr_frame_refl)
  then show ?thesis
    unfolding schedule_all_def Let_def
    by (rule thr_frame_trans [OF thr_frame_trans [OF _ thr_frame_fire] thr_frame_preempt])
qed

lemma thr_frame_sleep: "thr_frame e (snd (sleep t timeout e))"
proof -
  obtain r e1 where e1: "sleep_unlocked t timeout (guest_time e) e = (r, e1)" by fastforce
  then have "thr_frame e e1" using thr_frame_sleep_unlocked [of e t timeout "guest_time e"] by simp
  then have "thr_frame e (if g_to_awake e1 \<noteq> [] then snd (awake_unlocked None Enqueue_cmd e1) else e1)"
    using thr_frame_trans [OF _ thr_frame_awake_enqueue] by simp
  from thr_frame_trans [OF this thr_frame_schedule_all] show ?thesis
    by (simp only: sleep_def e1 Let_def prod.case snd_conv thr_frame_sel)
qed

lemma thr_frame_awake_enq: "thr_frame e (snd (awake cpu Enqueue_cmd e))"
  using thr_frame_awake_enqueue [of e cpu] thr_frame_schedule_all
  by (auto simp: awake_def split: prod.splits intro: thr_frame_trans)

text \<open>
  The interface that the object theories use: an operation on the scheduler state that respects the
  frame. Everything that a wait queue reads of the threads is then unchanged.
\<close>

locale quiet_op =
  fixes op :: "lv2 \<Rightarrow> lv2"
  assumes op_frame: "thr_frame e (op e)"
begin

lemma gpr_op [simp]: "gpr (thr (op e) u) = gpr (thr e u)"
  using op_frame [of e] by (simp add: thr_frame_def regs_def)

lemma prio_op [simp]: "prio (thr (op e) u) = prio (thr e u)"
  using op_frame [of e] by (simp add: thr_frame_def regs_def)

lemma order_op [simp]: "order (thr (op e) u) = order (thr e u)"
  using op_frame [of e] by (simp add: thr_frame_def regs_def)

lemma preserve_op [simp]: "preserve_bit (thr (op e) u) = preserve_bit (thr e u)"
  using op_frame [of e] by (simp add: thr_frame_def regs_def)

lemma again_op [simp]: "F_again \<in> state (thr (op e) u) \<longleftrightarrow> F_again \<in> state (thr e u)"
  using op_frame [of e] by (simp add: thr_frame_def regs_def)

lemma stopped_op [simp]: "is_stopped (state (thr (op e) u)) \<longleftrightarrow> is_stopped (state (thr e u))"
  using op_frame [of e] by (simp add: thr_frame_def regs_def)

lemma savestate_op [simp]:
  "loaded_from_savestate (thr (op e) u) = loaded_from_savestate (thr e u)"
  "sstate (thr (op e) u) = sstate (thr e u)"
  using op_frame [of e] by (simp_all add: thr_frame_def regs_def)

lemma tag_op [simp]: "g_priority_order_tag (op e) = g_priority_order_tag e"
  using op_frame [of e] by (simp add: thr_frame_def)

lemma prio_before_op [simp]: "prio_before (thr (op e)) = prio_before (thr e)"
  by (simp add: prio_before_def fun_eq_iff)

lemma prio_pick_op [simp]: "prio_pick (thr (op e)) x xs = prio_pick (thr e) x xs"
  by (induction xs arbitrary: x) simp_all

lemma pick_op [simp]: "pick (thr (op e)) p q = pick (thr e) p q"
  by (simp add: pick_def split: list.splits)

lemma schedule_op [simp]: "schedule (thr (op e)) p q = schedule (thr e) p q"
  by (simp add: schedule_def split: option.splits)

end

interpretation sleep_quiet: quiet_op "\<lambda>e. snd (sleep t timeout e)" for t timeout
  by unfold_locales (rule thr_frame_sleep)

interpretation awake1_quiet: quiet_op "awake1 t" for t
  by unfold_locales (simp add: awake1_def thr_frame_awake_enq)

interpretation append_quiet: quiet_op "append_awake t" for t
  by unfold_locales (simp add: append_awake_def thr_frame_refl)

interpretation awake_all_quiet: quiet_op awake_all
  by unfold_locales (simp add: awake_all_def thr_frame_awake_enq)

section \<open>The scheduler invariant\<close>

abbreviation prio_of :: "lv2 \<Rightarrow> tid \<Rightarrow> int" where
  "prio_of e t \<equiv> sint (prio (thr e t))"

definition sched_inv :: "lv2 \<Rightarrow> bool" where
  "sched_inv e \<longleftrightarrow> distinct (g_ppu e) \<and> sorted (map (prio_of e) (g_ppu e)) \<and>
     sorted (map fst (g_waiting e)) \<and> distinct (map snd (g_waiting e)) \<and>
     snd ` set (g_waiting e) \<inter> set (g_ppu e) = {}"

lemma sched_inv_cong:
  assumes "g_ppu e' = g_ppu e" "g_waiting e' = g_waiting e" "\<And>u. prio (thr e' u) = prio (thr e u)"
  shows "sched_inv e' = sched_inv e"
  using assms by (simp add: sched_inv_def)

lemma thr_frame_prio: "thr_frame e e' \<Longrightarrow> prio (thr e' u) = prio (thr e u)"
  by (simp add: thr_frame_def regs_def)

lemma emplace_walk_None:
  "sorted (map (\<lambda>x. sint (prio (th x))) q) \<Longrightarrow> emplace_walk th t q = None \<longleftrightarrow> t \<in> set q"
  by (induction q) (auto split: if_splits)

lemma emplace_walk_Some:
  assumes "emplace_walk th t q = Some q'"
  shows "\<exists>ys zs. q = ys @ zs \<and> q' = ys @ t # zs \<and> t \<notin> set ys \<and>
    (\<forall>y \<in> set ys. sint (prio (th y)) \<le> sint (prio (th t))) \<and>
    (zs \<noteq> [] \<longrightarrow> sint (prio (th t)) < sint (prio (th (hd zs))))"
  using assms
proof (induction q arbitrary: q')
  case (Cons x xs)
  show ?case
  proof (cases "x = t \<or> sint (prio (th t)) < sint (prio (th x))")
    case True
    with Cons.prems show ?thesis
      by (intro exI [of _ "[]"] exI [of _ "x # xs"]) (auto split: if_splits)
  next
    case False
    with Cons.prems obtain q1 where q1: "emplace_walk th t xs = Some q1" "q' = x # q1" by auto
    then obtain ys zs where "xs = ys @ zs" "q1 = ys @ t # zs" "t \<notin> set ys"
      "\<forall>y \<in> set ys. sint (prio (th y)) \<le> sint (prio (th t))"
      "zs \<noteq> [] \<longrightarrow> sint (prio (th t)) < sint (prio (th (hd zs)))"
      using Cons.IH by blast
    with q1 False show ?thesis
      by (intro exI [of _ "x # ys"] exI [of _ zs]) auto
  qed
qed simp

lemma drop_waiting_sub: "set (drop_waiting t ws) \<subseteq> set ws"
  by (induction t ws rule: drop_waiting.induct) auto

lemma drop_waiting_sorted: "sorted (map fst ws) \<Longrightarrow> sorted (map fst (drop_waiting t ws))"
  by (induction t ws rule: drop_waiting.induct) (use drop_waiting_sub in fastforce)+

lemma drop_waiting_distinct:
  "distinct (map snd ws) \<Longrightarrow> distinct (map snd (drop_waiting t ws)) \<and> t \<notin> snd ` set (drop_waiting t ws)"
proof (induction t ws rule: drop_waiting.induct)
  case (2 t w u xs)
  then show ?case using drop_waiting_sub [of t xs] by auto
qed simp

lemma sched_inv_emplace_thread:
  assumes inv: "sched_inv e"
  shows "sched_inv (snd (emplace_thread t e))"
proof (cases "emplace_walk (thr e) t (g_ppu e)")
  case None
  then have "sched_inv (snd (emplace_thread t e)) = sched_inv e"
    by (intro sched_inv_cong) (auto simp: emplace_thread_def)
  with inv show ?thesis by simp
next
  case (Some q')
  from inv have srt: "sorted (map (prio_of e) (g_ppu e))" by (simp add: sched_inv_def)
  from Some have t: "t \<notin> set (g_ppu e)"
    using emplace_walk_None [of "thr e" "g_ppu e" t] srt by simp
  from emplace_walk_Some [OF Some] obtain ys zs where q: "g_ppu e = ys @ zs" "q' = ys @ t # zs"
    and ys: "\<forall>y \<in> set ys. prio_of e y \<le> prio_of e t" and zs: "zs \<noteq> [] \<longrightarrow> prio_of e t < prio_of e (hd zs)"
    by blast
  have "\<forall>z \<in> set zs. prio_of e t \<le> prio_of e z"
    using srt q(1) zs by (cases zs) (auto simp: sorted_append intro: order.trans less_imp_le)
  then have "sorted (map (prio_of e) q')" using srt q ys by (auto simp: sorted_append)
  moreover have "distinct q'" using inv q t by (auto simp: sched_inv_def)
  ultimately show ?thesis
    using inv Some t q drop_waiting_sorted [of "g_waiting e" t] drop_waiting_distinct [of "g_waiting e" t]
      drop_waiting_sub [of t "g_waiting e"]
    by (auto simp: emplace_thread_def sched_inv_def)
qed

lemma sched_inv_awake_list: "sched_inv e \<Longrightarrow> sched_inv (snd (snd (awake_list ts c l e)))"
proof (induction ts c l e rule: awake_list.induct)
  case (2 t ts c l e)
  then show ?case
    using sched_inv_emplace_thread [OF "2.prems", of t] by (auto split: prod.splits)
qed simp

lemma suspend_rest_sel [simp]:
  "g_ppu (suspend_rest ts e) = g_ppu e" "g_waiting (suspend_rest ts e) = g_waiting e"
  "ppu_threads (suspend_rest ts e) = ppu_threads e" "cur (suspend_rest ts e) = cur e"
  by (induction ts e rule: suspend_rest.induct) simp_all

lemma ack_current_sel [simp]:
  "g_ppu (ack_current e) = g_ppu e" "g_waiting (ack_current e) = g_waiting e"
  "ppu_threads (ack_current e) = ppu_threads e"
  by (simp_all add: ack_current_def split: option.splits)

lemma hw_delay_sel [simp]:
  "g_ppu (hw_delay c h l e) = g_ppu e" "g_waiting (hw_delay c h l e) = g_waiting e"
  "ppu_threads (hw_delay c h l e) = ppu_threads e"
  by (simp_all add: hw_delay_def split: option.splits)

lemma wake_top_sel [simp]:
  "g_ppu (wake_top ts e) = g_ppu e" "g_waiting (wake_top ts e) = g_waiting e"
  "guest_time (wake_top ts e) = guest_time e"
  by (induction ts e rule: wake_top.induct) simp_all

lemma preempt_step_sel [simp]: "g_ppu (preempt_step e) = g_ppu e" "g_waiting (preempt_step e) = g_waiting e"
  by (simp_all add: preempt_step_def add_flag_def split: option.splits)

lemma fire_timeouts_sel [simp]:
  "g_ppu (fire_timeouts now ws e) = g_ppu e"
  "g_waiting (fire_timeouts now ws e) = dropWhile (\<lambda>x. fst x \<le> now) ws"
  by (induction now ws e rule: fire_timeouts.induct) (simp_all add: add_flag_def)

lemma schedule_all_sel [simp]:
  "g_ppu (schedule_all e) = g_ppu e"
  "g_waiting (schedule_all e) = dropWhile (\<lambda>x. fst x \<le> guest_time e) (g_waiting e)"
  by (simp_all add: schedule_all_def Let_def)

lemma sched_inv_awake_tail: "sched_inv e \<Longrightarrow> sched_inv (snd (awake_tail cpu y e))"
proof -
  assume inv: "sched_inv e"
  define todo where
    "todo = (case cpu of Some t \<Rightarrow> if y then g_to_awake e else [t] | None \<Rightarrow> g_to_awake e)"
  obtain c l e1 where a: "awake_list todo y (2 ^ 31 - 1) e = (c, l, e1)"
    using prod_cases3 by blast
  let ?e2 = "hw_delay c (onproc_count e < ppu_threads e) l
      (ack_current (suspend_rest (drop (ppu_threads e1) (g_ppu e1)) e1))"
  have "thr_frame e1 ?e2"
    by (meson thr_frame_trans thr_frame_hw_delay thr_frame_ack_current thr_frame_suspend_rest)
  then have "sched_inv ?e2 = sched_inv e1"
    by (intro sched_inv_cong) (simp_all add: thr_frame_prio)
  with sched_inv_awake_list [OF inv, of todo y "2 ^ 31 - 1"] a show ?thesis
    unfolding awake_tail_def Let_def todo_def [symmetric] a by simp
qed

lemma sched_inv_schedule_all: "sched_inv e \<Longrightarrow> sched_inv (schedule_all e)"
  using thr_frame_prio [OF thr_frame_schedule_all, of e]
  by (auto simp: sched_inv_def dropWhile_eq_drop drop_map [symmetric] sorted_wrt_drop distinct_drop
      dest: in_set_dropD)

lemma sched_inv_awake_enqueue: "sched_inv e \<Longrightarrow> sched_inv (snd (awake cpu Enqueue_cmd e))"
  using sched_inv_awake_tail [of e cpu False]
  by (auto simp: awake_def awake_unlocked_def sched_inv_schedule_all split: prod.splits)

lemma insert_waiting_set: "set (insert_waiting w t ws) = insert (w, t) (set ws)"
  by (induction w t ws rule: insert_waiting.induct) auto

lemma insert_waiting_sorted: "sorted (map fst ws) \<Longrightarrow> sorted (map fst (insert_waiting w t ws))"
  by (induction w t ws rule: insert_waiting.induct) (auto simp: insert_waiting_set)

lemma insert_waiting_distinct:
  "distinct (map snd (insert_waiting w t ws)) \<longleftrightarrow> distinct (map snd ws) \<and> t \<notin> snd ` set ws"
  by (induction w t ws rule: insert_waiting.induct) (auto simp: insert_waiting_set)

lemma sched_inv_sleep_unlocked: "sched_inv e \<Longrightarrow> sched_inv (snd (sleep_unlocked t timeout now e))"
proof -
  assume inv: "sched_inv e"
  let ?e' = "snd (sleep_unlocked t timeout now e)"
  have pr: "prio (thr ?e' u) = prio (thr e u)" for u
    by (rule thr_frame_prio [OF thr_frame_sleep_unlocked])
  have q: "g_ppu ?e' = g_ppu e \<or> g_ppu ?e' = remove1 t (g_ppu e)"
    by (simp add: sleep_unlocked_def Let_def add_flag_def)
  have w: "g_waiting ?e' = g_waiting e \<or>
      t \<in> set (g_ppu e) \<and> g_ppu ?e' = remove1 t (g_ppu e) \<and>
      g_waiting ?e' = insert_waiting (deadline now timeout) t (g_waiting e)"
    by (simp add: sleep_unlocked_def Let_def add_flag_def)
  have "sorted (map (prio_of e) (remove1 t (g_ppu e)))"
    using inv by (simp add: sched_inv_def sorted_map_remove1)
  then have 1: "distinct (g_ppu ?e') \<and> sorted (map (prio_of ?e') (g_ppu ?e'))"
    using q inv pr by (auto simp: sched_inv_def)
  from w show ?thesis
  proof (elim disjE conjE)
    assume "t \<in> set (g_ppu e)" "g_ppu ?e' = remove1 t (g_ppu e)"
      "g_waiting ?e' = insert_waiting (deadline now timeout) t (g_waiting e)"
    with inv 1 show ?thesis
      by (auto simp: sched_inv_def insert_waiting_set insert_waiting_sorted insert_waiting_distinct)
  qed (use inv 1 q in \<open>auto simp: sched_inv_def dest: subsetD [OF set_remove1_subset]\<close>)
qed

lemma sched_inv_sleep: "sched_inv e \<Longrightarrow> sched_inv (snd (sleep t timeout e))"
proof -
  assume inv: "sched_inv e"
  obtain r e1 where e1: "sleep_unlocked t timeout (guest_time e) e = (r, e1)" by fastforce
  let ?e2 = "if g_to_awake e1 \<noteq> [] then snd (awake_unlocked None Enqueue_cmd e1) else e1"
  have "sched_inv e1" using sched_inv_sleep_unlocked [OF inv, of t timeout "guest_time e"] e1 by simp
  then have "sched_inv ?e2" using sched_inv_awake_tail [of e1 None False] by (simp add: awake_unlocked_def)
  then have "sched_inv (schedule_all ?e2)" by (rule sched_inv_schedule_all)
  then show ?thesis by (simp add: sleep_def e1 Let_def sched_inv_def)
qed

lemma sched_inv_awake_all: "sched_inv e \<Longrightarrow> sched_inv (awake_all e)"
  using sched_inv_awake_enqueue [of e None] by (simp add: awake_all_def sched_inv_def)

lemma yield_rotate_split:
  assumes "yield_rotate th t q = Some (q', i)" and "distinct q"
  obtains pre same more where "q = pre @ t # same @ more" "q' = pre @ same @ t # more" "same \<noteq> []"
    "\<forall>x \<in> set same. prio (th x) = prio (th t)" "i = length pre + length same"
proof -
  from assms(1) have t: "t \<in> set q" by (simp add: yield_rotate_def split: if_splits)
  let ?rest = "tl (dropWhile (\<lambda>x. x \<noteq> t) q)"
  have "dropWhile (\<lambda>x. x \<noteq> t) q \<noteq> []" using t by auto
  then have "dropWhile (\<lambda>x. x \<noteq> t) q = t # ?rest"
    using hd_dropWhile [of "\<lambda>x. x \<noteq> t" q] by (metis list.collapse)
  then have q: "q = takeWhile (\<lambda>x. x \<noteq> t) q @ t # ?rest" by (metis takeWhile_dropWhile_id)
  define pre rest where "pre = takeWhile (\<lambda>x. x \<noteq> t) q" and "rest = ?rest"
  define same more where "same = takeWhile (\<lambda>x. prio (th x) = prio (th t)) rest"
    and "more = dropWhile (\<lambda>x. prio (th x) = prio (th t)) rest"
  have "same \<noteq> []" "q' = pre @ same @ t # more" "i = length pre + length same"
    using assms(1) t
    unfolding yield_rotate_def Let_def pre_def [symmetric] rest_def [symmetric]
      same_def [symmetric] more_def [symmetric]
    by (simp_all split: if_splits)
  moreover have "q = pre @ t # same @ more"
    using q unfolding pre_def [symmetric] rest_def [symmetric] same_def more_def by simp
  moreover have "\<forall>x \<in> set same. prio (th x) = prio (th t)"
    unfolding same_def by (auto dest: set_takeWhileD)
  ultimately show ?thesis using that by blast
qed

lemma sched_inv_rotate:
  assumes inv: "sched_inv e" and y: "yield_rotate (thr e) t (g_ppu e) = Some (q, i)"
  shows "sched_inv (e\<lparr>g_ppu := q\<rparr>)" "set q = set (g_ppu e)"
proof -
  have d: "distinct (g_ppu e)" using inv by (simp add: sched_inv_def)
  from yield_rotate_split [OF y d] obtain pre same more where
    s: "g_ppu e = pre @ t # same @ more" "q = pre @ same @ t # more"
    and p: "\<forall>x \<in> set same. prio (thr e x) = prio (thr e t)" .
  from s show st: "set q = set (g_ppu e)" by auto
  have "distinct q" using d s by auto
  moreover have "sorted (map (prio_of e) q)"
    using inv s p by (auto simp: sched_inv_def sorted_append)
  ultimately show "sched_inv (e\<lparr>g_ppu := q\<rparr>)"
    using inv st by (simp add: sched_inv_def)
qed

lemma sched_inv_yield: "sched_inv e \<Longrightarrow> sched_inv (snd (awake_unlocked (Some t) Yield_cmd e))"
proof (cases "yield_rotate (thr e) t (g_ppu e)")
  case (Some qi)
  assume inv: "sched_inv e"
  obtain q i where qi: "qi = (q, i)" by fastforce
  with sched_inv_rotate(1) [OF inv] Some have r: "sched_inv (e\<lparr>g_ppu := q\<rparr>)" by simp
  let ?e = "upd_thr t (\<lambda>p. p\<lparr>start_time := guest_time e\<rparr>) (e\<lparr>g_ppu := q\<rparr>)"
  have "sched_inv ?e = sched_inv (e\<lparr>g_ppu := q\<rparr>)"
    by (rule sched_inv_cong) simp_all
  with r have "sched_inv (snd (awake_tail (Some t) True ?e))" by (simp add: sched_inv_awake_tail)
  with r Some qi show ?thesis by (simp add: awake_unlocked_def)
qed (simp add: awake_unlocked_def)

lemma set_prio_sel [simp]:
  "g_ppu (set_prio t v a b e) = g_ppu e" "g_waiting (set_prio t v a b e) = g_waiting e"
  "u \<noteq> t \<Longrightarrow> thr (set_prio t v a b e) u = thr e u" "prio (thr (set_prio t v a b e) t) = v"
  by (simp_all add: set_prio_def Let_def)

lemma sched_inv_set_prio_unqueued:
  "t \<notin> set (g_ppu e) \<Longrightarrow> sched_inv (set_prio t v a b e) = sched_inv e"
proof -
  assume "t \<notin> set (g_ppu e)"
  then have "map (prio_of (set_prio t v a b e)) (g_ppu e) = map (prio_of e) (g_ppu e)"
    by (intro map_cong refl) (metis set_prio_sel(3))
  then show ?thesis unfolding sched_inv_def set_prio_sel(1,2) by (simp only:)
qed

lemma sched_inv_set_prio: "sched_inv e \<Longrightarrow> sched_inv (snd (awake_unlocked (Some t) (Set_prio v) e))"
proof -
  assume inv: "sched_inv e"
  let ?e = "e\<lparr>g_ppu := remove1 t (g_ppu e)\<rparr>"
  have rem: "sched_inv ?e"
    using inv by (auto simp: sched_inv_def sorted_map_remove1)
  moreover have "t \<notin> set (g_ppu ?e)" using inv by (simp add: sched_inv_def)
  ultimately have "sched_inv (set_prio t v False False ?e)"
    by (simp add: sched_inv_set_prio_unqueued)
  then have 1: "sched_inv (snd (awake_tail (Some t) False (set_prio t v False False ?e)))"
    by (rule sched_inv_awake_tail)
  have 2: "prio (thr e t) = v \<Longrightarrow> sched_inv (set_prio t v False False e) = sched_inv e"
    by (rule sched_inv_cong) (auto simp: set_prio_def)
  show ?thesis
    using inv 1 2 by (auto simp: awake_unlocked_def Let_def sched_inv_set_prio_unqueued)
qed

lemma sched_inv_awake: "sched_inv e \<Longrightarrow> sched_inv (snd (awake cpu cmd e))"
proof -
  assume inv: "sched_inv e"
  have "sched_inv (snd (awake_unlocked cpu cmd e))"
  proof (cases cpu)
    case None
    then have "awake_unlocked cpu cmd e = awake_tail None False e"
      by (simp add: awake_unlocked_def split: awake_cmd.splits)
    then show ?thesis using inv by (simp add: sched_inv_awake_tail)
  next
    case (Some t)
    then show ?thesis
      using inv sched_inv_yield sched_inv_set_prio sched_inv_awake_tail [of e cpu False]
      by (cases cmd) (simp_all add: awake_unlocked_def [of "Some t" Enqueue_cmd])
  qed
  then show ?thesis
    by (auto simp: awake_def split: prod.splits intro: sched_inv_schedule_all)
qed

subsection \<open>Which threads stay suspended\<close>

lemma suspend_rest_suspends:
  "F_suspend \<in> state (thr e u) \<or> u \<in> set ts \<Longrightarrow> F_suspend \<in> state (thr (suspend_rest ts e) u)"
  by (induction ts e rule: suspend_rest.induct) (auto split: if_splits)

lemma ack_current_state [simp]: "state (thr (ack_current e) u) = state (thr e u)"
  by (auto simp: ack_current_def split: option.splits)

lemma hw_delay_suspend: "F_suspend \<in> state (thr (hw_delay c h l e) u) \<longleftrightarrow> F_suspend \<in> state (thr e u)"
  by (auto simp: hw_delay_def split: option.splits)

lemma awake_list_ppu_threads [simp]: "ppu_threads (snd (snd (awake_list ts c l e))) = ppu_threads e"
proof (induction ts c l e rule: awake_list.induct)
  case (2 t ts c l e)
  moreover have "ppu_threads (snd (emplace_thread t e)) = ppu_threads e"
    by (simp add: emplace_thread_def split: option.splits)
  ultimately show ?case by (auto split: prod.splits)
qed simp

lemma awake_tail_ppu_threads [simp]: "ppu_threads (snd (awake_tail cpu y e)) = ppu_threads e"
proof -
  define todo where
    "todo = (case cpu of Some t \<Rightarrow> if y then g_to_awake e else [t] | None \<Rightarrow> g_to_awake e)"
  obtain c l e1 where a: "awake_list todo y (2 ^ 31 - 1) e = (c, l, e1)"
    using prod_cases3 by blast
  then have "ppu_threads e1 = ppu_threads e"
    using awake_list_ppu_threads [of todo y "2 ^ 31 - 1" e] by simp
  then show ?thesis
    unfolding awake_tail_def Let_def todo_def [symmetric] a by simp
qed

lemma awake_tail_suspended:
  assumes "ppu_threads e \<le> i" "i < length (g_ppu (snd (awake_tail cpu y e)))"
  shows "F_suspend \<in> state (thr (snd (awake_tail cpu y e)) (g_ppu (snd (awake_tail cpu y e)) ! i))"
proof -
  define todo where
    "todo = (case cpu of Some t \<Rightarrow> if y then g_to_awake e else [t] | None \<Rightarrow> g_to_awake e)"
  obtain c l e1 where a: "awake_list todo y (2 ^ 31 - 1) e = (c, l, e1)"
    using prod_cases3 by blast
  then have n: "ppu_threads e1 = ppu_threads e"
    using awake_list_ppu_threads [of todo y "2 ^ 31 - 1" e] by simp
  let ?e2 = "hw_delay c (onproc_count e < ppu_threads e) l
      (ack_current (suspend_rest (drop (ppu_threads e1) (g_ppu e1)) e1))"
  have eq: "snd (awake_tail cpu y e) = ?e2"
    unfolding awake_tail_def Let_def todo_def [symmetric] a by simp
  have "g_ppu e1 ! i = drop (ppu_threads e1) (g_ppu e1) ! (i - ppu_threads e)"
    using assms n unfolding eq by simp
  then have "g_ppu e1 ! i \<in> set (drop (ppu_threads e1) (g_ppu e1))"
    using assms n unfolding eq by (metis diff_less_mono hw_delay_sel(1) ack_current_sel(1)
      suspend_rest_sel(1) length_drop nth_mem)
  then show ?thesis
    unfolding eq by (simp add: hw_delay_suspend suspend_rest_suspends)
qed

lemma wake_top_other: "u \<notin> set ts \<Longrightarrow> thr (wake_top ts e) u = thr e u"
  by (induction ts e rule: wake_top.induct) simp_all

lemma fire_timeouts_state: "fl \<in> state (thr e u) \<Longrightarrow> fl \<in> state (thr (fire_timeouts now ws e) u)"
proof (induction now ws e rule: fire_timeouts.induct)
  case (2 now w t xs e)
  let ?e = "if cur e = Some t then e
    else (add_flag t F_notify e)\<lparr>fatal := fatal e \<or> F_notify \<in> state (thr e t)\<rparr>"
  have "fl \<in> state (thr ?e u)" using "2.prems" by (cases "u = t") (simp_all add: thr_add_flag)
  then show ?case using "2.IH" "2.prems" by simp
qed simp

lemma preempt_step_state: "fl \<in> state (thr e u) \<Longrightarrow> fl \<in> state (thr (preempt_step e) u)"
  by (auto simp: preempt_step_def thr_add_flag split: option.splits)

lemma schedule_all_keeps_suspended:
  assumes "F_suspend \<in> state (thr e u)" "u \<notin> set (take (ppu_threads e) (g_ppu e))"
  shows "F_suspend \<in> state (thr (schedule_all e) u)"
  using assms
  by (auto simp: schedule_all_def Let_def wake_top_other intro!: preempt_step_state fire_timeouts_state)

section \<open>Properties of the scheduler\<close>

text \<open>
  Claim C9. The run queue stays sorted by priority and free of duplicates, the timeout list sorted by
  expiry, and no runnable thread has a pending timeout, across every public operation of the
  scheduler: \<^verbatim>\<open>sleep\<close>, \<^verbatim>\<open>awake\<close> with any command, \<^verbatim>\<open>awake_all\<close>, \<^verbatim>\<open>yield\<close>, \<^verbatim>\<open>set_priority\<close>,
  \<^verbatim>\<open>make_scheduler_ready\<close> and \<^verbatim>\<open>cleanup\<close>.
\<close>

theorem scheduler_invariant:
  assumes "sched_inv e"
  shows "sched_inv (snd (sleep t timeout e)) \<and> sched_inv (snd (awake cpu cmd e)) \<and>
    sched_inv (awake_all e) \<and> sched_inv (snd (yield_thread t e)) \<and> sched_inv (set_priority t v e) \<and>
    sched_inv (make_scheduler_ready e) \<and> sched_inv (cleanup e)"
proof -
  define e1 where "e1 = upd_thr t (\<lambda>p. p\<lparr>raddr := 0\<rparr>) e"
  have "prio (thr e1 u) = prio (thr e u)" "g_ppu e1 = g_ppu e" "g_waiting e1 = g_waiting e" for u
    by (simp_all add: e1_def)
  with assms have "sched_inv e1" by (simp add: sched_inv_def)
  with sched_inv_awake [OF this] have "sched_inv (snd (yield_thread t e))"
    by (simp add: yield_thread_def e1_def [symmetric] Let_def)
  moreover have "sched_inv (set_priority t v e)"
    using assms sched_inv_awake [OF assms] by (simp add: set_priority_def) (simp add: sched_inv_def)
  moreover have "sched_inv (e\<lparr>g_scheduler_ready := True\<rparr>)"
    using assms by (simp add: sched_inv_def)
  then have "sched_inv (make_scheduler_ready e)"
    by (simp add: make_scheduler_ready_def sched_inv_awake_all)
  moreover have "sched_inv (cleanup e)" by (simp add: cleanup_def sched_inv_def)
  ultimately show ?thesis
    using assms by (simp add: sched_inv_sleep sched_inv_awake sched_inv_awake_all)
qed

theorem scheduler_invariant_witness:
  "sched_inv (demo_lv2 [1, 3, 5]) \<and> sched_inv (snd (sleep 3 50 (demo_lv2 [1, 3, 5])))
   \<and> sched_inv (snd (awake (Some 4) Enqueue_cmd (demo_lv2 [1, 3, 5])))"
proof -
  have "sched_inv (demo_lv2 [1, 3, 5])" by (simp add: sched_inv_def demo_defs)
  with scheduler_invariant show ?thesis by blast
qed

text \<open>
  Waking a thread that is not queued puts it behind every queued thread of the same or a
  higher priority and in front of every thread of a lower one (smaller value is higher), and cancels
  its pending timeout; the other threads keep their places.
\<close>

theorem awake_inserts_in_order:
  assumes "sched_inv e" "t \<notin> set (g_ppu e)"
  shows "\<exists>ys zs. g_ppu e = ys @ zs \<and> g_ppu (awake1 t e) = ys @ t # zs
    \<and> (\<forall>y \<in> set ys. prio_of e y \<le> prio_of e t) \<and> (\<forall>z \<in> set zs. prio_of e t < prio_of e z)
    \<and> t \<notin> snd ` set (g_waiting (awake1 t e))"
proof -
  have srt: "sorted (map (prio_of e) (g_ppu e))" using assms by (simp add: sched_inv_def)
  from assms(2) obtain q where w: "emplace_walk (thr e) t (g_ppu e) = Some q"
    using emplace_walk_None [OF srt] by fastforce
  from emplace_walk_Some [OF w] obtain ys zs where q: "g_ppu e = ys @ zs" "q = ys @ t # zs"
    and ys: "\<forall>y \<in> set ys. prio_of e y \<le> prio_of e t"
    and zs: "zs \<noteq> [] \<longrightarrow> prio_of e t < prio_of e (hd zs)" by blast
  have "\<forall>z \<in> set zs. prio_of e t < prio_of e z"
    using srt q(1) zs by (cases zs) (auto simp: sorted_append intro: order.strict_trans2)
  moreover have a: "g_ppu (awake1 t e) = q"
    by (simp add: awake1_def awake_def awake_unlocked_def awake_tail_def emplace_thread_def w split: prod.splits)
  moreover have "sched_inv (awake1 t e)"
    using assms by (simp add: awake1_def sched_inv_awake)
  then have "t \<notin> snd ` set (g_waiting (awake1 t e))"
    using a q(2) by (auto simp: sched_inv_def)
  ultimately show ?thesis using q ys by blast
qed

theorem awake_inserts_in_order_witness:
  "\<exists>ys zs. g_ppu (demo_lv2 [1, 3, 5]) = ys @ zs \<and> g_ppu (awake1 4 (demo_lv2 [1, 3, 5])) = ys @ 4 # zs"
proof -
  have "sched_inv (demo_lv2 [1, 3, 5])" "4 \<notin> set (g_ppu (demo_lv2 [1, 3, 5]))"
    by (simp_all add: sched_inv_def demo_defs)
  from awake_inserts_in_order [OF this] show ?thesis by blast
qed

text \<open>
  After waking threads, at most \<^verbatim>\<open>ppu_threads\<close> of the queued threads can run: every thread
  at position \<^verbatim>\<open>ppu_threads\<close> or later of the run queue carries the suspend flag, also after the
  threads at the front have been resumed.
\<close>

theorem awake_suspends_excess:
  assumes "sched_inv e" "ppu_threads e \<le> i" "i < length (g_ppu (snd (awake cpu Enqueue_cmd e)))"
  shows "F_suspend \<in> state (thr (snd (awake cpu Enqueue_cmd e)) (g_ppu (snd (awake cpu Enqueue_cmd e)) ! i))"
proof -
  let ?e1 = "snd (awake_tail cpu False e)"
  have a: "snd (awake cpu Enqueue_cmd e) = schedule_all ?e1"
    by (simp add: awake_def awake_unlocked_def split: prod.splits)
  have inv: "sched_inv ?e1" by (rule sched_inv_awake_tail [OF assms(1)])
  have i: "i < length (g_ppu ?e1)" using assms(3) a by simp
  from awake_tail_suspended [OF assms(2) this]
  have s: "F_suspend \<in> state (thr ?e1 (g_ppu ?e1 ! i))" .
  have "g_ppu ?e1 ! i \<notin> set (take (ppu_threads ?e1) (g_ppu ?e1))"
    using inv i assms(2) by (auto simp: sched_inv_def in_set_conv_nth nth_eq_iff_index_eq)
  from schedule_all_keeps_suspended [OF s this] show ?thesis by (simp add: a)
qed

theorem awake_suspends_excess_witness:
  "flagged F_suspend (awake1 4 (demo_lv2 [1, 3, 5])) 4 \<and> flagged F_suspend (awake1 4 (demo_lv2 [1, 3, 5])) 5"
proof -
  let ?e = "demo_lv2 [1, 3, 5]"
  have q: "g_ppu (snd (awake (Some 4) Enqueue_cmd ?e)) = [1, 3, 4, 5]"
    by (simp add: awake_def awake_unlocked_def awake_tail_def emplace_thread_def demo_defs split: prod.splits)
  have "sched_inv ?e" "ppu_threads ?e = 2" by (simp_all add: sched_inv_def demo_defs)
  then show ?thesis
    using awake_suspends_excess [of ?e 2 "Some 4"] awake_suspends_excess [of ?e 3 "Some 4"] q
    by (simp add: awake1_def flagged_def numeral_3_eq_3 numeral_2_eq_2)
qed

text \<open>
  The deadline that \<^verbatim>\<open>sleep_unlocked\<close> registers never lies before the moment of the call,
  however large the timeout: it is \<open>start + timeout\<close> where that fits 64 bits and the largest 64 bit
  value otherwise.
\<close>

theorem deadline_saturates:
  "unat (deadline start timeout) = min (unat start + unat timeout) (2 ^ 64 - 1)"
proof -
  have n: "unat (NOT start) = 2 ^ 64 - 1 - unat start"
  proof -
    have "NOT start = - 1 - start" by (simp add: not_eq_complement)
    moreover have "unat (- 1 - start) = unat (- 1 :: u64) - unat start" by (rule unat_sub) simp
    ultimately show ?thesis by (simp add: unsigned_minus_1_eq_mask mask_eq_exp_minus_1)
  qed
  have lt: "unat start < 2 ^ 64" using unsigned_less [of start] by simp
  have m: "unat (min timeout (NOT start)) = min (unat timeout) (2 ^ 64 - 1 - unat start)"
    unfolding n [symmetric] by (simp add: min_def word_le_nat_alt)
  with lt have "unat start + unat (min timeout (NOT start)) < 2 ^ 64" by simp
  then have "unat (deadline start timeout) = unat start + unat (min timeout (NOT start))"
    by (simp add: deadline_def unat_word_ariths)
  with m lt show ?thesis by simp
qed

end
