(* ===== verification/Id_Manager.thy ===== *)
theory Id_Manager
  imports Prelude
begin

text \<open>
  The object store of the emulated process: \<^verbatim>\<open>id_manager::get_index\<close>, \<^verbatim>\<open>idm::allocate_id\<close>,
  \<^verbatim>\<open>find_index\<close>, \<^verbatim>\<open>create_id\<close>, \<^verbatim>\<open>get_unlocked\<close>, \<^verbatim>\<open>withdraw\<close>, \<^verbatim>\<open>remove\<close> (\<^verbatim>\<open>rpcs3/Emu/IdManager.h\<close>, \<^verbatim>\<open>.cpp\<close>)
  and the key table \<^verbatim>\<open>ipc_manager\<close> (\<^verbatim>\<open>rpcs3/Emu/IPC.h\<close>). Identifiers are 32 bit words, objects are any
  type. A slot keeps the identifier of its last occupant, so that the low bits of the next one can
  count generations; the theorems are about the shared store of \<^verbatim>\<open>lv2_obj\<close> (8192 slots, step
  0x100, 8 generation bits), where every type is recognised by its \<^verbatim>\<open>id_base\<close>.
\<close>

section \<open>Model\<close>

record id_traits =
  tr_base :: u32
  tr_step :: u32
  tr_count :: u32
  invl_first :: nat
  invl_second :: nat
  uses_lowest_id :: bool

definition get_index :: "u32 \<Rightarrow> id_traits \<Rightarrow> u32" where
  "get_index idn tr =
     (let mask_out = push_bit (invl_first tr) (push_bit (invl_second tr) 1 - 1);
          diff = (idn AND NOT mask_out) - tr_base tr
      in if diff mod tr_step tr \<noteq> 0 then tr_count tr else diff div tr_step tr)"

record id_key =
  m_value :: u32
  m_base :: u32

definition key_none :: id_key where
  "key_none = \<lparr>m_value = 0, m_base = - 1\<rparr>"

definition clear_key :: "id_key \<Rightarrow> id_key" where
  "clear_key k = k\<lparr>m_base := - 1\<rparr>"

record 'a id_map =
  vec_data :: "nat \<Rightarrow> 'a option"
  vec_keys :: "nat \<Rightarrow> id_key"
  highest_index :: u32
  g_id :: u32

definition id_map_empty :: "'a id_map" where
  "id_map_empty = \<lparr>vec_data = (\<lambda>_. None), vec_keys = (\<lambda>_. key_none), highest_index = 0, g_id = 0\<rparr>"

definition put_key :: "nat \<Rightarrow> u32 \<Rightarrow> u32 \<Rightarrow> 'a id_map \<Rightarrow> 'a id_map" where
  "put_key i idn type m = m\<lparr>vec_keys := (vec_keys m)(i := \<lparr>m_value = idn, m_base = type\<rparr>), g_id := idn\<rparr>"

text \<open>The generation bits that follow those of the slot's last identifier.\<close>

definition next_gen :: "u32 \<Rightarrow> id_traits \<Rightarrow> u32" where
  "next_gen v tr =
     (v + push_bit (invl_first tr) 1) AND
       (if invl_second tr \<noteq> 0 then push_bit (invl_first tr) (push_bit (invl_second tr) 1 - 1) else 0)"

fun free_slot :: "(nat \<Rightarrow> id_key) \<Rightarrow> nat \<Rightarrow> nat \<Rightarrow> nat option" where
  "free_slot ks i 0 = None"
| "free_slot ks i (Suc n) = (if m_base (ks i) = - 1 then Some i else free_slot ks (Suc i) n)"

text \<open>
  The outcome of \<^verbatim>\<open>allocate_id\<close>: no slot, the slot that now holds the new key, or the failed
  \<^verbatim>\<open>ensure\<close> of the fixed-position branch.
\<close>

datatype alloc = No_slot | Slot nat | Bad_index

definition allocate_id :: "u32 \<Rightarrow> u32 \<Rightarrow> id_traits \<Rightarrow> 'a id_map \<Rightarrow> alloc \<times> 'a id_map" where
  "allocate_id type_id dst_id tr m =
     (if dst_id \<noteq> (if tr_base tr \<noteq> 0 then 0 else - 1)
      then let index = get_index dst_id tr
           in if \<not> index < tr_count tr then (Bad_index, m)
              else let m1 = m\<lparr>highest_index := max (highest_index m) (index + 1)\<rparr>
                   in if m_base (vec_keys m (unat index)) \<noteq> - 1 then (No_slot, m1)
                      else (Slot (unat index), put_key (unat index) dst_id type_id m1)
      else if \<not> uses_lowest_id tr \<and> highest_index m < tr_count tr
      then let h = highest_index m
           in (Slot (unat h),
               put_key (unat h) (tr_base tr + tr_step tr * h) type_id (m\<lparr>highest_index := h + 1\<rparr>))
      else let m1 = (if uses_lowest_id tr then m\<lparr>highest_index := tr_count tr\<rparr> else m)
           in case free_slot (vec_keys m) 0 (unat (tr_count tr)) of
                None \<Rightarrow> (No_slot, m1)
              | Some i \<Rightarrow>
                  (Slot i, put_key i ((tr_base tr + tr_step tr * of_nat i) OR next_gen (m_value (vec_keys m i)) tr)
                             type_id m1))"

text \<open>\<^verbatim>\<open>find_index\<close> with \<^verbatim>\<open>T\<close> different from \<^verbatim>\<open>Type\<close>: the key's type is compared.\<close>

definition find_index :: "u32 \<Rightarrow> id_traits \<Rightarrow> u32 \<Rightarrow> u32 \<Rightarrow> 'a id_map \<Rightarrow> nat option" where
  "find_index type tr index idn m =
     (if index \<ge> highest_index m then None
      else if vec_data m (unat index) \<noteq> None \<and> m_base (vec_keys m (unat index)) = type
              \<and> (invl_second tr = 0 \<or> m_value (vec_keys m (unat index)) = idn)
      then Some (unat index) else None)"

definition find_id :: "u32 \<Rightarrow> id_traits \<Rightarrow> u32 \<Rightarrow> 'a id_map \<Rightarrow> nat option" where
  "find_id type tr idn m = find_index type tr (get_index idn tr) idn m"

definition get_unlocked :: "u32 \<Rightarrow> id_traits \<Rightarrow> u32 \<Rightarrow> 'a id_map \<Rightarrow> 'a option" where
  "get_unlocked type tr idn m = Option.bind (find_id type tr idn m) (vec_data m)"

text \<open>\<^verbatim>\<open>get\<close> and \<^verbatim>\<open>check\<close> with a function also test the index against the number of slots.\<close>

definition idm_get :: "u32 \<Rightarrow> id_traits \<Rightarrow> u32 \<Rightarrow> 'a id_map \<Rightarrow> 'a option" where
  "idm_get type tr idn m =
     (let index = get_index idn tr
      in if index \<ge> tr_count tr then None
         else Option.bind (find_index type tr index idn m) (vec_data m))"

definition withdraw :: "u32 \<Rightarrow> id_traits \<Rightarrow> u32 \<Rightarrow> 'a id_map \<Rightarrow> 'a option \<times> 'a id_map" where
  "withdraw type tr idn m =
     (case find_id type tr idn m of
        None \<Rightarrow> (None, m)
      | Some i \<Rightarrow>
          (vec_data m i, m\<lparr>vec_data := (vec_data m)(i := None),
                           vec_keys := (vec_keys m)(i := clear_key (vec_keys m i))\<rparr>))"

text \<open>
  \<^verbatim>\<open>create_id\<close>: the provider runs under the lock and may refuse; the slot's key is then reset to the
  initial value. The provider is a state transformer over some state \<open>'s\<close> that may read the new
  identifier (\<^verbatim>\<open>idm::last_id()\<close>).
\<close>

definition create_id ::
  "u32 \<Rightarrow> id_traits \<Rightarrow> u32 \<Rightarrow> (u32 \<Rightarrow> 's \<Rightarrow> 'a option \<times> 's) \<Rightarrow> 'a id_map \<Rightarrow> 's
     \<Rightarrow> 'a option \<times> 'a id_map \<times> 's" where
  "create_id type tr dst provider m s =
     (case allocate_id type dst tr m of
        (Slot i, m1) \<Rightarrow>
          (case provider (g_id m1) s of
             (Some obj, s1) \<Rightarrow> (Some obj, m1\<lparr>vec_data := (vec_data m1)(i := Some obj)\<rparr>, s1)
           | (None, s1) \<Rightarrow> (None, m1\<lparr>vec_keys := (vec_keys m1)(i := key_none)\<rparr>, s1))
      | (_, m1) \<Rightarrow> (None, m1, s))"

text \<open>The IPC table. An entry may exist and hold no object: \<^verbatim>\<open>add\<close> inserts the key before it asks the
  provider.\<close>

type_synonym 'a ipc_map = "u64 \<rightharpoonup> 'a option"

definition ipc_get :: "u64 \<Rightarrow> 'a ipc_map \<Rightarrow> 'a option" where
  "ipc_get key mp = (case mp key of Some p \<Rightarrow> p | None \<Rightarrow> None)"

definition ipc_check :: "u64 \<Rightarrow> 'a ipc_map \<Rightarrow> bool" where
  "ipc_check key mp \<longleftrightarrow> key \<in> dom mp"

definition ipc_remove :: "u64 \<Rightarrow> 'a ipc_map \<Rightarrow> bool \<times> 'a ipc_map" where
  "ipc_remove key mp = (key \<in> dom mp, mp(key := None))"

definition ipc_add ::
  "u64 \<Rightarrow> ('s \<Rightarrow> 'a option \<times> 's) \<Rightarrow> bool \<Rightarrow> 'a ipc_map \<Rightarrow> 's \<Rightarrow> (bool \<times> 'a option) \<times> 'a ipc_map \<times> 's" where
  "ipc_add key provider peek mp s =
     (case ipc_get key mp of
        Some p \<Rightarrow> ((False, if peek then Some p else None), mp, s)
      | None \<Rightarrow>
          (case provider s of
             (p, s1) \<Rightarrow> ((p \<noteq> None, p), mp(key \<mapsto> p), s1)))"

section \<open>The shared store of \<^verbatim>\<open>lv2_obj\<close>\<close>

text \<open>
  \<^verbatim>\<open>lv2_obj\<close> fixes step, count and generation bits; a derived type adds its \<^verbatim>\<open>id_base\<close>, which
  doubles as the type tag of the keys. All bases in \<^verbatim>\<open>kernel/cellos/include\<close> have 24 low zero bits.
\<close>

definition lv2_traits :: "u32 \<Rightarrow> id_traits" where
  "lv2_traits b = \<lparr>tr_base = b, tr_step = 0x100, tr_count = 8192, invl_first = 0, invl_second = 8,
     uses_lowest_id = False\<rparr>"

definition lv2_base :: "u32 \<Rightarrow> bool" where
  "lv2_base b \<longleftrightarrow> b AND 0xFFFFFF = 0 \<and> b \<noteq> 0"

definition mk_id :: "u32 \<Rightarrow> nat \<Rightarrow> u32 \<Rightarrow> u32" where
  "mk_id b i g = (b + 0x100 * of_nat i) OR g"

lemma lv2_traits_sel [simp]:
  "tr_base (lv2_traits b) = b" "tr_step (lv2_traits b) = 0x100" "tr_count (lv2_traits b) = 8192"
  "invl_first (lv2_traits b) = 0" "invl_second (lv2_traits b) = 8" "uses_lowest_id (lv2_traits b) = False"
  by (simp_all add: lv2_traits_def)

lemma lv2_base_neq [simp]: "lv2_base b \<Longrightarrow> b \<noteq> - 1" "lv2_base b \<Longrightarrow> b \<noteq> 0"
  by (auto simp: lv2_base_def)

lemma and_FF_unat: "unat ((x::u32) AND 0xFF) = unat x mod 256"
proof -
  have "x AND 0xFF = take_bit 8 x" by (simp add: take_bit_eq_mask mask_eq_exp_minus_1)
  then show ?thesis by (simp add: take_bit_eq_mod unat_mod)
qed
lemma low_mask_add:
  assumes "(b :: u32) AND 0xFFFFFF = 0"
  shows "(b + 0x100 * of_nat i) AND 0xFF = 0"
proof -
  have "b AND 0xFF = (b AND 0xFFFFFF) AND 0xFF" by (simp add: and.assoc)
  with assms have "unat (b AND 0xFF) = 0" by simp
  then have b: "unat b mod 256 = 0" by (simp only: and_FF_unat)
  have "unat (0x100 * of_nat i :: u32) mod 256 = 0"
    by (simp add: unat_word_ariths mod_mod_cancel)
  then have d: "256 dvd unat (0x100 * of_nat i :: u32)" by (simp only: mod_0_imp_dvd)
  have "unat (b + d) mod 256 = (unat b + unat d) mod 256" for d
    by (subst unat_word_ariths(1)) (simp add: mod_mod_cancel)
  then have "unat (b + 0x100 * of_nat i) mod 256 = 0"
    using b d by (metis dvd_add dvd_imp_mod_0 mod_0_imp_dvd)
  then have "unat ((b + 0x100 * of_nat i) AND 0xFF) = 0" by (simp only: and_FF_unat)
  then show ?thesis by (simp add: unat_eq_0)
qed

lemma split_mask: "(x :: u32) = (x AND m) OR (x AND NOT m)"
  by (metis and.right_neutral bit.conj_disj_distrib bit.disj_cancel_right)

lemma mk_id_strip:
  assumes "b AND 0xFFFFFF = 0" "g AND NOT 0xFF = 0"
  shows "mk_id b i g AND NOT 0xFF = b + 0x100 * of_nat i" "mk_id b i g AND 0xFF = g"
proof -
  let ?x = "b + 0x100 * of_nat i :: u32"
  have x: "?x AND 0xFF = 0" by (rule low_mask_add [OF assms(1)])
  have g: "g AND 0xFF = g" using split_mask [of g "0xFF"] assms(2) by (metis or.right_neutral)
  have "?x AND NOT 0xFF = ?x" using split_mask [of ?x "0xFF"] x by (metis or.left_neutral)
  with assms(2) show "mk_id b i g AND NOT 0xFF = ?x"
    by (simp add: mk_id_def bit.conj_disj_distrib2)
  show "mk_id b i g AND 0xFF = g"
    using x g by (simp add: mk_id_def bit.conj_disj_distrib2)
qed

lemma get_index_mk_id [simp]:
  assumes "lv2_base b" "g AND NOT 0xFF = 0" "i < 8192"
  shows "get_index (mk_id b i g) (lv2_traits b) = of_nat i"
proof -
  let ?d = "0x100 * of_nat i :: u32"
  have i: "unat (of_nat i :: u32) = i" using assms(3) by (simp add: unat_of_nat)
  have u: "unat ?d = 0x100 * i" using assms(3) by (simp add: unat_word_ariths i)
  have m: "?d mod 0x100 = 0"
    by (rule word_unat_eq_iff [THEN iffD2]) (simp add: unat_mod u)
  have d: "?d div 0x100 = of_nat i"
    by (rule word_unat_eq_iff [THEN iffD2]) (simp add: unat_div u i)
  have s: "(mk_id b i g AND NOT 0xFF) - b = ?d"
    using mk_id_strip(1) [of b g i] assms(1,2) unfolding lv2_base_def by (metis add_diff_cancel_left')
  have k: "push_bit 0 (push_bit 8 1 - 1) = (0xFF :: u32)" by simp
  show ?thesis unfolding get_index_def Let_def lv2_traits_sel k s m d by simp
qed

definition idm_inv :: "'a id_map \<Rightarrow> bool" where
  "idm_inv m \<longleftrightarrow> highest_index m \<le> 8192 \<and>
     (\<forall>i. vec_data m i = None \<longleftrightarrow> m_base (vec_keys m i) = - 1) \<and>
     (\<forall>i. vec_data m i \<noteq> None \<longrightarrow> i < unat (highest_index m) \<and> lv2_base (m_base (vec_keys m i)) \<and>
        (\<exists>g. g AND NOT 0xFF = 0 \<and> m_value (vec_keys m i) = mk_id (m_base (vec_keys m i)) i g))"

definition lv2_look :: "u32 \<Rightarrow> u32 \<Rightarrow> 'a id_map \<Rightarrow> 'a option" where
  "lv2_look b idn m = get_unlocked b (lv2_traits b) idn m"

definition lv2_insert :: "u32 \<Rightarrow> 'a \<Rightarrow> 'a id_map \<Rightarrow> u32 option \<times> 'a id_map" where
  "lv2_insert b x m =
     (case create_id b (lv2_traits b) 0 (\<lambda>_ s. (Some x, s)) m () of
        (r, m1, _) \<Rightarrow> (if r = None then None else Some (g_id m1), m1))"

definition lv2_delete :: "u32 \<Rightarrow> u32 \<Rightarrow> 'a id_map \<Rightarrow> 'a id_map" where
  "lv2_delete b idn m = snd (withdraw b (lv2_traits b) idn m)"

lemma idm_inv_bound: "idm_inv m \<Longrightarrow> vec_data m i \<noteq> None \<Longrightarrow> i < 8192"
  by (auto simp: idm_inv_def word_le_nat_alt)

lemma slot_index:
  assumes "idm_inv m" "vec_data m i = Some x" "vec_keys m i = \<lparr>m_value = j, m_base = c\<rparr>"
  shows "get_index j (lv2_traits c) = of_nat i" "(of_nat i :: u32) < highest_index m"
    "unat (of_nat i :: u32) = i"
proof -
  have i: "i < 8192" "i < unat (highest_index m)" using assms idm_inv_bound [of m i]
    by (auto simp: idm_inv_def)
  show u: "unat (of_nat i :: u32) = i" using i(1) by (simp add: unat_of_nat)
  show "(of_nat i :: u32) < highest_index m" using i(2) by (simp add: word_less_nat_alt u)
  from assms obtain g where "g AND NOT 0xFF = 0" "j = mk_id c i g" "lv2_base c"
    unfolding idm_inv_def by (metis id_key.select_convs option.distinct(1))
  then show "get_index j (lv2_traits c) = of_nat i" using i(1) by simp
qed

lemma lv2_look_iff:
  assumes "idm_inv m"
  shows "lv2_look c j m = Some x \<longleftrightarrow>
    (\<exists>i. vec_data m i = Some x \<and> vec_keys m i = \<lparr>m_value = j, m_base = c\<rparr>)"
proof
  assume "lv2_look c j m = Some x"
  then show "\<exists>i. vec_data m i = Some x \<and> vec_keys m i = \<lparr>m_value = j, m_base = c\<rparr>"
    by (auto simp: lv2_look_def get_unlocked_def find_id_def find_index_def bind_eq_Some_conv
        split: if_splits intro!: exI [of _ "unat (get_index j (lv2_traits c))"])
next
  assume "\<exists>i. vec_data m i = Some x \<and> vec_keys m i = \<lparr>m_value = j, m_base = c\<rparr>"
  then obtain i where i: "vec_data m i = Some x" "vec_keys m i = \<lparr>m_value = j, m_base = c\<rparr>" by blast
  from slot_index [OF assms this] i show "lv2_look c j m = Some x"
    by (simp add: lv2_look_def get_unlocked_def find_id_def find_index_def not_le)
qed

lemma lv2_look_unique:
  assumes "idm_inv m" "vec_data m i = Some x" "vec_keys m i = \<lparr>m_value = j, m_base = c\<rparr>"
    and "vec_data m i' = Some x'" "vec_keys m i' = \<lparr>m_value = j, m_base = c\<rparr>"
  shows "i' = i"
  using slot_index [OF assms(1-3)] slot_index [OF assms(1,4,5)] by metis

lemma free_slot_Some: "free_slot ks i n = Some j \<Longrightarrow> i \<le> j \<and> j < i + n \<and> m_base (ks j) = - 1"
  by (induction ks i n rule: free_slot.induct) (force split: if_splits)+

lemma free_slot_None: "free_slot ks i n = None \<Longrightarrow> i \<le> j \<Longrightarrow> j < i + n \<Longrightarrow> m_base (ks j) \<noteq> - 1"
  by (induction ks i n rule: free_slot.induct) (force split: if_splits simp: le_eq_less_or_eq)+

lemma next_gen_lv2 [simp]: "next_gen v (lv2_traits b) = (v + 1) AND 0xFF"
  by (simp add: next_gen_def)

lemma allocate_lv2:
  assumes inv: "idm_inv m" and b: "lv2_base b"
  obtains (full) "allocate_id b 0 (lv2_traits b) m = (No_slot, m)"
      "\<And>i. i < 8192 \<Longrightarrow> vec_data m i \<noteq> None"
  | (slot) i g h where "allocate_id b 0 (lv2_traits b) m =
        (Slot i, put_key i (mk_id b i g) b (m\<lparr>highest_index := h\<rparr>))"
      "i < 8192" "i < unat h" "g AND NOT 0xFF = 0" "vec_data m i = None" "highest_index m \<le> h" "h \<le> 8192"
      "g = 0 \<and> i = unat (highest_index m) \<or> g = (m_value (vec_keys m i) + 1) AND 0xFF"
proof (cases "highest_index m < 8192")
  case True
  let ?h = "highest_index m"
  have u: "unat (?h + 1) = Suc (unat ?h)" and lt: "unat ?h < 8192"
    using True by (simp_all add: word_less_nat_alt unat_word_ariths)
  have "vec_data m (unat ?h) = None" using inv by (auto simp: idm_inv_def)
  moreover have "mk_id b (unat ?h) 0 = b + 0x100 * ?h" by (simp add: mk_id_def)
  ultimately show ?thesis
    using slot [of "unat ?h" 0 "?h + 1"] True b u lt
    by (simp add: allocate_id_def Let_def word_le_nat_alt word_less_nat_alt)
next
  case False
  then have h: "highest_index m = 8192" using inv by (simp add: idm_inv_def)
  show ?thesis
  proof (cases "free_slot (vec_keys m) 0 8192")
    case None
    then have "vec_data m i \<noteq> None" if "i < 8192" for i
      using free_slot_None [OF None, of i] that inv by (auto simp: idm_inv_def)
    with None h b full show ?thesis by (simp add: allocate_id_def)
  next
    case (Some i)
    with free_slot_Some [OF Some] have i: "i < 8192" "vec_data m i = None"
      using inv by (auto simp: idm_inv_def)
    have eq: "allocate_id b 0 (lv2_traits b) m =
        (Slot i, put_key i (mk_id b i ((m_value (vec_keys m i) + 1) AND 0xFF)) b (m\<lparr>highest_index := 8192\<rparr>))"
    proof -
      have hm: "m\<lparr>highest_index := 8192\<rparr> = m" using h by (cases m) simp
      show ?thesis unfolding hm using Some h b by (simp add: allocate_id_def mk_id_def)
    qed
    show ?thesis
      by (rule slot [OF eq]) (use i h in \<open>simp_all add: and.assoc\<close>)
  qed
qed

text \<open>Filling a free slot under the store's own key keeps the invariant and adds one binding.\<close>

lemma idm_inv_fill:
  assumes "idm_inv m" "lv2_base b" "i < unat h" "g AND NOT 0xFF = 0" "vec_data m i = None"
    "highest_index m \<le> h" "h \<le> 8192"
  defines "m1 \<equiv> put_key i (mk_id b i g) b (m\<lparr>highest_index := h\<rparr>)"
  shows "idm_inv (m1\<lparr>vec_data := (vec_data m1)(i := Some x)\<rparr>)"
    and "idm_inv (m1\<lparr>vec_keys := (vec_keys m1)(i := key_none)\<rparr>)"
  using assms unfolding idm_inv_def m1_def
  by (auto simp: put_key_def word_le_nat_alt key_none_def intro: less_le_trans)

lemma lv2_insert_cases:
  assumes inv: "idm_inv m" and b: "lv2_base b"
  obtains (full) "lv2_insert b x m = (None, m)" "\<And>i. i < 8192 \<Longrightarrow> vec_data m i \<noteq> None"
  | (slot) i g m1 where "lv2_insert b x m = (Some (mk_id b i g), m1)" "idm_inv m1" "vec_data m i = None"
      "vec_data m1 = (vec_data m)(i := Some x)"
      "vec_keys m1 = (vec_keys m)(i := \<lparr>m_value = mk_id b i g, m_base = b\<rparr>)"
      "g AND NOT 0xFF = 0" "i < 8192"
      "g = 0 \<and> i = unat (highest_index m) \<or> g = (m_value (vec_keys m i) + 1) AND 0xFF"
proof (rule allocate_lv2 [OF inv b])
  assume "allocate_id b 0 (lv2_traits b) m = (No_slot, m)" "\<And>i. i < 8192 \<Longrightarrow> vec_data m i \<noteq> None"
  then show ?thesis using full by (simp add: lv2_insert_def create_id_def)
next
  fix i g h
  assume a: "allocate_id b 0 (lv2_traits b) m = (Slot i, put_key i (mk_id b i g) b (m\<lparr>highest_index := h\<rparr>))"
    and s: "i < 8192" "i < unat h" "g AND NOT 0xFF = 0" "vec_data m i = None" "highest_index m \<le> h" "h \<le> 8192"
      "g = 0 \<and> i = unat (highest_index m) \<or> g = (m_value (vec_keys m i) + 1) AND 0xFF"
  let ?m = "put_key i (mk_id b i g) b (m\<lparr>highest_index := h\<rparr>)"
  have eq: "lv2_insert b x m = (Some (mk_id b i g), ?m\<lparr>vec_data := (vec_data ?m)(i := Some x)\<rparr>)"
    using a by (simp add: lv2_insert_def create_id_def put_key_def)
  show ?thesis
    using slot [OF eq] idm_inv_fill [OF inv b s(2-6)] s by (simp add: put_key_def)
qed

lemma lv2_delete_cases:
  assumes "idm_inv m"
  obtains (absent) "lv2_look b j m = None" "lv2_delete b j m = m"
  | (slot) i x where "vec_data m i = Some x" "vec_keys m i = \<lparr>m_value = j, m_base = b\<rparr>"
      "lv2_look b j m = Some x" "vec_data (lv2_delete b j m) = (vec_data m)(i := None)"
      "vec_keys (lv2_delete b j m) = (vec_keys m)(i := \<lparr>m_value = j, m_base = - 1\<rparr>)"
      "highest_index (lv2_delete b j m) = highest_index m"
proof (cases "lv2_look b j m")
  case None
  then have "find_id b (lv2_traits b) j m = None"
    by (auto simp: lv2_look_def get_unlocked_def find_id_def find_index_def split: if_splits)
  with None absent show ?thesis by (simp add: lv2_delete_def withdraw_def)
next
  case (Some x)
  with lv2_look_iff [OF assms] obtain i where
    i: "vec_data m i = Some x" "vec_keys m i = \<lparr>m_value = j, m_base = b\<rparr>" by blast
  from slot_index [OF assms this] i have "find_id b (lv2_traits b) j m = Some i"
    by (simp add: find_id_def find_index_def not_le)
  then show ?thesis using slot [OF i Some] i by (simp add: lv2_delete_def withdraw_def clear_key_def)
qed

lemma idm_inv_delete: "idm_inv m \<Longrightarrow> idm_inv (lv2_delete b j m)"
proof -
  assume inv: "idm_inv m"
  show ?thesis
    by (rule lv2_delete_cases [OF inv, of b j]) (use inv in \<open>auto simp: idm_inv_def\<close>)
qed

lemma lv2_look_delete:
  assumes inv: "idm_inv m"
  shows "lv2_look c k (lv2_delete b j m) = (if c = b \<and> k = j then None else lv2_look c k m)"
proof (rule lv2_delete_cases [OF inv, of b j])
  fix i y
  let ?m = "lv2_delete b j m"
  assume d: "vec_data m i = Some y" "vec_keys m i = \<lparr>m_value = j, m_base = b\<rparr>"
    "vec_data ?m = (vec_data m)(i := None)"
    "vec_keys ?m = (vec_keys m)(i := \<lparr>m_value = j, m_base = - 1\<rparr>)"
  note iff = lv2_look_iff [OF inv] lv2_look_iff [OF idm_inv_delete [OF inv, of b j]]
  have "lv2_look c k ?m = Some z \<longleftrightarrow> \<not> (c = b \<and> k = j) \<and> lv2_look c k m = Some z" for z
  proof
    assume "lv2_look c k ?m = Some z"
    then obtain i' where i': "vec_data ?m i' = Some z" "vec_keys ?m i' = \<lparr>m_value = k, m_base = c\<rparr>"
      unfolding iff by blast
    then have "i' \<noteq> i" by (auto simp: d(3))
    with i' have "vec_data m i' = Some z" "vec_keys m i' = \<lparr>m_value = k, m_base = c\<rparr>"
      by (simp_all add: d(3,4))
    with \<open>i' \<noteq> i\<close> lv2_look_unique [OF inv d(1,2)] show "\<not> (c = b \<and> k = j) \<and> lv2_look c k m = Some z"
      unfolding iff by blast
  next
    assume "\<not> (c = b \<and> k = j) \<and> lv2_look c k m = Some z"
    then obtain i' where i': "vec_data m i' = Some z" "vec_keys m i' = \<lparr>m_value = k, m_base = c\<rparr>"
      "\<not> (c = b \<and> k = j)" unfolding iff by blast
    then have "i' \<noteq> i" using d(2) by auto
    with i' have "vec_data ?m i' = Some z" "vec_keys ?m i' = \<lparr>m_value = k, m_base = c\<rparr>"
      by (simp_all add: d(3,4))
    then show "lv2_look c k ?m = Some z" unfolding iff by blast
  qed
  then show ?thesis by (metis not_None_eq)
qed auto

lemma lv2_insert_fresh:
  assumes inv: "idm_inv m" and b: "lv2_base b" and ins: "lv2_insert b x m = (Some j, m')"
  shows "lv2_look b j m = None"
proof (rule lv2_insert_cases [OF inv b, of x])
  fix i g m1 assume n: "lv2_insert b x m = (Some (mk_id b i g), m1)" "vec_data m i = None"
    and g: "g AND NOT 0xFF = 0" "i < 8192"
  then have "get_index j (lv2_traits b) = of_nat i" using ins b by simp
  with g(2) have "unat (get_index j (lv2_traits b)) = i" by (simp add: unat_of_nat)
  with n(2) show "lv2_look b j m = None"
    by (auto simp: lv2_look_def get_unlocked_def find_id_def find_index_def split: if_splits)
qed (use ins in simp)

lemma lv2_look_insert:
  assumes inv: "idm_inv m" and b: "lv2_base b" and ins: "lv2_insert b x m = (Some j, m')"
  shows "lv2_look c k m' = (if c = b \<and> k = j then Some x else lv2_look c k m)"
proof (rule lv2_insert_cases [OF inv b, of x])
  fix i g m1
  assume n: "lv2_insert b x m = (Some (mk_id b i g), m1)" "idm_inv m1" "vec_data m i = None"
    "vec_data m1 = (vec_data m)(i := Some x)"
    "vec_keys m1 = (vec_keys m)(i := \<lparr>m_value = mk_id b i g, m_base = b\<rparr>)"
  with ins have m': "m' = m1" "j = mk_id b i g" by simp_all
  have own: "vec_data m1 i = Some x" "vec_keys m1 i = \<lparr>m_value = j, m_base = b\<rparr>"
    by (simp_all add: n m')
  note iff = lv2_look_iff [OF inv] lv2_look_iff [OF n(2)]
  have same: "vec_data m1 i' = vec_data m i'" "vec_keys m1 i' = vec_keys m i'" if "i' \<noteq> i" for i'
    using that by (simp_all add: n(4,5))
  have "lv2_look c k m1 = Some z \<longleftrightarrow> lv2_look c k m = Some z" if ne: "\<not> (c = b \<and> k = j)" for z
    unfolding iff
  proof (rule ex_cong1)
    fix i'
    show "(vec_data m1 i' = Some z \<and> vec_keys m1 i' = \<lparr>m_value = k, m_base = c\<rparr>) =
        (vec_data m i' = Some z \<and> vec_keys m i' = \<lparr>m_value = k, m_base = c\<rparr>)"
      using same [of i'] own n(3) ne by (cases "i' = i") auto
  qed
  then have "\<not> (c = b \<and> k = j) \<Longrightarrow> lv2_look c k m1 = lv2_look c k m" by (metis not_None_eq)
  moreover have "lv2_look b j m1 = Some x" unfolding iff using own by blast
  ultimately show ?thesis unfolding m'(1) by simp
qed (use ins in simp)

section \<open>The store as a map from handles to objects\<close>

text \<open>
  What the system calls rely on: a handle (type and identifier) names at most one object, creation
  binds a handle that was free and changes no other binding, destruction removes exactly one.
\<close>

locale handle_store =
  fixes inv :: "'m \<Rightarrow> bool"
    and look :: "u32 \<Rightarrow> u32 \<Rightarrow> 'm \<Rightarrow> 'a option"
    and ins :: "u32 \<Rightarrow> 'a \<Rightarrow> 'm \<Rightarrow> u32 option \<times> 'm"
    and del :: "u32 \<Rightarrow> u32 \<Rightarrow> 'm \<Rightarrow> 'm"
  assumes ins_inv: "inv m \<Longrightarrow> lv2_base b \<Longrightarrow> inv (snd (ins b x m))"
    and del_inv: "inv m \<Longrightarrow> inv (del b j m)"
    and ins_fresh: "inv m \<Longrightarrow> lv2_base b \<Longrightarrow> ins b x m = (Some j, m') \<Longrightarrow> look b j m = None"
    and ins_look: "inv m \<Longrightarrow> lv2_base b \<Longrightarrow> ins b x m = (Some j, m') \<Longrightarrow>
      look c k m' = (if c = b \<and> k = j then Some x else look c k m)"
    and ins_full: "inv m \<Longrightarrow> lv2_base b \<Longrightarrow> ins b x m = (None, m') \<Longrightarrow> m' = m"
    and del_look: "inv m \<Longrightarrow> look c k (del b j m) = (if c = b \<and> k = j then None else look c k m)"
begin

definition abs :: "'m \<Rightarrow> u32 \<times> u32 \<rightharpoonup> 'a" where
  "abs m = (\<lambda>(c, k). look c k m)"

lemma abs_ins: "inv m \<Longrightarrow> lv2_base b \<Longrightarrow> ins b x m = (Some j, m') \<Longrightarrow>
    abs m' = (abs m)((b, j) \<mapsto> x) \<and> (b, j) \<notin> dom (abs m)"
  using ins_look ins_fresh by (auto simp: abs_def fun_eq_iff)

lemma abs_del: "inv m \<Longrightarrow> abs (del b j m) = (abs m)((b, j) := None)"
  by (auto simp: abs_def fun_eq_iff del_look)

lemma ins_del_abs: "inv m \<Longrightarrow> lv2_base b \<Longrightarrow> ins b x m = (Some j, m') \<Longrightarrow> abs (del b j m') = abs m"
  using abs_ins [of m b x j m'] abs_del [of m' b j] ins_inv [of m b x] by (auto simp: fun_upd_idem)

lemma two_handles_differ:
  assumes "inv m" "lv2_base b" "ins b x m = (Some j, m1)" "ins b y m1 = (Some k, m2)"
  shows "j \<noteq> k"
proof -
  have "inv m1" using ins_inv [OF assms(1,2), of x] assms(3) by simp
  then have "look b k m1 = None" using ins_fresh assms(2,4) by blast
  moreover have "look b j m1 = Some x" using ins_look [OF assms(1-3)] by simp
  ultimately show ?thesis by auto
qed

end

interpretation idm: handle_store idm_inv lv2_look lv2_insert lv2_delete
proof unfold_locales
  fix m :: "'a id_map" and b x m'
  assume inv: "idm_inv m" and b: "lv2_base b"
  show "idm_inv (snd (lv2_insert b x m))"
    by (rule lv2_insert_cases [OF inv b, of x]) (simp_all add: inv)
  show "lv2_insert b x m = (None, m') \<Longrightarrow> m' = m"
    by (rule lv2_insert_cases [OF inv b, of x]) simp_all
qed (simp_all add: idm_inv_delete lv2_look_delete lv2_insert_fresh lv2_look_insert)

section \<open>Properties\<close>

lemma idm_get_lv2_look: "idm_inv m \<Longrightarrow> idm_get b (lv2_traits b) j m = lv2_look b j m"
  by (auto simp: idm_get_def lv2_look_def get_unlocked_def find_id_def find_index_def idm_inv_def Let_def)

lemma idm_inv_empty [simp]: "idm_inv id_map_empty"
  by (simp add: idm_inv_def id_map_empty_def key_none_def)

text \<open>
  Claim C14. The store is a map from handles to objects. Creating an object either fails with the store
  unchanged, and then all 8192 slots are taken, or returns a handle that resolved to nothing before,
  resolves to the new object afterwards, and leaves every other handle of every type as it was;
  destroying it again restores all handles. The checked lookup \<^verbatim>\<open>idm::get\<close> agrees with
  \<^verbatim>\<open>get_unlocked\<close>.
\<close>

theorem idm_create_destroy:
  assumes "idm_inv m" "lv2_base b"
  shows "case lv2_insert b x m of
      (None, m') \<Rightarrow> m' = m \<and> (\<forall>i < 8192. vec_data m i \<noteq> None)
    | (Some j, m') \<Rightarrow> idm_inv m' \<and> lv2_look b j m = None \<and>
        (\<forall>c k. lv2_look c k m' = (if c = b \<and> k = j then Some x else lv2_look c k m)) \<and>
        (\<forall>c k. lv2_look c k (lv2_delete b j m') = lv2_look c k m) \<and>
        (\<forall>c k. idm_get c (lv2_traits c) k m' = lv2_look c k m')"
proof (rule lv2_insert_cases [OF assms, of x])
  fix i g m1 assume n: "lv2_insert b x m = (Some (mk_id b i g), m1)" "idm_inv m1"
  note facts = idm.ins_fresh [OF assms n(1)] idm.ins_look [OF assms n(1)]
  have "lv2_look c k (lv2_delete b (mk_id b i g) m1) = lv2_look c k m" for c k
    using facts by (simp add: idm.del_look [OF n(2)])
  with n facts show ?thesis by (simp add: idm_get_lv2_look)
qed simp

theorem idm_create_destroy_witness:
  "lv2_insert 0x85000000 (7 :: nat) id_map_empty \<noteq> (None, id_map_empty) \<and>
   (\<exists>m'. lv2_insert 0x85000000 (7 :: nat) id_map_empty = (Some 0x85000000, m') \<and>
      lv2_look 0x85000000 0x85000000 m' = Some 7)"
proof -
  have b: "lv2_base 0x85000000" by (simp add: lv2_base_def)
  obtain m' where m': "lv2_insert 0x85000000 (7 :: nat) id_map_empty = (Some 0x85000000, m')"
    by (simp add: lv2_insert_def create_id_def allocate_id_def id_map_empty_def put_key_def)
  with idm_create_destroy [OF idm_inv_empty b, of "7 :: nat"] show ?thesis by simp
qed

lemma gen_step: "((v :: u32) + 1) AND 0xFF \<noteq> v AND 0xFF"
proof
  assume "(v + 1) AND 0xFF = v AND 0xFF"
  from arg_cong [OF this, of unat] have "unat (v + 1) mod 256 = unat v mod 256"
    by (simp only: and_FF_unat)
  moreover have "unat (v + 1) mod 256 = (unat v + 1) mod 256"
    by (subst unat_word_ariths(1)) (simp add: mod_mod_cancel)
  moreover have "(n + 1) mod 256 \<noteq> n mod 256" for n :: nat by (simp add: mod_Suc)
  ultimately show False by metis
qed

text \<open>
  A destroyed handle stays dead when its slot is used again: the next object created after
  the destruction, of whatever type, does not get the old handle, so the old handle still resolves to
  nothing.
\<close>

theorem idm_stale_handle:
  assumes inv: "idm_inv m" and b: "lv2_base b" "lv2_base c" and l: "lv2_look b j m = Some x"
    and ins: "lv2_insert c y (lv2_delete b j m) = (Some k, m')"
  shows "lv2_look b j m' = None"
proof -
  let ?m = "lv2_delete b j m"
  have inv': "idm_inv ?m" by (rule idm_inv_delete [OF inv])
  have gone: "lv2_look b j ?m = None" by (simp add: idm.del_look [OF inv])
  have "j \<noteq> k" if cb: "c = b"
  proof
    assume jk: "j = k"
    obtain i0 where i0: "vec_data m i0 \<noteq> None" "vec_keys m i0 = \<lparr>m_value = j, m_base = b\<rparr>"
      and keys: "m_value (vec_keys ?m i0) = j" "highest_index ?m = highest_index m"
    proof (rule lv2_delete_cases [OF inv, of b j])
      fix i y assume "vec_data m i = Some y" "vec_keys m i = \<lparr>m_value = j, m_base = b\<rparr>"
        "vec_keys ?m = (vec_keys m)(i := \<lparr>m_value = j, m_base = - 1\<rparr>)"
        "highest_index ?m = highest_index m"
      then show thesis using that [of i] by simp
    qed (use l in simp)
    from i0 obtain x0 where "vec_data m i0 = Some x0" by blast
    note si = slot_index [OF inv this i0(2)]
    show False
    proof (rule lv2_insert_cases [OF inv' b(2), of y])
      fix i g m1
      assume n: "lv2_insert c y ?m = (Some (mk_id c i g), m1)" "g AND NOT 0xFF = 0" "i < 8192"
        "g = 0 \<and> i = unat (highest_index ?m) \<or> g = (m_value (vec_keys ?m i) + 1) AND 0xFF"
      then have j: "j = mk_id b i g" using ins jk cb by simp
      have "of_nat i = (of_nat i0 :: u32)"
        using get_index_mk_id [OF b(1) n(2,3)] si(1) j by simp
      moreover have "unat (of_nat i :: u32) = i" using n(3) by (simp add: unat_of_nat)
      ultimately have i: "i = i0" using si(3) by metis
      have "i0 < unat (highest_index m)" using inv i0(1) unfolding idm_inv_def by blast
      with n(4) i keys have "g = (j + 1) AND 0xFF" by auto
      moreover have "b AND 0xFFFFFF = 0" using b(1) by (simp only: lv2_base_def)
      from mk_id_strip(2) [OF this n(2), of i] j have "j AND 0xFF = g" by (simp only:)
      ultimately show False using gen_step [of j] by metis
    qed (use ins in simp)
  qed
  then show ?thesis using idm.ins_look [OF inv' b(2) ins, of b j] gone by simp
qed

text \<open>A full store: every slot holds a semaphore of generation 1.\<close>

definition full_store :: "nat id_map" where
  "full_store = \<lparr>vec_data = (\<lambda>i. if i < 8192 then Some i else None),
     vec_keys = (\<lambda>i. if i < 8192 then \<lparr>m_value = mk_id 0x96000000 i 1, m_base = 0x96000000\<rparr> else key_none),
     highest_index = 8192, g_id = 0\<rparr>"

lemma free_slot_first: "m_base (ks 0) = - 1 \<Longrightarrow> 0 < n \<Longrightarrow> free_slot ks 0 n = Some 0"
  by (cases n) simp_all

lemma free_slot_upd: "free_slot ks a n = Some i \<Longrightarrow> m_base k = - 1 \<Longrightarrow> free_slot (ks(i := k)) a n = Some i"
  by (induction ks a n rule: free_slot.induct) (auto split: if_splits)

lemma lv2_insert_used:
  assumes "free_slot (vec_keys m) 0 8192 = Some i" "highest_index m = 8192" "lv2_base c"
  shows "\<exists>m'. lv2_insert c y m = (Some (mk_id c i ((m_value (vec_keys m i) + 1) AND 0xFF)), m')"
  using assms by (simp add: lv2_insert_def create_id_def allocate_id_def put_key_def mk_id_def)

text \<open>
  Claim C37. A creation that fails after its slot was chosen resets the slot's key, and with it the
  generation bits, in any store and for any base; objects and other keys stay as they are. In a store whose
  slots have all been in use, the next creation would have given the slot's following generation, and
  gives generation 1 instead, whatever generations the slot had gone through: a destroyed handle of
  generation 1, which resolved to nothing, then resolves to the new object.
\<close>

theorem failed_create_forgets_generation:
  assumes inv: "idm_inv m" and b: "lv2_base b" "lv2_base c"
    and alloc: "allocate_id b 0 (lv2_traits b) m = (Slot i, m1)" and refused: "provider (g_id m1) s = (None, s')"
  shows "\<exists>m2. create_id b (lv2_traits b) 0 provider m s = (None, m2, s') \<and> idm_inv m2 \<and>
    vec_data m2 = vec_data m \<and> vec_keys m2 = (vec_keys m)(i := key_none) \<and>
    (highest_index m = 8192 \<longrightarrow>
       (\<exists>m3. lv2_insert c y m = (Some (mk_id c i ((m_value (vec_keys m i) + 1) AND 0xFF)), m3)) \<and>
       lv2_look c (mk_id c i 1) m = None \<and>
       (\<exists>m4. lv2_insert c y m2 = (Some (mk_id c i 1), m4) \<and> lv2_look c (mk_id c i 1) m4 = Some y))"
proof -
  define m2 where "m2 = m1\<lparr>vec_keys := (vec_keys m1)(i := key_none)\<rparr>"
  obtain g h where m1: "m1 = put_key i (mk_id b i g) b (m\<lparr>highest_index := h\<rparr>)" and i: "i < 8192"
    and h: "highest_index m \<le> h" "h \<le> 8192" and free: "vec_data m i = None"
  proof (rule allocate_lv2 [OF inv b(1)])
    fix k g h
    assume "allocate_id b 0 (lv2_traits b) m = (Slot k, put_key k (mk_id b k g) b (m\<lparr>highest_index := h\<rparr>))"
      "k < 8192" "highest_index m \<le> h" "h \<le> 8192" "vec_data m k = None"
    then show thesis using alloc that [of g h] by simp
  qed (use alloc in simp)
  have m2: "vec_data m2 = vec_data m" "vec_keys m2 = (vec_keys m)(i := key_none)" "highest_index m2 = h"
    by (simp_all add: m2_def m1 put_key_def)
  have run: "create_id b (lv2_traits b) 0 provider m s = (None, m2, s')"
    by (simp add: create_id_def alloc refused m2_def)
  have inv2: "idm_inv m2"
    using inv h free unfolding idm_inv_def m2 by (auto simp: key_none_def word_le_nat_alt)
  have "(\<exists>m3. lv2_insert c y m = (Some (mk_id c i ((m_value (vec_keys m i) + 1) AND 0xFF)), m3)) \<and>
      lv2_look c (mk_id c i 1) m = None \<and>
      (\<exists>m4. lv2_insert c y m2 = (Some (mk_id c i 1), m4) \<and> lv2_look c (mk_id c i 1) m4 = Some y)"
    if full: "highest_index m = 8192"
  proof (intro conjI)
    have f: "free_slot (vec_keys m) 0 8192 = Some i"
      using alloc full b(1) by (auto simp: allocate_id_def split: option.splits)
    show "\<exists>m3. lv2_insert c y m = (Some (mk_id c i ((m_value (vec_keys m i) + 1) AND 0xFF)), m3)"
      by (rule lv2_insert_used [OF f full b(2)])
    have ix: "get_index (mk_id c i 1) (lv2_traits c) = of_nat i" using i b(2) by simp
    show "lv2_look c (mk_id c i 1) m = None"
      using free i by (simp add: lv2_look_def get_unlocked_def find_id_def find_index_def ix unat_of_nat)
    have "free_slot (vec_keys m2) 0 8192 = Some i" using free_slot_upd [OF f, of key_none] by (simp add: m2 key_none_def)
    moreover have "highest_index m2 = 8192" using order.antisym [OF h(2)] h(1) full by (simp only: m2)
    ultimately obtain m4 where "lv2_insert c y m2 = (Some (mk_id c i ((m_value (vec_keys m2 i) + 1) AND 0xFF)), m4)"
      using lv2_insert_used [OF _ _ b(2), of m2 i y] by blast
    moreover have "(m_value (vec_keys m2 i) + 1) AND 0xFF = 1" by (simp add: m2 key_none_def)
    ultimately have "lv2_insert c y m2 = (Some (mk_id c i 1), m4)" by (simp only:)
    with idm.ins_look [OF inv2 b(2) this, of c]
    show "\<exists>m4. lv2_insert c y m2 = (Some (mk_id c i 1), m4) \<and> lv2_look c (mk_id c i 1) m4 = Some y" by simp
  qed
  with run inv2 m2(1,2) show ?thesis by blast
qed

text \<open>From the full store: the first semaphore is destroyed, a creation fails, the next one succeeds.\<close>

theorem failed_create_forgets_generation_witness:
  "let b = 0x96000000; j = 0x96000001;
       m1 = lv2_delete b j full_store;
       m2 = fst (snd (create_id b (lv2_traits b) 0 (\<lambda>_ s. (None, s)) m1 ()));
       m3 = snd (lv2_insert b 99 m2)
   in lv2_look b j full_store = Some 0 \<and> lv2_look b j m1 = None \<and> lv2_look b j m3 = Some 99"
proof -
  let ?b = "0x96000000 :: u32" and ?j = "0x96000001 :: u32" and ?p = "\<lambda>_ s. (None :: nat option, s)"
  define m1 where "m1 = lv2_delete ?b ?j full_store"
  have ix: "get_index ?j (lv2_traits ?b) = 0" by (simp add: get_index_def)
  have base: "lv2_base ?b" by (simp add: lv2_base_def)
  have full: "idm_inv full_store"
    unfolding idm_inv_def by (auto simp: full_store_def key_none_def base intro!: exI [of _ 1])
  then have inv: "idm_inv m1" unfolding m1_def by (rule idm_inv_delete)
  have look: "lv2_look ?b ?j full_store = Some 0"
    by (simp add: lv2_look_def get_unlocked_def find_id_def find_index_def ix full_store_def mk_id_def)
  have m1: "vec_keys m1 0 = \<lparr>m_value = ?j, m_base = - 1\<rparr>" "highest_index m1 = 8192"
    by (simp_all add: m1_def lv2_delete_def withdraw_def find_id_def find_index_def ix clear_key_def
        full_store_def mk_id_def)
  then obtain m' where a: "allocate_id ?b 0 (lv2_traits ?b) m1 = (Slot 0, m')"
    by (simp add: allocate_id_def free_slot_first)
  from failed_create_forgets_generation [OF inv base base a, of ?p "()" "()" 99] m1(2) look show ?thesis
    unfolding Let_def m1_def [symmetric] by (auto simp: mk_id_def)
qed

theorem idm_stale_handle_witness:
  "let m = snd (lv2_insert 0x85000000 (7 :: nat) id_map_empty);
       m' = snd (lv2_insert 0x85000000 8 (lv2_delete 0x85000000 0x85000000 m))
   in lv2_look 0x85000000 0x85000000 m = Some 7 \<and> lv2_look 0x85000000 0x85000000 m' = None"
proof -
  let ?b = "0x85000000 :: u32"
  have b: "lv2_base ?b" by (simp add: lv2_base_def)
  have ix: "get_index ?b (lv2_traits ?b) = 0" by (simp add: get_index_def)
  define m where "m = snd (lv2_insert ?b (7 :: nat) id_map_empty)"
  have inv: "idm_inv m" unfolding m_def by (rule idm.ins_inv [OF idm_inv_empty b])
  have m: "vec_data m 0 = Some 7" "vec_keys m 0 = \<lparr>m_value = ?b, m_base = ?b\<rparr>" "highest_index m = 1"
    by (simp_all add: m_def lv2_insert_def create_id_def allocate_id_def id_map_empty_def put_key_def)
  have l: "lv2_look ?b ?b m = Some 7"
    using m by (simp add: lv2_look_def get_unlocked_def find_id_def find_index_def ix)
  have "highest_index (lv2_delete ?b ?b m) = 1"
    using m by (simp add: lv2_delete_def withdraw_def split: option.splits)
  then obtain k m' where k: "lv2_insert ?b 8 (lv2_delete ?b ?b m) = (Some k, m')"
    by (simp add: lv2_insert_def create_id_def allocate_id_def)
  from idm_stale_handle [OF inv b b l k] l k show ?thesis
    unfolding Let_def m_def [symmetric] by simp
qed

end
