(* ===== verification/Guest_Memory.thy ===== *)
theory Guest_Memory
  imports Prelude
begin

text \<open>
  Guest memory (\<^verbatim>\<open>rpcs3/Emu/Memory/vm.h\<close>): bytes at the offsets from the base of the 4 GiB window, and the
  big-endian representation (\<^verbatim>\<open>be_t\<close>) of the values in it. The host pointers of \<^verbatim>\<open>vm::base\<close> and
  \<^verbatim>\<open>vm::ptr::get_ptr\<close> do not wrap at the end of the window, so an offset is a natural number. The kernel
  calls and the loads and stores of the interpreter share these functions. Which pages are mapped is not
  modelled.
\<close>

section \<open>Model\<close>

definition vm_read :: "nat \<Rightarrow> nat \<Rightarrow> (nat \<Rightarrow> u8) \<Rightarrow> u8 list" where
  "vm_read a n m = map (\<lambda>k. m (a + k)) [0 ..< n]"

definition vm_write :: "nat \<Rightarrow> u8 list \<Rightarrow> (nat \<Rightarrow> u8) \<Rightarrow> nat \<Rightarrow> u8" where
  "vm_write a bs m = (\<lambda>i. if a \<le> i \<and> i < a + length bs then bs ! (i - a) else m i)"

text \<open>Big-endian bytes of a word.\<close>

definition be_bytes :: "'a::len word \<Rightarrow> u8 list" where
  "be_bytes w = map (\<lambda>k. ucast (drop_bit (LENGTH('a) - 8 - 8 * k) w)) [0 ..< LENGTH('a) div 8]"

definition of_be :: "u8 list \<Rightarrow> 'a::len word" where
  "of_be bs = foldl (\<lambda>v b. push_bit 8 v OR ucast b) 0 bs"

section \<open>Bytes and words\<close>

lemma length_be_bytes [simp]: "length (be_bytes (w::'a::len word)) = LENGTH('a) div 8"
  by (simp add: be_bytes_def)

lemma bit_byte: "j < 8 \<Longrightarrow> k < LENGTH('a) div 8 \<Longrightarrow>
  bit (be_bytes (w::'a::len word) ! k) j = bit w (LENGTH('a) - 8 - 8 * k + j)"
  by (auto simp: be_bytes_def bit_simps dest: bit_imp_le_length)

lemma bit_of_be:
  "bit (of_be bs :: 'a::len word) j =
     (j < LENGTH('a) \<and> j < 8 * length bs \<and> bit (bs ! (length bs - 1 - j div 8)) (j mod 8))"
proof (induction bs arbitrary: j rule: rev_induct)
  case (snoc b bs)
  have e: "bit (of_be (bs @ [b]) :: 'a word) j = (j < LENGTH('a) \<and> (8 \<le> j \<and> bit (of_be bs :: 'a word) (j - 8) \<or> bit b j))"
    by (auto simp: of_be_def bit_simps dest: bit_imp_le_length)
  show ?case
  proof (cases "j < 8")
    case True
    then show ?thesis by (simp add: e nth_append)
  next
    case False
    then obtain k where k: "j = k + 8" by (metis add.commute le_Suc_ex not_less)
    have "\<not> bit b (k + 8)" using bit_imp_le_length [of b "k + 8"] by auto
    then have "bit (of_be (bs @ [b]) :: 'a word) j = (k + 8 < LENGTH('a) \<and> bit (of_be bs :: 'a word) k)"
      using e k by simp
    also have "\<dots> = (k + 8 < LENGTH('a) \<and> k < 8 * length bs \<and> bit (bs ! (length bs - 1 - k div 8)) (k mod 8))"
      using snoc.IH [of k] by auto
    also have "\<dots> = (j < LENGTH('a) \<and> j < 8 * length (bs @ [b]) \<and> bit ((bs @ [b]) ! (length (bs @ [b]) - 1 - j div 8)) (j mod 8))"
      using div_add_self2 [of 8 k] by (simp add: k nth_append) auto
    finally show ?thesis .
  qed
qed (simp add: of_be_def)

lemma of_be_bytes [simp]:
  assumes "LENGTH('a) mod 8 = 0" "LENGTH('a) \<le> LENGTH('b)"
  shows "(of_be (be_bytes (w::'a::len word)) :: 'b::len word) = ucast w"
proof (rule bit_word_eqI)
  fix j assume j: "j < LENGTH('b)"
  obtain n where n: "LENGTH('a) = 8 * n" using assms(1) by (metis mod_0_imp_dvd dvdE)
  have "bit (be_bytes w ! (n - 1 - j div 8)) (j mod 8) = bit w j" if "j < 8 * n"
  proof -
    have q: "j div 8 < n" using that by (simp add: less_mult_imp_div_less mult.commute)
    then have "8 * n - 8 - 8 * (n - 1 - j div 8) = 8 * (j div 8)" by (simp add: algebra_simps)
    moreover have "8 * (j div 8) + j mod 8 = j" by simp
    ultimately show ?thesis using q n by (subst bit_byte) auto
  qed
  then show "bit (of_be (be_bytes w) :: 'b word) j = bit (ucast w :: 'b word) j"
    using j n bit_imp_le_length [of w j] by (auto simp: bit_of_be bit_simps)
qed

lemma vm_read_write [simp]: "vm_read a (length bs) (vm_write a bs m) = bs"
  by (auto simp: vm_read_def vm_write_def intro: nth_equalityI)

lemma vm_read_take: "k \<le> n \<Longrightarrow> take k (vm_read a n m) = vm_read a k m"
  by (auto simp: vm_read_def take_map)

lemma vm_read_drop: "drop k (vm_read a n m) = vm_read (a + k) (n - k) m"
  by (auto simp: vm_read_def add.assoc intro!: nth_equalityI)

lemma vm_read_other: "b + n \<le> a \<or> a + length bs \<le> b \<Longrightarrow> vm_read b n (vm_write a bs m) = vm_read b n m"
  by (auto simp: vm_read_def vm_write_def)

lemma length_vm_read [simp]: "length (vm_read a n m) = n"
  by (simp add: vm_read_def)

lemma vm_read_eq: "vm_read a n m = vm_read b n m' \<longleftrightarrow> (\<forall>k < n. m (a + k) = m' (b + k))"
  by (auto simp: vm_read_def list_eq_iff_nth_eq)

lemma vm_write_append: "vm_write a (xs @ ys) m = vm_write (a + length xs) ys (vm_write a xs m)"
  by (auto simp: vm_write_def fun_eq_iff nth_append)

lemma vm_write_nil [simp]: "vm_write a [] m = m"
  by (auto simp: vm_write_def fun_eq_iff)

lemma vm_read_part: "d + n \<le> length bs \<Longrightarrow> vm_read (a + d) n (vm_write a bs m) = take n (drop d bs)"
  by (auto simp: vm_read_def vm_write_def intro!: nth_equalityI)

lemma vm_write_outside: "i < a \<or> a + length bs \<le> i \<Longrightarrow> vm_write a bs m i = m i"
  by (auto simp: vm_write_def)

end
