(* ===== verification/Lv2_Objects.thy ===== *)
theory Lv2_Objects
  imports Lv2_Scheduler Id_Manager Guest_Memory
begin

text \<open>
  The kernel objects and the state that the system calls work on. Objects live in a heap and are named
  by address, so that two handles of one process-shared object are two bindings to the same address;
  \<open>ids\<close> is the handle store, \<open>ipc\<close> the key table of every type, \<open>mem\<close> the bytes of guest memory that the
  calls write their results to. The section on creation follows \<^verbatim>\<open>lv2_obj::create\<close>, \<^verbatim>\<open>on_id_create\<close> and
  \<^verbatim>\<open>on_id_destroy\<close> of \<^verbatim>\<open>sys_sync.h\<close>; the last one the wait loop that every blocking call ends with.
\<close>

section \<open>Objects\<close>

record lv2_mutex =
  mx_exists :: u32
  mx_protocol :: u32
  mx_recursive :: u32
  mx_adaptive :: u32
  mx_key :: u64
  mx_name :: u64
  mx_cond_count :: u32
  mx_lock_count :: u32
  mx_owner :: u32
  mx_sq :: "tid list"

record lv2_cond =
  cv_exists :: u32
  cv_key :: u64
  cv_name :: u64
  cv_mtx_id :: u32
  cv_mutex :: nat
  cv_sq :: "tid list"

record lv2_rwlock =
  rw_exists :: u32
  rw_protocol :: u32
  rw_key :: u64
  rw_name :: u64
  rw_owner :: int
  rw_rq :: "tid list"
  rw_wq :: "tid list"

record lv2_sema =
  sm_exists :: u32
  sm_protocol :: u32
  sm_key :: u64
  sm_name :: u64
  sm_max :: int
  sm_val :: int
  sm_sq :: "tid list"

record lv2_event_flag =
  ef_exists :: u32
  ef_protocol :: u32
  ef_key :: u64
  ef_type :: u32
  ef_name :: u64
  ef_pattern :: u64
  ef_sq :: "tid list"

type_synonym lv2_event = "u64 \<times> u64 \<times> u64 \<times> u64"

record lv2_event_queue =
  eq_exists :: u32
  eq_id :: u32
  eq_protocol :: u32
  eq_type :: u32
  eq_size :: nat
  eq_name :: u64
  eq_key :: u64
  eq_events :: "lv2_event list"
  eq_sq :: "tid list"
  eq_pq :: "tid list"

record lv2_event_port =
  ep_exists :: u32
  ep_type :: u32
  ep_name :: u64
  ep_is_busy :: nat
  ep_queue :: "nat option"

record lv2_lwmutex =
  lw_exists :: u32
  lw_protocol :: u32
  lw_control :: u32
  lw_name :: u64
  lw_lwcond_waiters :: u32
  lw_signaled :: u32
  lw_sq :: "tid list"

record lv2_lwcond =
  lc_exists :: u32
  lc_name :: u64
  lc_lwid :: u32
  lc_protocol :: u32
  lc_control :: u32
  lc_sq :: "tid list"
  lc_lwmutex_waiters :: u32

datatype lv2_object =
    O_mutex lv2_mutex | O_cond lv2_cond | O_rwlock lv2_rwlock | O_sema lv2_sema
  | O_event_flag lv2_event_flag | O_event_queue lv2_event_queue | O_event_port lv2_event_port
  | O_lwmutex lv2_lwmutex | O_lwcond lv2_lwcond

text \<open>The \<^verbatim>\<open>id_base\<close> of each type, which is also its tag in the handle store.\<close>

abbreviation (input) mutex_base :: u32 where "mutex_base \<equiv> 0x85000000"
abbreviation (input) cond_base :: u32 where "cond_base \<equiv> 0x86000000"
abbreviation (input) rwlock_base :: u32 where "rwlock_base \<equiv> 0x88000000"
abbreviation (input) event_queue_base :: u32 where "event_queue_base \<equiv> 0x8d000000"
abbreviation (input) lwmutex_base :: u32 where "lwmutex_base \<equiv> 0x95000000"
abbreviation (input) sema_base :: u32 where "sema_base \<equiv> 0x96000000"
abbreviation (input) lwcond_base :: u32 where "lwcond_base \<equiv> 0x97000000"
abbreviation (input) event_flag_base :: u32 where "event_flag_base \<equiv> 0x98000000"
abbreviation (input) event_port_base :: u32 where "event_port_base \<equiv> 0x0e000000"

fun base_of :: "lv2_object \<Rightarrow> u32" where
  "base_of (O_mutex _) = mutex_base"
| "base_of (O_cond _) = cond_base"
| "base_of (O_rwlock _) = rwlock_base"
| "base_of (O_sema _) = sema_base"
| "base_of (O_event_flag _) = event_flag_base"
| "base_of (O_event_queue _) = event_queue_base"
| "base_of (O_event_port _) = event_port_base"
| "base_of (O_lwmutex _) = lwmutex_base"
| "base_of (O_lwcond _) = lwcond_base"

fun obj_exists :: "lv2_object \<Rightarrow> u32" where
  "obj_exists (O_mutex x) = mx_exists x"
| "obj_exists (O_cond x) = cv_exists x"
| "obj_exists (O_rwlock x) = rw_exists x"
| "obj_exists (O_sema x) = sm_exists x"
| "obj_exists (O_event_flag x) = ef_exists x"
| "obj_exists (O_event_queue x) = eq_exists x"
| "obj_exists (O_event_port x) = ep_exists x"
| "obj_exists (O_lwmutex x) = lw_exists x"
| "obj_exists (O_lwcond x) = lc_exists x"

fun map_exists :: "(u32 \<Rightarrow> u32) \<Rightarrow> lv2_object \<Rightarrow> lv2_object" where
  "map_exists f (O_mutex x) = O_mutex (x\<lparr>mx_exists := f (mx_exists x)\<rparr>)"
| "map_exists f (O_cond x) = O_cond (x\<lparr>cv_exists := f (cv_exists x)\<rparr>)"
| "map_exists f (O_rwlock x) = O_rwlock (x\<lparr>rw_exists := f (rw_exists x)\<rparr>)"
| "map_exists f (O_sema x) = O_sema (x\<lparr>sm_exists := f (sm_exists x)\<rparr>)"
| "map_exists f (O_event_flag x) = O_event_flag (x\<lparr>ef_exists := f (ef_exists x)\<rparr>)"
| "map_exists f (O_event_queue x) = O_event_queue (x\<lparr>eq_exists := f (eq_exists x)\<rparr>)"
| "map_exists f (O_event_port x) = O_event_port (x\<lparr>ep_exists := f (ep_exists x)\<rparr>)"
| "map_exists f (O_lwmutex x) = O_lwmutex (x\<lparr>lw_exists := f (lw_exists x)\<rparr>)"
| "map_exists f (O_lwcond x) = O_lwcond (x\<lparr>lc_exists := f (lc_exists x)\<rparr>)"

section \<open>The kernel state\<close>

record kernel =
  env :: lv2
  heap :: "nat \<Rightarrow> lv2_object option"
  next_addr :: nat
  ids :: "nat id_map"
  ipc :: "u32 \<Rightarrow> nat ipc_map"
  mem :: "nat \<Rightarrow> u8"

definition alloc_obj :: "lv2_object \<Rightarrow> kernel \<Rightarrow> nat \<times> kernel" where
  "alloc_obj x k = (next_addr k, k\<lparr>heap := (heap k)(next_addr k \<mapsto> x), next_addr := next_addr k + 1\<rparr>)"

definition put_obj :: "nat \<Rightarrow> lv2_object \<Rightarrow> kernel \<Rightarrow> kernel" where
  "put_obj a x k = k\<lparr>heap := (heap k)(a \<mapsto> x)\<rparr>"

text \<open>Assignments through a guest pointer \<^verbatim>\<open>vm::ptr<u32>\<close> (or \<^verbatim>\<open>s32\<close>) and \<^verbatim>\<open>vm::ptr<u64>\<close>.\<close>

definition write32 :: "u32 \<Rightarrow> u32 \<Rightarrow> kernel \<Rightarrow> kernel" where
  "write32 a v k = k\<lparr>mem := vm_write (unat a) (be_bytes v) (mem k)\<rparr>"

definition write64 :: "u32 \<Rightarrow> u64 \<Rightarrow> kernel \<Rightarrow> kernel" where
  "write64 a v k = k\<lparr>mem := vm_write (unat a) (be_bytes v) (mem k)\<rparr>"

definition crash :: "kernel \<Rightarrow> kernel" where
  "crash k = k\<lparr>env := (env k)\<lparr>fatal := True\<rparr>\<rparr>"

text \<open>Every handler starts with \<^verbatim>\<open>ppu.state += cpu_flag::wait\<close>.\<close>

definition enter :: "tid \<Rightarrow> kernel \<Rightarrow> kernel" where
  "enter t k = k\<lparr>env := add_flag t F_wait (env k)\<rparr>"

definition get_obj :: "u32 \<Rightarrow> u32 \<Rightarrow> kernel \<Rightarrow> (nat \<times> lv2_object) option" where
  "get_obj b idn k =
     (case idm_get b (lv2_traits b) idn (ids k) of
        None \<Rightarrow> None
      | Some a \<Rightarrow> (case heap k a of None \<Rightarrow> None | Some x \<Rightarrow> Some (a, x)))"

text \<open>
  The conditional form of \<^verbatim>\<open>idm::withdraw\<close>: the function runs on the object, and only a result of zero
  takes the handle out of the store. \<^const>\<open>None\<close> means that the handle did not resolve.
\<close>

definition withdraw_if ::
  "u32 \<Rightarrow> u32 \<Rightarrow> (nat \<Rightarrow> lv2_object \<Rightarrow> kernel \<Rightarrow> error_code \<times> kernel) \<Rightarrow> kernel
     \<Rightarrow> error_code option \<times> kernel" where
  "withdraw_if b idn f k =
     (case get_obj b idn k of
        None \<Rightarrow> (None, k)
      | Some (a, x) \<Rightarrow>
          (case f a x k of
             (ret, k1) \<Rightarrow> (Some ret, if ret \<noteq> 0 then k1 else k1\<lparr>ids := lv2_delete b idn (ids k1)\<rparr>)))"

section \<open>Creation and destruction\<close>

abbreviation (input) SYS_SYNC_PROCESS_SHARED :: u32 where "SYS_SYNC_PROCESS_SHARED \<equiv> 0x100"
abbreviation (input) SYS_SYNC_NOT_PROCESS_SHARED :: u32 where "SYS_SYNC_NOT_PROCESS_SHARED \<equiv> 0x200"
abbreviation (input) SYS_SYNC_NEWLY_CREATED :: u32 where "SYS_SYNC_NEWLY_CREATED \<equiv> 1"
abbreviation (input) SYS_SYNC_NOT_CREATE :: u32 where "SYS_SYNC_NOT_CREATE \<equiv> 2"
abbreviation (input) SYS_SYNC_NOT_CARE :: u32 where "SYS_SYNC_NOT_CARE \<equiv> 3"
abbreviation (input) SYS_SYNC_RECURSIVE :: u32 where "SYS_SYNC_RECURSIVE \<equiv> 0x10"
abbreviation (input) SYS_SYNC_NOT_RECURSIVE :: u32 where "SYS_SYNC_NOT_RECURSIVE \<equiv> 0x20"

text \<open>\<^verbatim>\<open>lv2_obj::get_key\<close>\<close>

definition get_key :: "u32 \<Rightarrow> u64 \<Rightarrow> u64" where
  "get_key pshared ipc_key = (if pshared = SYS_SYNC_PROCESS_SHARED then ipc_key else 0)"

text \<open>
  \<^verbatim>\<open>lv2_obj::on_id_create\<close>, overridden by \<^verbatim>\<open>lv2_cond\<close>, which also registers with its mutex (the branch
  for a condition variable that is being restored without its mutex belongs to save states).
\<close>

definition on_id_create :: "nat \<Rightarrow> kernel \<Rightarrow> error_code \<times> kernel" where
  "on_id_create a k =
     (case heap k a of
        None \<Rightarrow> (CELL_OK, crash k)
      | Some x \<Rightarrow>
          (let k1 = put_obj a (map_exists (\<lambda>n. n + 1) x) k
           in case x of
                O_cond c \<Rightarrow>
                  (case heap k1 (cv_mutex c) of
                     Some (O_mutex m) \<Rightarrow>
                       if mx_exists m \<noteq> 0
                       then (CELL_OK, put_obj (cv_mutex c) (O_mutex (m\<lparr>mx_cond_count := mx_cond_count m + 1\<rparr>)) k1)
                       else (CELL_ESRCH, k1)
                   | _ \<Rightarrow> (CELL_ESRCH, k1))
              | _ \<Rightarrow> (CELL_OK, k1)))"

definition finalize_construct :: "nat option \<Rightarrow> error_code \<times> kernel \<Rightarrow> nat option \<times> error_code \<times> kernel" where
  "finalize_construct result s =
     (case result of
        None \<Rightarrow> (None, fst s, crash (snd s))
      | Some a \<Rightarrow> (case on_id_create a (snd s) of (err, k1) \<Rightarrow> (if err \<noteq> 0 then None else Some a, err, k1)))"

text \<open>The provider that \<^verbatim>\<open>lv2_obj::create\<close> hands to \<^verbatim>\<open>idm::import\<close>; its state is the local \<^verbatim>\<open>error\<close> and
  the kernel.\<close>

definition create_provider ::
  "u32 \<Rightarrow> u32 \<Rightarrow> u64 \<Rightarrow> u32 \<Rightarrow> (u32 \<Rightarrow> lv2_object) \<Rightarrow> u32 \<Rightarrow> error_code \<times> kernel
     \<Rightarrow> nat option \<times> error_code \<times> kernel" where
  "create_provider b pshared ipc_key flags mk new_id s =
     (case alloc_obj (mk new_id) (snd s) of
        (a, k1) \<Rightarrow>
          if pshared \<noteq> SYS_SYNC_PROCESS_SHARED then finalize_construct (Some a) (fst s, k1)
          else if flags = SYS_SYNC_NOT_CREATE
          then (case ipc_get ipc_key (ipc k1 b) of
                  None \<Rightarrow> (None, CELL_ESRCH, k1)
                | Some a' \<Rightarrow> finalize_construct (Some a') (fst s, k1))
          else
            (case ipc_add ipc_key (finalize_construct (Some a)) (flags \<noteq> SYS_SYNC_NEWLY_CREATED)
                    (ipc k1 b) (fst s, k1) of
               ((added, result), mp, (err, k2)) \<Rightarrow>
                 (let k3 = k2\<lparr>ipc := (ipc k2)(b := mp)\<rparr>
                  in if added then (result, err, k3)
                     else if flags = SYS_SYNC_NEWLY_CREATED then (result, CELL_EEXIST, k3)
                     else finalize_construct result (err, k3))))"

definition lv2_create ::
  "u32 \<Rightarrow> u32 \<Rightarrow> u64 \<Rightarrow> u32 \<Rightarrow> (u32 \<Rightarrow> lv2_object) \<Rightarrow> bool \<Rightarrow> kernel \<Rightarrow> error_code \<times> kernel" where
  "lv2_create b pshared ipc_key flags mk key_not_zero k =
     (if pshared = SYS_SYNC_PROCESS_SHARED \<and>
         (key_not_zero \<and> ipc_key = 0 \<or>
          flags \<notin> {SYS_SYNC_NEWLY_CREATED, SYS_SYNC_NOT_CARE, SYS_SYNC_NOT_CREATE})
      then (CELL_EINVAL, k)
      else if pshared \<noteq> SYS_SYNC_PROCESS_SHARED \<and> pshared \<noteq> SYS_SYNC_NOT_PROCESS_SHARED
      then (CELL_EINVAL, k)
      else case create_id b (lv2_traits b) 0 (create_provider b pshared ipc_key flags mk) (ids k)
                  (CELL_EAGAIN, k) of
             (r, m1, (err, k1)) \<Rightarrow> (if r = None then err else CELL_OK, k1\<lparr>ids := m1\<rparr>))"

text \<open>\<^verbatim>\<open>idm::make\<close>: objects that have no key and are not counted in \<^verbatim>\<open>exists\<close>.\<close>

definition idm_make :: "u32 \<Rightarrow> lv2_object \<Rightarrow> kernel \<Rightarrow> u32 option \<times> kernel" where
  "idm_make b x k =
     (case create_id b (lv2_traits b) 0 (\<lambda>_ k1. case alloc_obj x k1 of (a, k2) \<Rightarrow> (Some a, k2)) (ids k) k of
        (r, m1, k1) \<Rightarrow> (if r = None then None else Some (g_id m1), k1\<lparr>ids := m1\<rparr>))"

text \<open>\<^verbatim>\<open>lv2_obj::on_id_destroy\<close>; the default of its last argument is \<^verbatim>\<open>ipc_key != 0\<close>.\<close>

definition on_id_destroy :: "u32 \<Rightarrow> nat \<Rightarrow> u64 \<Rightarrow> bool \<Rightarrow> kernel \<Rightarrow> kernel" where
  "on_id_destroy b a ipc_key pshared k =
     (case heap k a of
        None \<Rightarrow> k
      | Some x \<Rightarrow>
          (let k1 = put_obj a (map_exists (\<lambda>n. n - 1) x) k
           in if obj_exists x = 1 \<and> pshared
              then k1\<lparr>ipc := (ipc k1)(b := snd (ipc_remove ipc_key (ipc k1 b)))\<rparr>
              else k1))"

section \<open>The wait loop\<close>

text \<open>
  One round of the loop \<^verbatim>\<open>while (auto state = +ppu.state)\<close> that the blocking calls end with. \<open>queued\<close> says
  whether the thread is still in the object's queue, \<open>cancel\<close> is what the call does when its timeout
  has passed, and \<open>fired\<close> stands for \<^verbatim>\<open>wait_timeout\<close> having returned true without \<^verbatim>\<open>check_state\<close>
  sending the thread round again. The verdicts are leaving the loop, \<^verbatim>\<open>return {}\<close> with the flag
  \<^verbatim>\<open>again\<close> raised, and another round.
\<close>

datatype verdict = Leave | Stop_again | Keep_waiting

definition del_flag :: "tid \<Rightarrow> cpu_flag \<Rightarrow> lv2 \<Rightarrow> lv2" where
  "del_flag t fl e = upd_thr t (\<lambda>p. p\<lparr>state := state p - {fl}\<rparr>) e"

definition wait_iter ::
  "tid \<Rightarrow> bool \<Rightarrow> (lv2 \<Rightarrow> 'o \<Rightarrow> lv2 \<times> 'o) \<Rightarrow> u64 \<Rightarrow> bool \<Rightarrow> lv2 \<Rightarrow> 'o \<Rightarrow> verdict \<times> lv2 \<times> 'o" where
  "wait_iter t queued cancel timeout fired e x =
     (let st = state (thr e t)
      in if st = {} then (Leave, e, x)
         else if F_signal \<in> st then (Leave, del_flag t F_signal e, x)
         else if is_stopped st
              then if queued then (Stop_again, add_flag t F_again e, x) else (Leave, e, x)
         else if timeout \<noteq> 0 \<and> fired
              then (case cancel e x of (e1, x1) \<Rightarrow> (Leave, e1, x1))
         else (Keep_waiting, e, x))"

text \<open>
  The usual \<open>cancel\<close>: the thread raises \<^verbatim>\<open>wait\<close> again, and if it is still queued it is taken out and
  reports a timeout.
\<close>

definition cancel_wait ::
  "tid \<Rightarrow> ('o \<Rightarrow> tid list) \<Rightarrow> ((tid list \<Rightarrow> tid list) \<Rightarrow> 'o \<Rightarrow> 'o) \<Rightarrow> lv2 \<Rightarrow> 'o \<Rightarrow> lv2 \<times> 'o" where
  "cancel_wait t queue upd e x =
     (let e1 = add_flag t F_wait e
      in if t \<in> set (queue x) then (set_gpr t 3 (ucast (CELL_ETIMEDOUT)) e1, upd (remove1 t) x) else (e1, x))"

definition ret_gpr3 :: "tid \<Rightarrow> lv2 \<Rightarrow> error_code" where
  "ret_gpr3 t e = ucast (gpr (thr e t) 3)"

text \<open>\<^verbatim>\<open>sq\<close> as a value of a compare-and-swap: the pointer to the first waiter.\<close>

definition head_ptr :: "tid list \<Rightarrow> tid option" where
  "head_ptr q = (case q of [] \<Rightarrow> None | x # _ \<Rightarrow> Some x)"

lemma head_ptr_None [simp]: "head_ptr q = None \<longleftrightarrow> q = []"
  by (simp add: head_ptr_def split: list.splits)

lemma wait_iter_cases:
  assumes "wait_iter t queued cancel timeout fired e x = (v, e', x')"
    and "F_signal \<in> state (thr e t) \<longrightarrow> \<not> queued" "state (thr e t) \<noteq> {}"
  obtains (signalled) "v = Leave" "\<not> queued" "x' = x" "e' = e \<or> e' = del_flag t F_signal e"
  | (again) "v = Stop_again" "queued" "is_stopped (state (thr e t))" "x' = x" "e' = add_flag t F_again e"
  | (timed) "v = Leave" "timeout \<noteq> 0" "fired" "cancel e x = (e', x')"
  | (more) "v = Keep_waiting" "e' = e" "x' = x"
  using assms that
  by (auto simp: wait_iter_def Let_def split: if_splits prod.splits)

lemma thr_del_flag: "thr (del_flag t fl e) u =
    (if u = t then (thr e t)\<lparr>state := state (thr e t) - {fl}\<rparr> else thr e u)"
  by (simp add: del_flag_def)

lemma gpr_del_flag [simp]: "gpr (thr (del_flag t fl e) u) = gpr (thr e u)"
  by (simp add: thr_del_flag)

lemma sleep_True:
  assumes "t \<in> set (g_ppu e)" "F_signal \<notin> state (thr e t)" "cancel_sleep (thr e t) \<noteq> 2"
  shows "fst (sleep t timeout e)"
  using assms by (auto simp: sleep_def sleep_unlocked_def Let_def add_flag_def split: prod.splits)

lemma stamp_order_sel [simp]:
  "g_ppu (stamp_order t e) = g_ppu e" "gpr (thr (stamp_order t e) u) = gpr (thr e u)"
  "state (thr (stamp_order t e) u) = state (thr e u)"
  "cancel_sleep (thr (stamp_order t e) u) = cancel_sleep (thr e u)"
  by (simp_all add: stamp_order_def Let_def)

section \<open>Emptying a queue\<close>

text \<open>
  The loops \<^verbatim>\<open>while (auto cpu = schedule(sq, protocol))\<close> that take every waiter off a queue. \<open>th\<close> reads
  the threads in the loop's state, \<open>f\<close> is its body. \<^verbatim>\<open>schedule\<close> leaves a thread with the flag \<^verbatim>\<open>again\<close>
  in the queue, so that the loop need not end: \<^const>\<open>None\<close>.
\<close>

partial_function (option) drain ::
  "('s \<Rightarrow> tid \<Rightarrow> ppu_thread) \<Rightarrow> u32 \<Rightarrow> (tid \<Rightarrow> 's \<Rightarrow> 's) \<Rightarrow> tid list \<Rightarrow> 's \<Rightarrow> 's option" where
  "drain th p f q s =
     (case schedule (th s) p q of
        (None, q') \<Rightarrow> Some s
      | (Some c, q') \<Rightarrow> drain th p f q' (f c s))"

lemma pick_fifo: "q \<noteq> [] \<Longrightarrow> pick th SYS_SYNC_FIFO q = Some (last q)"
  by (cases q) (simp_all add: pick_def)

lemma schedule_fifo_snoc:
  "distinct (q @ [c]) \<Longrightarrow> F_again \<notin> state (th c) \<Longrightarrow> schedule th SYS_SYNC_FIFO (q @ [c]) = (Some c, q)"
  by (simp add: schedule_def pick_fifo distinct_remove1_last_append [of q c, simplified])

lemma drain_fifo:
  assumes "distinct q" "\<forall>c \<in> set q. F_again \<notin> state (th s c)"
    and "\<And>c d s. F_again \<in> state (th (f c s) d) \<longleftrightarrow> F_again \<in> state (th s d)"
  shows "drain th SYS_SYNC_FIFO f q s = Some (fold f (rev q) s)"
  using assms(1,2)
proof (induction q arbitrary: s rule: rev_induct)
  case Nil
  then show ?case by (simp add: drain.simps)
next
  case (snoc c q)
  then have "schedule (th s) SYS_SYNC_FIFO (q @ [c]) = (Some c, q)"
    by (intro schedule_fifo_snoc) simp_all
  moreover have "drain th SYS_SYNC_FIFO f q (f c s) = Some (fold f (rev q) (f c s))"
    using snoc.IH [of "f c s"] snoc.prems assms(3) by simp
  ultimately show ?case by (simp add: drain.simps [of th _ f "q @ [c]"])
qed

lemma drain_all:
  assumes "distinct q" "\<forall>c \<in> set q. F_again \<notin> state (th s c)"
    and "\<And>c d s. F_again \<in> state (th (f c s) d) \<longleftrightarrow> F_again \<in> state (th s d)"
  shows "\<exists>ws. distinct ws \<and> set ws = set q \<and> drain th p f q s = Some (fold f ws s) \<and>
    (\<forall>w ws'. ws = w # ws' \<longrightarrow> pick (th s) p q = Some w)"
  using assms(1,2)
proof (induction "length q" arbitrary: q s)
  case 0
  then show ?case by (simp add: drain.simps)
next
  case (Suc n)
  show ?case
  proof (rule schedule_cases [of q "th s" p])
    fix c assume c: "c \<in> set q" "pick (th s) p q = Some c" and s: "schedule (th s) p q = (Some c, remove1 c q)"
    have "n = length (remove1 c q)" "distinct (remove1 c q)"
      "\<forall>d \<in> set (remove1 c q). F_again \<notin> state (th (f c s) d)"
      using Suc.hyps(2) Suc.prems c(1) assms(3) by (simp_all add: length_remove1)
    from Suc.hyps(1) [OF this] obtain ws where "distinct ws" "set ws = set (remove1 c q)"
      "drain th p f (remove1 c q) (f c s) = Some (fold f ws (f c s))" by blast
    then show ?thesis using s c Suc.prems(1)
      by (intro exI [of _ "c # ws"]) (auto simp: drain.simps [of th _ f q])
  qed (use Suc in auto)
qed

section \<open>What a call leaves alone\<close>

text \<open>
  A call of thread \<open>t\<close> is calm when it writes the registers of no other thread and does not raise the
  flag \<^verbatim>\<open>again\<close>. The rules extend a calm run by one more operation.
\<close>

definition calm :: "tid \<Rightarrow> lv2 \<Rightarrow> lv2 \<Rightarrow> bool" where
  "calm t e e' \<longleftrightarrow> (\<forall>u. (F_again \<in> state (thr e' u) \<longleftrightarrow> F_again \<in> state (thr e u)) \<and>
     (u \<noteq> t \<longrightarrow> gpr (thr e' u) = gpr (thr e u)))"

lemma calm_refl: "calm t e e"
  by (simp add: calm_def)

lemma calm_trans: "calm t a b \<Longrightarrow> calm t b c \<Longrightarrow> calm t a c"
  by (simp add: calm_def)

lemma calm_frame: "calm t a b \<Longrightarrow> thr_frame b c \<Longrightarrow> calm t a c"
  by (simp add: calm_def thr_frame_def regs_def)

lemma calm_set_gpr: "calm t a b \<Longrightarrow> calm t a (set_gpr t i v b)"
  by (simp add: calm_def thr_set_gpr)

lemma calm_add_flag: "calm t a b \<Longrightarrow> fl \<noteq> F_again \<Longrightarrow> calm t a (add_flag u fl b)"
  by (simp add: calm_def thr_add_flag)

lemma calm_del_flag: "calm t a b \<Longrightarrow> fl \<noteq> F_again \<Longrightarrow> calm t a (del_flag u fl b)"
  by (simp add: calm_def thr_del_flag)

lemma calm_cancel_sleep: "calm t a b \<Longrightarrow> calm t a (upd_thr u (\<lambda>p. p\<lparr>cancel_sleep := c\<rparr>) b)"
  by (simp add: calm_def)

lemma calm_stamp: "calm t a b \<Longrightarrow> calm t a (stamp_order u b)"
  by (simp add: calm_def stamp_order_def Let_def)

lemma calm_emplace: "calm t a b \<Longrightarrow> calm t a (snd (emplace u q b))"
  by (simp add: calm_def emplace_def Let_def)

lemma calm_sleep: "calm t a b \<Longrightarrow> calm t a (snd (sleep u timeout b))"
  by (erule calm_frame) (rule sleep_quiet.op_frame)

lemma calm_awake1: "calm t a b \<Longrightarrow> calm t a (awake1 u b)"
  by (erule calm_frame) (rule awake1_quiet.op_frame)

lemma calm_append: "calm t a b \<Longrightarrow> calm t a (append_awake u b)"
  by (erule calm_frame) (rule append_quiet.op_frame)

lemma calm_awake_all: "calm t a b \<Longrightarrow> calm t a (awake_all b)"
  by (erule calm_frame) (rule awake_all_quiet.op_frame)

lemmas calm_intros = calm_refl calm_set_gpr calm_add_flag calm_del_flag calm_cancel_sleep calm_stamp
  calm_emplace calm_sleep calm_awake1 calm_append calm_awake_all

section \<open>Lemmas on the kernel state\<close>

lemma get_obj_deleted:
  "idm_inv (ids k) \<Longrightarrow> get_obj b idn (k\<lparr>ids := lv2_delete b idn (ids k)\<rparr>) = None"
  by (simp add: get_obj_def idm_get_lv2_look idm_inv_delete idm.del_look)

lemma on_id_destroy_ids [simp]: "ids (on_id_destroy b a ky p k) = ids k"
  by (simp add: on_id_destroy_def put_obj_def Let_def split: option.splits)

lemma enter_sel [simp]: "ids (enter t k) = ids k" "heap (enter t k) = heap k" "ipc (enter t k) = ipc k"
  "mem (enter t k) = mem k" "next_addr (enter t k) = next_addr k" "env (enter t k) = add_flag t F_wait (env k)"
  by (simp_all add: enter_def)

lemma get_obj_enter [simp]: "get_obj b j (enter t k) = get_obj b j k"
  by (simp add: get_obj_def split: option.splits)

lemma put_obj_sel [simp]: "ids (put_obj a x k) = ids k" "heap (put_obj a x k) = (heap k)(a \<mapsto> x)"
  "env (put_obj a x k) = env k" "mem (put_obj a x k) = mem k" "ipc (put_obj a x k) = ipc k"
  by (simp_all add: put_obj_def)

lemma get_obj_heap: "get_obj b j k = Some (a, x) \<Longrightarrow> heap k a = Some x"
  by (auto simp: get_obj_def split: option.splits)

lemma get_obj_env [simp]: "get_obj b j (k\<lparr>env := e\<rparr>) = get_obj b j k"
  by (simp add: get_obj_def split: option.splits)

lemma get_obj_put:
  "get_obj b j k = Some (a, x) \<Longrightarrow> get_obj b j (put_obj a y k) = Some (a, y)"
  by (auto simp: get_obj_def split: option.splits)

lemma get_obj_put_other:
  "get_obj b j k = Some (c, x) \<Longrightarrow> c \<noteq> a \<Longrightarrow> get_obj b j (put_obj a y k) = Some (c, x)"
  by (auto simp: get_obj_def split: option.splits)

section \<open>The contract of destruction\<close>

text \<open>
  The destroying calls differ in the check they run on the object. All they have to promise is that the
  check leaves the handles alone; then a call that reports success removes exactly its own handle, and any
  other result removes none.
\<close>

locale destroy_call =
  fixes b :: u32
    and check :: "nat \<Rightarrow> lv2_object \<Rightarrow> kernel \<Rightarrow> error_code \<times> kernel"
  assumes check_ids: "ids (snd (check a x k)) = ids k"
begin

lemma run:
  assumes "withdraw_if b j check k = (r, k')"
  shows "ids k' = (if r = Some 0 then lv2_delete b j (ids k) else ids k)"
proof (cases "get_obj b j k")
  case None
  with assms show ?thesis by (auto simp: withdraw_if_def)
next
  case (Some ax)
  obtain a x where ax: "ax = (a, x)" by fastforce
  obtain r1 k1 where c: "check a x k = (r1, k1)" by fastforce
  then have "ids k1 = ids k" using check_ids [of a x k] by simp
  with assms Some ax c show ?thesis by (auto simp: withdraw_if_def split: if_splits)
qed

lemma kept: "withdraw_if b j check k = (r, k') \<Longrightarrow> r \<noteq> Some 0 \<Longrightarrow> ids k' = ids k"
  using run by simp

lemma removed: "withdraw_if b j check k = (Some 0, k') \<Longrightarrow> ids k' = lv2_delete b j (ids k)"
  using run by simp

lemma look_after:
  assumes "idm_inv (ids k)" "withdraw_if b j check k = (r, k')"
  shows "lv2_look c n (ids k') = (if r = Some 0 \<and> c = b \<and> n = j then None else lv2_look c n (ids k))"
  using removed [of j k k'] kept [OF assms(2)] assms idm.del_look [OF assms(1)] by (cases "r = Some 0") auto

lemma retired:
  assumes "idm_inv (ids k)" "withdraw_if b j check k = (Some 0, k')"
  shows "get_obj b j k' = None"
  using removed [OF assms(2)] assms(1) by (simp add: get_obj_def idm_get_lv2_look idm_inv_delete idm.del_look)

end

text \<open>A kernel with one object under its type's first handle, for the closed examples.\<close>

definition demo_kernel :: "lv2_object \<Rightarrow> tid list \<Rightarrow> kernel" where
  "demo_kernel x q = \<lparr>env = demo_lv2 q, heap = [0 \<mapsto> x], next_addr = 1,
     ids = snd (lv2_insert (base_of x) 0 id_map_empty), ipc = (\<lambda>_ _. None), mem = (\<lambda>_. 0)\<rparr>"

lemma lv2_base_base_of [simp]: "lv2_base (base_of x)"
  by (cases x) (simp_all add: lv2_base_def)

lemma demo_kernel_idm: "idm_inv (ids (demo_kernel x q))"
  by (simp add: demo_kernel_def idm.ins_inv)

lemma demo_kernel_get:
  "get_obj b j (demo_kernel x q) = (if b = base_of x \<and> j = base_of x then Some (0, x) else None)"
proof -
  obtain m where m: "lv2_insert (base_of x) (0 :: nat) id_map_empty = (Some (base_of x), m)"
    using lv2_base_neq(2) [of "base_of x"]
    by (simp add: lv2_insert_def create_id_def allocate_id_def id_map_empty_def put_key_def)
  have "idm_inv m" using idm.ins_inv [OF idm_inv_empty lv2_base_base_of, of x "0 :: nat"] m by simp
  moreover have "lv2_look b j (id_map_empty :: nat id_map) = None"
    by (simp add: lv2_look_def get_unlocked_def find_id_def find_index_def id_map_empty_def)
  then have "lv2_look b j m = (if b = base_of x \<and> j = base_of x then Some 0 else None)"
    using idm.ins_look [OF idm_inv_empty lv2_base_base_of m] by simp
  ultimately show ?thesis by (simp add: demo_kernel_def get_obj_def m idm_get_lv2_look)
qed

lemma demo_kernel_obj: "get_obj (base_of x) (base_of x) (demo_kernel x q) = Some (0, x)"
  by (simp add: demo_kernel_get)

end
