(* ===== verification/Sys_Mutex.thy ===== *)
theory Sys_Mutex
  imports Lv2_Objects
begin

text \<open>
  The mutex of \<^verbatim>\<open>sys_mutex.h\<close> and \<^verbatim>\<open>sys_mutex.cpp\<close>. The lock-free fast paths compare the control word
  with a value that was loaded earlier: that value is the argument \<open>seen\<close> (owner and first waiter), so
  the lemmas cover every interleaving of the load and the swap. The handlers are given on the mutex
  and the thread state (\<open>mutex_lock\<close> and so on) and on the whole kernel (\<open>sys_mutex_lock\<close> and so on).
  \<open>mutex_step\<close> is the system of any number of threads locking and unlocking one mutex.
\<close>

section \<open>Model: the control word\<close>

type_synonym control_data = "u32 \<times> tid option"

definition control_of :: "lv2_mutex \<Rightarrow> control_data" where
  "control_of m = (mx_owner m, head_ptr (mx_sq m))"

definition try_lock :: "tid \<Rightarrow> control_data \<Rightarrow> lv2_mutex \<Rightarrow> error_code \<times> lv2_mutex" where
  "try_lock t seen m =
     (if fst seen = 0
      then if control_of m = seen then (CELL_OK, m\<lparr>mx_owner := t\<rparr>) else (CELL_EBUSY, m)
      else if fst seen = t
      then if mx_recursive m = SYS_SYNC_RECURSIVE
           then if mx_lock_count m = 0xffffffff then (CELL_EKRESOURCE, m)
                else (CELL_OK, m\<lparr>mx_lock_count := mx_lock_count m + 1\<rparr>)
           else (CELL_EDEADLK, m)
      else (CELL_EBUSY, m))"

definition try_own :: "tid \<Rightarrow> lv2 \<Rightarrow> lv2_mutex \<Rightarrow> bool \<times> lv2 \<times> lv2_mutex" where
  "try_own t e m =
     (if mx_owner m \<noteq> 0 then (False, stamp_order t e, m\<lparr>mx_sq := t # mx_sq m\<rparr>)
      else (True, e, m\<lparr>mx_owner := t\<rparr>))"

definition try_unlock :: "tid \<Rightarrow> control_data \<Rightarrow> lv2_mutex \<Rightarrow> error_code \<times> lv2_mutex" where
  "try_unlock t seen m =
     (if fst seen \<noteq> t then (CELL_EPERM, m)
      else if mx_lock_count m \<noteq> 0 then (CELL_OK, m\<lparr>mx_lock_count := mx_lock_count m - 1\<rparr>)
      else if snd seen = None \<and> control_of m = seen then (CELL_OK, m\<lparr>mx_owner := 0\<rparr>)
      else (CELL_EBUSY, m))"

definition reown :: "(tid \<Rightarrow> ppu_thread) \<Rightarrow> lv2_mutex \<Rightarrow> tid option \<times> lv2_mutex" where
  "reown th m =
     (case schedule th (mx_protocol m) (mx_sq m) of
        (Some r, q) \<Rightarrow> (Some r, m\<lparr>mx_owner := r, mx_sq := q\<rparr>)
      | (None, _) \<Rightarrow> (None, m\<lparr>mx_owner := 0\<rparr>))"

section \<open>Model: the calls on one mutex\<close>

text \<open>The bounded busy wait: it stops when the lock was taken or a waiter appeared.\<close>

fun spin_lock :: "tid \<Rightarrow> control_data list \<Rightarrow> error_code \<Rightarrow> lv2_mutex \<Rightarrow> error_code \<times> lv2_mutex" where
  "spin_lock t [] r m = (r, m)"
| "spin_lock t (s # ss) r m =
     (case try_lock t s m of
        (r', m') \<Rightarrow> if r' = CELL_OK \<or> mx_sq m' \<noteq> [] then (r', m') else spin_lock t ss r' m')"

definition mutex_lock ::
  "tid \<Rightarrow> u64 \<Rightarrow> control_data \<Rightarrow> control_data list \<Rightarrow> lv2 \<Rightarrow> lv2_mutex \<Rightarrow> outcome \<times> lv2 \<times> lv2_mutex" where
  "mutex_lock t timeout seen spins e m =
     (case (case try_lock t seen m of
              (r, m1) \<Rightarrow> if r = CELL_EBUSY \<and> mx_sq m1 = [] then spin_lock t spins r m1 else (r, m1)) of
        (r, m2) \<Rightarrow>
          if r \<noteq> CELL_EBUSY then (Ret r, e, m2)
          else
            (let e1 = upd_thr t (\<lambda>p. p\<lparr>cancel_sleep := 1\<rparr>) e
             in case try_own t e1 m2 of
                  (True, e2, m3) \<Rightarrow> (Ret CELL_OK, upd_thr t (\<lambda>p. p\<lparr>cancel_sleep := 0\<rparr>) e2, m3)
                | (False, e2, m3) \<Rightarrow>
                    (case sleep t timeout e2 of
                       (slept, e3) \<Rightarrow>
                         (let e4 = upd_thr t (\<lambda>p. p\<lparr>cancel_sleep := 0\<rparr>) e3
                          in if slept then (Blocked, set_gpr t 3 0 e4, m3) else (Ret CELL_OK, e4, m3)))))"

definition mutex_wait :: "tid \<Rightarrow> u64 \<Rightarrow> bool \<Rightarrow> lv2 \<Rightarrow> lv2_mutex \<Rightarrow> verdict \<times> lv2 \<times> lv2_mutex" where
  "mutex_wait t timeout fired e m =
     wait_iter t (t \<in> set (mx_sq m)) (cancel_wait t mx_sq mx_sq_update) timeout fired e m"

definition mutex_unlock :: "tid \<Rightarrow> control_data \<Rightarrow> lv2 \<Rightarrow> lv2_mutex \<Rightarrow> outcome \<times> lv2 \<times> lv2_mutex" where
  "mutex_unlock t seen e m =
     (case try_unlock t seen m of
        (r, m1) \<Rightarrow>
          if r \<noteq> CELL_EBUSY then (Ret r, e, m1)
          else
            (case reown (thr e) m1 of
               (Some c, m2) \<Rightarrow>
                 if F_again \<in> state (thr e c) then (Again, add_flag t F_again e, m2)
                 else (Ret CELL_OK, awake1 c e, m2)
             | (None, m2) \<Rightarrow> (Ret CELL_OK, e, m2)))"

section \<open>Model: the system calls\<close>

record sys_mutex_attribute =
  ma_protocol :: u32
  ma_recursive :: u32
  ma_pshared :: u32
  ma_adaptive :: u32
  ma_ipc_key :: u64
  ma_flags :: u32
  ma_name :: u64

definition sys_mutex_create ::
  "tid \<Rightarrow> u32 \<Rightarrow> sys_mutex_attribute option \<Rightarrow> kernel \<Rightarrow> error_code \<times> kernel" where
  "sys_mutex_create t mutex_id attr k0 =
     (let k = enter t k0
      in case attr of
           None \<Rightarrow> (CELL_EFAULT, k)
         | Some at \<Rightarrow>
             if mutex_id = 0 then (CELL_EFAULT, k)
             else if ma_protocol at \<notin> {SYS_SYNC_FIFO, SYS_SYNC_PRIORITY, SYS_SYNC_PRIORITY_INHERIT}
             then (CELL_EINVAL, k)
             else if ma_recursive at \<notin> {SYS_SYNC_RECURSIVE, SYS_SYNC_NOT_RECURSIVE} then (CELL_EINVAL, k)
             else
               (case lv2_create mutex_base (ma_pshared at) (ma_ipc_key at) (ma_flags at)
                       (\<lambda>_. O_mutex \<lparr>mx_exists = 0, mx_protocol = ma_protocol at,
                          mx_recursive = ma_recursive at, mx_adaptive = ma_adaptive at,
                          mx_key = get_key (ma_pshared at) (ma_ipc_key at), mx_name = ma_name at,
                          mx_cond_count = 0, mx_lock_count = 0, mx_owner = 0, mx_sq = []\<rparr>) True k of
                  (err, k1) \<Rightarrow>
                    if err \<noteq> 0 then (err, k1)
                    else (CELL_OK, write32 mutex_id (g_id (ids k1)) k1)))"

definition mutex_destroy_check :: "nat \<Rightarrow> lv2_object \<Rightarrow> kernel \<Rightarrow> error_code \<times> kernel" where
  "mutex_destroy_check a x k =
     (case x of
        O_mutex m \<Rightarrow>
          if mx_owner m \<noteq> 0 then (CELL_EBUSY, k)
          else if mx_cond_count m \<noteq> 0 then (CELL_EPERM, k)
          else (CELL_OK, on_id_destroy mutex_base a (mx_key m) (mx_key m \<noteq> 0) k)
      | _ \<Rightarrow> (CELL_OK, k))"

definition sys_mutex_destroy :: "tid \<Rightarrow> u32 \<Rightarrow> kernel \<Rightarrow> error_code \<times> kernel" where
  "sys_mutex_destroy t mutex_id k0 =
     (case withdraw_if mutex_base mutex_id mutex_destroy_check (enter t k0) of
        (None, k) \<Rightarrow> (CELL_ESRCH, k)
      | (Some r, k) \<Rightarrow> (r, k))"

text \<open>Running an operation on the mutex that a handle names.\<close>

definition on_mutex ::
  "u32 \<Rightarrow> (lv2 \<Rightarrow> lv2_mutex \<Rightarrow> outcome \<times> lv2 \<times> lv2_mutex) \<Rightarrow> kernel \<Rightarrow> outcome \<times> kernel" where
  "on_mutex idn f k =
     (case get_obj mutex_base idn k of
        Some (a, O_mutex m) \<Rightarrow>
          (case f (env k) m of (r, e, m') \<Rightarrow> (r, put_obj a (O_mutex m') (k\<lparr>env := e\<rparr>)))
      | _ \<Rightarrow> (Ret CELL_ESRCH, k))"

definition sys_mutex_lock ::
  "tid \<Rightarrow> u32 \<Rightarrow> u64 \<Rightarrow> control_data \<Rightarrow> control_data list \<Rightarrow> kernel \<Rightarrow> outcome \<times> kernel" where
  "sys_mutex_lock t mutex_id timeout seen spins k =
     on_mutex mutex_id (mutex_lock t timeout seen spins) (enter t k)"

definition sys_mutex_trylock :: "tid \<Rightarrow> u32 \<Rightarrow> control_data \<Rightarrow> kernel \<Rightarrow> outcome \<times> kernel" where
  "sys_mutex_trylock t mutex_id seen k =
     on_mutex mutex_id (\<lambda>e m. case try_lock t seen m of (r, m') \<Rightarrow> (Ret r, e, m')) (enter t k)"

definition sys_mutex_unlock :: "tid \<Rightarrow> u32 \<Rightarrow> control_data \<Rightarrow> kernel \<Rightarrow> outcome \<times> kernel" where
  "sys_mutex_unlock t mutex_id seen k = on_mutex mutex_id (mutex_unlock t seen) (enter t k)"

section \<open>Model: save states\<close>

text \<open>What \<^verbatim>\<open>lv2_mutex::save\<close> writes and the constructor reads back; the waiters are not saved, they
  repeat their calls.\<close>

type_synonym mutex_image = "u32 \<times> u32 \<times> u32 \<times> u64 \<times> u64 \<times> u32 \<times> u32"

definition mutex_save :: "lv2_mutex \<Rightarrow> mutex_image" where
  "mutex_save m = (mx_protocol m, mx_recursive m, mx_adaptive m, mx_key m, mx_name m, mx_lock_count m,
     push_bit 1 (mx_owner m))"

definition mutex_load :: "mutex_image \<Rightarrow> lv2_mutex" where
  "mutex_load im = (case im of (p, r, a, ky, n, lc, ow) \<Rightarrow>
     \<lparr>mx_exists = 0, mx_protocol = p, mx_recursive = r, mx_adaptive = a, mx_key = ky, mx_name = n,
      mx_cond_count = 0, mx_lock_count = lc, mx_owner = drop_bit 1 ow, mx_sq = []\<rparr>)"

interpretation mutex_del: destroy_call "mutex_base" "mutex_destroy_check"
  by unfold_locales (simp add: mutex_destroy_check_def split: lv2_object.splits)

section \<open>Lemmas on single operations\<close>

definition mutex_inv :: "lv2_mutex \<Rightarrow> bool" where
  "mutex_inv m \<longleftrightarrow> distinct (mx_sq m) \<and> 0 \<notin> set (mx_sq m) \<and> mx_owner m \<notin> set (mx_sq m) \<and>
     (mx_owner m = 0 \<longrightarrow> mx_sq m = [] \<and> mx_lock_count m = 0) \<and>
     (mx_recursive m \<noteq> SYS_SYNC_RECURSIVE \<longrightarrow> mx_lock_count m = 0)"

text \<open>
  A loaded control word may be out of date, but not in whether it names the loading thread: only that
  thread gives its ownership up, and it receives ownership only while it is blocked.
\<close>

definition own_view :: "tid \<Rightarrow> lv2_mutex \<Rightarrow> control_data \<Rightarrow> bool" where
  "own_view t m seen \<longleftrightarrow> (fst seen = t \<longleftrightarrow> mx_owner m = t)"

lemma try_lock_cases:
  assumes "try_lock t seen m = (r, m')" "own_view t m seen" "t \<noteq> 0"
  obtains (taken) "r = CELL_OK" "mx_owner m = 0" "m' = m\<lparr>mx_owner := t\<rparr>"
  | (deeper) "r = CELL_OK" "mx_owner m = t" "mx_recursive m = SYS_SYNC_RECURSIVE"
      "mx_lock_count m \<noteq> 0xffffffff" "m' = m\<lparr>mx_lock_count := mx_lock_count m + 1\<rparr>"
  | (overflow) "r = CELL_EKRESOURCE" "mx_owner m = t" "mx_recursive m = SYS_SYNC_RECURSIVE"
      "mx_lock_count m = 0xffffffff" "m' = m"
  | (deadlock) "r = CELL_EDEADLK" "mx_owner m = t" "mx_recursive m \<noteq> SYS_SYNC_RECURSIVE" "m' = m"
  | (busy) "r = CELL_EBUSY" "mx_owner m \<noteq> t" "m' = m"
proof -
  have v: "fst seen = t \<longleftrightarrow> mx_owner m = t" using assms(2) by (simp add: own_view_def)
  consider (free) "fst seen = 0" "control_of m = seen" | (stale) "fst seen = 0" "control_of m \<noteq> seen"
    | (own) "fst seen = t" | (other) "fst seen \<noteq> 0" "fst seen \<noteq> t" by blast
  then show ?thesis
  proof cases
    case free
    then have "mx_owner m = 0" by (auto simp: control_of_def)
    with free assms(1) show ?thesis by (intro taken) (simp_all add: try_lock_def)
  next
    case stale
    with assms(1,3) v show ?thesis by (intro busy) (auto simp: try_lock_def)
  next
    case own
    with v have o: "mx_owner m = t" by simp
    show ?thesis
    proof (cases "mx_recursive m = SYS_SYNC_RECURSIVE")
      case rec: True
      show ?thesis
      proof (cases "mx_lock_count m = 0xffffffff")
        case True
        with own o rec assms(1,3) show ?thesis by (intro overflow) (simp_all add: try_lock_def)
      next
        case False
        with own o rec assms(1,3) show ?thesis by (intro deeper) (simp_all add: try_lock_def)
      qed
    next
      case False
      with own o assms(1,3) show ?thesis by (intro deadlock) (simp_all add: try_lock_def)
    qed
  next
    case other
    with assms(1) v show ?thesis by (intro busy) (auto simp: try_lock_def)
  qed
qed

lemma spin_lock_busy:
  assumes "spin_lock t ss CELL_EBUSY m = (r, m')" "\<forall>s \<in> set ss. own_view t m s" "t \<noteq> 0" "mx_owner m \<noteq> t"
  shows "r = CELL_EBUSY \<and> m' = m \<or> r = CELL_OK \<and> mx_owner m = 0 \<and> m' = m\<lparr>mx_owner := t\<rparr>"
  using assms
proof (induction t ss "CELL_EBUSY :: error_code" m rule: spin_lock.induct)
  case (2 t s ss m)
  obtain r1 m1 where t1: "try_lock t s m = (r1, m1)" by fastforce
  from 2(3) have "own_view t m s" by simp
  from t1 this 2(4) show ?case
  proof (cases rule: try_lock_cases)
    case taken
    then show ?thesis using 2(2) t1 by simp
  next
    case busy
    then show ?thesis using 2 t1 by (simp split: if_splits)
  qed (use 2(5) in simp_all)
qed simp

text \<open>
  What a call to lock does, whatever the loaded control words were: it takes a free mutex, counts a
  recursive lock, reports an error to the owner, or queues the caller.
\<close>

lemma mutex_lock_cases:
  assumes run: "mutex_lock t timeout seen spins e m = (out, e', m')"
    and view: "own_view t m seen" "\<forall>s \<in> set spins. own_view t m s" and t: "t \<noteq> 0"
    and live: "t \<in> set (g_ppu e)" "F_signal \<notin> state (thr e t)"
  obtains (taken) "out = Ret CELL_OK" "mx_owner m = 0" "m' = m\<lparr>mx_owner := t\<rparr>"
  | (deeper) "out = Ret CELL_OK" "mx_owner m = t" "mx_recursive m = SYS_SYNC_RECURSIVE"
      "mx_lock_count m \<noteq> 0xffffffff" "m' = m\<lparr>mx_lock_count := mx_lock_count m + 1\<rparr>"
  | (error) r where "out = Ret r" "r \<noteq> CELL_OK" "mx_owner m = t" "m' = m"
      "r = (if mx_recursive m = SYS_SYNC_RECURSIVE then CELL_EKRESOURCE else CELL_EDEADLK)"
  | (queued) "out = Blocked" "mx_owner m \<noteq> 0" "mx_owner m \<noteq> t" "m' = m\<lparr>mx_sq := t # mx_sq m\<rparr>"
      "gpr (thr e' t) 3 = 0"
proof -
  obtain r1 m1 where t1: "try_lock t seen m = (r1, m1)" by fastforce
  define rm where "rm = (if r1 = CELL_EBUSY \<and> mx_sq m1 = [] then spin_lock t spins r1 m1 else (r1, m1))"
  obtain r2 m2 where rm: "rm = (r2, m2)" by fastforce
  have run2: "mutex_lock t timeout seen spins e m =
      (if r2 \<noteq> CELL_EBUSY then (Ret r2, e, m2)
       else (let e1 = upd_thr t (\<lambda>p. p\<lparr>cancel_sleep := 1\<rparr>) e
             in case try_own t e1 m2 of
                  (True, e2, m3) \<Rightarrow> (Ret CELL_OK, upd_thr t (\<lambda>p. p\<lparr>cancel_sleep := 0\<rparr>) e2, m3)
                | (False, e2, m3) \<Rightarrow>
                    (case sleep t timeout e2 of
                       (slept, e3) \<Rightarrow>
                         (let e4 = upd_thr t (\<lambda>p. p\<lparr>cancel_sleep := 0\<rparr>) e3
                          in if slept then (Blocked, set_gpr t 3 0 e4, m3) else (Ret CELL_OK, e4, m3)))))"
    unfolding mutex_lock_def t1 prod.case rm_def [symmetric] rm ..
  from t1 view(1) t show ?thesis
  proof (cases rule: try_lock_cases)
    case busy
    have "r2 = CELL_EBUSY \<and> m2 = m \<or> r2 = CELL_OK \<and> mx_owner m = 0 \<and> m2 = m\<lparr>mx_owner := t\<rparr>"
    proof (cases "mx_sq m1 = []")
      case True
      with rm busy have "spin_lock t spins CELL_EBUSY m = (r2, m2)" by (simp add: rm_def)
      from spin_lock_busy [OF this view(2) t] busy show ?thesis by simp
    next
      case False
      with rm busy show ?thesis by (simp add: rm_def)
    qed
    then show ?thesis
    proof
      assume "r2 = CELL_OK \<and> mx_owner m = 0 \<and> m2 = m\<lparr>mx_owner := t\<rparr>"
      then show ?thesis using run run2 taken by simp
    next
      assume b: "r2 = CELL_EBUSY \<and> m2 = m"
      let ?e1 = "upd_thr t (\<lambda>p. p\<lparr>cancel_sleep := 1\<rparr>) e"
      show ?thesis
      proof (cases "mx_owner m = 0")
        case True
        with b run run2 taken show ?thesis by (simp add: try_own_def Let_def)
      next
        case False
        have "fst (sleep t timeout (stamp_order t ?e1))"
          using live by (intro sleep_True) simp_all
        then obtain e3 where "sleep t timeout (stamp_order t ?e1) = (True, e3)"
          by (cases "sleep t timeout (stamp_order t ?e1)") simp
        with b run run2 False queued busy show ?thesis by (auto simp: try_own_def Let_def thr_set_gpr)
      qed
    qed
  next
    case taken
    with rm have "r2 = CELL_OK" "m2 = m\<lparr>mx_owner := t\<rparr>" by (simp_all add: rm_def)
    with run run2 taken \<open>mx_owner m = 0\<close> show ?thesis using that(1) by simp
  next
    case deeper
    with rm run run2 that(2) show ?thesis by (simp add: rm_def)
  next
    case overflow
    with rm run run2 that(3) show ?thesis by (simp add: rm_def)
  next
    case deadlock
    with rm run run2 that(3) show ?thesis by (simp add: rm_def)
  qed
qed

lemma mutex_unlock_cases:
  assumes run: "mutex_unlock t seen e m = (out, e', m')" and inv: "mutex_inv m"
    and view: "own_view t m seen" and quiet: "\<And>u. F_again \<notin> state (thr e u)"
  obtains (foreign) "out = Ret CELL_EPERM" "mx_owner m \<noteq> t" "m' = m" "e' = e"
  | (shallower) "out = Ret CELL_OK" "mx_owner m = t" "mx_lock_count m \<noteq> 0" "e' = e"
      "m' = m\<lparr>mx_lock_count := mx_lock_count m - 1\<rparr>"
  | (released) "out = Ret CELL_OK" "mx_owner m = t" "mx_lock_count m = 0" "mx_sq m = []" "e' = e"
      "m' = m\<lparr>mx_owner := 0\<rparr>"
  | (handed) c where "out = Ret CELL_OK" "mx_owner m = t" "mx_lock_count m = 0"
      "pick (thr e) (mx_protocol m) (mx_sq m) = Some c" "c \<in> set (mx_sq m)" "e' = awake1 c e"
      "m' = m\<lparr>mx_owner := c, mx_sq := remove1 c (mx_sq m)\<rparr>"
proof (cases "mx_owner m = t")
  case False
  with view run show ?thesis by (intro foreign) (simp_all add: mutex_unlock_def try_unlock_def own_view_def)
next
  case own: True
  with view have f: "fst seen = t" by (simp add: own_view_def)
  show ?thesis
  proof (cases "mx_lock_count m = 0")
    case False
    with run f own show ?thesis by (intro shallower) (simp_all add: mutex_unlock_def try_unlock_def)
  next
    case zero: True
    show ?thesis
    proof (cases "snd seen = None \<and> control_of m = seen")
      case True
      then have "mx_sq m = []" using head_ptr_None by (auto simp: control_of_def)
      with True run f own zero show ?thesis
        by (intro released) (simp_all add: mutex_unlock_def try_unlock_def)
    next
      case False
      then have busy: "try_unlock t seen m = (CELL_EBUSY, m)" using f zero by (auto simp: try_unlock_def)
      show ?thesis
      proof (rule schedule_cases [of "mx_sq m" "thr e" "mx_protocol m"])
        assume "mx_sq m = []" "schedule (thr e) (mx_protocol m) (mx_sq m) = (None, [])"
        with run busy own zero show ?thesis
          by (intro released) (simp_all add: mutex_unlock_def reown_def)
      next
        fix c assume "c \<in> set (mx_sq m)" "pick (thr e) (mx_protocol m) (mx_sq m) = Some c"
          "schedule (thr e) (mx_protocol m) (mx_sq m) = (Some c, remove1 c (mx_sq m))"
        with run busy own zero quiet [of c] show ?thesis
          by (intro handed [of c]) (simp_all add: mutex_unlock_def reown_def)
      qed (use quiet in simp)
    qed
  qed
qed

section \<open>Many threads on one mutex\<close>

datatype phase = Idle | Waiting | Holding

record msys =
  ms_env :: lv2
  ms_mutex :: lv2_mutex
  ms_phase :: "tid \<Rightarrow> phase"

text \<open>
  A thread that runs may call lock or unlock; a blocked one goes through rounds of its wait loop, in
  which a raised signal means that it was taken off the queue (the scheduler signals a thread only
  after \<^verbatim>\<open>awake\<close>, which unlock calls for the thread it dequeued); anything else may happen to the
  thread state as long as no save state is being taken and the registers of blocked threads are left
  alone.
\<close>

inductive mutex_step :: "msys \<Rightarrow> msys \<Rightarrow> bool" where
  lock: "\<lbrakk>ms_phase s t \<noteq> Waiting; t \<noteq> 0; own_view t (ms_mutex s) seen;
     \<forall>v \<in> set spins. own_view t (ms_mutex s) v;
     t \<in> set (g_ppu (ms_env s)); F_signal \<notin> state (thr (ms_env s) t);
     mutex_lock t timeout seen spins (ms_env s) (ms_mutex s) = (out, e', m')\<rbrakk> \<Longrightarrow>
   mutex_step s \<lparr>ms_env = e', ms_mutex = m', ms_phase = (ms_phase s)(t :=
     (if out = Ret CELL_OK then Holding else if out = Blocked then Waiting else ms_phase s t))\<rparr>"
| wait: "\<lbrakk>ms_phase s t = Waiting; state (thr (ms_env s) t) \<noteq> {}; \<not> is_stopped (state (thr (ms_env s) t));
     F_signal \<in> state (thr (ms_env s) t) \<longrightarrow> t \<notin> set (mx_sq (ms_mutex s));
     mutex_wait t timeout fired (ms_env s) (ms_mutex s) = (v, e', m')\<rbrakk> \<Longrightarrow>
   mutex_step s \<lparr>ms_env = e', ms_mutex = m', ms_phase = (ms_phase s)(t :=
     (if v = Keep_waiting then Waiting else if ret_gpr3 t e' = CELL_OK then Holding else Idle))\<rparr>"
| unlock: "\<lbrakk>ms_phase s t \<noteq> Waiting; t \<noteq> 0; own_view t (ms_mutex s) seen;
     mutex_unlock t seen (ms_env s) (ms_mutex s) = (out, e', m')\<rbrakk> \<Longrightarrow>
   mutex_step s \<lparr>ms_env = e', ms_mutex = m', ms_phase = (ms_phase s)(t :=
     (if mx_owner m' = t then ms_phase s t else Idle))\<rparr>"
| environment: "\<lbrakk>\<forall>u. F_again \<notin> state (thr e' u);
     \<forall>u. ms_phase s u = Waiting \<longrightarrow> gpr (thr e' u) 3 = gpr (thr (ms_env s) u) 3\<rbrakk> \<Longrightarrow>
   mutex_step s (s\<lparr>ms_env := e'\<rparr>)"

text \<open>How the mutex and the phases of the threads fit together.\<close>

definition own_ok :: "lv2_mutex \<Rightarrow> (tid \<Rightarrow> phase) \<Rightarrow> bool" where
  "own_ok m ph \<longleftrightarrow> mutex_inv m \<and> (\<forall>u. ph u = Holding \<longrightarrow> u = mx_owner m) \<and>
     (\<forall>u. ph u = Waiting \<longrightarrow> u \<in> set (mx_sq m) \<or> u = mx_owner m) \<and>
     (\<forall>u \<in> set (mx_sq m). ph u = Waiting) \<and> (mx_owner m \<noteq> 0 \<longrightarrow> ph (mx_owner m) \<noteq> Idle) \<and> ph 0 = Idle"

definition msys_ok :: "lv2 \<Rightarrow> lv2_mutex \<Rightarrow> (tid \<Rightarrow> phase) \<Rightarrow> bool" where
  "msys_ok e m ph \<longleftrightarrow> own_ok m ph \<and> (\<forall>u. F_again \<notin> state (thr e u)) \<and>
     (\<forall>u. ph u = Waiting \<longrightarrow> gpr (thr e u) 3 = 0)"

definition msys_inv :: "msys \<Rightarrow> bool" where
  "msys_inv s \<longleftrightarrow> msys_ok (ms_env s) (ms_mutex s) (ms_phase s)"

lemma mutex_lock_calm: "calm t e (fst (snd (mutex_lock t timeout seen spins e m)))"
  by (auto simp: mutex_lock_def try_own_def Let_def case_prod_beta intro!: calm_intros)

lemma mutex_wait_calm: "\<not> is_stopped (state (thr e t)) \<Longrightarrow> calm t e (fst (snd (mutex_wait t timeout fired e m)))"
  by (auto simp: mutex_wait_def wait_iter_def cancel_wait_def Let_def case_prod_beta intro!: calm_intros)

lemma mutex_inv_lock:
  "mutex_inv m \<Longrightarrow> mx_owner m = 0 \<Longrightarrow> t \<noteq> 0 \<Longrightarrow> mutex_inv (m\<lparr>mx_owner := t\<rparr>)"
  "mutex_inv m \<Longrightarrow> mx_recursive m = SYS_SYNC_RECURSIVE \<Longrightarrow> mx_owner m \<noteq> 0 \<Longrightarrow>
     mutex_inv (m\<lparr>mx_lock_count := n\<rparr>)"
  "mutex_inv m \<Longrightarrow> mx_owner m \<noteq> 0 \<Longrightarrow> t \<noteq> 0 \<Longrightarrow> t \<noteq> mx_owner m \<Longrightarrow> t \<notin> set (mx_sq m) \<Longrightarrow>
     mutex_inv (m\<lparr>mx_sq := t # mx_sq m\<rparr>)"
  by (simp_all add: mutex_inv_def)

lemma mutex_inv_unlock:
  "mutex_inv m \<Longrightarrow> mx_lock_count m = 0 \<Longrightarrow> mx_sq m = [] \<Longrightarrow> mutex_inv (m\<lparr>mx_owner := 0\<rparr>)"
  "mutex_inv m \<Longrightarrow> mx_lock_count m = 0 \<Longrightarrow> c \<in> set (mx_sq m) \<Longrightarrow>
     mutex_inv (m\<lparr>mx_owner := c, mx_sq := remove1 c (mx_sq m)\<rparr>)"
  "mutex_inv m \<Longrightarrow> mutex_inv (m\<lparr>mx_sq := remove1 c (mx_sq m)\<rparr>)"
  by (auto simp: mutex_inv_def dest: subsetD [OF set_remove1_subset])

lemma own_ok_take: "own_ok m ph \<Longrightarrow> mx_owner m = 0 \<Longrightarrow> t \<noteq> 0 \<Longrightarrow>
    own_ok (m\<lparr>mx_owner := t\<rparr>) (ph(t := Holding))"
  by (auto simp: own_ok_def mutex_inv_def)

lemma own_ok_count: "own_ok m ph \<Longrightarrow> mx_recursive m = SYS_SYNC_RECURSIVE \<Longrightarrow> mx_owner m \<noteq> 0 \<Longrightarrow>
    own_ok (m\<lparr>mx_lock_count := n\<rparr>) ph"
  by (simp add: own_ok_def mutex_inv_def)

lemma own_ok_enqueue: "own_ok m ph \<Longrightarrow> ph t = Idle \<Longrightarrow> t \<noteq> 0 \<Longrightarrow> mx_owner m \<noteq> 0 \<Longrightarrow>
    own_ok (m\<lparr>mx_sq := t # mx_sq m\<rparr>) (ph(t := Waiting))"
  by (auto simp: own_ok_def mutex_inv_def)

lemma own_ok_hold: "own_ok m ph \<Longrightarrow> mx_owner m = t \<Longrightarrow> t \<noteq> 0 \<Longrightarrow> own_ok m (ph(t := Holding))"
  by (auto simp: own_ok_def mutex_inv_def)

lemma own_ok_drop:
  assumes ok: "own_ok m ph" and t: "t \<in> set (mx_sq m)"
  shows "own_ok (m\<lparr>mx_sq := remove1 t (mx_sq m)\<rparr>) (ph(t := Idle))"
proof -
  have mi: "mutex_inv m" using ok by (simp add: own_ok_def)
  then have s: "set (remove1 t (mx_sq m)) = set (mx_sq m) - {t}" and o: "mx_owner m \<noteq> t"
    using t by (auto simp: mutex_inv_def)
  have "mutex_inv (m\<lparr>mx_sq := remove1 t (mx_sq m)\<rparr>)" by (rule mutex_inv_unlock(3) [OF mi])
  moreover have "ph u = Holding \<longrightarrow> u = mx_owner m"
    "ph u = Waiting \<longrightarrow> u \<in> set (mx_sq m) \<or> u = mx_owner m" for u
    using ok by (simp_all add: own_ok_def)
  ultimately show ?thesis using ok o by (simp add: own_ok_def s)
qed

lemma own_ok_release: "own_ok m ph \<Longrightarrow> mx_owner m = t \<Longrightarrow> mx_lock_count m = 0 \<Longrightarrow> mx_sq m = [] \<Longrightarrow>
    own_ok (m\<lparr>mx_owner := 0\<rparr>) (ph(t := Idle))"
  by (auto simp: own_ok_def mutex_inv_def)

lemma own_ok_hand:
  assumes ok: "own_ok m ph" and o: "mx_owner m = t" "mx_lock_count m = 0" and c: "c \<in> set (mx_sq m)"
  shows "own_ok (m\<lparr>mx_owner := c, mx_sq := remove1 c (mx_sq m)\<rparr>) (ph(t := Idle))"
proof -
  have mi: "mutex_inv m" using ok by (simp add: own_ok_def)
  then have s: "set (remove1 c (mx_sq m)) = set (mx_sq m) - {c}" "c \<noteq> t" "t \<notin> set (mx_sq m)"
    using c o by (auto simp: mutex_inv_def)
  have "mutex_inv (m\<lparr>mx_owner := c, mx_sq := remove1 c (mx_sq m)\<rparr>)"
    by (rule mutex_inv_unlock(2) [OF mi o(2) c])
  moreover have "ph u = Holding \<longrightarrow> u = t" "ph u = Waiting \<longrightarrow> u \<in> set (mx_sq m) \<or> u = t"
    "u \<in> set (mx_sq m) \<longrightarrow> ph u = Waiting" "ph 0 = Idle" for u
    using ok o by (simp_all add: own_ok_def)
  ultimately show ?thesis using s c by (auto simp: own_ok_def)
qed

lemma msys_ok_env:
  assumes "msys_ok e m ph" "calm t e e'" "ph t \<noteq> Waiting \<or> gpr (thr e' t) 3 = 0"
  shows "msys_ok e' m ph"
proof -
  have "gpr (thr e' u) 3 = 0" if "ph u = Waiting" for u
    using assms that by (cases "u = t") (auto simp: msys_ok_def calm_def)
  with assms show ?thesis by (simp add: msys_ok_def calm_def)
qed

lemma msys_ok_take: "msys_ok e m ph \<Longrightarrow> mx_owner m = 0 \<Longrightarrow> t \<noteq> 0 \<Longrightarrow>
    msys_ok e (m\<lparr>mx_owner := t\<rparr>) (ph(t := Holding))"
  by (simp add: msys_ok_def own_ok_take)

lemma msys_ok_count: "msys_ok e m ph \<Longrightarrow> mx_recursive m = SYS_SYNC_RECURSIVE \<Longrightarrow> mx_owner m \<noteq> 0 \<Longrightarrow>
    msys_ok e (m\<lparr>mx_lock_count := n\<rparr>) ph"
  by (simp add: msys_ok_def own_ok_count)

lemma msys_ok_enqueue: "msys_ok e m ph \<Longrightarrow> ph t = Idle \<Longrightarrow> t \<noteq> 0 \<Longrightarrow> mx_owner m \<noteq> 0 \<Longrightarrow>
    gpr (thr e t) 3 = 0 \<Longrightarrow> msys_ok e (m\<lparr>mx_sq := t # mx_sq m\<rparr>) (ph(t := Waiting))"
  by (simp add: msys_ok_def own_ok_enqueue)

lemma msys_ok_hold: "msys_ok e m ph \<Longrightarrow> mx_owner m = t \<Longrightarrow> t \<noteq> 0 \<Longrightarrow> msys_ok e m (ph(t := Holding))"
  by (simp add: msys_ok_def own_ok_hold)

lemma msys_ok_drop: "msys_ok e m ph \<Longrightarrow> t \<in> set (mx_sq m) \<Longrightarrow>
    msys_ok e (m\<lparr>mx_sq := remove1 t (mx_sq m)\<rparr>) (ph(t := Idle))"
  by (simp add: msys_ok_def own_ok_drop)

lemma msys_ok_release: "msys_ok e m ph \<Longrightarrow> mx_owner m = t \<Longrightarrow> mx_lock_count m = 0 \<Longrightarrow> mx_sq m = [] \<Longrightarrow>
    msys_ok e (m\<lparr>mx_owner := 0\<rparr>) (ph(t := Idle))"
  by (simp add: msys_ok_def own_ok_release)

lemma msys_ok_hand: "msys_ok e m ph \<Longrightarrow> mx_owner m = t \<Longrightarrow> mx_lock_count m = 0 \<Longrightarrow> c \<in> set (mx_sq m) \<Longrightarrow>
    msys_ok e (m\<lparr>mx_owner := c, mx_sq := remove1 c (mx_sq m)\<rparr>) (ph(t := Idle))"
  by (simp add: msys_ok_def own_ok_hand)

lemma msys_ok_lock:
  assumes ok: "msys_ok e m ph" and p: "ph t \<noteq> Waiting" and t: "t \<noteq> 0"
    and view: "own_view t m seen" "\<forall>v \<in> set spins. own_view t m v"
    and live: "t \<in> set (g_ppu e)" "F_signal \<notin> state (thr e t)"
    and run: "mutex_lock t timeout seen spins e m = (out, e', m')"
  shows "msys_ok e' m' (ph(t := (if out = Ret CELL_OK then Holding else if out = Blocked then Waiting else ph t)))"
proof -
  have c: "calm t e e'" using mutex_lock_calm [of t e timeout seen spins m] run by simp
  have e': "msys_ok e' m ph" using msys_ok_env [OF ok c] p by simp
  from run view t live show ?thesis
  proof (cases rule: mutex_lock_cases)
    case taken
    then show ?thesis using msys_ok_take [OF e' _ t] by simp
  next
    case deeper
    then show ?thesis using msys_ok_hold [OF msys_ok_count [OF e', of "mx_lock_count m + 1"], of t] t by simp
  next
    case (error r)
    then show ?thesis using e' by simp
  next
    case queued
    then have "ph t = Idle" using ok p by (cases "ph t") (auto simp: msys_ok_def own_ok_def)
    then show ?thesis using msys_ok_enqueue [OF e' _ t] queued by simp
  qed
qed

lemma msys_ok_wait:
  assumes ok: "msys_ok e m ph" and p: "ph t = Waiting" and st: "state (thr e t) \<noteq> {}"
    "\<not> is_stopped (state (thr e t))" and sig: "F_signal \<in> state (thr e t) \<longrightarrow> t \<notin> set (mx_sq m)"
    and run: "mutex_wait t timeout fired e m = (v, e', m')"
  shows "msys_ok e' m' (ph(t :=
     (if v = Keep_waiting then Waiting else if ret_gpr3 t e' = CELL_OK then Holding else Idle)))"
proof -
  have c: "calm t e e'" using mutex_wait_calm [OF st(2), of timeout fired m] run by simp
  have g: "gpr (thr e t) 3 = 0" "t \<in> set (mx_sq m) \<or> mx_owner m = t" and t: "t \<noteq> 0"
    using ok p by (auto simp: msys_ok_def own_ok_def)
  from run [unfolded mutex_wait_def] sig st(1) show ?thesis
  proof (cases rule: wait_iter_cases)
    case signalled
    then have "gpr (thr e' t) 3 = 0" using g by auto
    with msys_ok_hold [OF msys_ok_env [OF ok c], of t] signalled g t show ?thesis by (simp add: ret_gpr3_def)
  next
    case again
    with st(2) show ?thesis by simp
  next
    case timed
    show ?thesis
    proof (cases "t \<in> set (mx_sq m)")
      case True
      with timed have e'_eq: "e' = set_gpr t 3 0x8001000B (add_flag t F_wait e)"
        and m': "m' = m\<lparr>mx_sq := remove1 t (mx_sq m)\<rparr>" by (auto simp: cancel_wait_def Let_def)
      have "msys_ok (add_flag t F_wait e) m ph"
        by (rule msys_ok_env [OF ok, of t]) (simp_all add: calm_intros g)
      from msys_ok_drop [OF this True] have "msys_ok (add_flag t F_wait e) m' (ph(t := Idle))" by (simp add: m')
      then have "msys_ok e' m' (ph(t := Idle))"
        by (rule msys_ok_env [of _ _ _ t]) (simp_all add: e'_eq calm_intros)
      then show ?thesis using timed(1) by (simp add: ret_gpr3_def e'_eq thr_set_gpr)
    next
      case False
      with timed have m': "m' = m" "e' = add_flag t F_wait e" by (auto simp: cancel_wait_def Let_def)
      with msys_ok_hold [OF msys_ok_env [OF ok c], of t] timed(1) False g t show ?thesis
        by (simp add: ret_gpr3_def)
    qed
  next
    case more
    with ok p show ?thesis by (simp add: fun_upd_idem)
  qed
qed

lemma msys_ok_unlock:
  assumes ok: "msys_ok e m ph" and p: "ph t \<noteq> Waiting" and t: "t \<noteq> 0" and view: "own_view t m seen"
    and run: "mutex_unlock t seen e m = (out, e', m')"
  shows "msys_ok e' m' (ph(t := (if mx_owner m' = t then ph t else Idle)))"
proof -
  have mi: "mutex_inv m" and ag: "\<And>u. F_again \<notin> state (thr e u)"
    using ok by (auto simp: msys_ok_def own_ok_def)
  from run mi view ag show ?thesis
  proof (cases rule: mutex_unlock_cases)
    case foreign
    moreover have "ph t = Idle" using foreign ok p by (cases "ph t") (auto simp: msys_ok_def own_ok_def)
    ultimately show ?thesis using ok by (simp add: fun_upd_idem)
  next
    case shallower
    then have "mx_recursive m = SYS_SYNC_RECURSIVE" using mi by (auto simp: mutex_inv_def)
    with shallower msys_ok_count [OF ok] t show ?thesis by simp
  next
    case released
    with msys_ok_release [OF ok] t show ?thesis by simp
  next
    case (handed c)
    then have c: "c \<noteq> t" using mi by (auto simp: mutex_inv_def)
    have "calm t e (awake1 c e)" by (intro calm_intros)
    from msys_ok_env [OF ok this] p have "msys_ok (awake1 c e) m ph" by simp
    from msys_ok_hand [OF this] handed c show ?thesis by simp
  qed
qed

lemma msys_inv_step: "mutex_step s s' \<Longrightarrow> msys_inv s \<Longrightarrow> msys_inv s'"
proof (induction rule: mutex_step.induct)
  case (environment e' s)
  then show ?case by (simp add: msys_inv_def msys_ok_def own_ok_def)
qed (unfold msys_inv_def msys.select_convs, (rule msys_ok_lock msys_ok_wait msys_ok_unlock; assumption)+)

definition msys_init :: "msys \<Rightarrow> bool" where
  "msys_init s \<longleftrightarrow> ms_phase s = (\<lambda>_. Idle) \<and> mx_owner (ms_mutex s) = 0 \<and> mx_sq (ms_mutex s) = [] \<and>
     mx_lock_count (ms_mutex s) = 0 \<and> (\<forall>u. F_again \<notin> state (thr (ms_env s) u))"

lemma msys_reachable_inv: "mutex_step\<^sup>*\<^sup>* s0 s \<Longrightarrow> msys_init s0 \<Longrightarrow> msys_inv s"
proof (induction rule: rtranclp_induct)
  case base
  then show ?case by (simp add: msys_init_def msys_inv_def msys_ok_def own_ok_def mutex_inv_def)
qed (blast intro: msys_inv_step)

section \<open>The contract for clients of a mutex\<close>

text \<open>
  What a condition variable relies on when it sends a thread after the mutex with \<^verbatim>\<open>try_own\<close>: the
  thread becomes the owner of a free mutex and queues behind another owner, and mutex and phases stay
  consistent. The lemmas are for sending a whole list of threads.
\<close>

locale monitor_lock =
  fixes ok :: "'m \<Rightarrow> (tid \<Rightarrow> phase) \<Rightarrow> bool"
    and owner :: "'m \<Rightarrow> tid"
    and waiters :: "'m \<Rightarrow> tid list"
    and own :: "tid \<Rightarrow> 'm \<Rightarrow> 'm"
  assumes own_keeps: "\<lbrakk>ok m ph; ph t = Idle; t \<noteq> 0\<rbrakk> \<Longrightarrow> ok (own t m) (ph(t := Waiting))"
    and own_owner: "owner (own t m) = (if owner m = 0 then t else owner m)"
    and own_waiters: "waiters (own t m) = (if owner m = 0 then waiters m else t # waiters m)"
begin

lemma all_keep:
  "\<lbrakk>ok m ph; distinct ws; \<forall>w \<in> set ws. ph w = Idle \<and> w \<noteq> 0\<rbrakk> \<Longrightarrow>
   ok (fold own ws m) (\<lambda>u. if u \<in> set ws then Waiting else ph u)"
proof (induction ws arbitrary: m ph)
  case (Cons w ws)
  have "ok (own w m) (ph(w := Waiting))" using Cons.prems by (intro own_keeps) simp_all
  moreover have "distinct ws" "\<forall>v \<in> set ws. (ph(w := Waiting)) v = Idle \<and> v \<noteq> 0"
    using Cons.prems by auto
  ultimately have
    "ok (fold own ws (own w m)) (\<lambda>u. if u \<in> set ws then Waiting else (ph(w := Waiting)) u)" by (rule Cons.IH)
  moreover have "(\<lambda>u. if u \<in> set ws then Waiting else (ph(w := Waiting)) u) =
      (\<lambda>u. if u \<in> set (w # ws) then Waiting else ph u)" by auto
  ultimately show ?case by simp
qed simp

lemma all_owned: "owner m \<noteq> 0 \<Longrightarrow> owner (fold own ws m) = owner m \<and> waiters (fold own ws m) = rev ws @ waiters m"
  by (induction ws arbitrary: m) (simp_all add: own_owner own_waiters)

lemma all_free:
  "owner m = 0 \<Longrightarrow> w \<noteq> 0 \<Longrightarrow>
   owner (fold own (w # ws) m) = w \<and> waiters (fold own (w # ws) m) = rev ws @ waiters m"
  using all_owned [of "own w m" ws] by (simp add: own_owner own_waiters)

end

definition own_next :: "tid \<Rightarrow> lv2_mutex \<Rightarrow> lv2_mutex" where
  "own_next t m = (if mx_owner m \<noteq> 0 then m\<lparr>mx_sq := t # mx_sq m\<rparr> else m\<lparr>mx_owner := t\<rparr>)"

lemma try_own_next:
  "try_own t e m = (mx_owner m = 0, if mx_owner m \<noteq> 0 then stamp_order t e else e, own_next t m)"
  by (simp add: try_own_def own_next_def)

interpretation mx: monitor_lock own_ok mx_owner mx_sq own_next
proof unfold_locales
  fix m ph and t :: tid
  assume ok: "own_ok m ph" "ph t = Idle" "t \<noteq> 0"
  show "own_ok (own_next t m) (ph(t := Waiting))"
  proof (cases "mx_owner m = 0")
    case True
    with ok show ?thesis by (auto simp: own_next_def own_ok_def mutex_inv_def)
  next
    case False
    with ok own_ok_enqueue show ?thesis by (simp add: own_next_def)
  qed
qed (simp_all add: own_next_def)

section \<open>Properties\<close>

text \<open>
  Claim C1. Mutual exclusion and no lost wake-up. Starting from a free mutex and running any number of
  threads in any order, with timeouts, recursive locking and stale loads of the control word, at most
  one thread has a lock call that returned success without the matching unlock, and the owner word names
  that thread; a blocked thread is in
  the queue of a mutex that somebody owns, or has itself been made the owner; a free mutex has no
  waiters.
\<close>

theorem mutex_mutual_exclusion:
  assumes "mutex_step\<^sup>*\<^sup>* s0 s" "msys_init s0"
  shows "(ms_phase s u = Holding \<and> ms_phase s v = Holding \<longrightarrow> u = v) \<and>
    (ms_phase s u = Holding \<longrightarrow> mx_owner (ms_mutex s) = u) \<and>
    (ms_phase s u = Waiting \<longrightarrow>
       u \<in> set (mx_sq (ms_mutex s)) \<and> mx_owner (ms_mutex s) \<notin> {0, u} \<or> mx_owner (ms_mutex s) = u) \<and>
    (mx_owner (ms_mutex s) = 0 \<longrightarrow> mx_sq (ms_mutex s) = [] \<and> ms_phase s u = Idle)"
proof -
  define m ph where "m = ms_mutex s" and "ph = ms_phase s"
  have ok: "msys_ok (ms_env s) m ph"
    using msys_reachable_inv [OF assms] by (simp add: msys_inv_def m_def ph_def)
  then have "mx_owner m = 0 \<longrightarrow> ph u = Idle"
    by (cases "ph u") (auto simp: msys_ok_def own_ok_def mutex_inv_def)
  moreover have "mx_owner m = 0 \<longrightarrow> mx_sq m = []" "\<forall>w \<in> set (mx_sq m). mx_owner m \<noteq> w \<and> mx_owner m \<noteq> 0"
    using ok by (auto simp: msys_ok_def own_ok_def mutex_inv_def)
  moreover have "ph u = Holding \<longrightarrow> mx_owner m = u" "ph v = Holding \<longrightarrow> mx_owner m = v"
    "ph u = Waiting \<longrightarrow> u \<in> set (mx_sq m) \<or> mx_owner m = u" using ok by (auto simp: msys_ok_def own_ok_def)
  ultimately show ?thesis unfolding m_def [symmetric] ph_def [symmetric] by blast
qed

definition demo_mutex :: lv2_mutex where
  "demo_mutex = \<lparr>mx_exists = 1, mx_protocol = SYS_SYNC_FIFO, mx_recursive = SYS_SYNC_RECURSIVE,
     mx_adaptive = 0x2000, mx_key = 0, mx_name = 0, mx_cond_count = 0, mx_lock_count = 0, mx_owner = 0,
     mx_sq = []\<rparr>"

theorem mutex_mutual_exclusion_witness:
  "\<exists>s s0. msys_init s0 \<and> mutex_step\<^sup>*\<^sup>* s0 s \<and> ms_phase s 3 = Holding \<and>
     mx_owner (ms_mutex s) = 3 \<and> (\<forall>v. ms_phase s v = Holding \<longrightarrow> v = 3)"
proof -
  let ?e = "demo_lv2 [1, 3]"
  define s0 where "s0 = \<lparr>ms_env = ?e, ms_mutex = demo_mutex, ms_phase = (\<lambda>_. Idle)\<rparr>"
  define s where "s = \<lparr>ms_env = ?e, ms_mutex = demo_mutex\<lparr>mx_owner := 3\<rparr>, ms_phase = (\<lambda>_. Idle)(3 := Holding)\<rparr>"
  have l: "mutex_lock 3 0 (0, None) [] ?e demo_mutex = (Ret CELL_OK, ?e, demo_mutex\<lparr>mx_owner := 3\<rparr>)"
    by (simp add: mutex_lock_def try_lock_def control_of_def demo_mutex_def)
  have "mutex_step s0 s"
    using mutex_step.lock [of s0 3 "(0, None)" "[]" 0 _ ?e "demo_mutex\<lparr>mx_owner := 3\<rparr>"] l
    by (simp add: s0_def s_def own_view_def demo_mutex_def demo_defs)
  moreover have i: "msys_init s0" by (simp add: s0_def msys_init_def demo_mutex_def demo_defs)
  ultimately have r: "mutex_step\<^sup>*\<^sup>* s0 s" "ms_phase s 3 = Holding" by (auto simp: s_def)
  have "mx_owner (ms_mutex s) = 3" "\<forall>v. ms_phase s v = Holding \<longrightarrow> v = 3"
    using mutex_mutual_exclusion [OF r(1) i] r(2) by blast+
  with i r show ?thesis by blast
qed

text \<open>
  Lock and unlock on every branch. With control words that may be stale (except about the
  caller itself), \<^verbatim>\<open>sys_mutex_lock\<close> takes a free mutex, deepens a recursive one, reports
  \<^verbatim>\<open>CELL_EKRESOURCE\<close> at the 32 bit limit and \<^verbatim>\<open>CELL_EDEADLK\<close> on a non-recursive one, and blocks
  otherwise with the caller queued; the invariant is kept.
\<close>

theorem mutex_lock_behaviour:
  assumes "mutex_lock t timeout seen spins e m = (out, e', m')" "mutex_inv m" "t \<noteq> 0" "t \<notin> set (mx_sq m)"
    and "own_view t m seen" "\<forall>s \<in> set spins. own_view t m s"
    and "t \<in> set (g_ppu e)" "F_signal \<notin> state (thr e t)"
  shows "mutex_inv m' \<and>
    (if mx_owner m = 0 then out = Ret CELL_OK \<and> m' = m\<lparr>mx_owner := t\<rparr>
     else if mx_owner m \<noteq> t then out = Blocked \<and> m' = m\<lparr>mx_sq := t # mx_sq m\<rparr>
     else if mx_recursive m \<noteq> SYS_SYNC_RECURSIVE then out = Ret CELL_EDEADLK \<and> m' = m
     else if mx_lock_count m = 0xffffffff then out = Ret CELL_EKRESOURCE \<and> m' = m
     else out = Ret CELL_OK \<and> m' = m\<lparr>mx_lock_count := mx_lock_count m + 1\<rparr>)"
  using assms(1,5,6,3,7,8)
proof (cases rule: mutex_lock_cases)
  case taken
  with assms show ?thesis by (simp add: mutex_inv_lock)
next
  case deeper
  with assms show ?thesis by (simp add: mutex_inv_lock)
next
  case (error r)
  show ?thesis
  proof (cases "mx_recursive m = SYS_SYNC_RECURSIVE \<and> mx_lock_count m \<noteq> 0xffffffff")
    case True
    obtain r1 m1 where t1: "try_lock t seen m = (r1, m1)" by fastforce
    from t1 assms(5,3) True error(3) have "r1 = CELL_OK"
      by (cases rule: try_lock_cases) simp_all
    with t1 assms(1) have "out = Ret CELL_OK" by (simp add: mutex_lock_def)
    with error show ?thesis by simp
  next
    case False
    with error assms(2,3) show ?thesis by auto
  qed
next
  case queued
  with assms show ?thesis by (simp add: mutex_inv_lock)
qed

theorem mutex_lock_behaviour_witness:
  "fst (mutex_lock 3 0 (0, Some 9) [] (demo_lv2 [1, 3]) (demo_mutex\<lparr>mx_owner := 1\<rparr>)) = Blocked"
proof -
  let ?m = "demo_mutex\<lparr>mx_owner := 1\<rparr>" and ?e = "demo_lv2 [1, 3]"
  obtain out e' m' where run: "mutex_lock 3 0 (0, Some 9) [] ?e ?m = (out, e', m')"
    using prod_cases3 by blast
  have h: "mutex_inv ?m" "(3::tid) \<noteq> 0" "3 \<notin> set (mx_sq ?m)" "own_view 3 ?m (0, Some 9)"
    "3 \<in> set (g_ppu ?e)" "F_signal \<notin> state (thr ?e 3)"
    by (simp_all add: mutex_inv_def own_view_def demo_mutex_def demo_defs)
  have "\<forall>s \<in> set []. own_view 3 ?m s" by simp
  from mutex_lock_behaviour [OF run h(1-4) this h(5,6)] run show ?thesis by (simp add: demo_mutex_def)
qed

text \<open>
  Unlocking. A thread that does not own the mutex gets \<^verbatim>\<open>CELL_EPERM\<close> and changes nothing; a
  nested lock is counted down; the last unlock of a mutex with waiters makes the thread that the
  queue's protocol picks the new owner, takes exactly it off the queue and wakes it, and of a mutex
  without waiters leaves it free.
\<close>

theorem mutex_unlock_behaviour:
  assumes "mutex_unlock t seen e m = (out, e', m')" "mutex_inv m" "own_view t m seen"
    and "\<forall>u. F_again \<notin> state (thr e u)"
  shows "mutex_inv m' \<and>
    (if mx_owner m \<noteq> t then out = Ret CELL_EPERM \<and> m' = m \<and> e' = e
     else out = Ret CELL_OK \<and>
       (if mx_lock_count m \<noteq> 0 then m' = m\<lparr>mx_lock_count := mx_lock_count m - 1\<rparr> \<and> e' = e
        else case pick (thr e) (mx_protocol m) (mx_sq m) of
               None \<Rightarrow> m' = m\<lparr>mx_owner := 0\<rparr> \<and> e' = e
             | Some c \<Rightarrow> m' = m\<lparr>mx_owner := c, mx_sq := remove1 c (mx_sq m)\<rparr> \<and> e' = awake1 c e))"
  using assms(1-3) assms(4) [rule_format]
proof (cases rule: mutex_unlock_cases)
  case foreign
  with assms show ?thesis by simp
next
  case shallower
  moreover from this assms(2) have "mutex_inv m'" by (simp add: mutex_inv_def)
  ultimately show ?thesis by simp
next
  case released
  with assms(2) mutex_inv_unlock(1) [of m] show ?thesis by simp
next
  case (handed c)
  with assms(2) mutex_inv_unlock(2) [of m c] show ?thesis by simp
qed

theorem mutex_unlock_behaviour_witness:
  "mx_owner (snd (snd (mutex_unlock 1 (1, Some 5) (demo_lv2 [1]) (demo_mutex\<lparr>mx_owner := 1, mx_sq := [5, 3]\<rparr>)))) = 3"
proof -
  let ?m = "demo_mutex\<lparr>mx_owner := 1, mx_sq := [5, 3]\<rparr>" and ?e = "demo_lv2 [1]"
  obtain out e' m' where run: "mutex_unlock 1 (1, Some 5) ?e ?m = (out, e', m')"
    using prod_cases3 by blast
  have "mutex_inv ?m" "own_view 1 ?m (1, Some 5)" "\<forall>u. F_again \<notin> state (thr ?e u)"
    by (simp_all add: mutex_inv_def own_view_def demo_mutex_def demo_defs)
  from mutex_unlock_behaviour [OF run this] run show ?thesis
    by (simp add: demo_mutex_def pick_def)
qed

lemma mutex_load_save:
  "unat (mx_owner m) < 2 ^ 31 \<longleftrightarrow>
     mutex_load (mutex_save m) = m\<lparr>mx_exists := 0, mx_cond_count := 0, mx_sq := []\<rparr>"
proof -
  have "drop_bit 1 (push_bit 1 (mx_owner m)) = mx_owner m \<longleftrightarrow> unat (mx_owner m) < 2 ^ 31"
  proof -
    have "drop_bit 1 (push_bit 1 (mx_owner m)) = take_bit 31 (mx_owner m)"
    proof (rule bit_eqI)
      fix n
      have "bit (push_bit 1 (mx_owner m)) (Suc n) \<longleftrightarrow> Suc n < 32 \<and> bit (mx_owner m) n"
        by (simp only: bit_push_bit_iff) (simp add: possible_bit_word)
      then show "bit (drop_bit 1 (push_bit 1 (mx_owner m))) n = bit (take_bit 31 (mx_owner m)) n"
        by (simp only: bit_drop_bit_eq o_apply bit_take_bit_iff) auto
    qed
    moreover have "unat (take_bit 31 (mx_owner m)) = unat (mx_owner m) mod 2 ^ 31"
      by (simp add: take_bit_eq_mod unat_mod)
    moreover have "unat (mx_owner m) mod 2 ^ 31 = unat (mx_owner m) \<longleftrightarrow> unat (mx_owner m) < 2 ^ 31"
      by (simp add: mod_eq_self_iff_div_eq_0 div_eq_0_iff)
    ultimately show ?thesis by (metis word_unat_eq_iff)
  qed
  then show ?thesis by (cases m) (auto simp: mutex_load_def mutex_save_def)
qed

text \<open>
  Save states. Loading what \<^verbatim>\<open>save\<close> wrote gives the mutex back, with the queue, the reference
  count and the number of condition variables reset, for every owner below 2^31; thread ids stay far
  below that bound. The shift that the format keeps for compatibility loses the top bit beyond it.
\<close>

theorem mutex_save_load:
  "unat (mx_owner m) < 2 ^ 31 \<longleftrightarrow>
     mutex_load (mutex_save m) = m\<lparr>mx_exists := 0, mx_cond_count := 0, mx_sq := []\<rparr>"
  by (rule mutex_load_save)

text \<open>
  Unlocking while a save state is taken. If the waiter that the protocol picks has already been
  stopped for the save state, \<^verbatim>\<open>sys_mutex_unlock\<close> asks to be repeated after loading, but \<^verbatim>\<open>reown\<close> has
  made the stopped waiter the owner; the saved mutex then refuses the repeated unlock with
  \<^verbatim>\<open>CELL_EPERM\<close>, and the waiter's repeated lock of a non-recursive mutex with \<^verbatim>\<open>CELL_EDEADLK\<close>.
\<close>

theorem mutex_unlock_during_save:
  assumes "mutex_inv m" "mx_owner m = t" "t \<noteq> 0" "mx_lock_count m = 0" "mx_recursive m \<noteq> SYS_SYNC_RECURSIVE"
    and "pick (thr e) (mx_protocol m) (mx_sq m) = Some c" "F_again \<in> state (thr e c)" "unat c < 2 ^ 31"
  shows "\<exists>m'. mutex_unlock t (control_of m) e m = (Again, add_flag t F_again e, m') \<and>
    (let m2 = mutex_load (mutex_save m') in
       fst (mutex_unlock t (control_of m2) e2 m2) = Ret CELL_EPERM \<and>
       fst (mutex_lock c timeout (control_of m2) spins e2 m2) = Ret CELL_EDEADLK)"
proof -
  have c: "c \<in> set (mx_sq m)" by (rule pick_mem [OF assms(6)])
  then have n: "c \<noteq> t" "mx_sq m \<noteq> []" "c \<noteq> 0" using assms(1,2) by (auto simp: mutex_inv_def)
  define m' where "m' = m\<lparr>mx_owner := c, mx_sq := mx_sq m\<rparr>"
  have "try_unlock t (control_of m) m = (CELL_EBUSY, m)"
    using assms(2,4) n(2) by (simp add: try_unlock_def control_of_def)
  moreover have "reown (thr e) m = (Some c, m')" using assms(6,7) by (simp add: reown_def schedule_def m'_def)
  ultimately have "mutex_unlock t (control_of m) e m = (Again, add_flag t F_again e, m')"
    using assms(7) by (simp add: mutex_unlock_def)
  moreover have "mutex_load (mutex_save m') = m'\<lparr>mx_exists := 0, mx_cond_count := 0, mx_sq := []\<rparr>"
    using mutex_load_save [of m'] assms(8) by (simp add: m'_def)
  ultimately show ?thesis using n assms(5)
    by (simp add: Let_def mutex_unlock_def try_unlock_def mutex_lock_def try_lock_def control_of_def m'_def)
qed

theorem mutex_unlock_during_save_witness:
  "\<exists>m'. fst (mutex_unlock 1 (1, Some 5) (add_flag 5 F_again (demo_lv2 [1]))
       (demo_mutex\<lparr>mx_owner := 1, mx_sq := [5], mx_recursive := SYS_SYNC_NOT_RECURSIVE\<rparr>)) = Again \<and>
     fst (mutex_unlock 1 (5, None) (demo_lv2 [1]) (mutex_load (mutex_save m'))) = Ret CELL_EPERM"
proof -
  let ?m = "demo_mutex\<lparr>mx_owner := 1, mx_sq := [5], mx_recursive := SYS_SYNC_NOT_RECURSIVE\<rparr>"
  let ?e = "add_flag 5 F_again (demo_lv2 [1])"
  have "mutex_inv ?m" "mx_owner ?m = 1" "(1 :: tid) \<noteq> 0" "mx_lock_count ?m = 0"
    "mx_recursive ?m \<noteq> SYS_SYNC_RECURSIVE" "pick (thr ?e) (mx_protocol ?m) (mx_sq ?m) = Some 5"
    "F_again \<in> state (thr ?e 5)" "unat (5 :: tid) < 2 ^ 31"
    by (simp_all add: mutex_inv_def demo_mutex_def pick_def thr_add_flag)
  from mutex_unlock_during_save [OF this, of "demo_lv2 [1]"] obtain m' where m':
    "mutex_unlock 1 (control_of ?m) ?e ?m = (Again, add_flag 1 F_again ?e, m')"
    "fst (mutex_unlock 1 (control_of (mutex_load (mutex_save m'))) (demo_lv2 [1]) (mutex_load (mutex_save m')))
       = Ret CELL_EPERM" by (auto simp: Let_def)
  have "control_of ?m = (1, Some 5)" by (simp add: control_of_def head_ptr_def)
  with m'(1) have "fst (mutex_unlock 1 (1, Some 5) ?e ?m) = Again" by simp
  moreover have "m' = ?m\<lparr>mx_owner := 5\<rparr>" using m'(1)
    by (simp add: mutex_unlock_def try_unlock_def control_of_def head_ptr_def reown_def schedule_def pick_def
        demo_mutex_def thr_add_flag)
  then have "mutex_load (mutex_save m') = m'\<lparr>mx_exists := 0, mx_cond_count := 0, mx_sq := []\<rparr>" "mx_owner m' = 5"
    using mutex_load_save [of m'] by simp_all
  then have "control_of (mutex_load (mutex_save m')) = (5, None)" by (simp add: control_of_def head_ptr_def)
  ultimately show ?thesis using m'(2) by auto
qed

end
