(* ===== verification/Sys_Semaphore.thy ===== *)
theory Sys_Semaphore
  imports Lv2_Objects
begin

text \<open>
  The counting semaphore of \<^verbatim>\<open>sys_semaphore.cpp\<close>. A negative value counts the waiters. As for the mutex,
  \<open>seen\<close> is a value loaded before a compare-and-swap. The signed counter is an integer that goes through
  \<open>wrap_s32\<close>; the comparison in \<^verbatim>\<open>sys_semaphore_post\<close> is unsigned and goes through \<open>wrap_u32\<close>. The second
  half models the title-specific shortcut of this fork (\<^verbatim>\<open>thor_es_sema_superpath\<close>): four caches in front of
  the handle store, without their hit counters, which only feed a log line.
\<close>

section \<open>Model: one semaphore\<close>

definition sema_wait :: "tid \<Rightarrow> u64 \<Rightarrow> int \<Rightarrow> lv2 \<Rightarrow> lv2_sema \<Rightarrow> outcome \<times> lv2 \<times> lv2_sema" where
  "sema_wait t timeout seen e s =
     (if seen > 0 \<and> sm_val s = seen then (Ret CELL_OK, e, s\<lparr>sm_val := wrap_s32 (seen - 1)\<rparr>)
      else
        (let val = sm_val s; s1 = s\<lparr>sm_val := wrap_s32 (val - 1)\<rparr>
         in if val \<le> 0
            then (case emplace t (sm_sq s1) (snd (sleep t timeout e)) of
                    (q, e1) \<Rightarrow> (Blocked, set_gpr t 3 0 e1, s1\<lparr>sm_sq := q\<rparr>))
            else (Ret CELL_OK, e, s1)))"

text \<open>A timeout takes the thread off the queue and gives its unit of the counter back.\<close>

definition sema_cancel :: "tid \<Rightarrow> lv2 \<Rightarrow> lv2_sema \<Rightarrow> lv2 \<times> lv2_sema" where
  "sema_cancel t e s =
     (if t \<notin> set (sm_sq s) then (e, s)
      else if \<not> 0 > sm_val s then (e\<lparr>fatal := True\<rparr>, s\<lparr>sm_sq := remove1 t (sm_sq s)\<rparr>)
      else (set_gpr t 3 (ucast (CELL_ETIMEDOUT)) e,
            s\<lparr>sm_sq := remove1 t (sm_sq s), sm_val := wrap_s32 (sm_val s + 1)\<rparr>))"

definition sema_wait_round :: "tid \<Rightarrow> u64 \<Rightarrow> bool \<Rightarrow> lv2 \<Rightarrow> lv2_sema \<Rightarrow> verdict \<times> lv2 \<times> lv2_sema" where
  "sema_wait_round t timeout fired e s =
     wait_iter t (t \<in> set (sm_sq s)) (\<lambda>e. sema_cancel t (add_flag t F_wait e)) timeout fired e s"

definition sema_trywait :: "lv2_sema \<Rightarrow> error_code \<times> lv2_sema" where
  "sema_trywait s =
     (if sm_val s > 0 then (CELL_OK, s\<lparr>sm_val := wrap_s32 (sm_val s - 1)\<rparr>) else (CELL_EBUSY, s))"

text \<open>The loop that takes \<open>n\<close> waiters off the queue; running dry is the failed \<^verbatim>\<open>ensure\<close>.\<close>

fun wake_n :: "nat \<Rightarrow> u32 \<Rightarrow> tid list \<Rightarrow> lv2 \<Rightarrow> tid list \<times> lv2" where
  "wake_n 0 protocol q e = (q, e)"
| "wake_n (Suc n) protocol q e =
     (case schedule (thr e) protocol q of
        (Some c, q') \<Rightarrow> wake_n n protocol q' (append_awake c e)
      | (None, q') \<Rightarrow> (q', e\<lparr>fatal := True\<rparr>))"

definition post_fast :: "int \<Rightarrow> int \<Rightarrow> lv2_sema \<Rightarrow> bool" where
  "post_fast count seen s \<longleftrightarrow>
     seen \<ge> 0 \<and> count > 0 \<and> count \<le> sm_max s - seen \<and> sm_val s = seen"

definition sema_post :: "tid \<Rightarrow> int \<Rightarrow> int \<Rightarrow> lv2 \<Rightarrow> lv2_sema \<Rightarrow> outcome \<times> lv2 \<times> lv2_sema" where
  "sema_post t count seen e s =
     (if post_fast count seen s then (Ret CELL_OK, e, s\<lparr>sm_val := wrap_s32 (seen + count)\<rparr>)
      else if count \<le> 0 then (Ret CELL_EINVAL, e, s)
      else if \<exists>c \<in> set (sm_sq s). F_again \<in> state (thr e c) then (Again, add_flag t F_again e, s)
      else
        (let val = sm_val s
         in if \<not> wrap_u32 count \<le> wrap_u32 (sm_max s - val) then (Ret CELL_EBUSY, e, s)
            else
              (let to_awake = min (- min val 0) count;
                   (q, e1) = wake_n (nat to_awake) (sm_protocol s) (sm_sq s) e
               in (Ret CELL_OK, if to_awake > 0 then awake_all e1 else e1,
                   s\<lparr>sm_val := wrap_s32 (val + count), sm_sq := q\<rparr>))))"

definition sema_get_value :: "lv2_sema \<Rightarrow> int" where
  "sema_get_value s = max 0 (sm_val s)"

text \<open>Save states keep the non-negative part of the counter.\<close>

definition sema_save :: "lv2_sema \<Rightarrow> u32 \<times> u64 \<times> u64 \<times> int \<times> int" where
  "sema_save s = (sm_protocol s, sm_key s, sm_name s, sm_max s, max (sm_val s) 0)"

definition sema_load :: "u32 \<times> u64 \<times> u64 \<times> int \<times> int \<Rightarrow> lv2_sema" where
  "sema_load im = (case im of (p, ky, n, mx, v) \<Rightarrow>
     \<lparr>sm_exists = 0, sm_protocol = p, sm_key = ky, sm_name = n, sm_max = mx, sm_val = v, sm_sq = []\<rparr>)"

section \<open>Model: the shortcut caches\<close>

datatype superpath_mode = SP_disabled | SP_profile | SP_fast

definition parse_superpath_mode :: "string \<Rightarrow> superpath_mode" where
  "parse_superpath_mode v =
     (if v \<in> {'''', ''0'', ''off'', ''false'', ''disabled''} then SP_disabled
      else if v \<in> {''profile'', ''log'', ''detect''} then SP_profile
      else SP_fast)"

record superpath =
  sp_mode :: superpath_mode
  sp_title :: string
  max_created_index :: u32
  destroyed_ids :: "u32 list"
  cached_esrch_ids :: "u32 list"
  fast_cache :: "(u32 \<times> nat option) list"

text \<open>The static initialisers: every slot zero, no index created yet.\<close>

definition superpath_init :: "superpath_mode \<Rightarrow> string \<Rightarrow> superpath" where
  "superpath_init md ti = \<lparr>sp_mode = md, sp_title = ti, max_created_index = - 1,
     destroyed_ids = replicate 32 0, cached_esrch_ids = replicate 64 0,
     fast_cache = replicate 64 (0, None)\<rparr>"

record call_site =
  cs_name :: string
  cs_cia :: u32

fun has_prefix :: "string \<Rightarrow> string \<Rightarrow> bool" where
  "has_prefix [] ys = True"
| "has_prefix (x # xs) (y # ys) = (x = y \<and> has_prefix xs ys)"
| "has_prefix (x # xs) [] = False"

fun contains :: "string \<Rightarrow> string \<Rightarrow> bool" where
  "contains pat [] = (pat = [])"
| "contains pat (y # ys) = (has_prefix pat (y # ys) \<or> contains pat ys)"

definition superpath_candidate :: "superpath \<Rightarrow> call_site \<Rightarrow> bool \<Rightarrow> bool" where
  "superpath_candidate sp cs post \<longleftrightarrow>
     sp_mode sp \<noteq> SP_disabled \<and> sp_title sp = ''BLUS30161'' \<and> contains ''main_thread'' (cs_name cs) \<and>
     (if post then cs_cia cs \<ge> 0x31c550 \<and> cs_cia cs \<le> 0x31c620
      else cs_cia cs \<ge> 0x31c168 \<and> cs_cia cs \<le> 0x31c1bc)"

definition sema_index :: "u32 \<Rightarrow> u32" where
  "sema_index sem_id = get_index sem_id (lv2_traits sema_base)"

definition superpath_on :: "superpath \<Rightarrow> bool" where
  "superpath_on sp \<longleftrightarrow> sp_mode sp \<noteq> SP_disabled \<and> sp_title sp = ''BLUS30161''"

abbreviation slot64 :: "u32 \<Rightarrow> nat" where "slot64 i \<equiv> unat i mod 64"
abbreviation slot32 :: "u32 \<Rightarrow> nat" where "slot32 i \<equiv> unat i mod 32"

definition forget_fast :: "u32 \<Rightarrow> u32 \<Rightarrow> superpath \<Rightarrow> superpath" where
  "forget_fast sem_id i sp =
     (if fst (fast_cache sp ! slot64 i) = sem_id
      then sp\<lparr>fast_cache := (fast_cache sp)[slot64 i := (0, None)]\<rparr> else sp)"

definition record_created_id :: "u32 \<Rightarrow> superpath \<Rightarrow> superpath" where
  "record_created_id sem_id sp =
     (let i = sema_index sem_id
      in if \<not> superpath_on sp \<or> i \<ge> 8192 then sp
         else
           (let sp1 = (if cached_esrch_ids sp ! slot64 i = sem_id
                       then sp\<lparr>cached_esrch_ids := (cached_esrch_ids sp)[slot64 i := 0]\<rparr> else sp);
                sp2 = forget_fast sem_id i sp1
            in if max_created_index sp2 = - 1 \<or> i > max_created_index sp2
               then sp2\<lparr>max_created_index := i\<rparr> else sp2))"

definition record_destroyed_id :: "u32 \<Rightarrow> superpath \<Rightarrow> superpath" where
  "record_destroyed_id sem_id sp =
     (let i = sema_index sem_id
      in if \<not> superpath_on sp \<or> i \<ge> 8192 then sp
         else forget_fast sem_id i (sp\<lparr>destroyed_ids := (destroyed_ids sp)[slot32 i := sem_id]\<rparr>))"

definition record_cached_esrch_id :: "u32 \<Rightarrow> superpath \<Rightarrow> superpath" where
  "record_cached_esrch_id sem_id sp =
     (let i = sema_index sem_id
      in if \<not> superpath_on sp \<or> sem_id = 0 \<or> i \<ge> 8192 then sp
         else sp\<lparr>cached_esrch_ids := (cached_esrch_ids sp)[slot64 i := sem_id]\<rparr>)"

definition record_fast_object :: "u32 \<Rightarrow> nat \<Rightarrow> superpath \<Rightarrow> superpath" where
  "record_fast_object sem_id a sp =
     (let i = sema_index sem_id
      in if \<not> superpath_on sp \<or> i \<ge> 8192 then sp
         else sp\<lparr>fast_cache := (fast_cache sp)[slot64 i := (sem_id, Some a)]\<rparr>)"

definition get_fast_object :: "u32 \<Rightarrow> superpath \<Rightarrow> nat option" where
  "get_fast_object sem_id sp =
     (let i = sema_index sem_id
      in if i \<ge> 8192 then None
         else let entry = fast_cache sp ! slot64 i in if fst entry \<noteq> sem_id then None else snd entry)"

datatype esrch_action = Fast_zero | Fast_cached | Fast_destroyed | Fast_uncreated

definition fast_esrch_action :: "u32 \<Rightarrow> superpath \<Rightarrow> esrch_action option" where
  "fast_esrch_action sem_id sp =
     (let i = sema_index sem_id
      in if sem_id = 0 then Some Fast_zero
         else if i \<ge> 8192 then None
         else if cached_esrch_ids sp ! slot64 i = sem_id then Some Fast_cached
         else if sem_id \<in> set (destroyed_ids sp) then Some Fast_destroyed
         else if max_created_index sp \<noteq> - 1 \<and> i > max_created_index sp \<and> sem_id AND 0xff = 0
         then Some Fast_uncreated
         else None)"

text \<open>The direct operations: \<^const>\<open>None\<close> is the result \<^verbatim>\<open>false\<close>, which sends the call to the slow path.\<close>

definition fast_wait :: "tid \<Rightarrow> u32 \<Rightarrow> int \<Rightarrow> superpath \<Rightarrow> kernel \<Rightarrow> kernel option" where
  "fast_wait t sem_id seen sp k =
     (case get_fast_object sem_id sp of
        None \<Rightarrow> None
      | Some a \<Rightarrow>
          (case heap k a of
             Some (O_sema s) \<Rightarrow>
               if seen \<le> 0 then None
               else if sm_val s \<noteq> seen then None
               else Some (put_obj a (O_sema (s\<lparr>sm_val := wrap_s32 (seen - 1)\<rparr>))
                            (k\<lparr>env := set_gpr t 3 0 (env k)\<rparr>))
           | _ \<Rightarrow> None))"

definition fast_post :: "u32 \<Rightarrow> int \<Rightarrow> int \<Rightarrow> superpath \<Rightarrow> kernel \<Rightarrow> kernel option" where
  "fast_post sem_id count seen sp k =
     (if count \<le> 0 then None
      else case get_fast_object sem_id sp of
             None \<Rightarrow> None
           | Some a \<Rightarrow>
               (case heap k a of
                  Some (O_sema s) \<Rightarrow>
                    if seen < 0 \<or> count > sm_max s - seen then None
                    else if sm_val s \<noteq> seen then None
                    else Some (put_obj a (O_sema (s\<lparr>sm_val := wrap_s32 (seen + count)\<rparr>)) k)
                | _ \<Rightarrow> None))"

section \<open>Model: the system calls\<close>

type_synonym sstate = "kernel \<times> superpath"

record sys_semaphore_attribute =
  sa_protocol :: u32
  sa_pshared :: u32
  sa_ipc_key :: u64
  sa_flags :: u32
  sa_name :: u64

definition sys_semaphore_create ::
  "tid \<Rightarrow> u32 \<Rightarrow> sys_semaphore_attribute option \<Rightarrow> int \<Rightarrow> int \<Rightarrow> sstate \<Rightarrow> error_code \<times> sstate" where
  "sys_semaphore_create t sem_id attr initial_val max_val ks =
     (let k = enter t (fst ks)
      in case attr of
           None \<Rightarrow> (CELL_EFAULT, k, snd ks)
         | Some at \<Rightarrow>
             if sem_id = 0 then (CELL_EFAULT, k, snd ks)
             else if max_val \<le> 0 \<or> initial_val > max_val \<or> initial_val < 0 then (CELL_EINVAL, k, snd ks)
             else if sa_protocol at \<noteq> SYS_SYNC_FIFO \<and> sa_protocol at \<noteq> SYS_SYNC_PRIORITY
             then (CELL_EINVAL, k, snd ks)
             else
               (let ipc_key = get_key (sa_pshared at) (sa_ipc_key at)
                in case lv2_create sema_base (sa_pshared at) ipc_key (sa_flags at)
                       (\<lambda>_. O_sema \<lparr>sm_exists = 0, sm_protocol = sa_protocol at, sm_key = ipc_key,
                          sm_name = sa_name at, sm_max = max_val, sm_val = initial_val, sm_sq = []\<rparr>) True k of
                     (err, k1) \<Rightarrow>
                       if err \<noteq> 0 then (err, k1, snd ks)
                       else (let created_id = g_id (ids k1)
                             in (CELL_OK, write32 sem_id created_id k1,
                                 record_created_id created_id (snd ks)))))"

definition sema_destroy_check :: "nat \<Rightarrow> lv2_object \<Rightarrow> kernel \<Rightarrow> error_code \<times> kernel" where
  "sema_destroy_check a x k =
     (case x of
        O_sema s \<Rightarrow>
          if sm_val s < 0 then (CELL_EBUSY, k)
          else (CELL_OK, on_id_destroy sema_base a (sm_key s) (sm_key s \<noteq> 0) k)
      | _ \<Rightarrow> (CELL_OK, k))"

definition sys_semaphore_destroy :: "tid \<Rightarrow> u32 \<Rightarrow> sstate \<Rightarrow> error_code \<times> sstate" where
  "sys_semaphore_destroy t sem_id ks =
     (case withdraw_if sema_base sem_id sema_destroy_check (enter t (fst ks)) of
        (None, k) \<Rightarrow> (CELL_ESRCH, k, snd ks)
      | (Some r, k) \<Rightarrow> if r \<noteq> 0 then (r, k, snd ks) else (CELL_OK, k, record_destroyed_id sem_id (snd ks)))"

definition sema_slow ::
  "u32 \<Rightarrow> bool \<Rightarrow> (lv2 \<Rightarrow> lv2_sema \<Rightarrow> outcome \<times> lv2 \<times> lv2_sema) \<Rightarrow> sstate \<Rightarrow> outcome \<times> sstate" where
  "sema_slow sem_id candidate f ks =
     (case get_obj sema_base sem_id (fst ks) of
        Some (a, O_sema s) \<Rightarrow>
          (case f (env (fst ks)) s of
             (r, e, s') \<Rightarrow>
               (r, put_obj a (O_sema s') ((fst ks)\<lparr>env := e\<rparr>), record_fast_object sem_id a (snd ks)))
      | _ \<Rightarrow>
          (Ret CELL_ESRCH, fst ks, if candidate then record_cached_esrch_id sem_id (snd ks) else snd ks))"

definition sys_semaphore_wait ::
  "call_site \<Rightarrow> tid \<Rightarrow> u32 \<Rightarrow> u64 \<Rightarrow> int \<Rightarrow> int \<Rightarrow> sstate \<Rightarrow> outcome \<times> sstate" where
  "sys_semaphore_wait cs t sem_id timeout seen0 seen ks0 =
     (let ks = (enter t (fst ks0), snd ks0); cand = superpath_candidate (snd ks) cs False;
          slow = sema_slow sem_id cand (sema_wait t timeout seen) ks
      in if cand \<and> sp_mode (snd ks) \<noteq> SP_profile
         then case fast_wait t sem_id seen0 (snd ks) (fst ks) of
                Some k \<Rightarrow> (Ret CELL_OK, k, snd ks)
              | None \<Rightarrow> if fast_esrch_action sem_id (snd ks) \<noteq> None then (Ret CELL_ESRCH, ks) else slow
         else slow)"

definition sys_semaphore_trywait :: "tid \<Rightarrow> u32 \<Rightarrow> sstate \<Rightarrow> outcome \<times> sstate" where
  "sys_semaphore_trywait t sem_id ks =
     (let k = enter t (fst ks)
      in case get_obj sema_base sem_id k of
           Some (a, O_sema s) \<Rightarrow>
             (case sema_trywait s of (r, s') \<Rightarrow> (Ret r, put_obj a (O_sema s') k, snd ks))
         | _ \<Rightarrow> (Ret CELL_ESRCH, k, snd ks))"

definition sys_semaphore_post ::
  "call_site \<Rightarrow> tid \<Rightarrow> u32 \<Rightarrow> int \<Rightarrow> int \<Rightarrow> int \<Rightarrow> sstate \<Rightarrow> outcome \<times> sstate" where
  "sys_semaphore_post cs t sem_id count seen0 seen ks0 =
     (let ks = (enter t (fst ks0), snd ks0); cand = superpath_candidate (snd ks) cs True;
          slow = sema_slow sem_id cand (sema_post t count seen) ks
      in if cand \<and> sp_mode (snd ks) \<noteq> SP_profile
         then case fast_post sem_id count seen0 (snd ks) (fst ks) of
                Some k \<Rightarrow> (Ret CELL_OK, k, snd ks)
              | None \<Rightarrow> if fast_esrch_action sem_id (snd ks) \<noteq> None then (Ret CELL_ESRCH, ks) else slow
         else slow)"

definition sys_semaphore_get_value :: "tid \<Rightarrow> u32 \<Rightarrow> u32 \<Rightarrow> sstate \<Rightarrow> error_code \<times> sstate" where
  "sys_semaphore_get_value t sem_id count ks =
     (let k = enter t (fst ks)
      in case get_obj sema_base sem_id k of
           Some (a, O_sema s) \<Rightarrow>
             if count = 0 then (CELL_EFAULT, k, snd ks)
             else (CELL_OK, write32 count (word_of_int (sema_get_value s)) k, snd ks)
         | _ \<Rightarrow> (CELL_ESRCH, k, snd ks))"

interpretation sema_del: destroy_call "sema_base" "sema_destroy_check"
  by unfold_locales (simp add: sema_destroy_check_def split: lv2_object.splits)

section \<open>Lemmas: the counter and the queue\<close>

definition sema_inv :: "lv2_sema \<Rightarrow> bool" where
  "sema_inv s \<longleftrightarrow> distinct (sm_sq s) \<and> 0 < sm_max s \<and> sm_max s < 2 ^ 31 \<and> sm_val s \<le> sm_max s \<and>
     int (length (sm_sq s)) = max 0 (- sm_val s) \<and> length (sm_sq s) < 2 ^ 31"

lemma sema_waiters: "sema_inv s \<Longrightarrow> sm_sq s = [] \<longleftrightarrow> 0 \<le> sm_val s"
proof -
  assume "sema_inv s"
  then have "int (length (sm_sq s)) = max 0 (- sm_val s)" by (simp add: sema_inv_def)
  then have "length (sm_sq s) = 0 \<longleftrightarrow> 0 \<le> sm_val s" by linarith
  then show ?thesis by simp
qed

lemma wake_n_takes:
  assumes "distinct q" "n \<le> length q" "\<forall>c \<in> set q. F_again \<notin> state (thr e c)"
  obtains q' ws where "wake_n n protocol q e = (q', e\<lparr>g_to_awake := g_to_awake e @ ws\<rparr>)"
    "length ws = n" "distinct (ws @ q')" "set (ws @ q') = set q"
    "protocol = SYS_SYNC_FIFO \<Longrightarrow> rev q = ws @ rev q'"
  using assms
proof (induction n arbitrary: q e thesis)
  case 0
  then show ?case by (intro "0"(1) [of q "[]"]) simp_all
next
  case (Suc n)
  show ?case
  proof (rule schedule_cases [of q "thr e" protocol])
    fix c assume c: "c \<in> set q" "pick (thr e) protocol q = Some c"
      and s: "schedule (thr e) protocol q = (Some c, remove1 c q)"
    let ?e = "append_awake c e" and ?q = "remove1 c q"
    have e: "?e = e\<lparr>g_to_awake := g_to_awake e @ [c]\<rparr>" by (simp add: append_awake_def)
    have sq: "set ?q = set q - {c}" using Suc.prems(2) by simp
    have "n \<le> length ?q" "distinct ?q" "\<forall>d \<in> set ?q. F_again \<notin> state (thr ?e d)"
      using Suc.prems(2-4) c(1) sq by (simp_all add: length_remove1)
    from Suc.IH [OF _ this(2,1,3)] obtain q' ws where w:
      "wake_n n protocol ?q ?e = (q', ?e\<lparr>g_to_awake := g_to_awake ?e @ ws\<rparr>)"
      "length ws = n" "distinct (ws @ q')" "set (ws @ q') = set ?q"
      "protocol = SYS_SYNC_FIFO \<Longrightarrow> rev ?q = ws @ rev q'" by metis
    have "rev q = (c # ws) @ rev q'" if "protocol = SYS_SYNC_FIFO"
    proof -
      from that c(2) have "q \<noteq> []" "last q = c" by (auto simp: pick_def split: list.splits)
      then have "q = butlast q @ [c]" by (metis append_butlast_last_id)
      moreover from this Suc.prems(2) have "?q = butlast q"
        by (metis distinct_remove1_last_append)
      ultimately have "rev q = c # rev ?q" by (metis rev_append rev.simps append_Cons append_Nil)
      with w(5) [OF that] show ?thesis by simp
    qed
    with w sq c(1) s show ?case
      by (intro Suc.prems(1) [of q' "c # ws"]) (auto simp: e)
  next
    fix c assume "c \<in> set q" "F_again \<in> state (thr e c)"
    with Suc.prems(4) show ?case by simp
  qed (use Suc.prems(3) in simp)
qed

lemma sema_inv_wait:
  assumes "sema_inv s" "t \<notin> set (sm_sq s)" "length (sm_sq s) + 1 < 2 ^ 31"
    and "sema_wait t timeout seen e s = (out, e', s')"
  shows "sema_inv s' \<and>
    (if sm_val s > 0 then out = Ret CELL_OK \<and> e' = e \<and> s' = s\<lparr>sm_val := sm_val s - 1\<rparr>
     else out = Blocked \<and> gpr (thr e' t) 3 = 0 \<and>
       s' = s\<lparr>sm_val := sm_val s - 1, sm_sq := t # sm_sq s\<rparr>)"
proof -
  have r: "- (2 ^ 31) \<le> sm_val s - 1" "sm_val s - 1 < 2 ^ 31"
    using assms(1,3) by (auto simp: sema_inv_def)
  then have w: "wrap_s32 (sm_val s - 1) = sm_val s - 1" by (rule wrap_s32_id)
  show ?thesis
  proof (cases "sm_val s > 0")
    case True
    then have "out = Ret CELL_OK" "e' = e" "s' = s\<lparr>sm_val := sm_val s - 1\<rparr>"
      using assms(4) w by (auto simp: sema_wait_def Let_def split: if_splits)
    moreover have "sema_inv (s\<lparr>sm_val := sm_val s - 1\<rparr>)"
      using assms(1) True by (auto simp: sema_inv_def)
    ultimately show ?thesis using True by simp
  next
    case False
    then have s': "out = Blocked" "s' = s\<lparr>sm_val := sm_val s - 1, sm_sq := t # sm_sq s\<rparr>" "gpr (thr e' t) 3 = 0"
      using assms(4) w by (auto simp: sema_wait_def Let_def emplace_def thr_set_gpr split: if_splits)
    moreover have "sema_inv (s\<lparr>sm_val := sm_val s - 1, sm_sq := t # sm_sq s\<rparr>)"
      using assms(1-3) False by (auto simp: sema_inv_def)
    ultimately show ?thesis using False by simp
  qed
qed

lemma sema_inv_trywait: "sema_inv s \<Longrightarrow> sema_inv (snd (sema_trywait s))"
proof -
  assume inv: "sema_inv s"
  then have "sm_val s > 0 \<Longrightarrow> wrap_s32 (sm_val s - 1) = sm_val s - 1"
    by (intro wrap_s32_id) (auto simp: sema_inv_def)
  with inv show ?thesis by (auto simp: sema_trywait_def sema_inv_def)
qed

lemma sema_cancel_ok:
  assumes "sema_inv s" "t \<in> set (sm_sq s)"
  shows "sema_cancel t e s = (set_gpr t 3 (ucast (CELL_ETIMEDOUT)) e,
      s\<lparr>sm_sq := remove1 t (sm_sq s), sm_val := sm_val s + 1\<rparr>)"
    and "sema_inv (s\<lparr>sm_sq := remove1 t (sm_sq s), sm_val := sm_val s + 1\<rparr>)"
proof -
  have "sm_sq s \<noteq> []" using assms(2) by auto
  then have neg: "sm_val s < 0" using sema_waiters [OF assms(1)] by simp
  have len: "length (sm_sq s) = nat (- sm_val s)"
    using assms(1) neg by (auto simp: sema_inv_def)
  have "wrap_s32 (sm_val s + 1) = sm_val s + 1"
    using assms(1) neg by (intro wrap_s32_id) (auto simp: sema_inv_def)
  with neg assms(2) show "sema_cancel t e s = (set_gpr t 3 (ucast (CELL_ETIMEDOUT)) e,
      s\<lparr>sm_sq := remove1 t (sm_sq s), sm_val := sm_val s + 1\<rparr>)" by (simp add: sema_cancel_def)
  have "length (remove1 t (sm_sq s)) = length (sm_sq s) - 1" using assms(2) by (simp add: length_remove1)
  with assms(1) neg len show "sema_inv (s\<lparr>sm_sq := remove1 t (sm_sq s), sm_val := sm_val s + 1\<rparr>)"
    by (auto simp: sema_inv_def)
qed

lemma sema_post_cases:
  assumes inv: "sema_inv s" and c: "0 < count" "count < 2 ^ 31" and ag: "\<forall>c \<in> set (sm_sq s). F_again \<notin> state (thr e c)"
    and run: "sema_post t count seen e s = (out, e', s')"
  defines "n \<equiv> min (length (sm_sq s)) (nat count)"
  shows "if count \<le> sm_max s - sm_val s
    then out = Ret CELL_OK \<and> sema_inv s' \<and> (\<exists>ws q'. length ws = n \<and> distinct (ws @ q') \<and>
      set (ws @ q') = set (sm_sq s) \<and> (sm_protocol s = SYS_SYNC_FIFO \<longrightarrow> rev (sm_sq s) = ws @ rev q') \<and>
      s' = s\<lparr>sm_val := sm_val s + count, sm_sq := q'\<rparr> \<and>
      e' = (if ws = [] then e else awake_all (e\<lparr>g_to_awake := g_to_awake e @ ws\<rparr>)))
    else out = Ret CELL_EBUSY \<and> s' = s \<and> e' = e"
proof -
  have v: "- (2 ^ 31) < sm_val s" "sm_val s \<le> sm_max s" "sm_max s < 2 ^ 31" "0 < sm_max s"
    using inv by (auto simp: sema_inv_def)
  have u: "wrap_u32 count = count" "wrap_u32 (sm_max s - sm_val s) = sm_max s - sm_val s"
    using c v by (auto intro!: wrap_u32_id)
  show ?thesis
  proof (cases "count \<le> sm_max s - sm_val s")
    case False
    then have "\<not> post_fast count seen s" by (auto simp: post_fast_def)
    with False run c ag u show ?thesis by (auto simp: sema_post_def Let_def)
  next
    case fits: True
    have wr: "wrap_s32 (sm_val s + count) = sm_val s + count"
      using fits c v by (intro wrap_s32_id) auto
    define w where "w = min (- min (sm_val s) 0) count"
    have w: "nat w = n" "w > 0 \<longleftrightarrow> n > 0" "n \<le> length (sm_sq s)"
      using inv c sema_waiters [OF inv] by (auto simp: sema_inv_def w_def n_def)
    have d: "distinct (sm_sq s)" using inv by (simp add: sema_inv_def)
    obtain q' ws where wk: "wake_n n (sm_protocol s) (sm_sq s) e = (q', e\<lparr>g_to_awake := g_to_awake e @ ws\<rparr>)"
      "length ws = n" "distinct (ws @ q')" "set (ws @ q') = set (sm_sq s)"
      "sm_protocol s = SYS_SYNC_FIFO \<Longrightarrow> rev (sm_sq s) = ws @ rev q'"
      by (rule wake_n_takes [OF d w(3) ag, of "sm_protocol s"]) (use that in blast)
    have len: "length (sm_sq s) = length ws + length q'"
      using wk(3,4) d by (metis distinct_card length_append)
    have "int n = min (int (length (sm_sq s))) count" using c(1) by (simp add: n_def)
    then have "int (length q') = int (length (sm_sq s)) - min (int (length (sm_sq s))) count"
      using len wk(2) by linarith
    moreover have "int (length (sm_sq s)) = max 0 (- sm_val s)" "length (sm_sq s) < 2 ^ 31"
      using inv by (simp_all add: sema_inv_def)
    ultimately have lq: "int (length q') = max 0 (- (sm_val s + count))" "length q' < 2 ^ 31"
      using c(1) len by linarith+
    have "distinct q'" using wk(3) by simp
    then have inv': "sema_inv (s\<lparr>sm_val := sm_val s + count, sm_sq := q'\<rparr>)"
      using v fits lq by (simp add: sema_inv_def)
    have "out = Ret CELL_OK \<and> s' = s\<lparr>sm_val := sm_val s + count, sm_sq := q'\<rparr> \<and>
      e' = (if ws = [] then e else awake_all (e\<lparr>g_to_awake := g_to_awake e @ ws\<rparr>))"
    proof (cases "post_fast count seen s")
      case True
      then have seen: "sm_val s = seen" "0 \<le> seen" by (simp_all add: post_fast_def)
      with inv have sq: "sm_sq s = []" by (simp add: sema_inv_def)
      with wk(4) have nil: "ws = []" "q' = []" by simp_all
      have upd: "s\<lparr>sm_val := x, sm_sq := []\<rparr> = s\<lparr>sm_val := x\<rparr>" for x using sq by (cases s) simp
      show ?thesis unfolding nil upd using True run wr seen by (auto simp: sema_post_def)
    next
      case False
      have ag': "\<not> (\<exists>c \<in> set (sm_sq s). F_again \<in> state (thr e c))" using ag by blast
      have "sema_post t count seen e s =
          (Ret CELL_OK, if w > 0 then awake_all (e\<lparr>g_to_awake := g_to_awake e @ ws\<rparr>)
             else e\<lparr>g_to_awake := g_to_awake e @ ws\<rparr>, s\<lparr>sm_val := sm_val s + count, sm_sq := q'\<rparr>)"
        using False c(1) ag' fits
        by (simp add: sema_post_def Let_def w_def [symmetric] w(1) wk(1) u wr)
      moreover have "w > 0 \<longleftrightarrow> ws \<noteq> []" using w(2) wk(2) by auto
      ultimately show ?thesis using run by (cases "ws = []") simp_all
    qed
    then have o: "out = Ret CELL_OK" and s': "s' = s\<lparr>sm_val := sm_val s + count, sm_sq := q'\<rparr>"
      and e': "e' = (if ws = [] then e else awake_all (e\<lparr>g_to_awake := g_to_awake e @ ws\<rparr>))" by blast+
    then show ?thesis unfolding if_P [OF fits] using inv' wk(2-5) by blast
  qed
qed

section \<open>Properties: counting\<close>

text \<open>The specification: a number of free units below a capacity, and a queue of waiters.\<close>

record counting =
  c_free :: nat
  c_cap :: nat
  c_queue :: "tid list"

definition count_abs :: "lv2_sema \<Rightarrow> counting" where
  "count_abs s = \<lparr>c_free = nat (sm_val s), c_cap = nat (sm_max s), c_queue = sm_sq s\<rparr>"

definition acquire :: "tid \<Rightarrow> counting \<Rightarrow> bool \<times> counting" where
  "acquire t c = (if c_free c > 0 then (True, c\<lparr>c_free := c_free c - 1\<rparr>)
     else (False, c\<lparr>c_queue := t # c_queue c\<rparr>))"

text \<open>
  Waiting implements the specification, with any stale value of the counter in the fast path: a
  free unit is taken at once, otherwise the caller is queued; the poll takes a unit or reports
  \<^verbatim>\<open>CELL_EBUSY\<close>; a timeout removes exactly the caller from the queue, its \<^verbatim>\<open>ensure\<close> holds, and the counter
  keeps matching the number of waiters without overflow.
\<close>

theorem sema_wait_refines:
  assumes "sema_inv s" "t \<notin> set (sm_sq s)" "length (sm_sq s) + 1 < 2 ^ 31"
    and "sema_wait t timeout seen e s = (out, e', s')"
  shows "sema_inv s' \<and> (out = (if fst (acquire t (count_abs s)) then Ret CELL_OK else Blocked)) \<and>
    count_abs s' = snd (acquire t (count_abs s)) \<and>
    sema_inv (snd (sema_trywait s)) \<and> (fst (sema_trywait s) = CELL_OK \<longleftrightarrow> c_free (count_abs s) > 0) \<and>
    (\<forall>u \<in> set (sm_sq s). sema_inv (snd (sema_cancel u e s)) \<and> fatal (fst (sema_cancel u e s)) = fatal e \<and>
       count_abs (snd (sema_cancel u e s)) = (count_abs s)\<lparr>c_queue := remove1 u (sm_sq s)\<rparr>)"
proof -
  note w = sema_inv_wait [OF assms]
  have "out = (if fst (acquire t (count_abs s)) then Ret CELL_OK else Blocked) \<and>
      count_abs s' = snd (acquire t (count_abs s))"
    using w by (auto simp: acquire_def count_abs_def split: if_splits)
  moreover have "sema_inv (snd (sema_cancel u e s)) \<and> fatal (fst (sema_cancel u e s)) = fatal e \<and>
      count_abs (snd (sema_cancel u e s)) = (count_abs s)\<lparr>c_queue := remove1 u (sm_sq s)\<rparr>"
    if "u \<in> set (sm_sq s)" for u
  proof -
    have "sm_val s < 0" using sema_waiters [OF assms(1)] that by force
    then show ?thesis using sema_cancel_ok(1) [OF assms(1) that, of e] sema_cancel_ok(2) [OF assms(1) that]
      by (simp add: count_abs_def set_gpr_def)
  qed
  moreover have "fst (sema_trywait s) = CELL_OK \<longleftrightarrow> c_free (count_abs s) > 0"
    by (simp add: sema_trywait_def count_abs_def)
  ultimately show ?thesis using w sema_inv_trywait [OF assms(1)] by blast
qed

definition demo_sema :: lv2_sema where
  "demo_sema = \<lparr>sm_exists = 1, sm_protocol = SYS_SYNC_FIFO, sm_key = 0, sm_name = 0, sm_max = 10,
     sm_val = 1, sm_sq = []\<rparr>"

theorem sema_wait_refines_witness:
  "fst (sema_wait 3 0 0 (demo_lv2 [3]) demo_sema) = Ret CELL_OK \<and>
   fst (sema_wait 3 0 5 (demo_lv2 [3]) (demo_sema\<lparr>sm_val := - 1, sm_sq := [7]\<rparr>)) = Blocked"
proof -
  obtain o1 e1 s1 where 1: "sema_wait 3 0 0 (demo_lv2 [3]) demo_sema = (o1, e1, s1)"
    using prod_cases3 by blast
  let ?s = "demo_sema\<lparr>sm_val := - 1, sm_sq := [7]\<rparr>"
  obtain o2 e2 s2 where 2: "sema_wait 3 0 5 (demo_lv2 [3]) ?s = (o2, e2, s2)"
    using prod_cases3 by blast
  have h: "sema_inv demo_sema" "sema_inv ?s" by (simp_all add: sema_inv_def demo_sema_def)
  have "o1 = Ret CELL_OK"
    using sema_wait_refines [OF h(1) _ _ 1] by (simp add: acquire_def count_abs_def demo_sema_def)
  moreover have "o2 = Blocked"
    using sema_wait_refines [OF h(2) _ _ 2] by (simp add: acquire_def count_abs_def demo_sema_def)
  ultimately show ?thesis using 1 2 by simp
qed

text \<open>
  Claim C15. Posting \<open>count\<close> units succeeds exactly when the counter stays within the maximum; it then wakes
  as many waiters as there are, up to \<open>count\<close>, each once (in the order of arrival under the FIFO
  protocol), adds the rest to the free units, and no \<^verbatim>\<open>ensure\<close> fails; otherwise it returns \<^verbatim>\<open>CELL_EBUSY\<close>
  and changes nothing. The mixed signed and unsigned comparison of the code agrees with the
  mathematical one.
\<close>

theorem sema_post_refines:
  assumes "sema_inv s" "0 < count" "count < 2 ^ 31" "\<forall>c \<in> set (sm_sq s). F_again \<notin> state (thr e c)"
    and "sema_post t count seen e s = (out, e', s')"
  shows "let n = min (length (sm_sq s)) (nat count) in
    if int (c_free (count_abs s)) + count \<le> sm_max s + int (length (sm_sq s))
    then out = Ret CELL_OK \<and> sema_inv s' \<and>
      c_free (count_abs s') = c_free (count_abs s) + (nat count - n) \<and>
      (\<exists>ws. length ws = n \<and> distinct (ws @ sm_sq s') \<and> set (ws @ sm_sq s') = set (sm_sq s) \<and>
        (sm_protocol s = SYS_SYNC_FIFO \<longrightarrow> rev (sm_sq s) = ws @ rev (sm_sq s')) \<and>
        e' = (if ws = [] then e else awake_all (e\<lparr>g_to_awake := g_to_awake e @ ws\<rparr>)))
    else out = Ret CELL_EBUSY \<and> s' = s \<and> e' = e"
proof -
  have l: "int (length (sm_sq s)) = max 0 (- sm_val s)" using assms(1) by (simp add: sema_inv_def)
  then have c: "int (c_free (count_abs s)) + count \<le> sm_max s + int (length (sm_sq s)) \<longleftrightarrow>
      count \<le> sm_max s - sm_val s" by (auto simp: count_abs_def)
  have f: "c_free (count_abs (s\<lparr>sm_val := sm_val s + count, sm_sq := q\<rparr>)) =
      c_free (count_abs s) + (nat count - min (length (sm_sq s)) (nat count))" for q
    using l assms(2) by (auto simp: count_abs_def)
  show ?thesis
  proof (cases "count \<le> sm_max s - sm_val s")
    case True
    from sema_post_cases [OF assms, unfolded if_P [OF True]] obtain ws q' where
      "out = Ret CELL_OK" "sema_inv s'" "length ws = min (length (sm_sq s)) (nat count)"
      "distinct (ws @ q')" "set (ws @ q') = set (sm_sq s)"
      "sm_protocol s = SYS_SYNC_FIFO \<longrightarrow> rev (sm_sq s) = ws @ rev q'"
      and s': "s' = s\<lparr>sm_val := sm_val s + count, sm_sq := q'\<rparr>"
      and "e' = (if ws = [] then e else awake_all (e\<lparr>g_to_awake := g_to_awake e @ ws\<rparr>))" by blast
    moreover have "sm_sq s' = q'" by (simp add: s')
    moreover have "c_free (count_abs s') = c_free (count_abs s) + (nat count - min (length (sm_sq s)) (nat count))"
      unfolding s' by (rule f)
    ultimately show ?thesis unfolding Let_def c if_P [OF True] \<open>sm_sq s' = q'\<close> by blast
  next
    case False
    from sema_post_cases [OF assms, unfolded if_not_P [OF False]] show ?thesis
      unfolding Let_def c if_not_P [OF False] .
  qed
qed

theorem sema_post_refines_witness:
  "\<exists>ws. length ws = 2 \<and> set ws = {7, 8 :: tid} \<and> sema_inv (snd (snd (sema_post 3 5 0 (demo_lv2 [3])
     (demo_sema\<lparr>sm_val := - 2, sm_sq := [8, 7]\<rparr>))))"
proof -
  let ?s = "demo_sema\<lparr>sm_val := - 2, sm_sq := [8, 7]\<rparr>" and ?e = "demo_lv2 [3]"
  obtain out e' s' where run: "sema_post 3 5 0 ?e ?s = (out, e', s')" using prod_cases3 by blast
  have h: "sema_inv ?s" "(0::int) < 5" "(5::int) < 2 ^ 31" "\<forall>c \<in> set (sm_sq ?s). F_again \<notin> state (thr ?e c)"
    by (simp_all add: sema_inv_def demo_sema_def demo_defs)
  have l: "int (c_free (count_abs ?s)) + 5 \<le> sm_max ?s + int (length (sm_sq ?s))"
    "length (sm_sq ?s) = 2" "set (sm_sq ?s) = {7, 8}"
    by (auto simp: count_abs_def demo_sema_def)
  obtain ws where ws: "length ws = 2" "sema_inv s'" "distinct (ws @ sm_sq s')" "set (ws @ sm_sq s') = {7, 8}"
    using sema_post_refines [OF h run, unfolded Let_def if_P [OF l(1)]] unfolding l(2,3) by fastforce
  have "length (ws @ sm_sq s') = 2" using ws(3,4) distinct_card [OF ws(3)] by simp
  with ws have "set ws = {7, 8}" by simp
  with ws run show ?thesis by auto
qed

section \<open>Properties: the shortcut caches\<close>

text \<open>The live semaphores: handle to address.\<close>

definition live_sema :: "kernel \<Rightarrow> u32 \<Rightarrow> nat option" where
  "live_sema k j = (case get_obj sema_base j k of Some (a, O_sema s) \<Rightarrow> Some a | _ \<Rightarrow> None)"

text \<open>What the caches promise: negative entries name no live semaphore, positive entries point to the one
  that the handle names, every entry sits in the slot of its index, and no live index exceeds the
  recorded maximum.\<close>

definition superpath_ok :: "(u32 \<Rightarrow> nat option) \<Rightarrow> superpath \<Rightarrow> bool" where
  "superpath_ok live sp \<longleftrightarrow> live 0 = None \<and> length (destroyed_ids sp) = 32 \<and>
     length (cached_esrch_ids sp) = 64 \<and> length (fast_cache sp) = 64 \<and>
     (\<forall>j \<in> set (destroyed_ids sp). live j = None) \<and>
     (\<forall>p < 64. live (cached_esrch_ids sp ! p) = None \<and>
        (cached_esrch_ids sp ! p \<noteq> 0 \<longrightarrow> slot64 (sema_index (cached_esrch_ids sp ! p)) = p)) \<and>
     (\<forall>p < 64. \<forall>j a. fast_cache sp ! p = (j, Some a) \<longrightarrow>
        live j = Some a \<and> slot64 (sema_index j) = p) \<and>
     (max_created_index sp \<noteq> - 1 \<longrightarrow> (\<forall>j. live j \<noteq> None \<longrightarrow> sema_index j \<le> max_created_index sp))"

lemma superpath_ok_init: "live 0 = None \<Longrightarrow> superpath_ok live (superpath_init md ti)"
  by (auto simp: superpath_ok_def superpath_init_def)

lemma superpath_ok_esrch:
  assumes "superpath_ok live sp" "fast_esrch_action j sp \<noteq> None"
  shows "live j = None"
proof -
  have slot: "slot64 (sema_index j) < 64" by simp
  show ?thesis
  proof (cases "fast_esrch_action j sp")
    case (Some act)
    show ?thesis
    proof (cases act)
      case Fast_zero
      with Some have "j = 0" by (auto simp: fast_esrch_action_def Let_def split: if_splits)
      with assms(1) show ?thesis by (simp add: superpath_ok_def)
    next
      case Fast_cached
      with Some have "cached_esrch_ids sp ! slot64 (sema_index j) = j"
        by (auto simp: fast_esrch_action_def Let_def split: if_splits)
      with assms(1) slot show ?thesis unfolding superpath_ok_def by metis
    next
      case Fast_destroyed
      with Some have "j \<in> set (destroyed_ids sp)"
        by (auto simp: fast_esrch_action_def Let_def split: if_splits)
      with assms(1) show ?thesis by (simp add: superpath_ok_def)
    next
      case Fast_uncreated
      with Some have "max_created_index sp \<noteq> - 1" "\<not> sema_index j \<le> max_created_index sp"
        by (auto simp: fast_esrch_action_def Let_def split: if_splits)
      with assms(1) show ?thesis unfolding superpath_ok_def by blast
    qed
  qed (use assms(2) in simp)
qed

lemma superpath_ok_fast:
  assumes "superpath_ok live sp" "get_fast_object j sp = Some a"
  shows "live j = Some a"
proof -
  let ?p = "slot64 (sema_index j)"
  have "?p < 64" by simp
  moreover have "fast_cache sp ! ?p = (j, Some a)"
    using assms(2) by (auto simp: get_fast_object_def Let_def prod_eq_iff split: if_splits)
  ultimately show ?thesis using assms(1) unfolding superpath_ok_def by blast
qed

lemma superpath_ok_cached:
  "superpath_ok live sp \<Longrightarrow> live j = None \<Longrightarrow> superpath_ok live (record_cached_esrch_id j sp)"
  by (auto simp: superpath_ok_def record_cached_esrch_id_def Let_def nth_list_update)

lemma superpath_ok_object:
  "superpath_ok live sp \<Longrightarrow> live j = Some a \<Longrightarrow> superpath_ok live (record_fast_object j a sp)"
  by (auto simp: superpath_ok_def record_fast_object_def Let_def nth_list_update)

lemma forget_fast_sel [simp]:
  "destroyed_ids (forget_fast j i sp) = destroyed_ids sp" "sp_mode (forget_fast j i sp) = sp_mode sp"
  "cached_esrch_ids (forget_fast j i sp) = cached_esrch_ids sp" "length (fast_cache (forget_fast j i sp)) = length (fast_cache sp)"
  "max_created_index (forget_fast j i sp) = max_created_index sp"
  by (simp_all add: forget_fast_def)

lemma forget_fast_nth:
  assumes "superpath_ok live sp" "p < 64" "fast_cache (forget_fast j (sema_index j) sp) ! p = (u, Some a)"
  shows "live u = Some a \<and> slot64 (sema_index u) = p \<and> u \<noteq> j"
proof -
  have len: "length (fast_cache sp) = 64" using assms(1) by (simp add: superpath_ok_def)
  have f: "fast_cache sp ! p = (u, Some a) \<and> (u = j \<longrightarrow> p \<noteq> slot64 (sema_index j))"
    using assms(2,3) len by (auto simp: forget_fast_def nth_list_update split: if_splits)
  then have "live u = Some a" "slot64 (sema_index u) = p"
    using assms(1,2) unfolding superpath_ok_def by blast+
  with f show ?thesis by auto
qed

lemma superpath_ok_destroyed:
  assumes ok: "superpath_ok live sp" and on: "superpath_on sp" "sema_index j < 8192"
  shows "superpath_ok (live(j := None)) (record_destroyed_id j sp)"
proof -
  let ?sp = "sp\<lparr>destroyed_ids := (destroyed_ids sp)[slot32 (sema_index j) := j]\<rparr>"
  have eq: "record_destroyed_id j sp = forget_fast j (sema_index j) ?sp"
    using on by (simp add: record_destroyed_id_def Let_def not_le)
  have fc: "fast_cache (forget_fast j (sema_index j) ?sp) = fast_cache (forget_fast j (sema_index j) sp)"
    by (simp add: forget_fast_def)
  have "\<forall>u \<in> set (destroyed_ids (record_destroyed_id j sp)). (live(j := None)) u = None"
    using ok unfolding eq superpath_ok_def by (auto dest!: subsetD [OF set_update_subset_insert])
  moreover have "\<forall>p < 64. \<forall>u a. fast_cache (record_destroyed_id j sp) ! p = (u, Some a) \<longrightarrow>
      (live(j := None)) u = Some a \<and> slot64 (sema_index u) = p"
    unfolding eq fc using forget_fast_nth [OF ok] by auto
  ultimately show ?thesis using ok unfolding eq superpath_ok_def by auto
qed

lemma superpath_ok_created:
  assumes ok: "superpath_ok live sp" and on: "superpath_on sp" "sema_index j < 8192" and j: "j \<noteq> 0"
    and new: "j \<notin> set (destroyed_ids sp)"
    and old: "max_created_index sp = - 1 \<longrightarrow> live = (\<lambda>_. None)"
  shows "superpath_ok (live(j \<mapsto> a)) (record_created_id j sp)"
proof -
  let ?i = "sema_index j"
  define sp1 where "sp1 = (if cached_esrch_ids sp ! slot64 ?i = j
    then sp\<lparr>cached_esrch_ids := (cached_esrch_ids sp)[slot64 ?i := 0]\<rparr> else sp)"
  have len: "length (cached_esrch_ids sp) = 64" using ok by (simp add: superpath_ok_def)
  have ok1: "superpath_ok live sp1"
    using ok len by (auto simp: superpath_ok_def sp1_def nth_list_update)
  have c1: "cached_esrch_ids sp1 ! p \<noteq> j" if "p < 64" for p
  proof
    assume c: "cached_esrch_ids sp1 ! p = j"
    with ok1 that j have "slot64 ?i = p" unfolding superpath_ok_def by metis
    with c len j show False by (auto simp: sp1_def split: if_splits)
  qed
  define sp2 where "sp2 = forget_fast j ?i sp1"
  have eq: "record_created_id j sp = (if max_created_index sp2 = - 1 \<or> ?i > max_created_index sp2
      then sp2\<lparr>max_created_index := ?i\<rparr> else sp2)"
    using on by (simp add: record_created_id_def Let_def not_le sp1_def sp2_def)
  have m: "max_created_index sp2 = max_created_index sp" "destroyed_ids sp2 = destroyed_ids sp"
    by (simp_all add: sp2_def sp1_def)
  define r where "r = record_created_id j sp"
  have sel: "destroyed_ids r = destroyed_ids sp" "cached_esrch_ids r = cached_esrch_ids sp1"
    "fast_cache r = fast_cache sp2"
    "max_created_index r = (if max_created_index sp = - 1 \<or> ?i > max_created_index sp then ?i else max_created_index sp)"
    by (simp_all add: r_def eq m) (simp_all add: sp2_def)
  have "live 0 = None" "length (destroyed_ids r) = 32" "length (cached_esrch_ids r) = 64"
    using ok1 ok by (simp_all add: sel superpath_ok_def)
  moreover have "length (fast_cache r) = 64" using ok1 by (simp add: sel sp2_def superpath_ok_def)
  moreover have "\<forall>u \<in> set (destroyed_ids r). (live(j \<mapsto> a)) u = None"
    using ok new by (auto simp: sel superpath_ok_def)
  moreover have "\<forall>p < 64. (live(j \<mapsto> a)) (cached_esrch_ids r ! p) = None \<and>
      (cached_esrch_ids r ! p \<noteq> 0 \<longrightarrow> slot64 (sema_index (cached_esrch_ids r ! p)) = p)"
    using ok1 c1 by (simp add: sel superpath_ok_def)
  moreover have "\<forall>p < 64. \<forall>u b. fast_cache r ! p = (u, Some b) \<longrightarrow>
      (live(j \<mapsto> a)) u = Some b \<and> slot64 (sema_index u) = p"
    unfolding sel sp2_def using forget_fast_nth [OF ok1] by auto
  moreover have "\<forall>u. (live(j \<mapsto> a)) u \<noteq> None \<longrightarrow> sema_index u \<le> max_created_index r"
    using ok old by (auto simp: sel superpath_ok_def)
  ultimately show ?thesis unfolding r_def [symmetric] superpath_ok_def using j by simp
qed

text \<open>
  The cache bookkeeping is sound: creating a semaphore under a handle that is not among the
  remembered destroyed ones, destroying one, failing to find one and finding one each keep the caches
  consistent with the live semaphores, so a consistent cache never answers \<^verbatim>\<open>ESRCH\<close> for a live handle and
  never hands out an address that the handle does not name.
\<close>

theorem superpath_bookkeeping:
  assumes "superpath_ok live sp" "superpath_on sp" "sema_index j < 8192" "j \<noteq> 0"
  shows "superpath_ok (live(j := None)) (record_destroyed_id j sp) \<and>
    (live j = None \<longrightarrow> superpath_ok live (record_cached_esrch_id j sp)) \<and>
    (live j = Some a \<longrightarrow> superpath_ok live (record_fast_object j a sp)) \<and>
    (j \<notin> set (destroyed_ids sp) \<and> (max_created_index sp = - 1 \<longrightarrow> live = (\<lambda>_. None)) \<longrightarrow>
       superpath_ok (live(j \<mapsto> a)) (record_created_id j sp)) \<and>
    (fast_esrch_action j sp \<noteq> None \<longrightarrow> live j = None) \<and>
    (get_fast_object j sp \<noteq> None \<longrightarrow> get_fast_object j sp = live j)"
proof -
  have "get_fast_object j sp = live j" if "get_fast_object j sp \<noteq> None"
    using superpath_ok_fast [OF assms(1), of j] that by (cases "get_fast_object j sp") simp_all
  moreover have "superpath_ok (live(j \<mapsto> a)) (record_created_id j sp)"
    if "j \<notin> set (destroyed_ids sp) \<and> (max_created_index sp = - 1 \<longrightarrow> live = (\<lambda>_. None))"
    using superpath_ok_created [OF assms] that by (elim conjE)
  moreover note superpath_ok_destroyed [OF assms(1-3)] superpath_ok_cached [OF assms(1), of j]
    superpath_ok_object [OF assms(1), of j a] superpath_ok_esrch [OF assms(1), of j]
  ultimately show ?thesis by (intro conjI impI)
qed

theorem superpath_bookkeeping_witness:
  "let sp = superpath_init SP_fast ''BLUS30161''
   in superpath_ok ((\<lambda>_. None)(0x96000100 \<mapsto> 4)) (record_created_id 0x96000100 sp)"
proof -
  have "sema_index 0x96000100 < 8192" by (simp add: sema_index_def get_index_def)
  moreover have "superpath_ok (\<lambda>_. None) (superpath_init SP_fast ''BLUS30161'')"
    by (rule superpath_ok_init) simp
  moreover have "superpath_on (superpath_init SP_fast ''BLUS30161'')"
    "(0x96000100 :: u32) \<notin> set (destroyed_ids (superpath_init SP_fast ''BLUS30161''))"
    by (simp_all add: superpath_on_def superpath_init_def)
  ultimately show ?thesis
    using superpath_bookkeeping [of "\<lambda>_. None" "superpath_init SP_fast ''BLUS30161''" "0x96000100" 4]
    by (simp add: Let_def)
qed

text \<open>
  The exception in the previous statement is real: when a handle that was destroyed is issued
  again, the shortcut keeps answering \<^verbatim>\<open>CELL_ESRCH\<close> for the new, live semaphore, because creation clears the
  other caches but not the list of destroyed handles.
\<close>

theorem superpath_recreated_handle_refused:
  assumes "superpath_on sp" "sema_index j < 8192" "length (destroyed_ids sp) = 32"
  shows "fast_esrch_action j (record_created_id j (record_destroyed_id j sp)) \<noteq> None"
proof -
  let ?s = "record_created_id j (record_destroyed_id j sp)"
  have "destroyed_ids ?s = (destroyed_ids sp)[slot32 (sema_index j) := j]"
  proof -
    have "\<not> 8192 \<le> sema_index j" "\<not> \<not> superpath_on sp" using assms(1,2) by simp_all
    moreover have "superpath_on (forget_fast j i s) = superpath_on s" for i s
      by (simp add: superpath_on_def forget_fast_def)
    moreover have "superpath_on (s\<lparr>destroyed_ids := d\<rparr>) = superpath_on s" for s d
      by (simp add: superpath_on_def)
    ultimately show ?thesis by (simp add: record_created_id_def record_destroyed_id_def Let_def)
  qed
  then have "j \<in> set (destroyed_ids ?s)" using assms(3) by (simp add: set_update_memI)
  then show ?thesis using assms(2) by (simp add: fast_esrch_action_def Let_def not_le)
qed

theorem superpath_recreated_handle_refused_witness:
  "fast_esrch_action 0x96000101
     (record_created_id 0x96000101 (record_destroyed_id 0x96000101 (superpath_init SP_fast ''BLUS30161''))) \<noteq> None"
  by (rule superpath_recreated_handle_refused)
     (simp_all add: superpath_on_def superpath_init_def sema_index_def get_index_def)

lemma live_semaD: "live_sema k j = Some a \<Longrightarrow> \<exists>s. get_obj sema_base j k = Some (a, O_sema s) \<and> heap k a = Some (O_sema s)"
  by (auto simp: live_sema_def get_obj_def split: option.splits lv2_object.splits)

lemma live_sema_None: "live_sema k j = None \<Longrightarrow> sema_slow j cand f (k, sp) =
    (Ret CELL_ESRCH, k, if cand then record_cached_esrch_id j sp else sp)"
  by (auto simp: live_sema_def sema_slow_def split: option.splits prod.splits lv2_object.splits)

lemma live_sema_enter [simp]: "live_sema (enter t k) j = live_sema k j"
  by (simp add: live_sema_def)

lemma sema_wait_positive: "0 < sm_val s \<Longrightarrow>
    sema_wait t timeout seen e s = (Ret CELL_OK, e, s\<lparr>sm_val := wrap_s32 (sm_val s - 1)\<rparr>)"
  by (simp add: sema_wait_def Let_def)

lemma sema_post_positive:
  assumes "sema_inv s" "0 \<le> sm_val s" "0 < count" "count \<le> sm_max s - sm_val s"
  shows "sema_post t count seen e s = (Ret CELL_OK, e, s\<lparr>sm_val := wrap_s32 (sm_val s + count)\<rparr>)"
proof -
  have sq: "sm_sq s = []" using sema_waiters [OF assms(1)] assms(2) by simp
  have u: "wrap_u32 count = count" "wrap_u32 (sm_max s - sm_val s) = sm_max s - sm_val s"
    using assms by (auto intro!: wrap_u32_id simp: sema_inv_def)
  have upd: "s\<lparr>sm_val := x, sm_sq := []\<rparr> = s\<lparr>sm_val := x\<rparr>" for x using sq by (cases s) simp
  show ?thesis
  proof (cases "post_fast count seen s")
    case True
    then show ?thesis by (simp add: sema_post_def post_fast_def)
  next
    case False
    with assms u sq show ?thesis by (simp add: sema_post_def Let_def upd)
  qed
qed

text \<open>
  Claim C29. The shortcut is invisible: with consistent caches, \<^verbatim>\<open>sys_semaphore_wait\<close> and
  \<^verbatim>\<open>sys_semaphore_post\<close> return the same result and leave the same objects, handles and other threads
  whether the shortcut is enabled or disabled, for any call site and any loaded counter values.
\<close>

theorem superpath_transparent:
  assumes ok: "superpath_ok (live_sema k) sp"
    and inv: "\<And>a s. heap k a = Some (O_sema s) \<Longrightarrow> sema_inv s"
  shows "(case (sys_semaphore_wait cs t j timeout pre seen (k, sp),
           sys_semaphore_wait cs t j timeout pre' seen (k, sp\<lparr>sp_mode := SP_disabled\<rparr>)) of
      ((o1, k1, _), (o2, k2, _)) \<Rightarrow> o1 = o2 \<and> heap k1 = heap k2 \<and> ids k1 = ids k2 \<and>
        (\<forall>u. u \<noteq> t \<longrightarrow> thr (env k1) u = thr (env k2) u)) \<and>
    (case (sys_semaphore_post cs t j count pre seen (k, sp),
           sys_semaphore_post cs t j count pre' seen (k, sp\<lparr>sp_mode := SP_disabled\<rparr>)) of
      ((o1, k1, _), (o2, k2, _)) \<Rightarrow> o1 = o2 \<and> heap k1 = heap k2 \<and> ids k1 = ids k2 \<and>
        (\<forall>u. u \<noteq> t \<longrightarrow> thr (env k1) u = thr (env k2) u))" (is "?W \<and> ?P")
proof -
  let ?k = "enter t k" and ?sp' = "sp\<lparr>sp_mode := SP_disabled\<rparr>"
  have off: "\<not> superpath_candidate ?sp' cs b" for b by (simp add: superpath_candidate_def)
  have same: "case (sema_slow j c1 f (?k, sp), sema_slow j c2 f (?k, ?sp')) of
      ((o1, k1, _), (o2, k2, _)) \<Rightarrow> o1 = o2 \<and> heap k1 = heap k2 \<and> ids k1 = ids k2 \<and>
        (\<forall>u. u \<noteq> t \<longrightarrow> thr (env k1) u = thr (env k2) u)" for c1 c2 f
    by (simp add: sema_slow_def split: option.splits prod.splits lv2_object.splits)
  have esrch: "fast_esrch_action j sp \<noteq> None \<Longrightarrow>
      sema_slow j c f (?k, ?sp') = (Ret CELL_ESRCH, ?k, if c then record_cached_esrch_id j ?sp' else ?sp')" for c f
    using superpath_ok_esrch [OF ok, of j] by (simp add: live_sema_None)
  have W: ?W
  proof (cases "superpath_candidate sp cs False \<and> sp_mode sp \<noteq> SP_profile \<and>
      (fast_wait t j pre sp ?k \<noteq> None \<or> fast_esrch_action j sp \<noteq> None)")
    case False
    then show ?thesis using same [of "superpath_candidate sp cs False" "sema_wait t timeout seen" False] off
      by (auto simp: sys_semaphore_wait_def Let_def split: option.splits)
  next
    case True
    show ?thesis
    proof (cases "fast_wait t j pre sp ?k")
      case None
      with True esrch [of False "sema_wait t timeout seen"] off show ?thesis
        by (simp add: sys_semaphore_wait_def Let_def)
    next
      case (Some k1)
      then obtain a where a: "get_fast_object j sp = Some a"
        by (auto simp: fast_wait_def split: option.splits)
      with superpath_ok_fast [OF ok] obtain s where s: "get_obj sema_base j ?k = Some (a, O_sema s)"
        "heap ?k a = Some (O_sema s)" using live_semaD by fastforce
      with Some a have v: "0 < sm_val s" "k1 = put_obj a (O_sema (s\<lparr>sm_val := wrap_s32 (sm_val s - 1)\<rparr>))
          (?k\<lparr>env := set_gpr t 3 0 (env ?k)\<rparr>)"
        by (auto simp: fast_wait_def split: if_splits)
      with True Some s off show ?thesis
        by (simp add: sys_semaphore_wait_def sema_slow_def sema_wait_positive put_obj_def thr_set_gpr)
    qed
  qed
  have P: ?P
  proof (cases "superpath_candidate sp cs True \<and> sp_mode sp \<noteq> SP_profile \<and>
      (fast_post j count pre sp ?k \<noteq> None \<or> fast_esrch_action j sp \<noteq> None)")
    case False
    then show ?thesis using same [of "superpath_candidate sp cs True" "sema_post t count seen" False] off
      by (auto simp: sys_semaphore_post_def Let_def split: option.splits)
  next
    case True
    show ?thesis
    proof (cases "fast_post j count pre sp ?k")
      case None
      with True esrch [of False "sema_post t count seen"] off show ?thesis
        by (simp add: sys_semaphore_post_def Let_def)
    next
      case (Some k1)
      then obtain a where a: "get_fast_object j sp = Some a"
        by (auto simp: fast_post_def split: option.splits if_splits)
      with superpath_ok_fast [OF ok] obtain s where s: "get_obj sema_base j ?k = Some (a, O_sema s)"
        "heap ?k a = Some (O_sema s)" using live_semaD by fastforce
      with Some a have v: "0 \<le> sm_val s" "0 < count" "count \<le> sm_max s - sm_val s"
        "k1 = put_obj a (O_sema (s\<lparr>sm_val := wrap_s32 (sm_val s + count)\<rparr>)) ?k"
        by (auto simp: fast_post_def split: if_splits)
      moreover have "sema_inv s" using inv s(2) by simp
      ultimately show ?thesis using True Some s off
        by (simp add: sys_semaphore_post_def sema_slow_def sema_post_positive put_obj_def)
    qed
  qed
  from W P show ?thesis ..
qed

theorem superpath_transparent_witness:
  "let k = demo_kernel (O_sema demo_sema) [3];
       sp = record_fast_object 0x96000000 0 (superpath_init SP_fast ''BLUS30161'');
       cs = \<lparr>cs_name = ''PPU main_thread'', cs_cia = 0x31c168\<rparr>
   in superpath_candidate sp cs False \<and> fast_wait 3 0x96000000 1 sp (enter 3 k) \<noteq> None \<and>
      fst (sys_semaphore_wait cs 3 0x96000000 0 1 1 (k, sp)) =
        fst (sys_semaphore_wait cs 3 0x96000000 0 1 1 (k, sp\<lparr>sp_mode := SP_disabled\<rparr>))"
proof -
  define k sp where "k = demo_kernel (O_sema demo_sema) [3]"
    and "sp = record_fast_object 0x96000000 0 (superpath_init SP_fast ''BLUS30161'')"
  let ?cs = "\<lparr>cs_name = ''PPU main_thread'', cs_cia = 0x31c168\<rparr>"
  have g: "live_sema k j = (if j = 0x96000000 then Some 0 else None)" for j
    using demo_kernel_get [of sema_base j "O_sema demo_sema" "[3]"] by (simp add: live_sema_def k_def)
  have ix: "sema_index 0x96000000 = 0" by (simp add: sema_index_def get_index_def)
  have h: "heap k a = Some (O_sema s) \<Longrightarrow> s = demo_sema" for a s
    by (auto simp: k_def demo_kernel_def split: if_splits)
  have inv: "heap k a = Some (O_sema s) \<Longrightarrow> sema_inv s" for a s
    using h [of a s] by (simp add: sema_inv_def demo_sema_def)
  have "superpath_ok (live_sema k) sp"
    unfolding sp_def by (intro superpath_ok_object superpath_ok_init) (simp_all add: g)
  from superpath_transparent [OF this, where cs = ?cs and t = 3 and j = "0x96000000" and timeout = 0
      and pre = 1 and seen = 1 and pre' = 1 and count = 1] inv
  have "fst (sys_semaphore_wait ?cs 3 0x96000000 0 1 1 (k, sp)) =
      fst (sys_semaphore_wait ?cs 3 0x96000000 0 1 1 (k, sp\<lparr>sp_mode := SP_disabled\<rparr>))"
    by (auto split: prod.splits)
  moreover have "superpath_candidate sp ?cs False"
    by (simp add: sp_def record_fast_object_def superpath_init_def superpath_on_def superpath_candidate_def ix)
  moreover have "fast_wait 3 0x96000000 1 sp (enter 3 k) \<noteq> None"
    by (simp add: fast_wait_def get_fast_object_def sp_def record_fast_object_def superpath_init_def
        superpath_on_def ix k_def demo_kernel_def demo_sema_def)
  ultimately show ?thesis unfolding Let_def k_def [symmetric] sp_def [symmetric] by blast
qed

end
