(* ===== verification/Sys_Rwlock.thy ===== *)
theory Sys_Rwlock
  imports Lv2_Objects
begin

text \<open>
  The reader-writer lock of \<^verbatim>\<open>sys_rwlock.cpp\<close>. The owner word is a signed 64 bit integer: zero is free, a
  positive value is twice the writer's id, a negative one minus twice the number of readers, and bit 0
  says that somebody waits. \<open>seen\<close> is a value loaded before a compare-and-swap. The specification
  \<open>holder\<close> reads the word as free, a number of readers or a writer; the theorems say what each call does
  to it and to the two queues.
\<close>

section \<open>Model: one lock\<close>

text \<open>\<^verbatim>\<open>ppu.id << 1\<close> is computed in 32 bits and then widened.\<close>

definition id_shl :: "tid \<Rightarrow> int" where
  "id_shl t = uint (push_bit 1 t)"

definition rw_rlock :: "tid \<Rightarrow> u64 \<Rightarrow> int \<Rightarrow> lv2 \<Rightarrow> lv2_rwlock \<Rightarrow> outcome \<times> lv2 \<times> lv2_rwlock" where
  "rw_rlock t timeout seen e x =
     (if seen \<le> 0 \<and> seen AND 1 = 0 \<and> rw_owner x = seen
      then (Ret CELL_OK, e, x\<lparr>rw_owner := wrap_s64 (seen - 2)\<rparr>)
      else
        (let old = rw_owner x;
             x1 = x\<lparr>rw_owner := (if old \<le> 0 \<and> old AND 1 = 0 then wrap_s64 (old - 2) else old OR 1)\<rparr>
         in if old > 0 \<or> old AND 1 \<noteq> 0
            then (case emplace t (rw_rq x1) (snd (sleep t timeout e)) of
                    (q, e1) \<Rightarrow> (Blocked, set_gpr t 3 0 e1, x1\<lparr>rw_rq := q\<rparr>))
            else (Ret CELL_OK, e, x1)))"

definition rw_tryrlock :: "lv2_rwlock \<Rightarrow> error_code \<times> lv2_rwlock" where
  "rw_tryrlock x =
     (if rw_owner x \<le> 0 \<and> rw_owner x AND 1 = 0
      then (CELL_OK, x\<lparr>rw_owner := wrap_s64 (rw_owner x - 2)\<rparr>) else (CELL_EBUSY, x))"

definition bit_of :: "bool \<Rightarrow> int" where
  "bit_of b = (if b then 1 else 0)"

text \<open>\<^verbatim>\<open>cpu->id << 1 | !!wq | !!rq\<close> with the queues as they are after the dequeue.\<close>

definition writer_word :: "tid \<Rightarrow> tid list \<Rightarrow> tid list \<Rightarrow> int" where
  "writer_word c wq rq = (id_shl c OR bit_of (wq \<noteq> [])) OR bit_of (rq \<noteq> [])"

definition rw_runlock :: "tid \<Rightarrow> int \<Rightarrow> lv2 \<Rightarrow> lv2_rwlock \<Rightarrow> outcome \<times> lv2 \<times> lv2_rwlock" where
  "rw_runlock t seen e x =
     (if seen < 0 \<and> seen AND 1 = 0 \<and> rw_owner x = seen
      then (Ret CELL_OK, e, x\<lparr>rw_owner := wrap_s64 (seen + 2)\<rparr>)
      else
        (let old = rw_owner x; x1 = (if old < - 1 then x\<lparr>rw_owner := wrap_s64 (old + 2)\<rparr> else x)
         in if old \<ge> 0 then (Ret CELL_EPERM, e, x1)
            else if old = - 1
            then (case schedule (thr e) (rw_protocol x1) (rw_wq x1) of
                    (Some c, q) \<Rightarrow>
                      if F_again \<in> state (thr e c) then (Again, add_flag t F_again e, x1\<lparr>rw_wq := q\<rparr>)
                      else (Ret CELL_OK, awake1 c e,
                            x1\<lparr>rw_wq := q, rw_owner := writer_word c q (rw_rq x1)\<rparr>)
                  | (None, q) \<Rightarrow>
                      (if rw_rq x1 = [] then Ret CELL_OK else Fatal, e, x1\<lparr>rw_owner := 0\<rparr>))
            else (Ret CELL_OK, e, x1)))"

definition rw_wlock :: "tid \<Rightarrow> u64 \<Rightarrow> int \<Rightarrow> lv2 \<Rightarrow> lv2_rwlock \<Rightarrow> outcome \<times> lv2 \<times> lv2_rwlock" where
  "rw_wlock t timeout seen e x =
     (if seen = 0 \<and> rw_owner x = 0 then (Ret CELL_OK, e, x\<lparr>rw_owner := id_shl t\<rparr>)
      else if seen \<noteq> 0 \<and> drop_bit 1 seen = uint t then (Ret CELL_EDEADLK, e, x)
      else
        (let old = rw_owner x; x1 = x\<lparr>rw_owner := (if old = 0 then id_shl t else old OR 1)\<rparr>
         in if old = 0 then (Ret CELL_OK, e, x1)
            else
              (case emplace t (rw_wq x1) (snd (sleep t timeout e)) of
                 (q, e1) \<Rightarrow>
                   (let x2 = x1\<lparr>rw_wq := q\<rparr>
                    in if drop_bit 1 old = uint t then (Ret CELL_EDEADLK, e1, x2)
                       else (Blocked, set_gpr t 3 0 e1, x2)))))"

definition rw_trywlock :: "tid \<Rightarrow> int \<Rightarrow> lv2_rwlock \<Rightarrow> error_code \<times> lv2_rwlock" where
  "rw_trywlock t seen x =
     (let ret = (if seen \<noteq> 0 then seen else rw_owner x);
          x1 = (if seen = 0 \<and> rw_owner x = 0 then x\<lparr>rw_owner := id_shl t\<rparr> else x)
      in if ret \<noteq> 0 then if drop_bit 1 ret = uint t then (CELL_EDEADLK, x1) else (CELL_EBUSY, x1)
         else (CELL_OK, x1))"

text \<open>
  The loops that move every waiting reader to the wake list. \<^verbatim>\<open>schedule\<close> does not dequeue a thread that
  has the flag \<^verbatim>\<open>again\<close>, so the loop may run forever: \<^const>\<open>None\<close>.
\<close>

partial_function (option) drain_readers ::
  "lv2 \<Rightarrow> tid list \<Rightarrow> int \<Rightarrow> (int \<times> lv2 \<times> tid list) option" where
  "drain_readers e q sz =
     (case schedule (thr e) SYS_SYNC_FIFO q of
        (None, q') \<Rightarrow> Some (sz, e, q')
      | (Some c, q') \<Rightarrow> drain_readers (append_awake c e) q' (sz + 1))"

definition rw_wunlock :: "tid \<Rightarrow> int \<Rightarrow> lv2 \<Rightarrow> lv2_rwlock \<Rightarrow> (outcome \<times> lv2 \<times> lv2_rwlock) option" where
  "rw_wunlock t seen e x =
     (let ret = (if seen \<noteq> id_shl t then seen else rw_owner x);
          x1 = (if seen = id_shl t \<and> rw_owner x = seen then x\<lparr>rw_owner := 0\<rparr> else x)
      in if drop_bit 1 ret \<noteq> uint t then Some (Ret CELL_EPERM, e, x1)
         else if ret AND 1 = 0 then Some (Ret CELL_OK, e, x1)
         else
           (case schedule (thr e) (rw_protocol x1) (rw_wq x1) of
              (Some c, q) \<Rightarrow>
                if F_again \<in> state (thr e c) then Some (Again, add_flag t F_again e, x1\<lparr>rw_wq := q\<rparr>)
                else Some (Ret CELL_OK, awake1 c e,
                           x1\<lparr>rw_wq := q, rw_owner := writer_word c q (rw_rq x1)\<rparr>)
            | (None, q) \<Rightarrow>
                if rw_rq x1 \<noteq> []
                then if \<exists>c \<in> set (rw_rq x1). F_again \<in> state (thr e c)
                     then Some (Again, add_flag t F_again e, x1)
                     else (case drain_readers e (rw_rq x1) 0 of
                             None \<Rightarrow> None
                           | Some (sz, e1, q') \<Rightarrow>
                               Some (Ret CELL_OK, awake_all e1,
                                     x1\<lparr>rw_rq := q', rw_owner := wrap_s64 (- 2 * sz)\<rparr>))
                else Some (Ret CELL_OK, e, x1\<lparr>rw_owner := 0\<rparr>)))"

text \<open>What a writer does when its timeout has passed; \<^const>\<open>None\<close> is the loop that does not end.\<close>

definition rw_cancel_w :: "tid \<Rightarrow> lv2 \<Rightarrow> lv2_rwlock \<Rightarrow> (lv2 \<times> lv2_rwlock) option" where
  "rw_cancel_w t e x =
     (if t \<notin> set (rw_wq x) then Some (e, x)
      else
        (let x1 = x\<lparr>rw_wq := remove1 t (rw_wq x)\<rparr>;
             done = (\<lambda>(e2, x2). (set_gpr t 3 (ucast (CELL_ETIMEDOUT)) e2, x2))
         in if rw_rq x1 \<noteq> [] \<and> rw_wq x1 = [] \<and> rw_owner x1 < 0
            then (case drain_readers e (rw_rq x1) 0 of
                    None \<Rightarrow> None
                  | Some (sz, e1, q') \<Rightarrow>
                      Some (done (awake_all e1,
                        x1\<lparr>rw_rq := q', rw_owner := wrap_s64 (rw_owner x1 - 2 * sz) AND - 2\<rparr>)))
            else if rw_rq x1 = [] \<and> rw_wq x1 = []
            then Some (done (e, x1\<lparr>rw_owner := rw_owner x1 AND - 2\<rparr>))
            else Some (done (e, x1))))"

definition rw_wait_r :: "tid \<Rightarrow> u64 \<Rightarrow> bool \<Rightarrow> lv2 \<Rightarrow> lv2_rwlock \<Rightarrow> verdict \<times> lv2 \<times> lv2_rwlock" where
  "rw_wait_r t timeout fired e x =
     wait_iter t (t \<in> set (rw_rq x)) (cancel_wait t rw_rq rw_rq_update) timeout fired e x"

definition rw_wait_w :: "tid \<Rightarrow> u64 \<Rightarrow> bool \<Rightarrow> lv2 \<Rightarrow> lv2_rwlock \<Rightarrow> verdict \<times> lv2 \<times> lv2_rwlock option" where
  "rw_wait_w t timeout fired e x =
     wait_iter t (t \<in> set (rw_wq x))
       (\<lambda>e y. case rw_cancel_w t e x of None \<Rightarrow> (e, None) | Some (e1, x1) \<Rightarrow> (e1, Some x1))
       timeout fired e (Some x)"

section \<open>Model: the system calls\<close>

record sys_rwlock_attribute =
  ra_protocol :: u32
  ra_pshared :: u32
  ra_ipc_key :: u64
  ra_flags :: u32
  ra_name :: u64

definition sys_rwlock_create ::
  "tid \<Rightarrow> u32 \<Rightarrow> sys_rwlock_attribute option \<Rightarrow> kernel \<Rightarrow> error_code \<times> kernel" where
  "sys_rwlock_create t rw_lock_id attr k0 =
     (let k = enter t k0
      in case attr of
           None \<Rightarrow> (CELL_EFAULT, k)
         | Some at \<Rightarrow>
             if rw_lock_id = 0 then (CELL_EFAULT, k)
             else if ra_protocol at \<noteq> SYS_SYNC_FIFO \<and> ra_protocol at \<noteq> SYS_SYNC_PRIORITY then (CELL_EINVAL, k)
             else
               (let ipc_key = get_key (ra_pshared at) (ra_ipc_key at)
                in case lv2_create rwlock_base (ra_pshared at) ipc_key (ra_flags at)
                       (\<lambda>_. O_rwlock \<lparr>rw_exists = 0, rw_protocol = ra_protocol at, rw_key = ipc_key,
                          rw_name = ra_name at, rw_owner = 0, rw_rq = [], rw_wq = []\<rparr>) True k of
                     (err, k1) \<Rightarrow>
                       if err \<noteq> 0 then (err, k1)
                       else (CELL_OK, write32 rw_lock_id (g_id (ids k1)) k1)))"

definition rwlock_destroy_check :: "nat \<Rightarrow> lv2_object \<Rightarrow> kernel \<Rightarrow> error_code \<times> kernel" where
  "rwlock_destroy_check a ob k =
     (case ob of
        O_rwlock x \<Rightarrow>
          if rw_owner x \<noteq> 0 then (CELL_EBUSY, k)
          else (CELL_OK, on_id_destroy rwlock_base a (rw_key x) (rw_key x \<noteq> 0) k)
      | _ \<Rightarrow> (CELL_OK, k))"

definition sys_rwlock_destroy :: "tid \<Rightarrow> u32 \<Rightarrow> kernel \<Rightarrow> error_code \<times> kernel" where
  "sys_rwlock_destroy t rw_lock_id k0 =
     (case withdraw_if rwlock_base rw_lock_id rwlock_destroy_check (enter t k0) of
        (None, k) \<Rightarrow> (CELL_ESRCH, k)
      | (Some r, k) \<Rightarrow> (r, k))"

definition on_rwlock ::
  "u32 \<Rightarrow> (lv2 \<Rightarrow> lv2_rwlock \<Rightarrow> (outcome \<times> lv2 \<times> lv2_rwlock) option) \<Rightarrow> kernel \<Rightarrow> (outcome \<times> kernel) option" where
  "on_rwlock idn f k =
     (case get_obj rwlock_base idn k of
        Some (a, O_rwlock x) \<Rightarrow>
          map_option (\<lambda>(r, e, x'). (r, put_obj a (O_rwlock x') (k\<lparr>env := e\<rparr>))) (f (env k) x)
      | _ \<Rightarrow> Some (Ret CELL_ESRCH, k))"

definition sys_rwlock_rlock :: "tid \<Rightarrow> u32 \<Rightarrow> u64 \<Rightarrow> int \<Rightarrow> kernel \<Rightarrow> (outcome \<times> kernel) option" where
  "sys_rwlock_rlock t idn timeout seen k =
     on_rwlock idn (\<lambda>e x. Some (rw_rlock t timeout seen e x)) (enter t k)"

definition sys_rwlock_tryrlock :: "tid \<Rightarrow> u32 \<Rightarrow> kernel \<Rightarrow> (outcome \<times> kernel) option" where
  "sys_rwlock_tryrlock t idn k =
     on_rwlock idn (\<lambda>e x. case rw_tryrlock x of (r, x') \<Rightarrow> Some (Ret r, e, x')) (enter t k)"

definition sys_rwlock_runlock :: "tid \<Rightarrow> u32 \<Rightarrow> int \<Rightarrow> kernel \<Rightarrow> (outcome \<times> kernel) option" where
  "sys_rwlock_runlock t idn seen k = on_rwlock idn (\<lambda>e x. Some (rw_runlock t seen e x)) (enter t k)"

definition sys_rwlock_wlock :: "tid \<Rightarrow> u32 \<Rightarrow> u64 \<Rightarrow> int \<Rightarrow> kernel \<Rightarrow> (outcome \<times> kernel) option" where
  "sys_rwlock_wlock t idn timeout seen k =
     on_rwlock idn (\<lambda>e x. Some (rw_wlock t timeout seen e x)) (enter t k)"

definition sys_rwlock_trywlock :: "tid \<Rightarrow> u32 \<Rightarrow> int \<Rightarrow> kernel \<Rightarrow> (outcome \<times> kernel) option" where
  "sys_rwlock_trywlock t idn seen k =
     on_rwlock idn (\<lambda>e x. case rw_trywlock t seen x of (r, x') \<Rightarrow> Some (Ret r, e, x')) (enter t k)"

definition sys_rwlock_wunlock :: "tid \<Rightarrow> u32 \<Rightarrow> int \<Rightarrow> kernel \<Rightarrow> (outcome \<times> kernel) option" where
  "sys_rwlock_wunlock t idn seen k = on_rwlock idn (rw_wunlock t seen) (enter t k)"

interpretation rwlock_del: destroy_call "rwlock_base" "rwlock_destroy_check"
  by unfold_locales (simp add: rwlock_destroy_check_def split: lv2_object.splits)

section \<open>The owner word\<close>

definition tid_ok :: "tid \<Rightarrow> bool" where
  "tid_ok t \<longleftrightarrow> 0 < uint t \<and> uint t < 2 ^ 31"

datatype holder = Free | Readers int | Writer int

definition holder_of :: "lv2_rwlock \<Rightarrow> holder" where
  "holder_of x = (if rw_owner x = 0 then Free
     else if rw_owner x > 0 then Writer (rw_owner x div 2) else Readers ((1 - rw_owner x) div 2))"

definition rw_inv :: "lv2_rwlock \<Rightarrow> bool" where
  "rw_inv x \<longleftrightarrow> distinct (rw_rq x @ rw_wq x) \<and> (\<forall>t \<in> set (rw_rq x @ rw_wq x). tid_ok t) \<and>
     rw_owner x < 2 ^ 32 \<and> - (2 ^ 62) \<le> rw_owner x \<and> rw_owner x \<noteq> 1 \<and>
     (rw_owner x = 0 \<longrightarrow> rw_rq x = [] \<and> rw_wq x = []) \<and>
     (rw_owner x < 0 \<longrightarrow> (odd (rw_owner x) \<longleftrightarrow> rw_wq x \<noteq> []) \<and> (rw_rq x \<noteq> [] \<longrightarrow> rw_wq x \<noteq> [])) \<and>
     (rw_owner x > 0 \<and> (rw_rq x \<noteq> [] \<or> rw_wq x \<noteq> []) \<longrightarrow> odd (rw_owner x))"

lemma and_1_even [simp]: "(v :: int) AND 1 = 0 \<longleftrightarrow> even v"
  by (simp add: and_one_eq even_iff_mod_2_eq_zero)

lemma id_shl_eq: "tid_ok t \<Longrightarrow> id_shl t = 2 * uint t"
proof -
  assume "tid_ok t"
  then have "uint t * 2 < 2 ^ 32" by (simp add: tid_ok_def)
  then have "uint (push_bit 1 t) = uint t * 2"
    by (simp add: push_bit_eq_mult uint_word_ariths)
  then show ?thesis by (simp add: id_shl_def)
qed

lemma even_or_one: "even (v :: int) \<Longrightarrow> v OR 1 = v + 1"
  by (simp add: int_or_one)

lemma writer_word_eq:
  "tid_ok c \<Longrightarrow> writer_word c wq rq = 2 * uint c + (if wq \<noteq> [] \<or> rq \<noteq> [] then 1 else 0)"
  by (simp add: writer_word_def id_shl_eq bit_of_def int_or_one)

lemma drop_bit_1_int: "drop_bit 1 (v :: int) = v div 2" "drop_bit (Suc 0) (v :: int) = v div 2"
  by (simp_all add: drop_bit_eq_div)

lemma half_neg: "(1 - 2 * b) div 2 = - (2 * b) div (2 :: int)"
  by presburger

lemma or_one_div_2: "((v :: int) OR 1) div 2 = v div 2"
  by (simp add: int_or_one)

text \<open>Taking every waiting reader ends when no save state is in progress, and hands them over oldest first.\<close>

lemma drain_readers_takes:
  assumes "distinct q" "\<forall>c \<in> set q. F_again \<notin> state (thr e c)"
  shows "drain_readers e q n = Some (n + int (length q), e\<lparr>g_to_awake := g_to_awake e @ rev q\<rparr>, [])"
  using assms
proof (induction q arbitrary: e n rule: rev_induct)
  case Nil
  then show ?case by (simp add: drain_readers.simps)
next
  case (snoc c q)
  have "pick (thr e) SYS_SYNC_FIFO (q @ [c]) = Some c" by (simp add: pick_fifo)
  with snoc.prems have "schedule (thr e) SYS_SYNC_FIFO (q @ [c]) = (Some c, q)"
    by (simp add: schedule_def distinct_remove1_last_append [of q c, simplified])
  moreover have "drain_readers (append_awake c e) q (n + 1) =
      Some (n + 1 + int (length q), e\<lparr>g_to_awake := g_to_awake e @ c # rev q\<rparr>, [])"
    using snoc.IH [of "append_awake c e" "n + 1"] snoc.prems by (simp add: append_awake_def)
  ultimately show ?case by (simp add: drain_readers.simps [of e "q @ [c]"])
qed

lemma drain_readers_diverges:
  assumes "q \<noteq> []" "F_again \<in> state (thr e (last q))"
  shows "drain_readers e q n = None"
proof (rule ccontr)
  assume "drain_readers e q n \<noteq> None"
  then obtain y where y: "drain_readers e q n = Some y" by blast
  have "q \<noteq> [] \<longrightarrow> F_again \<notin> state (thr e (last q))"
  proof (rule drain_readers.raw_induct [where P = "\<lambda>e q n y. q \<noteq> [] \<longrightarrow> F_again \<notin> state (thr e (last q))", OF _ y],
      intro impI notI)
    fix f :: "lv2 \<Rightarrow> tid list \<Rightarrow> int \<Rightarrow> (int \<times> lv2 \<times> tid list) option" and e q n y
    assume IH: "\<And>e q n y. f e q n = Some y \<Longrightarrow> q \<noteq> [] \<longrightarrow> F_again \<notin> state (thr e (last q))"
      and step: "(case schedule (thr e) SYS_SYNC_FIFO q of (None, q') \<Rightarrow> Some (n, e, q')
        | (Some c, q') \<Rightarrow> f (append_awake c e) q' (n + 1)) = Some y"
      and q: "q \<noteq> []" "F_again \<in> state (thr e (last q))"
    then have "schedule (thr e) SYS_SYNC_FIFO q = (Some (last q), q)"
      by (simp add: schedule_def pick_fifo)
    with step have "f (append_awake (last q) e) q (n + 1) = Some y" by simp
    from IH [OF this] q show False by (simp add: append_awake_def)
  qed
  with assms show False by blast
qed

section \<open>Lemmas on the calls\<close>

lemma rw_rlock_cases:
  assumes inv: "rw_inv x" and t: "tid_ok t" "t \<notin> set (rw_rq x @ rw_wq x)" and b: "- (2 ^ 62) + 2 \<le> rw_owner x"
    and run: "rw_rlock t timeout seen e x = (out, e', x')"
  shows "rw_inv x' \<and>
    (if rw_owner x \<le> 0 \<and> rw_wq x = [] then out = Ret CELL_OK \<and> e' = e \<and> x' = x\<lparr>rw_owner := rw_owner x - 2\<rparr>
     else out = Blocked \<and> gpr (thr e' t) 3 = 0 \<and> holder_of x' = holder_of x \<and>
       x' = x\<lparr>rw_owner := rw_owner x OR 1, rw_rq := t # rw_rq x\<rparr>)"
proof -
  have ev: "rw_owner x \<le> 0 \<Longrightarrow> even (rw_owner x) \<longleftrightarrow> rw_wq x = []"
    using inv by (cases "rw_owner x = 0") (auto simp: rw_inv_def)
  have w: "wrap_s64 (rw_owner x - 2) = rw_owner x - 2" if "rw_owner x \<le> 0"
    using b that by (intro wrap_s64_id) simp_all
  show ?thesis
  proof (cases "rw_owner x \<le> 0 \<and> rw_wq x = []")
    case True
    then have r: "out = Ret CELL_OK \<and> e' = e \<and> x' = x\<lparr>rw_owner := rw_owner x - 2\<rparr>"
      using run ev w by (auto simp: rw_rlock_def Let_def split: if_splits)
    moreover have "rw_rq x = []" using True inv by (cases "rw_owner x = 0") (auto simp: rw_inv_def)
    then have "rw_inv (x\<lparr>rw_owner := rw_owner x - 2\<rparr>)"
      using True inv ev b by (auto simp: rw_inv_def)
    ultimately show ?thesis using True by simp
  next
    case False
    then have busy: "rw_owner x > 0 \<or> odd (rw_owner x)" using ev by auto
    let ?x = "x\<lparr>rw_owner := rw_owner x OR 1, rw_rq := t # rw_rq x\<rparr>"
    have r: "out = Blocked" "gpr (thr e' t) 3 = 0" "x' = ?x"
      using run busy by (auto simp: rw_rlock_def Let_def emplace_def thr_set_gpr split: if_splits)
    have "rw_owner x \<noteq> 0" using False inv by (auto simp: rw_inv_def)
    then have neg: "rw_owner x < 0 \<Longrightarrow> odd (rw_owner x) \<and> rw_wq x \<noteq> []" using busy False by auto
    have "rw_inv ?x"
      using inv t busy neg \<open>rw_owner x \<noteq> 0\<close> by (auto simp: rw_inv_def int_or_one)
    moreover have "holder_of ?x = holder_of x"
      using busy neg \<open>rw_owner x \<noteq> 0\<close> by (auto simp: holder_of_def int_or_one)
    ultimately show ?thesis using False r by simp
  qed
qed

text \<open>The caller's own ownership is never stale in a loaded owner word.\<close>

definition rw_view :: "tid \<Rightarrow> lv2_rwlock \<Rightarrow> int \<Rightarrow> bool" where
  "rw_view t x seen \<longleftrightarrow> (seen div 2 = uint t \<longleftrightarrow> rw_owner x div 2 = uint t)"

lemma rw_wlock_cases:
  assumes inv: "rw_inv x" and t: "tid_ok t" "t \<notin> set (rw_rq x @ rw_wq x)" and v: "rw_view t x seen"
    and run: "rw_wlock t timeout seen e x = (out, e', x')"
  shows "rw_inv x' \<and>
    (if rw_owner x = 0 then out = Ret CELL_OK \<and> e' = e \<and> x' = x\<lparr>rw_owner := 2 * uint t\<rparr>
     else if rw_owner x div 2 = uint t then out = Ret CELL_EDEADLK \<and> e' = e \<and> x' = x
     else out = Blocked \<and> gpr (thr e' t) 3 = 0 \<and> holder_of x' = holder_of x \<and>
       x' = x\<lparr>rw_owner := rw_owner x OR 1, rw_wq := t # rw_wq x\<rparr>)"
proof -
  have t0: "0 < uint t" "uint t < 2 ^ 31" using t(1) by (simp_all add: tid_ok_def)
  show ?thesis
  proof (cases "rw_owner x = 0")
    case True
    then have "seen div 2 \<noteq> uint t" using v t0 by (simp add: rw_view_def)
    with True run t0 have "out = Ret CELL_OK" "e' = e" "x' = x\<lparr>rw_owner := 2 * uint t\<rparr>"
      by (auto simp: rw_wlock_def Let_def id_shl_eq [OF t(1)] drop_bit_1_int split: if_splits)
    moreover have "rw_inv (x\<lparr>rw_owner := 2 * uint t\<rparr>)"
      using inv True t0 by (simp add: rw_inv_def)
    ultimately show ?thesis using True by simp
  next
    case nz: False
    show ?thesis
    proof (cases "rw_owner x div 2 = uint t")
      case True
      then have "seen div 2 = uint t" using v by (simp add: rw_view_def)
      moreover from this t0 have "seen \<noteq> 0" by auto
      ultimately have "out = Ret CELL_EDEADLK" "e' = e" "x' = x"
        using run by (auto simp: rw_wlock_def drop_bit_1_int)
      with True nz inv show ?thesis by simp
    next
      case False
      then have sd: "seen div 2 \<noteq> uint t" using v by (simp add: rw_view_def)
      let ?x = "x\<lparr>rw_owner := rw_owner x OR 1, rw_wq := t # rw_wq x\<rparr>"
      have r: "out = Blocked" "gpr (thr e' t) 3 = 0" "x' = ?x"
        using run nz False sd by (auto simp: rw_wlock_def Let_def emplace_def thr_set_gpr drop_bit_1_int split: if_splits)
      have le: "rw_owner x < 0 \<Longrightarrow> rw_owner x OR 1 < 0" by (auto simp: int_or_one)
      have lo: "- (2 ^ 62) \<le> rw_owner x OR 1" using inv by (auto simp: int_or_one rw_inv_def)
      have "rw_owner x OR 1 \<noteq> 1" "rw_owner x OR 1 \<noteq> 0" "odd (rw_owner x OR 1)" "rw_owner x OR 1 < 2 ^ 32"
        using nz inv by (auto simp: int_or_one rw_inv_def)
      then have "rw_inv ?x" using inv t lo unfolding rw_inv_def by simp
      moreover have "holder_of ?x = holder_of x"
        using nz le by (auto simp: holder_of_def int_or_one half_neg elim!: evenE)
      ultimately show ?thesis using nz False r by simp
    qed
  qed
qed

lemma rw_inv_give:
  assumes inv: "rw_inv x" and c: "c \<in> set (rw_wq x)"
  defines "q \<equiv> remove1 c (rw_wq x)"
  shows "rw_inv (x\<lparr>rw_wq := q, rw_owner := writer_word c q (rw_rq x)\<rparr>)"
    and "holder_of (x\<lparr>rw_wq := q, rw_owner := writer_word c q (rw_rq x)\<rparr>) = Writer (uint c)"
proof -
  have ok: "tid_ok c" using inv c by (simp add: rw_inv_def)
  then have u: "0 < uint c" "uint c < 2 ^ 31" by (simp_all add: tid_ok_def)
  have d: "distinct (rw_rq x)" "distinct (rw_wq x)" "set (rw_rq x) \<inter> set (rw_wq x) = {}"
    "\<forall>t \<in> set (rw_rq x) \<union> set (rw_wq x). tid_ok t"
    using inv by (auto simp: rw_inv_def)
  then have "distinct (rw_rq x @ q)" "\<forall>t \<in> set (rw_rq x @ q). tid_ok t"
    by (auto simp: q_def)
  with u show "rw_inv (x\<lparr>rw_wq := q, rw_owner := writer_word c q (rw_rq x)\<rparr>)"
    unfolding writer_word_eq [OF ok] by (simp add: rw_inv_def)
  show "holder_of (x\<lparr>rw_wq := q, rw_owner := writer_word c q (rw_rq x)\<rparr>) = Writer (uint c)"
    unfolding writer_word_eq [OF ok] using u by (simp add: holder_of_def)
qed

lemma rw_runlock_cases:
  assumes inv: "rw_inv x" and ag: "\<forall>c \<in> set (rw_wq x). F_again \<notin> state (thr e c)"
    and run: "rw_runlock t seen e x = (out, e', x')"
  shows "rw_inv x' \<and>
    (case holder_of x of
       Readers n \<Rightarrow> out = Ret CELL_OK \<and> rw_rq x' = rw_rq x \<and>
         (if n > 1 then holder_of x' = Readers (n - 1) \<and> rw_wq x' = rw_wq x \<and> e' = e
          else case pick (thr e) (rw_protocol x) (rw_wq x) of
                 None \<Rightarrow> holder_of x' = Free \<and> rw_wq x' = [] \<and> e' = e
               | Some c \<Rightarrow> holder_of x' = Writer (uint c) \<and> rw_wq x' = remove1 c (rw_wq x) \<and> e' = awake1 c e)
     | _ \<Rightarrow> out = Ret CELL_EPERM \<and> x' = x \<and> e' = e)"
proof (cases "rw_owner x \<ge> 0")
  case True
  then have "\<not> (seen < 0 \<and> even seen \<and> rw_owner x = seen)" by auto
  with True run have "out = Ret CELL_EPERM" "x' = x" "e' = e" by (simp_all add: rw_runlock_def Let_def)
  with True inv show ?thesis by (simp add: holder_of_def)
next
  case neg: False
  then have h: "holder_of x = Readers ((1 - rw_owner x) div 2)" by (simp add: holder_of_def)
  have o: "odd (rw_owner x) \<longleftrightarrow> rw_wq x \<noteq> []" "rw_rq x \<noteq> [] \<longrightarrow> rw_wq x \<noteq> []" "- (2 ^ 62) \<le> rw_owner x"
    using neg inv by (auto simp: rw_inv_def)
  consider (more) "rw_owner x < - 2" | (two) "rw_owner x = - 2" | (one) "rw_owner x = - 1" using neg by linarith
  then show ?thesis
  proof cases
    case more
    let ?x = "x\<lparr>rw_owner := rw_owner x + 2\<rparr>"
    have "wrap_s64 (rw_owner x + 2) = rw_owner x + 2" using neg o(3) by (intro wrap_s64_id) auto
    with run more have r: "out = Ret CELL_OK" "x' = ?x" "e' = e"
      by (auto simp: rw_runlock_def Let_def split: if_splits)
    moreover have "rw_inv ?x" using inv more by (auto simp: rw_inv_def)
    moreover have "(1 - rw_owner x) div 2 > 1" "(1 - (rw_owner x + 2)) div 2 = (1 - rw_owner x) div 2 - 1"
      using more by auto
    moreover have "holder_of ?x = Readers ((1 - (rw_owner x + 2)) div 2)" using more by (simp add: holder_of_def)
    ultimately show ?thesis unfolding h by (simp only: holder.case if_True) simp
  next
    case two
    then have q: "rw_wq x = []" "rw_rq x = []" using o by auto
    have "wrap_s64 0 = 0" by (simp add: wrap_s64_id)
    with run two have r: "out = Ret CELL_OK" "x' = x\<lparr>rw_owner := 0\<rparr>" "e' = e"
      by (auto simp: rw_runlock_def Let_def split: if_splits)
    moreover have "rw_inv (x\<lparr>rw_owner := 0\<rparr>)" using q by (simp add: rw_inv_def)
    ultimately show ?thesis unfolding h using two q by (simp add: holder_of_def)
  next
    case one
    then have "rw_wq x \<noteq> []" using o by auto
    show ?thesis
    proof (rule schedule_cases [of "rw_wq x" "thr e" "rw_protocol x"])
      fix c assume c: "c \<in> set (rw_wq x)" "pick (thr e) (rw_protocol x) (rw_wq x) = Some c"
        "schedule (thr e) (rw_protocol x) (rw_wq x) = (Some c, remove1 c (rw_wq x))"
      let ?q = "remove1 c (rw_wq x)"
      have "F_again \<notin> state (thr e c)" using ag c(1) by simp
      then have "out = Ret CELL_OK" "e' = awake1 c e"
        "x' = x\<lparr>rw_wq := ?q, rw_owner := writer_word c ?q (rw_rq x)\<rparr>"
        using run one c(3) by (cases "seen = - 1"; simp add: rw_runlock_def Let_def)+
      then show ?thesis unfolding h using one c rw_inv_give [OF inv c(1)] by simp
    qed (use \<open>rw_wq x \<noteq> []\<close> ag in auto)
  qed
qed

lemma rw_wunlock_cases:
  assumes inv: "rw_inv x" and t: "tid_ok t" and v: "rw_view t x seen"
    and ag: "\<forall>c \<in> set (rw_rq x @ rw_wq x). F_again \<notin> state (thr e c)" and len: "length (rw_rq x) < 2 ^ 32"
  shows "\<exists>out e' x'. rw_wunlock t seen e x = Some (out, e', x') \<and> rw_inv x' \<and>
    (if holder_of x = Writer (uint t)
     then out = Ret CELL_OK \<and>
       (case pick (thr e) (rw_protocol x) (rw_wq x) of
          Some c \<Rightarrow> holder_of x' = Writer (uint c) \<and> rw_wq x' = remove1 c (rw_wq x) \<and> rw_rq x' = rw_rq x \<and>
            e' = awake1 c e
        | None \<Rightarrow> rw_wq x' = [] \<and> rw_rq x' = [] \<and>
            (if rw_rq x = [] then holder_of x' = Free \<and> e' = e
             else holder_of x' = Readers (int (length (rw_rq x))) \<and>
               e' = awake_all (e\<lparr>g_to_awake := g_to_awake e @ rev (rw_rq x)\<rparr>)))
     else out = Ret CELL_EPERM \<and> x' = x \<and> e' = e)"
proof -
  have t0: "0 < uint t" "id_shl t = 2 * uint t" using t id_shl_eq [OF t] by (auto simp: tid_ok_def)
  show ?thesis
  proof (cases "holder_of x = Writer (uint t)")
    case False
    then have "rw_owner x div 2 \<noteq> uint t"
      using t0 by (auto simp: holder_of_def split: if_splits)
    then have "seen div 2 \<noteq> uint t" using v by (simp add: rw_view_def)
    moreover from this t0 have "seen \<noteq> id_shl t" by auto
    ultimately have "rw_wunlock t seen e x = Some (Ret CELL_EPERM, e, x)"
      by (simp add: rw_wunlock_def Let_def drop_bit_1_int)
    with False inv show ?thesis by simp
  next
    case own: True
    then have o: "rw_owner x div 2 = uint t" "rw_owner x > 0"
      by (auto simp: holder_of_def split: if_splits)
    then have s: "seen div 2 = uint t" using v by (simp add: rw_view_def)
    have od: "rw_rq x \<noteq> [] \<or> rw_wq x \<noteq> [] \<Longrightarrow> odd (rw_owner x)" using inv o by (auto simp: rw_inv_def)
    have free: "rw_inv (x\<lparr>rw_owner := 0\<rparr>)" if "rw_rq x = []" "rw_wq x = []"
      using that by (simp add: rw_inv_def)
    show ?thesis
    proof (cases "seen = id_shl t \<and> rw_owner x = seen")
      case True
      then have "even (rw_owner x)" using t0 by simp
      with od have q: "rw_rq x = []" "rw_wq x = []" by blast+
      have "rw_wunlock t seen e x = Some (Ret CELL_OK, e, x\<lparr>rw_owner := 0\<rparr>)"
        using True t0 by (simp add: rw_wunlock_def Let_def drop_bit_1_int)
      with own q free show ?thesis by (simp add: holder_of_def)
    next
      case False
      define ret where "ret = (if seen \<noteq> id_shl t then seen else rw_owner x)"
      have ret: "ret div 2 = uint t" "odd ret"
      proof -
        show "ret div 2 = uint t" using o s by (simp add: ret_def)
        show "odd ret"
        proof
          assume "even ret"
          then have "ret = id_shl t" using \<open>ret div 2 = uint t\<close> t0 by auto
          with False show False by (auto simp: ret_def split: if_splits)
        qed
      qed
      have run: "rw_wunlock t seen e x = (case schedule (thr e) (rw_protocol x) (rw_wq x) of
              (Some c, q) \<Rightarrow>
                if F_again \<in> state (thr e c) then Some (Again, add_flag t F_again e, x\<lparr>rw_wq := q\<rparr>)
                else Some (Ret CELL_OK, awake1 c e, x\<lparr>rw_wq := q, rw_owner := writer_word c q (rw_rq x)\<rparr>)
            | (None, q) \<Rightarrow>
                if rw_rq x \<noteq> []
                then if \<exists>c \<in> set (rw_rq x). F_again \<in> state (thr e c) then Some (Again, add_flag t F_again e, x)
                     else (case drain_readers e (rw_rq x) 0 of
                             None \<Rightarrow> None
                           | Some (sz, e1, q') \<Rightarrow> Some (Ret CELL_OK, awake_all e1,
                                     x\<lparr>rw_rq := q', rw_owner := wrap_s64 (- 2 * sz)\<rparr>))
                else Some (Ret CELL_OK, e, x\<lparr>rw_owner := 0\<rparr>))"
        unfolding rw_wunlock_def Let_def ret_def [symmetric] if_not_P [OF False]
        using ret by (simp add: drop_bit_1_int)
      show ?thesis
      proof (rule schedule_cases [of "rw_wq x" "thr e" "rw_protocol x"])
        fix c assume c: "c \<in> set (rw_wq x)" "pick (thr e) (rw_protocol x) (rw_wq x) = Some c"
          "schedule (thr e) (rw_protocol x) (rw_wq x) = (Some c, remove1 c (rw_wq x))"
        have "F_again \<notin> state (thr e c)" using ag c(1) by simp
        with run own c rw_inv_give [OF inv c(1)] show ?thesis by simp
      next
        assume wq: "rw_wq x = []" "schedule (thr e) (rw_protocol x) (rw_wq x) = (None, [])"
        show ?thesis
        proof (cases "rw_rq x = []")
          case True
          with run own wq free show ?thesis by (simp add: holder_of_def)
        next
          case rq: False
          let ?n = "int (length (rw_rq x))"
          have d: "distinct (rw_rq x)" and ag': "\<forall>c \<in> set (rw_rq x). F_again \<notin> state (thr e c)"
            using inv ag by (auto simp: rw_inv_def)
          have n: "0 < ?n" "?n < 2 ^ 32" using rq len by auto
          then have w: "wrap_s64 (- 2 * ?n) = - 2 * ?n" by (intro wrap_s64_id) auto
          have "rw_wunlock t seen e x = Some (Ret CELL_OK,
              awake_all (e\<lparr>g_to_awake := g_to_awake e @ rev (rw_rq x)\<rparr>),
              x\<lparr>rw_rq := [], rw_owner := - 2 * ?n\<rparr>)"
            using run wq rq ag' drain_readers_takes [OF d ag', of 0] w by simp
          moreover have "rw_inv (x\<lparr>rw_rq := [], rw_owner := - 2 * ?n\<rparr>)"
            using n wq by (simp add: rw_inv_def)
          moreover have "holder_of (x\<lparr>rw_rq := [], rw_owner := - 2 * ?n\<rparr>) = Readers ?n"
            using n by (simp add: holder_of_def)
          ultimately show ?thesis using own wq rq by simp
        qed
      qed (use ag in simp)
    qed
  qed
qed

lemma rw_cancel_w_cases:
  assumes inv: "rw_inv x" and t: "t \<in> set (rw_wq x)"
    and ag: "\<forall>c \<in> set (rw_rq x). F_again \<notin> state (thr e c)"
    and len: "- (2 ^ 62) \<le> rw_owner x - 2 * int (length (rw_rq x))"
  defines "wake \<equiv> rw_owner x < 0 \<and> rw_rq x \<noteq> [] \<and> remove1 t (rw_wq x) = []"
  shows "\<exists>e' x'. rw_cancel_w t e x = Some (e', x') \<and> rw_inv x' \<and> gpr (thr e' t) 3 = 0x8001000B \<and>
    rw_wq x' = remove1 t (rw_wq x) \<and> rw_rq x' = (if wake then [] else rw_rq x) \<and>
    holder_of x' = (if wake then Readers ((1 - rw_owner x) div 2 + int (length (rw_rq x))) else holder_of x)"
proof -
  let ?q = "remove1 t (rw_wq x)" and ?n = "int (length (rw_rq x))"
  have d: "distinct (rw_rq x)" "distinct (rw_rq x @ ?q)" "\<forall>u \<in> set (rw_rq x @ ?q). tid_ok u"
    using inv by (auto simp: rw_inv_def)
  have nz: "rw_owner x \<noteq> 0" "rw_owner x \<noteq> 1" "- (2 ^ 62) \<le> rw_owner x" "rw_owner x < 2 ^ 32"
    "rw_owner x < 0 \<Longrightarrow> odd (rw_owner x)" "rw_owner x > 0 \<Longrightarrow> odd (rw_owner x)"
    using inv t by (auto simp: rw_inv_def)
  show ?thesis
  proof (cases wake)
    case True
    then have w: "rw_owner x < 0" "rw_rq x \<noteq> []" "?q = []" by (simp_all add: wake_def)
    let ?o = "rw_owner x - 2 * ?n"
    have "wrap_s64 ?o = ?o" using len w by (intro wrap_s64_id) auto
    moreover have "?o AND - 2 = ?o - 1"
    proof -
      have "odd ?o" using nz(5) [OF w(1)] by simp
      then show ?thesis by (simp only: int_and_minus_two odd_iff_mod_2_eq_one)
    qed
    ultimately have run: "rw_cancel_w t e x =
        Some (set_gpr t 3 0x8001000B (awake_all (e\<lparr>g_to_awake := g_to_awake e @ rev (rw_rq x)\<rparr>)),
              x\<lparr>rw_wq := [], rw_rq := [], rw_owner := ?o - 1\<rparr>)"
      using t w drain_readers_takes [OF d(1) ag, of 0] by (simp add: rw_cancel_w_def Let_def)
    have ev: "even (?o - 1)" using nz(5) [OF w(1)] by simp
    have "- (2 ^ 62) \<le> ?o - 1"
    proof -
      have "odd ?o" "even (- (2 ^ 62) :: int)" using nz(5) [OF w(1)] by simp_all
      then have "?o \<noteq> - (2 ^ 62)" by metis
      with len show ?thesis by simp
    qed
    then have "rw_inv (x\<lparr>rw_wq := [], rw_rq := [], rw_owner := ?o - 1\<rparr>)"
      using w(1) ev by (simp add: rw_inv_def)
    moreover have "holder_of (x\<lparr>rw_wq := [], rw_rq := [], rw_owner := ?o - 1\<rparr>) =
        Readers ((1 - rw_owner x) div 2 + ?n)"
      using w(1) nz(5) [OF w(1)] by (auto simp: holder_of_def elim!: oddE)
    ultimately show ?thesis using run True w by (simp add: thr_set_gpr)
  next
    case nw: False
    show ?thesis
    proof (cases "rw_rq x = [] \<and> ?q = []")
      case True
      have o: "rw_owner x AND - 2 = rw_owner x - 1"
        using nz by (cases "rw_owner x < 0") (simp_all add: int_and_minus_two odd_iff_mod_2_eq_one)
      have od: "odd (rw_owner x)" using nz by (cases "rw_owner x < 0") auto
      have run: "rw_cancel_w t e x = Some (set_gpr t 3 0x8001000B e,
          x\<lparr>rw_wq := [], rw_owner := rw_owner x - 1\<rparr>)"
        using t True o by (simp add: rw_cancel_w_def Let_def)
      have "- (2 ^ 62) \<le> rw_owner x - 1"
      proof -
        have "even (- (2 ^ 62) :: int)" by simp
        then have "rw_owner x \<noteq> - (2 ^ 62)" using od by metis
        with nz(3) show ?thesis by simp
      qed
      then have "rw_inv (x\<lparr>rw_wq := [], rw_owner := rw_owner x - 1\<rparr>)"
        using True nz(1,2,4) od by (auto simp: rw_inv_def)
      moreover have "holder_of (x\<lparr>rw_wq := [], rw_owner := rw_owner x - 1\<rparr>) = holder_of x"
        using nz(1,2) od by (auto simp: holder_of_def half_neg elim!: oddE)
      ultimately show ?thesis using run True nw by (simp add: thr_set_gpr)
    next
      case False
      then have run: "rw_cancel_w t e x = Some (set_gpr t 3 0x8001000B e, x\<lparr>rw_wq := ?q\<rparr>)"
        using t nw by (auto simp: rw_cancel_w_def Let_def wake_def)
      have "rw_inv (x\<lparr>rw_wq := ?q\<rparr>)"
        using d nz False nw by (auto simp: rw_inv_def wake_def)
      then show ?thesis using run nw by (simp add: thr_set_gpr holder_of_def)
    qed
  qed
qed

text \<open>The forms that do not wait.\<close>

lemma rw_tryrlock_cases:
  assumes inv: "rw_inv x" and b: "- (2 ^ 62) + 2 \<le> rw_owner x" and run: "rw_tryrlock x = (r, x')"
  shows "rw_inv x' \<and>
    (if rw_owner x \<le> 0 \<and> rw_wq x = [] then r = CELL_OK \<and> x' = x\<lparr>rw_owner := rw_owner x - 2\<rparr>
     else r = CELL_EBUSY \<and> x' = x)"
proof -
  have ev: "rw_owner x \<le> 0 \<Longrightarrow> even (rw_owner x) \<longleftrightarrow> rw_wq x = []"
    using inv by (cases "rw_owner x = 0") (auto simp: rw_inv_def)
  have "wrap_s64 (rw_owner x - 2) = rw_owner x - 2" if "rw_owner x \<le> 0"
    using b that by (intro wrap_s64_id) simp_all
  with run ev have r: "(r, x') = (if rw_owner x \<le> 0 \<and> rw_wq x = []
      then (CELL_OK, x\<lparr>rw_owner := rw_owner x - 2\<rparr>) else (CELL_EBUSY, x))"
    by (auto simp: rw_tryrlock_def split: if_splits)
  have "rw_inv (x\<lparr>rw_owner := rw_owner x - 2\<rparr>)" if "rw_owner x \<le> 0" "rw_wq x = []"
    using that inv ev b by (auto simp: rw_inv_def)
  with r inv show ?thesis by (auto split: if_splits)
qed

lemma rw_trywlock_cases:
  assumes inv: "rw_inv x" and t: "tid_ok t" and v: "rw_view t x seen" and run: "rw_trywlock t seen x = (r, x')"
  shows "rw_inv x' \<and>
    (if rw_owner x = 0 \<and> seen = 0 then r = CELL_OK \<and> x' = x\<lparr>rw_owner := 2 * uint t\<rparr>
     else r = (if rw_owner x div 2 = uint t then CELL_EDEADLK else CELL_EBUSY) \<and> x' = x)"
proof -
  have t0: "0 < uint t" "uint t < 2 ^ 31" using t by (simp_all add: tid_ok_def)
  have z: "seen \<noteq> 0 \<or> rw_owner x \<noteq> 0 \<longrightarrow>
      drop_bit 1 (if seen \<noteq> 0 then seen else rw_owner x) = uint t \<longleftrightarrow> rw_owner x div 2 = uint t"
    using v by (auto simp: rw_view_def drop_bit_1_int)
  have "rw_inv (x\<lparr>rw_owner := 2 * uint t\<rparr>)" if "rw_owner x = 0" using inv that t0 by (simp add: rw_inv_def)
  moreover have "(r, x') = (if rw_owner x = 0 \<and> seen = 0 then (CELL_OK, x\<lparr>rw_owner := 2 * uint t\<rparr>)
      else (if rw_owner x div 2 = uint t then CELL_EDEADLK else CELL_EBUSY, x))"
    using run z by (auto simp: rw_trywlock_def Let_def id_shl_eq [OF t] split: if_splits)
  ultimately show ?thesis using inv by (auto split: if_splits)
qed

section \<open>Properties\<close>

text \<open>
  Claim C30. Taking the lock, with any stale owner word except about the caller. A reader gets in exactly when
  no writer holds the lock and none waits, and then there is one reader more; otherwise it joins the
  readers' queue. A writer gets in exactly when the lock is free, is told \<^verbatim>\<open>CELL_EDEADLK\<close> if it holds it
  already, and otherwise joins the writers' queue. Blocking leaves the holder alone, and the encoding of
  holder, wait bit and queues stays consistent and in range. The try forms let the caller in under the
  same conditions, except that a try for writing which loaded the word before the lock became free fails;
  where they do not let the caller in, they return \<^verbatim>\<open>CELL_EBUSY\<close>, or \<^verbatim>\<open>CELL_EDEADLK\<close> to the writer itself, and
  change nothing. The number of readers is below the limit of the word.
\<close>

theorem rwlock_lock_protocol:
  assumes "rw_inv x" "tid_ok t" "t \<notin> set (rw_rq x @ rw_wq x)" "- (2 ^ 62) + 2 \<le> rw_owner x" "rw_view t x seen"
    and "rw_rlock t timeout seen' e x = (out, e', x')" "rw_wlock t timeout seen e x = (out2, e2, x2)"
    and "rw_tryrlock x = (r3, x3)" "rw_trywlock t seen x = (r4, x4)"
  shows "rw_inv x' \<and> rw_inv x2 \<and> rw_inv x3 \<and> rw_inv x4 \<and>
    (case holder_of x of
       Writer w \<Rightarrow> out = Blocked \<and> holder_of x' = Writer w \<and> rw_rq x' = t # rw_rq x \<and> r3 = CELL_EBUSY \<and> x3 = x \<and>
         (if w = uint t then out2 = Ret CELL_EDEADLK \<and> x2 = x \<and> r4 = CELL_EDEADLK \<and> x4 = x
          else out2 = Blocked \<and> holder_of x2 = Writer w \<and> rw_wq x2 = t # rw_wq x \<and> r4 = CELL_EBUSY \<and> x4 = x)
     | Readers n \<Rightarrow>
         (if rw_wq x = []
          then out = Ret CELL_OK \<and> holder_of x' = Readers (n + 1) \<and> r3 = CELL_OK \<and> holder_of x3 = Readers (n + 1)
          else out = Blocked \<and> holder_of x' = Readers n \<and> rw_rq x' = t # rw_rq x \<and> r3 = CELL_EBUSY \<and> x3 = x) \<and>
         out2 = Blocked \<and> holder_of x2 = Readers n \<and> rw_wq x2 = t # rw_wq x \<and> r4 = CELL_EBUSY \<and> x4 = x
     | Free \<Rightarrow> out = Ret CELL_OK \<and> holder_of x' = Readers 1 \<and> r3 = CELL_OK \<and> holder_of x3 = Readers 1 \<and>
         out2 = Ret CELL_OK \<and> holder_of x2 = Writer (uint t) \<and>
         (if seen = 0 then r4 = CELL_OK \<and> holder_of x4 = Writer (uint t) else r4 = CELL_EBUSY \<and> x4 = x))"
proof -
  have t0: "0 < uint t" using assms(2) by (simp add: tid_ok_def)
  note r = rw_rlock_cases [OF assms(1-4,6)] rw_tryrlock_cases [OF assms(1,4,8)]
    and w = rw_wlock_cases [OF assms(1-3,5,7)] rw_trywlock_cases [OF assms(1,2,5,9)]
  consider (free) "rw_owner x = 0" | (wr) "rw_owner x > 0" | (rd) "rw_owner x < 0" by linarith
  then show ?thesis
  proof cases
    case free
    moreover from free assms(1) have "rw_wq x = []" by (simp add: rw_inv_def)
    ultimately show ?thesis using r w t0 by (auto simp: holder_of_def)
  next
    case wr
    then have h: "holder_of x = Writer (rw_owner x div 2)" by (simp add: holder_of_def)
    show ?thesis using r w wr unfolding h by (cases "rw_owner x div 2 = uint t") auto
  next
    case rd
    then have h: "holder_of x = Readers ((1 - rw_owner x) div 2)" by (simp add: holder_of_def)
    have "rw_owner x div 2 \<noteq> uint t" using rd t0 by auto
    moreover have "holder_of (x\<lparr>rw_owner := rw_owner x - 2\<rparr>) = Readers ((1 - rw_owner x) div 2 + 1)"
      using rd by (simp add: holder_of_def)
    ultimately show ?thesis using r w rd unfolding h by (cases "rw_wq x = []") auto
  qed
qed

definition demo_rwlock :: lv2_rwlock where
  "demo_rwlock = \<lparr>rw_exists = 1, rw_protocol = SYS_SYNC_PRIORITY, rw_key = 0, rw_name = 0, rw_owner = - 4,
     rw_rq = [], rw_wq = []\<rparr>"

lemma demo_rwlock_ok: "rw_inv demo_rwlock" "tid_ok 9" "tid_ok 5" "holder_of demo_rwlock = Readers 2"
  by (simp_all add: rw_inv_def demo_rwlock_def tid_ok_def holder_of_def)

theorem rwlock_lock_protocol_witness:
  "holder_of (snd (snd (rw_rlock 9 0 7 (demo_lv2 [9]) demo_rwlock))) = Readers 3 \<and>
   fst (rw_wlock 9 0 0 (demo_lv2 [9]) demo_rwlock) = Blocked \<and>
   holder_of (snd (rw_tryrlock demo_rwlock)) = Readers 3 \<and> rw_trywlock 9 0 demo_rwlock = (CELL_EBUSY, demo_rwlock)"
proof -
  obtain out e' x' where r: "rw_rlock 9 0 7 (demo_lv2 [9]) demo_rwlock = (out, e', x')"
    using prod_cases3 by blast
  obtain out2 e2 x2 where w: "rw_wlock 9 0 0 (demo_lv2 [9]) demo_rwlock = (out2, e2, x2)"
    using prod_cases3 by blast
  obtain r3 x3 r4 x4 where y: "rw_tryrlock demo_rwlock = (r3, x3)" "rw_trywlock 9 0 demo_rwlock = (r4, x4)"
    by fastforce
  have "9 \<notin> set (rw_rq demo_rwlock @ rw_wq demo_rwlock)" "- (2 ^ 62) + 2 \<le> rw_owner demo_rwlock"
    "rw_view 9 demo_rwlock 0" by (simp_all add: demo_rwlock_def rw_view_def)
  from rwlock_lock_protocol [OF demo_rwlock_ok(1,2) this r w y] r w y demo_rwlock_ok(4) show ?thesis
    by (simp add: demo_rwlock_def)
qed

text \<open>
  Claim C20. Giving the lock up. Read-unlock without readers and write-unlock by anybody but the writer return
  \<^verbatim>\<open>CELL_EPERM\<close> and change nothing. The last reader hands the lock to the writer that the protocol
  picks. The writer hands it to the next writer, else to all waiting readers at once, oldest first, else
  leaves it free. Every thread handed the lock is woken, both calls return, and no \<^verbatim>\<open>ensure\<close> fails.
\<close>

theorem rwlock_unlock_protocol:
  assumes "rw_inv x" "tid_ok t" "rw_view t x seen" "length (rw_rq x) < 2 ^ 32"
    and "\<forall>c \<in> set (rw_rq x @ rw_wq x). F_again \<notin> state (thr e c)"
    and "rw_runlock t seen' e x = (out, e', x')"
  shows "rw_inv x' \<and>
    (case holder_of x of
       Readers n \<Rightarrow> out = Ret CELL_OK \<and> rw_rq x' = rw_rq x \<and>
         (if n > 1 then holder_of x' = Readers (n - 1) \<and> rw_wq x' = rw_wq x \<and> e' = e
          else case pick (thr e) (rw_protocol x) (rw_wq x) of
                 None \<Rightarrow> holder_of x' = Free \<and> rw_wq x' = [] \<and> e' = e
               | Some c \<Rightarrow> holder_of x' = Writer (uint c) \<and> rw_wq x' = remove1 c (rw_wq x) \<and> e' = awake1 c e)
     | _ \<Rightarrow> out = Ret CELL_EPERM \<and> x' = x \<and> e' = e) \<and>
    (\<exists>out2 e2 x2. rw_wunlock t seen e x = Some (out2, e2, x2) \<and> rw_inv x2 \<and>
      (if holder_of x = Writer (uint t)
       then out2 = Ret CELL_OK \<and>
         (case pick (thr e) (rw_protocol x) (rw_wq x) of
            Some c \<Rightarrow> holder_of x2 = Writer (uint c) \<and> rw_wq x2 = remove1 c (rw_wq x) \<and> rw_rq x2 = rw_rq x \<and>
              e2 = awake1 c e
          | None \<Rightarrow> rw_wq x2 = [] \<and> rw_rq x2 = [] \<and>
              (if rw_rq x = [] then holder_of x2 = Free \<and> e2 = e
               else holder_of x2 = Readers (int (length (rw_rq x))) \<and>
                 e2 = awake_all (e\<lparr>g_to_awake := g_to_awake e @ rev (rw_rq x)\<rparr>)))
       else out2 = Ret CELL_EPERM \<and> x2 = x \<and> e2 = e))"
proof -
  have "\<forall>c \<in> set (rw_wq x). F_again \<notin> state (thr e c)" using assms(5) by simp
  from rw_runlock_cases [OF assms(1) this assms(6)] rw_wunlock_cases [OF assms(1-3,5,4)]
  show ?thesis by blast
qed

theorem rwlock_unlock_protocol_witness:
  "\<exists>out2 e2 x2. rw_wunlock 9 18 (demo_lv2 [9]) (demo_rwlock\<lparr>rw_owner := 19, rw_rq := [5, 7]\<rparr>) = Some (out2, e2, x2)
     \<and> out2 = Ret CELL_OK \<and> holder_of x2 = Readers 2 \<and> rw_rq x2 = []"
proof -
  let ?x = "demo_rwlock\<lparr>rw_owner := 19, rw_rq := [5, 7]\<rparr>" and ?e = "demo_lv2 [9]"
  obtain out e' x' where r: "rw_runlock 9 0 ?e ?x = (out, e', x')" using prod_cases3 by blast
  have "rw_inv ?x" "tid_ok 9" "rw_view 9 ?x 18" "length (rw_rq ?x) < 2 ^ 32"
    "\<forall>c \<in> set (rw_rq ?x @ rw_wq ?x). F_again \<notin> state (thr ?e c)"
    by (simp_all add: rw_inv_def tid_ok_def rw_view_def demo_rwlock_def demo_defs)
  from rwlock_unlock_protocol [OF this r] show ?thesis
    by (fastforce simp: demo_rwlock_def holder_of_def)
qed

text \<open>
  A writer whose timeout passes leaves the queue with \<^verbatim>\<open>CELL_ETIMEDOUT\<close>. If it was the last waiting
  writer and readers hold the lock, all readers that queued up behind it are let in, so no reader waits
  for a writer that has gone; in every other case the holder and the readers' queue stay as they are. The
  wait bit is cleared when nobody waits any more.
\<close>

theorem rwlock_writer_timeout:
  assumes "rw_inv x" "t \<in> set (rw_wq x)" "\<forall>c \<in> set (rw_rq x). F_again \<notin> state (thr e c)"
    and "- (2 ^ 62) \<le> rw_owner x - 2 * int (length (rw_rq x))"
  shows "\<exists>e' x'. rw_cancel_w t e x = Some (e', x') \<and> rw_inv x' \<and> ret_gpr3 t e' = CELL_ETIMEDOUT \<and>
    rw_wq x' = remove1 t (rw_wq x) \<and>
    (if rw_owner x < 0 \<and> rw_rq x \<noteq> [] \<and> remove1 t (rw_wq x) = []
     then rw_rq x' = [] \<and> (\<forall>n. holder_of x = Readers n \<longrightarrow> holder_of x' = Readers (n + int (length (rw_rq x))))
     else rw_rq x' = rw_rq x \<and> holder_of x' = holder_of x)"
proof -
  from rw_cancel_w_cases [OF assms] obtain e' x' where c: "rw_cancel_w t e x = Some (e', x')" "rw_inv x'"
    "gpr (thr e' t) 3 = 0x8001000B" "rw_wq x' = remove1 t (rw_wq x)"
    and q: "rw_rq x' = (if rw_owner x < 0 \<and> rw_rq x \<noteq> [] \<and> remove1 t (rw_wq x) = [] then [] else rw_rq x)"
    and h: "holder_of x' = (if rw_owner x < 0 \<and> rw_rq x \<noteq> [] \<and> remove1 t (rw_wq x) = []
      then Readers ((1 - rw_owner x) div 2 + int (length (rw_rq x))) else holder_of x)" by blast
  have "ret_gpr3 t e' = CELL_ETIMEDOUT" using c(3) by (simp add: ret_gpr3_def)
  moreover have "rw_owner x < 0 \<Longrightarrow> holder_of x = Readers ((1 - rw_owner x) div 2)" by (simp add: holder_of_def)
  ultimately show ?thesis using c q h by (intro exI [of _ e'] exI [of _ x']) simp
qed

theorem rwlock_writer_timeout_witness:
  "\<exists>e' x'. rw_cancel_w 9 (demo_lv2 [9]) (demo_rwlock\<lparr>rw_owner := - 3, rw_rq := [5, 7], rw_wq := [9]\<rparr>) = Some (e', x')
     \<and> holder_of x' = Readers 4"
proof -
  let ?x = "demo_rwlock\<lparr>rw_owner := - 3, rw_rq := [5, 7], rw_wq := [9]\<rparr>" and ?e = "demo_lv2 [9]"
  have "rw_inv ?x" "9 \<in> set (rw_wq ?x)" "\<forall>c \<in> set (rw_rq ?x). F_again \<notin> state (thr ?e c)"
    "- (2 ^ 62) \<le> rw_owner ?x - 2 * int (length (rw_rq ?x))"
    by (simp_all add: rw_inv_def tid_ok_def demo_rwlock_def demo_defs)
  from rwlock_writer_timeout [OF this] show ?thesis by (fastforce simp: demo_rwlock_def holder_of_def)
qed

text \<open>
  Claim C38. The same timeout does not end when the oldest waiting reader has been stopped for a save state:
  \<^verbatim>\<open>schedule\<close> keeps returning that reader without dequeuing it, and this loop, unlike the one in
  \<^verbatim>\<open>sys_rwlock_wunlock\<close>, is not guarded by a check of the flag.
\<close>

theorem rwlock_writer_timeout_hangs:
  assumes "rw_owner x < 0" "rw_wq x = [t]" "rw_rq x \<noteq> []" "F_again \<in> state (thr e (last (rw_rq x)))"
  shows "rw_cancel_w t e x = None"
  using assms drain_readers_diverges [OF assms(3,4)] by (simp add: rw_cancel_w_def Let_def)

theorem rwlock_writer_timeout_hangs_witness:
  "rw_cancel_w 9 (add_flag 7 F_again (demo_lv2 [9]))
     (demo_rwlock\<lparr>rw_owner := - 3, rw_rq := [5, 7], rw_wq := [9]\<rparr>) = None"
  by (rule rwlock_writer_timeout_hangs) (simp_all add: demo_rwlock_def thr_add_flag)

end
