(* ===== verification/Sys_Event_Flag.thy ===== *)
theory Sys_Event_Flag
  imports Lv2_Objects
begin

text \<open>
  The event flag of \<^verbatim>\<open>sys_event_flag.cpp\<close>: a 64 bit pattern and a queue of threads that wait for some or
  all of the bits of a mask. A waiter keeps its mask in \<^verbatim>\<open>gpr[4]\<close>, its mode in \<^verbatim>\<open>gpr[5]\<close>, the pattern
  it is given in \<^verbatim>\<open>gpr[6]\<close>, and \<^verbatim>\<open>gpr[7]\<close> is the mark of the loop in \<^verbatim>\<open>sys_event_flag_set\<close>. The
  pattern is an atomic that \<^verbatim>\<open>trywait\<close> and \<^verbatim>\<open>clear\<close> change without the object's lock; where a call
  reads it more than once, the values that it finds are arguments of the model.
\<close>

section \<open>Model: the pattern\<close>

abbreviation (input) SYS_SYNC_WAITER_SINGLE :: u32 where "SYS_SYNC_WAITER_SINGLE \<equiv> 0x10000"
abbreviation (input) SYS_SYNC_WAITER_MULTIPLE :: u32 where "SYS_SYNC_WAITER_MULTIPLE \<equiv> 0x20000"
abbreviation (input) SYS_EVENT_FLAG_WAIT_AND :: "'a::len word" where "SYS_EVENT_FLAG_WAIT_AND \<equiv> 1"
abbreviation (input) SYS_EVENT_FLAG_WAIT_OR :: "'a::len word" where "SYS_EVENT_FLAG_WAIT_OR \<equiv> 2"
abbreviation (input) SYS_EVENT_FLAG_WAIT_CLEAR :: "'a::len word" where "SYS_EVENT_FLAG_WAIT_CLEAR \<equiv> 0x10"
abbreviation (input) SYS_EVENT_FLAG_WAIT_CLEAR_ALL :: "'a::len word" where "SYS_EVENT_FLAG_WAIT_CLEAR_ALL \<equiv> 0x20"

definition check_mode :: "u32 \<Rightarrow> bool" where
  "check_mode mode \<longleftrightarrow>
     (mode AND 0xF = SYS_EVENT_FLAG_WAIT_AND \<or> mode AND 0xF = SYS_EVENT_FLAG_WAIT_OR) \<and>
     (mode AND NOT 0xF = 0 \<or> mode AND NOT 0xF = SYS_EVENT_FLAG_WAIT_CLEAR \<or>
      mode AND NOT 0xF = SYS_EVENT_FLAG_WAIT_CLEAR_ALL)"

text \<open>The result, the pattern left behind and the value stored through \<^verbatim>\<open>result\<close>.\<close>

definition check_pattern :: "u64 \<Rightarrow> u64 \<Rightarrow> u64 \<Rightarrow> bool \<times> u64 \<times> u64" where
  "check_pattern pattern bitptn mode =
     (if mode AND 0xF = SYS_EVENT_FLAG_WAIT_AND \<and> pattern AND bitptn \<noteq> bitptn \<or>
         mode AND 0xF = SYS_EVENT_FLAG_WAIT_OR \<and> pattern AND bitptn = 0
      then (False, pattern, pattern)
      else (True,
            if mode AND NOT 0xF = SYS_EVENT_FLAG_WAIT_CLEAR then pattern AND NOT bitptn
            else if mode AND NOT 0xF = SYS_EVENT_FLAG_WAIT_CLEAR_ALL then 0
            else pattern,
            pattern))"

section \<open>Model: waiting\<close>

text \<open>
  \<open>mid\<close> is the pattern that the second check, under the lock, finds; the first check runs on the
  pattern in \<open>x\<close>.
\<close>

definition ef_wait ::
  "tid \<Rightarrow> u64 \<Rightarrow> u32 \<Rightarrow> u64 \<Rightarrow> u64 \<Rightarrow> lv2 \<Rightarrow> lv2_event_flag \<Rightarrow> outcome \<times> lv2 \<times> lv2_event_flag" where
  "ef_wait t bitptn mode timeout mid e x =
     (case check_pattern (ef_pattern x) bitptn (ucast mode) of
        (ok, p, res) \<Rightarrow>
          (let e1 = set_gpr t 6 res e
           in if ok then (Ret CELL_OK, e1, x\<lparr>ef_pattern := p\<rparr>)
              else
                (case check_pattern mid bitptn (ucast mode) of
                   (ok2, p2, res2) \<Rightarrow>
                     (let e2 = set_gpr t 6 res2 e1; x2 = x\<lparr>ef_pattern := p2\<rparr>
                      in if ok2 then (Ret CELL_OK, e2, x2)
                         else if ef_type x = SYS_SYNC_WAITER_SINGLE \<and> ef_sq x \<noteq> [] then (Ret CELL_EPERM, e2, x2)
                         else (case emplace t (ef_sq x) (snd (sleep t timeout e2)) of
                                 (q, e3) \<Rightarrow> (Blocked, e3, x2\<lparr>ef_sq := q\<rparr>))))))"

definition ef_cancel_wait :: "tid \<Rightarrow> lv2 \<Rightarrow> lv2_event_flag \<Rightarrow> lv2 \<times> lv2_event_flag" where
  "ef_cancel_wait t e x =
     (let e1 = add_flag t F_wait e
      in if t \<notin> set (ef_sq x) then (e1, x)
         else (set_gpr t 6 (ef_pattern x) (set_gpr t 3 (ucast (CELL_ETIMEDOUT)) e1),
               x\<lparr>ef_sq := remove1 t (ef_sq x)\<rparr>))"

definition ef_wait_round ::
  "tid \<Rightarrow> u64 \<Rightarrow> bool \<Rightarrow> lv2 \<Rightarrow> lv2_event_flag \<Rightarrow> verdict \<times> lv2 \<times> lv2_event_flag" where
  "ef_wait_round t timeout fired e x =
     wait_iter t (t \<in> set (ef_sq x)) (ef_cancel_wait t) timeout fired e x"

definition ef_trywait :: "u64 \<Rightarrow> u32 \<Rightarrow> lv2_event_flag \<Rightarrow> error_code \<times> u64 \<times> lv2_event_flag" where
  "ef_trywait bitptn mode x =
     (case check_pattern (ef_pattern x) bitptn (ucast mode) of
        (ok, p, res) \<Rightarrow>
          if ok then (CELL_OK, res, x\<lparr>ef_pattern := p\<rparr>) else (CELL_EBUSY, 0, x\<lparr>ef_pattern := p\<rparr>))"

section \<open>Model: setting\<close>

text \<open>
  The lambda \<^verbatim>\<open>get_next\<close>: the last thread of the queue without a mark, among those of the best
  priority if the protocol says so.
\<close>

fun get_next_from :: "(tid \<Rightarrow> ppu_thread) \<Rightarrow> u32 \<Rightarrow> tid list \<Rightarrow> int \<Rightarrow> tid option \<Rightarrow> tid option" where
  "get_next_from th protocol [] prio_min it = it"
| "get_next_from th protocol (c # q) prio_min it =
     (if gpr (th c) 7 = 0 \<and> (protocol \<noteq> SYS_SYNC_PRIORITY \<or> sint (prio (th c)) \<le> prio_min)
      then get_next_from th protocol q (sint (prio (th c))) (Some c)
      else get_next_from th protocol q prio_min it)"

definition get_next :: "(tid \<Rightarrow> ppu_thread) \<Rightarrow> u32 \<Rightarrow> tid list \<Rightarrow> tid option" where
  "get_next th protocol q = get_next_from th protocol q (2 ^ 31 - 1) None"

definition unmarked :: "lv2 \<Rightarrow> tid list \<Rightarrow> tid list" where
  "unmarked e q = filter (\<lambda>c. gpr (thr e c) 7 = 0) q"

lemma get_next_from_mem:
  "get_next_from th protocol q m it = Some c \<Longrightarrow> it = Some c \<or> c \<in> set q \<and> gpr (th c) 7 = 0"
  by (induction q arbitrary: m it) (auto split: if_splits)

lemma get_next_mem: "get_next th protocol q = Some c \<Longrightarrow> c \<in> set q \<and> gpr (th c) 7 = 0"
  unfolding get_next_def by (drule get_next_from_mem) simp

lemma length_unmarked_less:
  assumes "c \<in> set q" "gpr (thr e c) 7 = 0" "gpr (thr e' c) 7 \<noteq> 0"
    and "\<And>d. d \<noteq> c \<Longrightarrow> gpr (thr e' d) 7 = gpr (thr e d) 7"
  shows "length (unmarked e' q) < length (unmarked e q)"
proof -
  have "gpr (thr e' d) 7 = 0 \<longleftrightarrow> d \<noteq> c \<and> gpr (thr e d) 7 = 0" for d
    using assms(2-4) by (cases "d = c") simp_all
  then have "unmarked e' q = filter (\<lambda>d. d \<noteq> c) (unmarked e q)"
    by (simp add: unmarked_def conj_commute)
  moreover have "c \<in> set (unmarked e q)" using assms(1,2) by (simp add: unmarked_def)
  ultimately show ?thesis by (simp add: length_filter_less)
qed

text \<open>
  The loop \<^verbatim>\<open>while (auto it = get_next())\<close> over the waiters: \<open>tw\<close> is \<^verbatim>\<open>to_write\<close>, \<open>dep\<close> the
  \<^verbatim>\<open>dependant_mask\<close>. It ends because every round marks one more waiter.
\<close>

function visit ::
  "u32 \<Rightarrow> u64 \<Rightarrow> tid list \<Rightarrow> lv2 \<Rightarrow> u64 \<Rightarrow> u64 \<Rightarrow> nat \<Rightarrow> lv2 \<times> u64 \<times> u64 \<times> nat" where
  "visit protocol bitptn q e tw dep count =
     (case get_next (thr e) protocol q of
        None \<Rightarrow> (e, tw, dep, count)
      | Some c \<Rightarrow>
          (let pattern = gpr (thr e c) 4; mode = gpr (thr e c) 5;
               dep_or = (if mode AND 0xF = SYS_EVENT_FLAG_WAIT_OR \<or> bitptn AND pattern AND tw = pattern
                         then 0 else pattern);
               (ok, tw', res) = check_pattern tw pattern mode;
               e1 = set_gpr c 6 res (set_gpr c 7 1 e)
           in if ok
              then if tw' = 0 then (set_gpr c 3 0 e1, tw', dep OR dep_or, count + 1)
                   else visit protocol bitptn q (set_gpr c 3 0 e1) tw' (dep OR dep_or) (count + 1)
              else visit protocol bitptn q (set_gpr c 3 (- 1) e1) tw' dep count))"
  by pat_completeness auto
termination
  by (relation "measure (\<lambda>(protocol, bitptn, q, e, tw, dep, count). length (unmarked e q))")
    (auto simp: thr_set_gpr dest: get_next_mem intro!: length_unmarked_less)

declare visit.simps [simp del]

text \<open>One attempt: \<open>pattern\<close> is the snapshot it starts from, \<open>cur\<close> what its \<^verbatim>\<open>fetch_op\<close> finds.\<close>

definition clear_marks :: "tid list \<Rightarrow> lv2 \<Rightarrow> lv2" where
  "clear_marks q e = fold (\<lambda>c. set_gpr c 7 0) q e"

definition set_attempt ::
  "u32 \<Rightarrow> u64 \<Rightarrow> tid list \<Rightarrow> u64 \<Rightarrow> u64 \<Rightarrow> lv2 \<Rightarrow> lv2 \<times> nat \<times> u64 option" where
  "set_attempt protocol bitptn q pattern now e =
     (case visit protocol bitptn q (clear_marks q e) (pattern OR bitptn) 0 0 of
        (e1, tw, dep, count) \<Rightarrow>
          (e1, count,
           if (now XOR pattern) AND (dep AND NOT bitptn) \<noteq> 0 then None
           else Some ((now OR bitptn) AND NOT ((pattern OR bitptn) AND NOT tw))))"

fun set_loop ::
  "u32 \<Rightarrow> u64 \<Rightarrow> tid list \<Rightarrow> u64 \<Rightarrow> u64 list \<Rightarrow> lv2 \<Rightarrow> (lv2 \<times> nat \<times> u64) option" where
  "set_loop protocol bitptn q pattern [] e = None"
| "set_loop protocol bitptn q pattern (now # nows) e =
     (case set_attempt protocol bitptn q pattern now e of
        (e1, count, Some p) \<Rightarrow> Some (e1, count, p)
      | (e1, count, None) \<Rightarrow> set_loop protocol bitptn q now nows e1)"

fun remove_waiters :: "tid list \<Rightarrow> lv2 \<Rightarrow> tid list \<times> lv2" where
  "remove_waiters [] e = ([], e)"
| "remove_waiters (c # q) e =
     (if gpr (thr e c) 3 = 0 then remove_waiters q (append_awake c e)
      else case remove_waiters q e of (q', e') \<Rightarrow> (c # q', e'))"

text \<open>
  \<open>seen\<close> is the pattern of the first test, \<open>pattern\<close> the one loaded at the start of the loop and \<open>nows\<close>
  those that the successive \<^verbatim>\<open>fetch_op\<close> find; \<^const>\<open>None\<close> means that the loop is still running after them.
\<close>

definition ef_set ::
  "tid \<Rightarrow> u64 \<Rightarrow> u64 \<Rightarrow> u64 \<Rightarrow> u64 list \<Rightarrow> lv2 \<Rightarrow> lv2_event_flag \<Rightarrow> (outcome \<times> lv2 \<times> lv2_event_flag) option" where
  "ef_set t bitptn seen pattern nows e x =
     (if seen AND bitptn = bitptn then Some (Ret CELL_OK, e, x)
      else if \<exists>c \<in> set (ef_sq x). F_again \<in> state (thr e c)
      then Some (Ret CELL_EAGAIN, add_flag t F_again e, x)
      else
        (case set_loop (ef_protocol x) bitptn (ef_sq x) pattern nows e of
           None \<Rightarrow> None
         | Some (e1, count, p) \<Rightarrow>
             if count = 0 then Some (Ret CELL_OK, e1, x\<lparr>ef_pattern := p\<rparr>)
             else (case remove_waiters (ef_sq x) e1 of
                     (q', e2) \<Rightarrow> Some (Ret CELL_OK, awake_all e2, x\<lparr>ef_pattern := p, ef_sq := q'\<rparr>))))"

definition ef_clear :: "u64 \<Rightarrow> lv2_event_flag \<Rightarrow> lv2_event_flag" where
  "ef_clear bitptn x = x\<lparr>ef_pattern := ef_pattern x AND bitptn\<rparr>"

definition ef_cancel :: "tid \<Rightarrow> lv2 \<Rightarrow> lv2_event_flag \<Rightarrow> (outcome \<times> nat \<times> lv2 \<times> lv2_event_flag) option" where
  "ef_cancel t e x =
     (if \<exists>c \<in> set (ef_sq x). F_again \<in> state (thr e c) then Some (Again, 0, add_flag t F_again e, x)
      else
        (case drain (\<lambda>s. thr (fst s)) SYS_SYNC_FIFO
                (\<lambda>c s. (append_awake c (set_gpr c 6 (ef_pattern x) (set_gpr c 3 (ucast (CELL_ECANCELED)) (fst s))),
                        snd s + 1))
                (ef_sq x) (e, 0) of
           None \<Rightarrow> None
         | Some (e1, n) \<Rightarrow>
             Some (Ret CELL_OK, n, if n \<noteq> 0 then awake_all e1 else e1, x\<lparr>ef_sq := []\<rparr>)))"

section \<open>Model: the system calls\<close>

record sys_event_flag_attribute =
  fa_protocol :: u32
  fa_pshared :: u32
  fa_ipc_key :: u64
  fa_flags :: u32
  fa_type :: u32
  fa_name :: u64

definition sys_event_flag_create ::
  "tid \<Rightarrow> u32 \<Rightarrow> sys_event_flag_attribute option \<Rightarrow> u64 \<Rightarrow> kernel \<Rightarrow> error_code \<times> kernel" where
  "sys_event_flag_create t idp attr init k0 =
     (let k = enter t k0
      in case attr of
           None \<Rightarrow> (CELL_EFAULT, k)
         | Some at \<Rightarrow>
             if idp = 0 then (CELL_EFAULT, k)
             else if fa_protocol at \<noteq> SYS_SYNC_FIFO \<and> fa_protocol at \<noteq> SYS_SYNC_PRIORITY then (CELL_EINVAL, k)
             else if fa_type at \<noteq> SYS_SYNC_WAITER_SINGLE \<and> fa_type at \<noteq> SYS_SYNC_WAITER_MULTIPLE
             then (CELL_EINVAL, k)
             else
               (let ipc_key = get_key (fa_pshared at) (fa_ipc_key at)
                in case lv2_create event_flag_base (fa_pshared at) ipc_key (fa_flags at)
                       (\<lambda>_. O_event_flag \<lparr>ef_exists = 0, ef_protocol = fa_protocol at, ef_key = ipc_key,
                          ef_type = fa_type at, ef_name = fa_name at, ef_pattern = init, ef_sq = []\<rparr>) True k of
                     (err, k1) \<Rightarrow>
                       if err \<noteq> 0 then (err, k1)
                       else (CELL_OK, write32 idp (g_id (ids k1)) k1)))"

definition event_flag_destroy_check :: "nat \<Rightarrow> lv2_object \<Rightarrow> kernel \<Rightarrow> error_code \<times> kernel" where
  "event_flag_destroy_check a x k =
     (case x of
        O_event_flag f \<Rightarrow>
          if ef_sq f \<noteq> [] then (CELL_EBUSY, k)
          else (CELL_OK, on_id_destroy event_flag_base a (ef_key f) (ef_key f \<noteq> 0) k)
      | _ \<Rightarrow> (CELL_OK, k))"

definition sys_event_flag_destroy :: "tid \<Rightarrow> u32 \<Rightarrow> kernel \<Rightarrow> error_code \<times> kernel" where
  "sys_event_flag_destroy t idn k =
     (case withdraw_if event_flag_base idn event_flag_destroy_check (enter t k) of
        (None, k1) \<Rightarrow> (CELL_ESRCH, k1)
      | (Some r, k1) \<Rightarrow> (r, k1))"

text \<open>The destructor of \<^verbatim>\<open>store_result\<close> runs on every return of the two waiting calls.\<close>

definition store_result :: "u32 \<Rightarrow> u64 \<Rightarrow> kernel \<Rightarrow> kernel" where
  "store_result result v k = (if result \<noteq> 0 then write64 result v k else k)"

definition sys_event_flag_wait ::
  "tid \<Rightarrow> u32 \<Rightarrow> u64 \<Rightarrow> u32 \<Rightarrow> u32 \<Rightarrow> u64 \<Rightarrow> u64 \<Rightarrow> kernel \<Rightarrow> outcome \<times> kernel" where
  "sys_event_flag_wait t idn bitptn mode result timeout mid k0 =
     (let k = enter t k0;
          e = set_gpr t 6 0 (set_gpr t 5 (ucast mode) (set_gpr t 4 bitptn (set_gpr t 3 (- 1) (env k))))
      in if \<not> check_mode mode then (Ret CELL_EINVAL, store_result result 0 (k\<lparr>env := e\<rparr>))
         else case get_obj event_flag_base idn k of
                Some (a, O_event_flag x) \<Rightarrow>
                  (case ef_wait t bitptn mode timeout mid e x of
                     (r, e1, x1) \<Rightarrow>
                       (let k1 = put_obj a (O_event_flag x1) (k\<lparr>env := e1\<rparr>)
                        in (r, case r of
                                 Blocked \<Rightarrow> k1
                               | Ret c \<Rightarrow> store_result result (if c = 0 then gpr (thr e1 t) 6 else 0) k1
                               | _ \<Rightarrow> k1)))
              | _ \<Rightarrow> (Ret CELL_ESRCH, store_result result 0 (k\<lparr>env := e\<rparr>)))"

text \<open>What a blocked wait does when a round of its loop has left the loop.\<close>

definition ef_wait_return :: "tid \<Rightarrow> u32 \<Rightarrow> verdict \<Rightarrow> kernel \<Rightarrow> outcome \<times> kernel" where
  "ef_wait_return t result v k =
     (case v of
        Leave \<Rightarrow> (Ret (ret_gpr3 t (env k)), store_result result (gpr (thr (env k) t) 6) k)
      | Stop_again \<Rightarrow> (Again, store_result result 0 k)
      | Keep_waiting \<Rightarrow> (Blocked, k))"

definition sys_event_flag_trywait ::
  "tid \<Rightarrow> u32 \<Rightarrow> u64 \<Rightarrow> u32 \<Rightarrow> u32 \<Rightarrow> kernel \<Rightarrow> outcome \<times> kernel" where
  "sys_event_flag_trywait t idn bitptn mode result k0 =
     (let k = enter t k0
      in if \<not> check_mode mode then (Ret CELL_EINVAL, store_result result 0 k)
         else case get_obj event_flag_base idn k of
                Some (a, O_event_flag x) \<Rightarrow>
                  (case ef_trywait bitptn mode x of
                     (r, v, x1) \<Rightarrow> (Ret r, store_result result v (put_obj a (O_event_flag x1) k)))
              | _ \<Rightarrow> (Ret CELL_ESRCH, store_result result 0 k))"

definition sys_event_flag_set ::
  "tid \<Rightarrow> u32 \<Rightarrow> u64 \<Rightarrow> u64 \<Rightarrow> u64 \<Rightarrow> u64 list \<Rightarrow> kernel \<Rightarrow> (outcome \<times> kernel) option" where
  "sys_event_flag_set t idn bitptn seen pattern nows k0 =
     (let k = enter t k0
      in case get_obj event_flag_base idn k of
           Some (a, O_event_flag x) \<Rightarrow>
             map_option (\<lambda>(r, e, x'). (r, put_obj a (O_event_flag x') (k\<lparr>env := e\<rparr>)))
               (ef_set t bitptn seen pattern nows (env k) x)
         | _ \<Rightarrow> Some (Ret CELL_ESRCH, k))"

definition sys_event_flag_clear :: "tid \<Rightarrow> u32 \<Rightarrow> u64 \<Rightarrow> kernel \<Rightarrow> outcome \<times> kernel" where
  "sys_event_flag_clear t idn bitptn k0 =
     (let k = enter t k0
      in case get_obj event_flag_base idn k of
           Some (a, O_event_flag x) \<Rightarrow> (Ret CELL_OK, put_obj a (O_event_flag (ef_clear bitptn x)) k)
         | _ \<Rightarrow> (Ret CELL_ESRCH, k))"

definition store_count :: "u32 \<Rightarrow> u32 \<Rightarrow> kernel \<Rightarrow> kernel" where
  "store_count num v k = (if num \<noteq> 0 then write32 num v k else k)"

definition sys_event_flag_cancel :: "tid \<Rightarrow> u32 \<Rightarrow> u32 \<Rightarrow> kernel \<Rightarrow> (outcome \<times> kernel) option" where
  "sys_event_flag_cancel t idn num k0 =
     (let k = store_count num 0 (enter t k0)
      in case get_obj event_flag_base idn k of
           Some (a, O_event_flag x) \<Rightarrow>
             map_option (\<lambda>(r, n, e, x').
                 (r, (let k1 = put_obj a (O_event_flag x') (k\<lparr>env := e\<rparr>)
                      in if r = Again then k1 else store_count num (of_nat n) k1)))
               (ef_cancel t (env k) x)
         | _ \<Rightarrow> Some (Ret CELL_ESRCH, k))"

definition sys_event_flag_get :: "tid \<Rightarrow> u32 \<Rightarrow> u32 \<Rightarrow> kernel \<Rightarrow> outcome \<times> kernel" where
  "sys_event_flag_get t idn flags k0 =
     (let k = enter t k0
      in case get_obj event_flag_base idn k of
           Some (a, O_event_flag x) \<Rightarrow>
             if flags = 0 then (Ret CELL_EFAULT, k) else (Ret CELL_OK, write64 flags (ef_pattern x) k)
         | _ \<Rightarrow> (Ret CELL_ESRCH, store_result flags 0 k))"

text \<open>Save states keep everything but the waiters, which queue again when their calls are repeated.\<close>

definition event_flag_save :: "lv2_event_flag \<Rightarrow> u32 \<times> u64 \<times> u32 \<times> u64 \<times> u64" where
  "event_flag_save x = (ef_protocol x, ef_key x, ef_type x, ef_name x, ef_pattern x)"

definition event_flag_load :: "u32 \<times> u64 \<times> u32 \<times> u64 \<times> u64 \<Rightarrow> lv2_event_flag" where
  "event_flag_load im = (case im of (p, ky, ty, n, pat) \<Rightarrow>
     \<lparr>ef_exists = 0, ef_protocol = p, ef_key = ky, ef_type = ty, ef_name = n, ef_pattern = pat, ef_sq = []\<rparr>)"

interpretation event_flag_del: destroy_call "event_flag_base" "event_flag_destroy_check"
  by unfold_locales (simp add: event_flag_destroy_check_def split: lv2_object.splits)

section \<open>Lemmas: patterns\<close>

definition satisfied :: "u64 \<Rightarrow> u64 \<Rightarrow> u64 \<Rightarrow> bool" where
  "satisfied pattern bitptn mode \<longleftrightarrow> fst (check_pattern pattern bitptn mode)"

lemma u64_bit_less: "bit (p :: u64) i \<Longrightarrow> i < 64"
  by (drule bit_imp_le_length) simp

lemma and_eq_left_bits: "(p :: u64) AND q = p \<longleftrightarrow> (\<forall>i. bit p i \<longrightarrow> bit q i)"
  by (auto simp: bit_eq_iff bit_and_iff dest: u64_bit_less)

lemma and_eq_0_bits: "(p :: u64) AND q = 0 \<longleftrightarrow> (\<forall>i. \<not> (bit p i \<and> bit q i))"
  by (auto simp: bit_eq_iff bit_and_iff dest: u64_bit_less)

lemma u64_bit_not_iff: "bit (NOT (p :: u64)) i \<longleftrightarrow> i < 64 \<and> \<not> bit p i"
  by (simp add: bit_not_iff)

lemmas u64_bits = bit_and_iff bit_or_iff bit_xor_iff u64_bit_not_iff

lemma satisfied_iff:
  "satisfied p b m \<longleftrightarrow> (m AND 0xF = 1 \<longrightarrow> (\<forall>i. bit b i \<longrightarrow> bit p i)) \<and>
     (m AND 0xF = 2 \<longrightarrow> (\<exists>i. bit p i \<and> bit b i))"
  using and_eq_left_bits [of b p] and_eq_0_bits [of p b]
  by (auto simp: satisfied_def check_pattern_def and.commute)

lemma satisfied_mono: "satisfied p b m \<Longrightarrow> \<forall>i. bit p i \<longrightarrow> bit p' i \<Longrightarrow> satisfied p' b m"
  by (auto simp: satisfied_iff)

definition leftover :: "u64 \<Rightarrow> u64 \<Rightarrow> u64 \<Rightarrow> u64" where
  "leftover p b m =
     (if m AND NOT 0xF = SYS_EVENT_FLAG_WAIT_CLEAR then p AND NOT b
      else if m AND NOT 0xF = SYS_EVENT_FLAG_WAIT_CLEAR_ALL then 0 else p)"

lemma check_pattern_eq:
  "check_pattern p b m = (satisfied p b m, if satisfied p b m then leftover p b m else p, p)"
  by (auto simp: check_pattern_def satisfied_def leftover_def)

lemma leftover_bits: "bit (leftover p b m) i \<Longrightarrow> bit p i"
  by (simp add: leftover_def u64_bits split: if_splits)

lemma leftover_and: "leftover (p AND q) b m = leftover p b m AND q"
  by (simp add: leftover_def ac_simps)

section \<open>Lemmas: the order of service\<close>

definition service_order :: "(tid \<Rightarrow> ppu_thread) \<Rightarrow> u32 \<Rightarrow> tid list \<Rightarrow> tid list" where
  "service_order th protocol q =
     (if protocol = SYS_SYNC_PRIORITY then sort_key (\<lambda>c. sint (prio (th c))) (rev q) else rev q)"

lemma hd_sort_key_Cons:
  "xs \<noteq> [] \<Longrightarrow> hd (sort_key f (x # xs)) = (if f x \<le> f (hd (sort_key f xs)) then x else hd (sort_key f xs))"
  by (cases "sort_key f xs") (auto dest: arg_cong [where f = length])

lemma hd_sort_key_snoc2:
  "hd (sort_key f (xs @ [c, d])) = hd (sort_key f (xs @ [if f c \<le> f d then c else d]))"
proof (induction xs)
  case (Cons x xs)
  then show ?case using hd_sort_key_Cons [of "xs @ [c, d]" f x]
      hd_sort_key_Cons [of "xs @ [if f c \<le> f d then c else d]" f x] by (simp only: append_Cons) simp
qed simp

lemma sort_key_remove_hd:
  "xs \<noteq> [] \<Longrightarrow> sort_key f (remove1 (hd (sort_key f xs)) xs) = tl (sort_key f xs)"
proof (induction xs)
  case (Cons x xs)
  show ?case
  proof (cases "sort_key f xs")
    case Nil
    then have "xs = []" by (metis length_0_conv length_sort)
    then show ?thesis by simp
  next
    case c: (Cons h ys)
    then have "xs \<noteq> []" by auto
    with Cons.IH c have "sort_key f (remove1 h xs) = ys" by simp
    with c show ?thesis by auto
  qed
qed simp

lemma get_next_from_filter:
  "get_next_from th p q m it = get_next_from th p (filter (\<lambda>c. gpr (th c) 7 = 0) q) m it"
  by (induction q arbitrary: m it) auto

lemma get_next_from_prio:
  "\<forall>c \<in> set q. gpr (th c) 7 = 0 \<Longrightarrow>
   get_next_from th SYS_SYNC_PRIORITY q (sint (prio (th d))) (Some d) =
     Some (hd (sort_key (\<lambda>c. sint (prio (th c))) (rev q @ [d])))"
proof (induction q arbitrary: d)
  case (Cons c q)
  let ?f = "\<lambda>c. sint (prio (th c))" and ?m = "if sint (prio (th c)) \<le> sint (prio (th d)) then c else d"
  have "get_next_from th SYS_SYNC_PRIORITY (c # q) (?f d) (Some d) =
      get_next_from th SYS_SYNC_PRIORITY q (?f ?m) (Some ?m)"
    using Cons.prems by simp
  also have "\<dots> = Some (hd (sort_key ?f (rev q @ [?m])))" using Cons by (intro Cons.IH) simp
  finally show ?case using hd_sort_key_snoc2 [of ?f "rev q" c d] by simp
qed simp

lemma get_next_from_any:
  "p \<noteq> SYS_SYNC_PRIORITY \<Longrightarrow> \<forall>c \<in> set q. gpr (th c) 7 = 0 \<Longrightarrow>
   get_next_from th p q m it = (if q = [] then it else Some (last q))"
  by (induction q arbitrary: m it) auto

lemma sint_13_le: "sint (w :: 13 word) \<le> 2 ^ 31 - 1"
  using sint_lt [of w] by simp

lemma get_next_service:
  "get_next (thr e) protocol q =
     (case service_order (thr e) protocol (unmarked e q) of [] \<Rightarrow> None | c # _ \<Rightarrow> Some c)"
proof -
  let ?L = "unmarked e q" and ?f = "\<lambda>c. sint (prio (thr e c))"
  have L: "get_next (thr e) protocol q = get_next_from (thr e) protocol ?L (2 ^ 31 - 1) None"
    unfolding get_next_def unmarked_def by (rule get_next_from_filter)
  have u: "\<forall>c \<in> set ?L. gpr (thr e c) 7 = 0" by (simp add: unmarked_def)
  show ?thesis
  proof (cases "protocol = SYS_SYNC_PRIORITY")
    case True
    show ?thesis
    proof (cases ?L)
      case (Cons d q')
      then have "get_next_from (thr e) protocol ?L (2 ^ 31 - 1) None =
          get_next_from (thr e) protocol q' (?f d) (Some d)"
        using u sint_13_le [of "prio (thr e d)"] by simp
      also have "\<dots> = Some (hd (sort_key ?f (rev ?L)))"
        using get_next_from_prio [of q' "thr e" d] u Cons True by simp
      moreover have "sort_key ?f (rev ?L) \<noteq> []" using Cons by (metis length_0_conv length_sort length_rev list.distinct(1))
      ultimately show ?thesis using L True by (simp add: service_order_def split: list.splits)
    qed (simp add: L service_order_def)
  next
    case False
    then show ?thesis using L get_next_from_any [OF False u, of "2 ^ 31 - 1" None]
      by (cases ?L rule: rev_cases) (simp_all add: service_order_def)
  qed
qed

lemma service_order_tl:
  assumes "distinct q" "service_order th protocol q = c # cs"
  shows "service_order th protocol (filter (\<lambda>d. d \<noteq> c) q) = cs"
proof -
  let ?f = "\<lambda>c. sint (prio (th c))"
  have r: "rev (filter (\<lambda>d. d \<noteq> c) q) = remove1 c (rev q)"
    using assms(1) by (simp add: rev_filter remove1_distinct_filter)
  show ?thesis
  proof (cases "protocol = SYS_SYNC_PRIORITY")
    case True
    then have s: "sort_key ?f (rev q) = c # cs" using assms(2) by (simp add: service_order_def)
    then have "rev q \<noteq> []" by auto
    from sort_key_remove_hd [OF this, of ?f] s r True show ?thesis by (simp add: service_order_def)
  next
    case False
    then show ?thesis using assms(2) r by (simp add: service_order_def)
  qed
qed

section \<open>Lemmas: the set loop serves its waiters in order\<close>

text \<open>
  The reference for \<^verbatim>\<open>sys_event_flag_set\<close>: go through the waiters in the order of service, wake each one
  whose condition holds at its turn, and let it clear what its mode clears.
\<close>

fun serve :: "(tid \<Rightarrow> u64) \<Rightarrow> (tid \<Rightarrow> u64) \<Rightarrow> tid list \<Rightarrow> u64 \<Rightarrow> tid list \<times> u64" where
  "serve ptn mode [] p = ([], p)"
| "serve ptn mode (c # cs) p =
     (if satisfied p (ptn c) (mode c)
      then case serve ptn mode cs (leftover p (ptn c) (mode c)) of (ws, r) \<Rightarrow> (c # ws, r)
      else serve ptn mode cs p)"

lemma serve_Cons:
  "fst (serve ptn mode (c # cs) p) =
     (if satisfied p (ptn c) (mode c) then c # fst (serve ptn mode cs (leftover p (ptn c) (mode c)))
      else fst (serve ptn mode cs p))"
  "snd (serve ptn mode (c # cs) p) =
     snd (serve ptn mode cs (if satisfied p (ptn c) (mode c) then leftover p (ptn c) (mode c) else p))"
  by (simp_all split: prod.splits)

declare serve.simps(2) [simp del]

lemma serve_subset: "c \<in> set (fst (serve ptn mode cs p)) \<Longrightarrow> c \<in> set cs"
  by (induction cs arbitrary: p) (auto simp: serve_Cons split: if_splits)

lemma serve_shrinks: "bit (snd (serve ptn mode cs p)) i \<Longrightarrow> bit p i"
  by (induction cs arbitrary: p) (auto simp: serve_Cons split: if_splits dest: leftover_bits)

lemma serve_distinct: "distinct cs \<Longrightarrow> distinct (fst (serve ptn mode cs p))"
  by (induction cs arbitrary: p) (auto simp: serve_Cons dest: serve_subset)

text \<open>A waiter that is not served is not satisfied by what is left: no wake-up is lost.\<close>

lemma serve_complete:
  "c \<in> set cs \<Longrightarrow> c \<notin> set (fst (serve ptn mode cs p)) \<Longrightarrow>
   \<not> satisfied (snd (serve ptn mode cs p)) (ptn c) (mode c)"
proof (induction cs arbitrary: p)
  case (Cons d cs)
  show ?case
  proof (cases "c = d")
    case True
    then have "\<not> satisfied p (ptn c) (mode c)" using Cons.prems(2) by (auto simp: serve_Cons split: if_splits)
    then show ?thesis using satisfied_mono serve_shrinks by metis
  qed (use Cons in \<open>auto simp: serve_Cons split: if_splits\<close>)
qed simp

lemma serve_none: "\<forall>c \<in> set cs. \<not> satisfied p (ptn c) (mode c) \<Longrightarrow> serve ptn mode cs p = ([], p)"
  by (induction cs) (simp_all add: serve.simps(2))

definition same_but_regs :: "lv2 \<Rightarrow> lv2 \<Rightarrow> bool" where
  "same_but_regs e e' \<longleftrightarrow> g_to_awake e' = g_to_awake e \<and>
     (\<forall>c. state (thr e' c) = state (thr e c) \<and> prio (thr e' c) = prio (thr e c) \<and>
        gpr (thr e' c) 4 = gpr (thr e c) 4 \<and> gpr (thr e' c) 5 = gpr (thr e c) 5)"

lemma same_but_regs_refl: "same_but_regs e e"
  by (simp add: same_but_regs_def)

lemma same_but_regs_trans: "same_but_regs a b \<Longrightarrow> same_but_regs b c \<Longrightarrow> same_but_regs a c"
  by (simp add: same_but_regs_def)

lemma same_but_regs_set_gpr: "same_but_regs a b \<Longrightarrow> i \<noteq> 4 \<Longrightarrow> i \<noteq> 5 \<Longrightarrow> same_but_regs a (set_gpr t i v b)"
  by (auto simp: same_but_regs_def thr_set_gpr) (simp add: set_gpr_def)

lemmas same_but_regs_intros = same_but_regs_refl same_but_regs_set_gpr

lemma same_but_regs_service:
  assumes "same_but_regs e e'"
  shows "service_order (thr e') p q = service_order (thr e) p q"
    "(\<lambda>c. gpr (thr e' c) 4) = (\<lambda>c. gpr (thr e c) 4)" "(\<lambda>c. gpr (thr e' c) 5) = (\<lambda>c. gpr (thr e c) 5)"
  using assms by (simp_all add: same_but_regs_def service_order_def)

text \<open>The three ends of a round for the waiter \<open>c\<close>.\<close>

definition round_regs :: "tid \<Rightarrow> u64 \<Rightarrow> u64 \<Rightarrow> lv2 \<Rightarrow> lv2" where
  "round_regs c r3 res e = set_gpr c 3 r3 (set_gpr c 6 res (set_gpr c 7 1 e))"

definition dep_of :: "u64 \<Rightarrow> u64 \<Rightarrow> u64 \<Rightarrow> u64 \<Rightarrow> u64" where
  "dep_of bitptn tw pattern mode =
     (if mode AND 0xF = SYS_EVENT_FLAG_WAIT_OR \<or> bitptn AND pattern AND tw = pattern then 0 else pattern)"

lemma visit_step:
  assumes "get_next (thr e) protocol q = Some c"
  shows "visit protocol b q e tw dep n =
    (let m = gpr (thr e c) 4; md = gpr (thr e c) 5
     in if satisfied tw m md
        then if leftover tw m md = 0
             then (round_regs c 0 tw e, 0, dep OR dep_of b tw m md, n + 1)
             else visit protocol b q (round_regs c 0 tw e) (leftover tw m md) (dep OR dep_of b tw m md) (n + 1)
        else visit protocol b q (round_regs c (- 1) tw e) tw dep n)"
  by (subst visit.simps) (simp add: assms check_pattern_eq Let_def round_regs_def dep_of_def)

lemma round_regs_same: "same_but_regs e (round_regs c v res e)"
  by (simp add: round_regs_def same_but_regs_intros)

lemma round_regs_gpr3: "gpr (thr (round_regs c v res e) d) 3 = (if d = c then v else gpr (thr e d) 3)"
  by (simp add: round_regs_def thr_set_gpr)

lemma unmarked_round: "unmarked (round_regs c v res e) q = filter (\<lambda>d. d \<noteq> c) (unmarked e q)"
proof -
  have "gpr (thr (round_regs c v res e) d) 7 = 0 \<longleftrightarrow> d \<noteq> c \<and> gpr (thr e d) 7 = 0" for d
    by (simp add: round_regs_def thr_set_gpr)
  then show ?thesis by (simp add: unmarked_def conj_commute)
qed

lemma round_less:
  "get_next (thr e) protocol q = Some c \<Longrightarrow> length (unmarked (round_regs c v res e) q) < length (unmarked e q)"
  unfolding unmarked_round by (rule length_filter_less [of c]) (auto simp: unmarked_def dest: get_next_mem)

lemma visit_dep_grows:
  "visit protocol b q e tw dep n = (e', tw', dep', n') \<Longrightarrow> bit dep i \<Longrightarrow> bit dep' i"
proof (induction "length (unmarked e q)" arbitrary: e tw dep n rule: less_induct)
  case less
  show ?case
  proof (cases "get_next (thr e) protocol q")
    case None
    then show ?thesis using less.prems by (subst (asm) visit.simps) simp
  next
    case (Some c)
    show ?thesis
      using less.hyps [OF round_less [OF Some]] less.prems
      by (auto simp: visit_step [OF Some] Let_def bit_or_iff split: if_splits)
  qed
qed

lemma satisfied_now:
  assumes "satisfied tw m md" "\<not> satisfied pat m md"
    and tw: "\<And>i. bit tw i \<Longrightarrow> bit pat i \<or> bit b i"
    and ok: "\<And>i. bit (dep_of b tw m md) i \<Longrightarrow> bit b i \<or> (bit now i \<longleftrightarrow> bit pat i)"
  shows "satisfied (tw AND (now OR b)) m md"
proof -
  have sat: "md AND 0xF = 1 \<Longrightarrow> bit m i \<Longrightarrow> bit tw i" "md AND 0xF = 2 \<Longrightarrow> \<exists>i. bit tw i \<and> bit m i" for i
    using assms(1) by (auto simp: satisfied_iff)
  have old: "md AND 0xF = 2 \<Longrightarrow> bit pat i \<Longrightarrow> \<not> bit m i" for i
    using assms(2) by (auto simp: satisfied_iff)
  have "bit now i \<or> bit b i" if a: "md AND 0xF = 1" "bit m i" for i
  proof (cases "b AND m AND tw = m")
    case True
    then have "bit (b AND m AND tw) i" using a(2) by simp
    then show ?thesis by (simp add: bit_and_iff)
  next
    case False
    then have "dep_of b tw m md = m" using a(1) by (simp add: dep_of_def)
    then show ?thesis using ok [of i] tw [of i] sat(1) [OF a] a(2) by auto
  qed
  moreover have "\<exists>i. bit tw i \<and> bit m i \<and> bit b i" if a: "md AND 0xF = 2"
    using sat(2) [OF a] old [OF a] tw by blast
  ultimately show ?thesis using sat(1) by (auto simp: satisfied_iff u64_bits)
qed

lemma set_service_order [simp]: "set (service_order th p q) = set q"
  by (simp add: service_order_def)

lemma visit_serve:
  assumes "visit protocol b q e tw dep n = (e', tw', dep', n')" "distinct q"
    and "\<forall>c \<in> set (unmarked e q). gpr (thr e c) 3 = - 1 \<and> \<not> satisfied pat (gpr (thr e c) 4) (gpr (thr e c) 5)"
    and "\<And>i. bit tw i \<Longrightarrow> bit pat i \<or> bit b i" "\<And>i. bit now i \<Longrightarrow> bit pat i"
    and "\<And>i. bit dep' i \<Longrightarrow> bit b i \<or> (bit now i \<longleftrightarrow> bit pat i)"
    and "serve (\<lambda>c. gpr (thr e c) 4) (\<lambda>c. gpr (thr e c) 5) (service_order (thr e) protocol (unmarked e q))
           (tw AND (now OR b)) = (ws, r)"
  shows "r = tw' AND (now OR b) \<and> n' = n + length ws \<and> same_but_regs e e' \<and>
    (\<forall>c. gpr (thr e' c) 3 = (if c \<in> set ws then 0 else gpr (thr e c) 3)) \<and> (\<forall>i. bit tw' i \<longrightarrow> bit tw i)"
  using assms(1,3,4,7)
proof (induction "length (unmarked e q)" arbitrary: e tw dep n ws rule: less_induct)
  case less
  let ?so = "service_order (thr e) protocol (unmarked e q)"
  show ?case
  proof (cases ?so)
    case Nil
    then have "get_next (thr e) protocol q = None" by (simp add: get_next_service)
    then have "visit protocol b q e tw dep n = (e, tw, dep, n)" by (simp add: visit.simps)
    then show ?thesis using less.prems(1,4) Nil by (auto simp: same_but_regs_refl)
  next
    case (Cons c cs)
    then have gn: "get_next (thr e) protocol q = Some c" by (simp add: get_next_service)
    define m where "m = gpr (thr e c) 4"
    define md where "md = gpr (thr e c) 5"
    have c: "c \<in> set (unmarked e q)" using get_next_mem [OF gn] by (simp add: unmarked_def)
    have uns: "\<not> satisfied pat m md" "gpr (thr e c) 3 = - 1" using less.prems(2) c by (simp_all add: m_def md_def)
    let ?e1 = "\<lambda>v. round_regs c v tw e" and ?s = "serve (\<lambda>c. gpr (thr e c) 4) (\<lambda>c. gpr (thr e c) 5)"
    let ?tn = "tw AND (now OR b)"
    have same: "same_but_regs e (?e1 v)" for v by (rule round_regs_same)
    have so: "service_order (thr (?e1 v)) protocol (unmarked (?e1 v) q) = cs" for v
      using service_order_tl [OF _ Cons] assms(2)
      by (simp add: same_but_regs_service(1) [OF same] unmarked_round) (simp add: unmarked_def)
    have pre: "\<forall>d \<in> set (unmarked (?e1 v) q).
        gpr (thr (?e1 v) d) 3 = - 1 \<and> \<not> satisfied pat (gpr (thr (?e1 v) d) 4) (gpr (thr (?e1 v) d) 5)" for v
      using less.prems(2) same [of v] by (simp add: unmarked_round round_regs_gpr3 same_but_regs_def)
    have srv: "?s (c # cs) ?tn = (ws, r)" using less.prems(4) Cons by simp
    have IH: "r = tw' AND (now OR b) \<and> n' = n1 + length ws1 \<and> same_but_regs (?e1 v) e' \<and>
        (\<forall>c. gpr (thr e' c) 3 = (if c \<in> set ws1 then 0 else gpr (thr (?e1 v) c) 3)) \<and> (\<forall>i. bit tw' i \<longrightarrow> bit tw1 i)"
      if "visit protocol b q (?e1 v) tw1 dep1 n1 = (e', tw', dep', n')" "\<And>i. bit tw1 i \<Longrightarrow> bit tw i"
        "?s cs (tw1 AND (now OR b)) = (ws1, r)" for v tw1 dep1 n1 ws1
      using less.hyps [OF round_less [OF gn] that(1) pre _, of ws1] that(2,3) less.prems(3)
      by (simp add: so same_but_regs_service(2,3) [OF same])
    show ?thesis
    proof (cases "satisfied tw m md")
      case True
      let ?dep = "dep OR dep_of b tw m md" and ?tw1 = "leftover tw m md"
      have vis: "(if ?tw1 = 0 then (?e1 0, 0, ?dep, n + 1) else visit protocol b q (?e1 0) ?tw1 ?dep (n + 1)) =
          (e', tw', dep', n')"
        using less.prems(1) True by (simp add: visit_step [OF gn] Let_def m_def md_def split: if_splits)
      have "bit ?dep i \<Longrightarrow> bit dep' i" for i
        using vis visit_dep_grows [of protocol b q "?e1 0" ?tw1 ?dep "n + 1" e' tw' dep' n' i]
        by (simp split: if_splits)
      then have "satisfied ?tn m md"
        using satisfied_now [OF True uns(1) less.prems(3)] assms(6) by (simp add: bit_or_iff)
      then have srv': "\<exists>ws1. ws = c # ws1 \<and> ?s cs (?tw1 AND (now OR b)) = (ws1, r)"
        using srv by (simp add: serve.simps(2) m_def [symmetric] md_def [symmetric] leftover_and split: prod.splits)
      then obtain ws1 where ws: "ws = c # ws1" "?s cs (?tw1 AND (now OR b)) = (ws1, r)" by blast
      show ?thesis
      proof (cases "?tw1 = 0")
        case z: True
        have "\<not> satisfied 0 (gpr (thr e d) 4) (gpr (thr e d) 5)" if "d \<in> set cs" for d
        proof -
          have "d \<in> set ?so" using that Cons by simp
          then show ?thesis using less.prems(2) satisfied_mono [of 0 _ _ pat] by auto
        qed
        then have "ws1 = []" "r = 0" using ws(2) z serve_none [of cs 0] by simp_all
        then show ?thesis using vis z ws(1) same [of 0] by (auto simp: round_regs_gpr3)
      next
        case False
        then have "visit protocol b q (?e1 0) ?tw1 ?dep (n + 1) = (e', tw', dep', n')" using vis by simp
        note ih = IH [OF this leftover_bits [of tw m md] ws(2)]
        then have "same_but_regs e e'" using same_but_regs_trans [OF same] by blast
        then show ?thesis using ws(1) ih leftover_bits [of tw m md] by (simp add: round_regs_gpr3)
      qed
    next
      case False
      then have "visit protocol b q (?e1 (- 1)) tw dep n = (e', tw', dep', n')"
        using less.prems(1) by (simp add: visit_step [OF gn] Let_def m_def md_def)
      moreover have "\<not> satisfied ?tn m md"
        using False satisfied_mono [of ?tn m md tw] by (auto simp: bit_and_iff)
      then have "?s cs ?tn = (ws, r)"
        using srv by (simp add: serve.simps(2) m_def [symmetric] md_def [symmetric])
      ultimately show ?thesis using IH [of "- 1" tw dep n ws] uns(2) same_but_regs_trans [OF same]
        by (auto simp: round_regs_gpr3)
    qed
  qed
qed

lemma clear_marks_facts:
  "same_but_regs e (clear_marks q e)" "gpr (thr (clear_marks q e) c) 3 = gpr (thr e c) 3"
  "gpr (thr (clear_marks q e) c) 7 = (if c \<in> set q then 0 else gpr (thr e c) 7)"
proof -
  have "same_but_regs e (clear_marks q e) \<and> gpr (thr (clear_marks q e) c) 3 = gpr (thr e c) 3 \<and>
      gpr (thr (clear_marks q e) c) 7 = (if c \<in> set q then 0 else gpr (thr e c) 7)"
  proof (induction q arbitrary: e)
    case (Cons d q)
    have "same_but_regs e (set_gpr d 7 0 e)" by (simp add: same_but_regs_intros)
    with Cons [of "set_gpr d 7 0 e"] show ?case
      by (auto simp: clear_marks_def thr_set_gpr intro: same_but_regs_trans)
  qed (simp add: clear_marks_def same_but_regs_refl)
  then show "same_but_regs e (clear_marks q e)" "gpr (thr (clear_marks q e) c) 3 = gpr (thr e c) 3"
    "gpr (thr (clear_marks q e) c) 7 = (if c \<in> set q then 0 else gpr (thr e c) 7)" by simp_all
qed

text \<open>A queue whose waiters have not been answered and are not satisfied by a pattern.\<close>

definition waiting :: "lv2 \<Rightarrow> tid list \<Rightarrow> u64 \<Rightarrow> bool" where
  "waiting e q p \<longleftrightarrow> distinct q \<and>
     (\<forall>c \<in> set q. gpr (thr e c) 3 = - 1 \<and> \<not> satisfied p (gpr (thr e c) 4) (gpr (thr e c) 5))"

definition served :: "lv2 \<Rightarrow> u32 \<Rightarrow> tid list \<Rightarrow> u64 \<Rightarrow> tid list \<times> u64" where
  "served e protocol q p =
     serve (\<lambda>c. gpr (thr e c) 4) (\<lambda>c. gpr (thr e c) 5) (service_order (thr e) protocol q) p"

lemma set_attempt_serves:
  assumes w: "waiting e q pattern" and now: "now AND pattern = now"
    and run: "set_attempt protocol b q pattern now e = (e1, n, Some p)" and s: "served e protocol q (now OR b) = (ws, r)"
  shows "p = r \<and> n = length ws \<and> same_but_regs e e1 \<and>
    (\<forall>c. gpr (thr e1 c) 3 = (if c \<in> set ws then 0 else gpr (thr e c) 3))"
proof -
  let ?e = "clear_marks q e"
  obtain e' tw dep n' where v: "visit protocol b q ?e (pattern OR b) 0 0 = (e', tw, dep, n')"
    by (metis prod_cases4)
  have u: "unmarked ?e q = q" by (simp add: unmarked_def clear_marks_facts(3))
  have nw: "bit now i \<Longrightarrow> bit pattern i" for i using now by (simp add: and_eq_left_bits)
  have ok: "(now XOR pattern) AND (dep AND NOT b) = 0"
    and p: "p = (now OR b) AND NOT ((pattern OR b) AND NOT tw)" and eqs: "e1 = e'" "n = n'"
    using run v by (auto simp: set_attempt_def split: if_splits)
  have dep: "bit dep i \<Longrightarrow> bit b i \<or> (bit now i \<longleftrightarrow> bit pattern i)" for i
    using ok u64_bit_less [of dep i] by (auto simp: and_eq_0_bits u64_bits)
  note same = clear_marks_facts(1) [of e q]
  have "(pattern OR b) AND (now OR b) = now OR b"
    using nw by (auto simp: bit_eq_iff u64_bits)
  then have s': "serve (\<lambda>c. gpr (thr ?e c) 4) (\<lambda>c. gpr (thr ?e c) 5)
      (service_order (thr ?e) protocol (unmarked ?e q)) ((pattern OR b) AND (now OR b)) = (ws, r)"
    using s by (simp add: served_def u same_but_regs_service [OF same])
  have pre: "\<forall>c \<in> set (unmarked ?e q). gpr (thr ?e c) 3 = - 1 \<and>
      \<not> satisfied pattern (gpr (thr ?e c) 4) (gpr (thr ?e c) 5)" "distinct q"
    using w same by (simp_all add: waiting_def u same_but_regs_def clear_marks_facts(2))
  have "r = tw AND (now OR b) \<and> n' = length ws \<and> same_but_regs ?e e' \<and>
      (\<forall>c. gpr (thr e' c) 3 = (if c \<in> set ws then 0 else gpr (thr ?e c) 3)) \<and>
      (\<forall>i. bit tw i \<longrightarrow> bit (pattern OR b) i)"
    using visit_serve [OF v pre(2,1) _ nw dep s'] by (simp add: bit_or_iff)
  moreover from this have "p = tw AND (now OR b)"
    unfolding p using nw u64_bit_less [of tw] by (auto simp: bit_eq_iff u64_bits)
  ultimately show ?thesis
    using eqs same_but_regs_trans [OF same] by (simp add: clear_marks_facts(2))
qed

lemma remove_waiters_eq:
  "remove_waiters q e = (filter (\<lambda>c. gpr (thr e c) 3 \<noteq> 0) q,
     e\<lparr>g_to_awake := g_to_awake e @ filter (\<lambda>c. gpr (thr e c) 3 = 0) q\<rparr>)"
  by (induction q arbitrary: e) (simp_all add: append_awake_def)

lemma waiting_same:
  "same_but_regs e e' \<Longrightarrow> (\<And>c. c \<in> set q \<Longrightarrow> gpr (thr e' c) 3 = gpr (thr e c) 3) \<Longrightarrow>
   waiting e' q p = waiting e q p"
  by (simp add: waiting_def same_but_regs_def)

lemma waiting_quiet: "(\<And>u. gpr (thr e' u) = gpr (thr e u)) \<Longrightarrow> waiting e' q p = waiting e q p"
  by (simp add: waiting_def)

lemma waiting_filter: "waiting e q p \<Longrightarrow> waiting e (filter P q) p"
  by (simp add: waiting_def)

lemma waiting_less: "waiting e q p \<Longrightarrow> (\<And>i. bit p' i \<Longrightarrow> bit p i) \<Longrightarrow> waiting e q p'"
  unfolding waiting_def using satisfied_mono by metis

lemma set_serves:
  assumes "waiting e (ef_sq x) pattern" "now AND pattern = now" "seen AND bitptn \<noteq> bitptn"
    and "\<forall>c \<in> set (ef_sq x). F_again \<notin> state (thr e c)"
    and "ef_set t bitptn seen pattern [now] e x = Some (out, e', x')"
    and "served e (ef_protocol x) (ef_sq x) (now OR bitptn) = (ws, r)"
  shows "out = Ret CELL_OK \<and> x' = x\<lparr>ef_pattern := r, ef_sq := filter (\<lambda>c. c \<notin> set ws) (ef_sq x)\<rparr> \<and>
    (\<forall>c. gpr (thr e' c) 3 = (if c \<in> set ws then 0 else gpr (thr e c) 3)) \<and>
    (\<exists>e1. same_but_regs e e1 \<and> e' = (if ws = [] then e1
       else awake_all (e1\<lparr>g_to_awake := g_to_awake e @ filter (\<lambda>c. c \<in> set ws) (ef_sq x)\<rparr>))) \<and>
    waiting e' (ef_sq x') (ef_pattern x')"
proof -
  let ?q = "ef_sq x"
  obtain e1 n p where a: "set_attempt (ef_protocol x) bitptn ?q pattern now e = (e1, n, Some p)"
    using assms(3-5) by (auto simp: ef_set_def split: option.splits prod.splits if_splits)
  from set_attempt_serves [OF assms(1,2) a assms(6)]
  have s: "p = r" "n = length ws" "same_but_regs e e1"
    "\<And>c. gpr (thr e1 c) 3 = (if c \<in> set ws then 0 else gpr (thr e c) 3)" by simp_all
  have "gpr (thr e c) 3 \<noteq> 0" if "c \<in> set ?q" for c using assms(1) that by (simp add: waiting_def)
  then have f: "filter (\<lambda>c. gpr (thr e1 c) 3 \<noteq> 0) ?q = filter (\<lambda>c. c \<notin> set ws) ?q"
    "filter (\<lambda>c. gpr (thr e1 c) 3 = 0) ?q = filter (\<lambda>c. c \<in> set ws) ?q"
    by (auto intro!: filter_cong simp: s(4))
  define e2 where "e2 = (if ws = [] then e1
    else awake_all (e1\<lparr>g_to_awake := g_to_awake e @ filter (\<lambda>c. c \<in> set ws) ?q\<rparr>))"
  have r: "out = Ret CELL_OK" "e' = e2" "x' = x\<lparr>ef_pattern := r, ef_sq := filter (\<lambda>c. c \<notin> set ws) ?q\<rparr>"
    using assms(3-5) a s(1-3) f
    by (auto simp: ef_set_def remove_waiters_eq e2_def same_but_regs_def split: if_splits)
  have g: "gpr (thr e2 c) = gpr (thr e1 c)" for c by (simp add: e2_def)
  have "\<not> satisfied r (gpr (thr e c) 4) (gpr (thr e c) 5)" if "c \<in> set ?q" "c \<notin> set ws" for c
    using serve_complete [of c "service_order (thr e) (ef_protocol x) ?q" "\<lambda>c. gpr (thr e c) 4"
        "\<lambda>c. gpr (thr e c) 5" "now OR bitptn"] assms(6) that by (simp add: served_def)
  then have "waiting e1 (ef_sq x') (ef_pattern x')"
    using assms(1) s(3,4) by (auto simp: waiting_def r(3) same_but_regs_def)
  then have "waiting e' (ef_sq x') (ef_pattern x')" using waiting_quiet [OF g] r(2) by simp
  then show ?thesis using r s(3,4) g e2_def by auto
qed

section \<open>Properties\<close>

text \<open>
  Claim C31. Setting bits is atomic with respect to the calls that clear bits without the lock: whatever
  part of the snapshot was cleared before the update (\<open>now\<close> is contained in \<open>pattern\<close>), an update that
  goes through at its first attempt wakes exactly the waiters, and leaves exactly the pattern, that
  serving the waiters one by one on the new pattern \<open>now OR bitptn\<close> gives: by priority and then oldest
  first, or oldest first. The woken threads return \<^verbatim>\<open>CELL_OK\<close>, and no remaining waiter is satisfied by
  the pattern that is left. The theorem is only about the first attempt: an update that has to be retried
  may also wake waiters that its last attempt does not serve, as the example further down shows.
\<close>

theorem event_flag_set_serves_waiters:
  assumes "waiting e (ef_sq x) pattern" "now AND pattern = now" "seen AND bitptn \<noteq> bitptn"
    and "\<forall>c \<in> set (ef_sq x). F_again \<notin> state (thr e c)"
    and "ef_set t bitptn seen pattern [now] e x = Some (out, e', x')"
    and "served e (ef_protocol x) (ef_sq x) (now OR bitptn) = (ws, r)"
  shows "out = Ret CELL_OK \<and> x' = x\<lparr>ef_pattern := r, ef_sq := filter (\<lambda>c. c \<notin> set ws) (ef_sq x)\<rparr> \<and>
    (\<forall>c. gpr (thr e' c) 3 = (if c \<in> set ws then 0 else gpr (thr e c) 3)) \<and>
    (\<exists>e1. same_but_regs e e1 \<and> e' = (if ws = [] then e1
       else awake_all (e1\<lparr>g_to_awake := g_to_awake e @ filter (\<lambda>c. c \<in> set ws) (ef_sq x)\<rparr>))) \<and>
    waiting e' (ef_sq x') (ef_pattern x')"
  by (rule set_serves [OF assms])

text \<open>Three waiters for the closed examples: thread 1 is the oldest.\<close>

definition demo_waiter :: "tid \<Rightarrow> u64 \<Rightarrow> u64 \<Rightarrow> lv2 \<Rightarrow> lv2" where
  "demo_waiter c b m e = set_gpr c 3 (- 1) (set_gpr c 4 b (set_gpr c 5 m e))"

definition demo_waiters :: lv2 where
  "demo_waiters = demo_waiter 1 0x5 0x11 (demo_waiter 2 0x1 0x22 (demo_waiter 3 0x2 0x2 (demo_lv2 [])))"

definition demo_flag :: lv2_event_flag where
  "demo_flag = \<lparr>ef_exists = 1, ef_protocol = SYS_SYNC_FIFO, ef_key = 0, ef_type = SYS_SYNC_WAITER_MULTIPLE,
     ef_name = 0, ef_pattern = 0, ef_sq = [3, 2, 1]\<rparr>"

lemma demo_waiters_regs:
  "gpr (thr demo_waiters 1) 4 = 5" "gpr (thr demo_waiters 2) 4 = 1" "gpr (thr demo_waiters 3) 4 = 2"
  "gpr (thr demo_waiters 1) 5 = 0x11" "gpr (thr demo_waiters 2) 5 = 0x22" "gpr (thr demo_waiters 3) 5 = 2"
  "gpr (thr demo_waiters 1) 3 = - 1" "gpr (thr demo_waiters 2) 3 = - 1" "gpr (thr demo_waiters 3) 3 = - 1"
  "state (thr demo_waiters c) = {}"
  by (simp_all add: demo_waiters_def demo_waiter_def thr_set_gpr demo_defs)

text \<open>Running the loop without looking into the threads.\<close>

lemma visit_by_order:
  "visit protocol b q e tw dep n =
     (case service_order (thr e) protocol (unmarked e q) of
        [] \<Rightarrow> (e, tw, dep, n)
      | c # _ \<Rightarrow>
         (let m = gpr (thr e c) 4; md = gpr (thr e c) 5
          in if satisfied tw m md
             then if leftover tw m md = 0
                  then (round_regs c 0 tw e, 0, dep OR dep_of b tw m md, n + 1)
                  else visit protocol b q (round_regs c 0 tw e) (leftover tw m md) (dep OR dep_of b tw m md) (n + 1)
             else visit protocol b q (round_regs c (- 1) tw e) tw dep n))"
proof (cases "service_order (thr e) protocol (unmarked e q)")
  case Nil
  then show ?thesis by (simp add: get_next_service visit.simps [of _ _ _ e])
next
  case (Cons c cs)
  then have "get_next (thr e) protocol q = Some c" by (simp add: get_next_service)
  from visit_step [OF this] Cons show ?thesis by simp
qed

lemma round_regs_gpr45: "gpr (thr (round_regs c v res e) d) 4 = gpr (thr e d) 4"
  "gpr (thr (round_regs c v res e) d) 5 = gpr (thr e d) 5"
  using round_regs_same [of e c v res] by (simp_all add: same_but_regs_def)

lemma clear_marks_gpr45: "gpr (thr (clear_marks q e) d) 4 = gpr (thr e d) 4"
  "gpr (thr (clear_marks q e) d) 5 = gpr (thr e d) 5"
  using clear_marks_facts(1) [of e q] by (simp_all add: same_but_regs_def)

lemma unmarked_clear: "unmarked (clear_marks q e) q = q"
  by (simp add: unmarked_def clear_marks_facts(3))

lemmas visit_run = service_order_def unmarked_clear unmarked_round round_regs_gpr45 clear_marks_gpr45
  round_regs_gpr3 clear_marks_facts(2) satisfied_def check_pattern_def leftover_def dep_of_def

lemma demo_race:
  obtains e where "set_loop SYS_SYNC_FIFO 3 [3, 2, 1] 4 [0, 0] demo_waiters = Some (e, 1, 0)"
    "gpr (thr e 1) 3 = - 1" "gpr (thr e 2) 3 = 0" "gpr (thr e 3) 3 = 0"
  by (simp add: set_attempt_def visit_by_order visit_run demo_waiters_regs)

theorem event_flag_set_serves_waiters_witness:
  "\<exists>e'. ef_set 9 3 4 4 [4] demo_waiters demo_flag = Some (Ret CELL_OK, e', demo_flag\<lparr>ef_pattern := 2, ef_sq := [2]\<rparr>) \<and>
     gpr (thr e' 1) 3 = 0 \<and> gpr (thr e' 2) 3 = - 1 \<and> gpr (thr e' 3) 3 = 0"
proof -
  have w: "waiting demo_waiters (ef_sq demo_flag) 4"
    by (simp add: waiting_def demo_flag_def demo_waiters_regs satisfied_def check_pattern_def)
  obtain out e' x' where r: "ef_set 9 3 4 4 [4] demo_waiters demo_flag = Some (out, e', x')"
    by (simp add: ef_set_def demo_flag_def demo_waiters_regs set_attempt_def visit_by_order visit_run
        remove_waiters_eq)
  have s: "served demo_waiters (ef_protocol demo_flag) (ef_sq demo_flag) (4 OR 3) = ([1, 3], 2)"
    by (simp add: served_def demo_flag_def service_order_def serve.simps(2) satisfied_def check_pattern_def
        leftover_def demo_waiters_regs)
  from event_flag_set_serves_waiters [OF w _ _ _ r s] show ?thesis
    using r by (simp add: demo_flag_def demo_waiters_regs)
qed

text \<open>
  A second attempt does not start afresh: the answers that the failed attempt wrote into the
  waiters' registers stay, and the loop stops early once the pattern is empty, so a waiter that the
  second attempt never looks at is woken by the answer of the first. Here bit 2 is cleared while bits 0
  and 1 are set; serving the waiters on the new pattern wakes thread 2 alone, which consumes everything,
  but the call also wakes thread 3.
\<close>

theorem event_flag_set_stale_answer:
  "\<exists>e' x'. ef_set 9 3 4 4 [0, 0] demo_waiters demo_flag = Some (Ret CELL_OK, e', x') \<and>
     ef_pattern x' = 0 \<and> ef_sq x' = [1] \<and> gpr (thr e' 3) 3 = 0 \<and>
     served demo_waiters SYS_SYNC_FIFO [3, 2, 1] (0 OR 3) = ([2], 0)"
proof -
  obtain e where e: "set_loop SYS_SYNC_FIFO 3 [3, 2, 1] 4 [0, 0] demo_waiters = Some (e, 1, 0)"
    "gpr (thr e 1) 3 = - 1" "gpr (thr e 2) 3 = 0" "gpr (thr e 3) 3 = 0" by (rule demo_race)
  have "served demo_waiters SYS_SYNC_FIFO [3, 2, 1] (0 OR 3) = ([2], 0)"
    by (simp add: served_def service_order_def serve.simps(2) satisfied_def check_pattern_def
        leftover_def demo_waiters_regs)
  moreover have "ef_set 9 3 4 4 [0, 0] demo_waiters demo_flag = Some (Ret CELL_OK,
      awake_all (e\<lparr>g_to_awake := g_to_awake e @ [3, 2]\<rparr>), demo_flag\<lparr>ef_pattern := 0, ef_sq := [1]\<rparr>)"
    using e by (simp add: ef_set_def demo_flag_def demo_waiters_regs remove_waiters_eq del: set_loop.simps)
  ultimately show ?thesis using e(4) by simp
qed

text \<open>The invariant of an event flag: nobody waits for what is there, and a single-waiter flag has one waiter.\<close>

definition ef_inv :: "lv2 \<Rightarrow> lv2_event_flag \<Rightarrow> bool" where
  "ef_inv e x \<longleftrightarrow> waiting e (ef_sq x) (ef_pattern x) \<and>
     (ef_type x = SYS_SYNC_WAITER_SINGLE \<longrightarrow> length (ef_sq x) \<le> 1)"

lemma ef_inv_check:
  assumes "waiting e q p" "check_pattern p b m = (ok, p', res)"
  shows "waiting e q p'"
  using assms(2) by (intro waiting_less [OF assms(1)]) (auto simp: check_pattern_eq dest: leftover_bits split: if_splits)

lemma waiting_set_gpr: "t \<notin> set q \<or> i \<notin> {3, 4, 5} \<Longrightarrow> waiting (set_gpr t i v e) q p = waiting e q p"
  by (auto simp: waiting_def thr_set_gpr)

lemma gpr_emplace: "gpr (thr (snd (emplace t q e)) u) = gpr (thr e u)"
  by (simp add: emplace_def Let_def)

lemma ef_inv_wait:
  assumes "ef_inv e x" "t \<notin> set (ef_sq x)" "first = ef_pattern x \<or> \<not> satisfied first bitptn (ucast mode)"
    and "gpr (thr e t) 3 = - 1" "gpr (thr e t) 4 = bitptn" "gpr (thr e t) 5 = ucast mode"
    and "ef_wait t bitptn mode timeout (ef_pattern x) e (x\<lparr>ef_pattern := first\<rparr>) = (out, e', x')"
  shows "ef_inv e' x'"
proof -
  let ?q = "ef_sq x"
  obtain ok p res where c: "check_pattern first bitptn (ucast mode) = (ok, p, res)" by (metis prod_cases3)
  obtain ok2 p2 res2 where c2: "check_pattern (ef_pattern x) bitptn (ucast mode) = (ok2, p2, res2)"
    by (metis prod_cases3)
  have w: "waiting e ?q p2" "ef_type x = SYS_SYNC_WAITER_SINGLE \<longrightarrow> length ?q \<le> 1"
    using assms(1) ef_inv_check [OF _ c2] by (auto simp: ef_inv_def)
  have fs: "ok \<Longrightarrow> p = p2" using assms(3) c c2 by (auto simp: check_pattern_eq)
  define e2 where "e2 = set_gpr t 6 res2 (set_gpr t 6 res e)"
  consider "ok" "e' = set_gpr t 6 res e" "x' = x\<lparr>ef_pattern := p\<rparr>"
    | "e' = e2" "x' = x\<lparr>ef_pattern := p2\<rparr>"
    | "\<not> ok2" "e' = snd (emplace t ?q (snd (sleep t timeout e2)))" "x' = x\<lparr>ef_pattern := p2, ef_sq := t # ?q\<rparr>"
      "ef_type x = SYS_SYNC_WAITER_SINGLE \<longrightarrow> ?q = []"
    using assms(7) c c2 by (auto simp: ef_wait_def e2_def Let_def emplace_def split: if_splits)
  then show ?thesis
  proof cases
    case 1
    then show ?thesis using w fs by (simp add: ef_inv_def waiting_set_gpr)
  next
    case 2
    then show ?thesis using w by (simp add: ef_inv_def waiting_set_gpr e2_def)
  next
    case 3
    have g: "gpr (thr e' u) = gpr (thr e2 u)" for u by (simp add: 3(2) gpr_emplace)
    have "\<not> satisfied p2 bitptn (ucast mode)" using c2 3(1) by (auto simp: check_pattern_eq)
    moreover have "gpr (thr e2 t) 3 = - 1" "gpr (thr e2 t) 4 = bitptn" "gpr (thr e2 t) 5 = ucast mode"
      using assms(4-6) by (simp_all add: e2_def thr_set_gpr)
    moreover have "waiting e2 ?q p2" using w(1) by (simp add: e2_def waiting_set_gpr)
    ultimately have "waiting e2 (t # ?q) p2" using assms(2) by (simp add: waiting_def)
    then show ?thesis using waiting_quiet [OF g] 3(3,4) by (simp add: ef_inv_def)
  qed
qed

lemma ef_inv_timeout:
  assumes "ef_inv e x" "ef_cancel_wait t e x = (e', x')"
  shows "ef_inv e' x'"
proof -
  have f: "remove1 t (ef_sq x) = filter (\<lambda>c. c \<noteq> t) (ef_sq x)"
    using assms(1) by (simp add: ef_inv_def waiting_def remove1_distinct_filter)
  have w: "waiting (add_flag t F_wait e) (ef_sq x) (ef_pattern x)" "length (filter (\<lambda>c. c \<noteq> t) (ef_sq x)) \<le> length (ef_sq x)"
    using assms(1) waiting_quiet [of "add_flag t F_wait e" e] by (simp_all add: ef_inv_def)
  show ?thesis
    using assms w le_trans [OF w(2)]
    by (auto simp: ef_cancel_wait_def Let_def ef_inv_def f waiting_set_gpr waiting_filter split: if_splits)
qed

lemma ef_cancel_wakes:
  assumes "waiting e (ef_sq x) p" "\<forall>c \<in> set (ef_sq x). F_again \<notin> state (thr e c)"
  obtains e1 where "ef_cancel t e x = Some (Ret CELL_OK, length (ef_sq x),
      if ef_sq x = [] then e else awake_all e1, x\<lparr>ef_sq := []\<rparr>)"
    "g_to_awake e1 = g_to_awake e @ rev (ef_sq x)"
    "\<And>c. gpr (thr e1 c) = (if c \<in> set (ef_sq x)
        then (gpr (thr e c))(3 := ucast (CELL_ECANCELED), 6 := ef_pattern x) else gpr (thr e c))"
proof -
  let ?f = "\<lambda>c s. (append_awake c (set_gpr c 6 (ef_pattern x) (set_gpr c 3 (ucast (CELL_ECANCELED)) (fst s))),
      Suc (snd s))"
  define ws where "ws = rev (ef_sq x)"
  have fold: "snd (fold ?f ws s) = length ws + snd s \<and> g_to_awake (fst (fold ?f ws s)) = g_to_awake (fst s) @ ws \<and>
      (\<forall>c. gpr (thr (fst (fold ?f ws s)) c) = (if c \<in> set ws
        then (gpr (thr (fst s) c))(3 := ucast (CELL_ECANCELED), 6 := ef_pattern x) else gpr (thr (fst s) c)))" for s ws
    by (induction ws arbitrary: s) (auto simp: append_awake_def thr_set_gpr set_gpr_def)
  have "drain (\<lambda>s. thr (fst s)) SYS_SYNC_FIFO ?f (ef_sq x) (e, 0) = Some (fold ?f ws (e, 0))"
    unfolding ws_def using assms by (intro drain_fifo) (simp_all add: waiting_def)
  moreover obtain e1 n where e1: "fold ?f ws (e, 0) = (e1, n)" by fastforce
  ultimately have "ef_cancel t e x = Some (Ret CELL_OK, length (ef_sq x),
      if ef_sq x = [] then e else awake_all e1, x\<lparr>ef_sq := []\<rparr>)"
    using assms(2) fold [of ws "(e, 0)"] by (auto simp: ef_cancel_def ws_def)
  then show ?thesis using that fold [of ws "(e, 0)"] e1 by (simp add: ws_def)
qed

text \<open>
  An attempt answers every waiter it looks at, 0 or -1, and a waiter with -1 is not satisfied by what is
  left; it looks at all of them unless nothing is left.
\<close>

lemma visit_answers:
  assumes "visit protocol b q e tw dep n = (e', tw', dep', n')" "distinct q"
  shows "same_but_regs e e' \<and> n \<le> n' \<and> (\<forall>i. bit tw' i \<longrightarrow> bit tw i) \<and>
    (\<forall>c. c \<notin> set (unmarked e q) \<longrightarrow> gpr (thr e' c) 3 = gpr (thr e c) 3) \<and>
    (\<forall>c \<in> set (unmarked e q). gpr (thr e' c) 3 = 0 \<or>
       gpr (thr e' c) 3 = - 1 \<and> \<not> satisfied tw' (gpr (thr e c) 4) (gpr (thr e c) 5) \<or>
       gpr (thr e' c) 3 = gpr (thr e c) 3 \<and> tw' = 0) \<and>
    (n' = n \<longrightarrow> (\<forall>c \<in> set (unmarked e q). gpr (thr e' c) 3 = - 1))"
  using assms(1)
proof (induction "length (unmarked e q)" arbitrary: e tw dep n rule: less_induct)
  case less
  show ?case
  proof (cases "get_next (thr e) protocol q")
    case None
    then have "service_order (thr e) protocol (unmarked e q) = []" by (simp add: get_next_service split: list.splits)
    with set_service_order [of "thr e" protocol "unmarked e q"] have "unmarked e q = []" by (metis set_empty)
    then show ?thesis using less.prems None by (auto simp: visit.simps [of _ _ _ e] same_but_regs_refl)
  next
    case (Some c)
    define m md where "m = gpr (thr e c) 4" and "md = gpr (thr e c) 5"
    have c: "c \<in> set (unmarked e q)" using get_next_mem [OF Some] by (simp add: unmarked_def)
    let ?e1 = "\<lambda>v. round_regs c v tw e"
    have same: "same_but_regs e (?e1 v)" for v by (rule round_regs_same)
    note IH = less.hyps [OF round_less [OF Some], unfolded unmarked_round round_regs_gpr3 round_regs_gpr45]
    show ?thesis
    proof (cases "satisfied tw m md")
      case True
      show ?thesis
      proof (cases "leftover tw m md = 0")
        case z: True
        then have "e' = ?e1 0" "tw' = 0" "n' = n + 1"
          using less.prems True by (simp_all add: visit_step [OF Some] Let_def m_def md_def)
        then show ?thesis using same c by (auto simp: round_regs_gpr3)
      next
        case False
        then have "visit protocol b q (?e1 0) (leftover tw m md) (dep OR dep_of b tw m md) (n + 1) = (e', tw', dep', n')"
          using less.prems True by (simp add: visit_step [OF Some] Let_def m_def md_def)
        note i = IH [OF this]
        then have "same_but_regs e e'" using same_but_regs_trans [OF same] by blast
        then show ?thesis using i c leftover_bits [of tw m md] by auto
      qed
    next
      case False
      then have "visit protocol b q (?e1 (- 1)) tw dep n = (e', tw', dep', n')"
        using less.prems by (simp add: visit_step [OF Some] Let_def m_def md_def)
      note i = IH [OF this]
      have "\<not> satisfied tw' m md" using False i satisfied_mono [of tw' m md tw] by blast
      moreover have "same_but_regs e e'" using i same_but_regs_trans [OF same] by blast
      ultimately show ?thesis using i c by (auto simp: m_def md_def)
    qed
  qed
qed

text \<open>The values that an atomic takes while bits are only cleared.\<close>

fun falling :: "u64 \<Rightarrow> u64 list \<Rightarrow> bool" where
  "falling p [] = True"
| "falling p (n # ns) = (n AND p = n \<and> falling n ns)"

text \<open>
  Waiters that earlier attempts may have answered: each register is 0 or -1, and the pattern does not
  satisfy anybody.
\<close>

definition asked :: "lv2 \<Rightarrow> tid list \<Rightarrow> u64 \<Rightarrow> bool" where
  "asked e q p \<longleftrightarrow> distinct q \<and>
     (\<forall>c \<in> set q. (gpr (thr e c) 3 = 0 \<or> gpr (thr e c) 3 = - 1) \<and>
        \<not> satisfied p (gpr (thr e c) 4) (gpr (thr e c) 5))"

lemma asked_less: "asked e q p \<Longrightarrow> (\<And>i. bit p' i \<Longrightarrow> bit p i) \<Longrightarrow> asked e q p'"
  unfolding asked_def using satisfied_mono by metis

lemma attempt_answers:
  assumes q: "asked e q pattern" and now: "now AND pattern = now"
    and run: "set_attempt protocol b q pattern now e = (e1, n, r)"
  shows "same_but_regs e e1 \<and> asked e1 q now \<and>
    (\<forall>p. r = Some p \<longrightarrow> (n = 0 \<longrightarrow> (\<forall>c \<in> set q. gpr (thr e1 c) 3 = - 1)) \<and>
       (\<forall>c \<in> set q. gpr (thr e1 c) 3 \<noteq> 0 \<longrightarrow> \<not> satisfied p (gpr (thr e c) 4) (gpr (thr e c) 5)))"
proof -
  let ?e = "clear_marks q e"
  obtain tw dep where v: "visit protocol b q ?e (pattern OR b) 0 0 = (e1, tw, dep, n)"
    and r: "r = (if (now XOR pattern) AND (dep AND NOT b) \<noteq> 0 then None
      else Some ((now OR b) AND NOT ((pattern OR b) AND NOT tw)))"
    using run by (auto simp: set_attempt_def split: prod.splits)
  have u: "unmarked ?e q = q" by (simp add: unmarked_def clear_marks_facts(3))
  have nw: "bit now i \<Longrightarrow> bit pattern i" for i using now by (simp add: and_eq_left_bits)
  have d: "distinct q" and regs: "\<forall>c \<in> set q. gpr (thr e c) 3 = 0 \<or> gpr (thr e c) 3 = - 1"
    using q by (simp_all add: asked_def)
  from visit_answers [OF v d, unfolded u clear_marks_facts(2) clear_marks_gpr45]
  have a: "same_but_regs ?e e1"
    "\<forall>c \<in> set q. gpr (thr e1 c) 3 = 0 \<or> gpr (thr e1 c) 3 = - 1 \<and> \<not> satisfied tw (gpr (thr e c) 4) (gpr (thr e c) 5) \<or>
       gpr (thr e1 c) 3 = gpr (thr e c) 3 \<and> tw = 0" "n = 0 \<longrightarrow> (\<forall>c \<in> set q. gpr (thr e1 c) 3 = - 1)" by simp_all
  have same: "same_but_regs e e1" by (rule same_but_regs_trans [OF clear_marks_facts(1) a(1)])
  have "asked e q now" by (rule asked_less [OF q nw])
  moreover have "\<forall>c \<in> set q. gpr (thr e1 c) 3 = 0 \<or> gpr (thr e1 c) 3 = - 1" using a(2) regs by metis
  ultimately have "asked e1 q now" using same by (simp add: asked_def same_but_regs_def)
  moreover have "\<not> satisfied p (gpr (thr e c) 4) (gpr (thr e c) 5)"
    if p: "r = Some p" and c: "c \<in> set q" "gpr (thr e1 c) 3 \<noteq> 0" for p c
  proof -
    have "p = (now OR b) AND NOT ((pattern OR b) AND NOT tw)" using p r by (simp split: if_splits)
    then have tw: "bit p i \<Longrightarrow> bit tw i" for i
      using nw u64_bit_less [of "now OR b" i] by (auto simp: u64_bits)
    show ?thesis
    proof (cases "tw = 0")
      case True
      have "\<not> satisfied pattern (gpr (thr e c) 4) (gpr (thr e c) 5)" using q c(1) by (simp add: asked_def)
      then show ?thesis using satisfied_mono [of p _ _ pattern] tw True by auto
    next
      case False
      with a(2) c have "\<not> satisfied tw (gpr (thr e c) 4) (gpr (thr e c) 5)" by auto
      then show ?thesis using satisfied_mono tw by blast
    qed
  qed
  ultimately show ?thesis using same a(3) by blast
qed

lemma set_loop_answers:
  assumes "asked e q pattern" "falling pattern nows" "set_loop protocol b q pattern nows e = Some (e1, n, p)"
  shows "same_but_regs e e1 \<and> (n = 0 \<longrightarrow> (\<forall>c \<in> set q. gpr (thr e1 c) 3 = - 1)) \<and>
    (\<forall>c \<in> set q. gpr (thr e1 c) 3 = 0 \<or>
       gpr (thr e1 c) 3 = - 1 \<and> \<not> satisfied p (gpr (thr e c) 4) (gpr (thr e c) 5))"
  using assms
proof (induction nows arbitrary: pattern e)
  case (Cons now nows)
  obtain e2 k r where a: "set_attempt protocol b q pattern now e = (e2, k, r)" by (metis prod_cases3)
  have now: "now AND pattern = now" "falling now nows" using Cons.prems(2) by simp_all
  note t = attempt_answers [OF Cons.prems(1) now(1) a]
  show ?case
  proof (cases r)
    case None
    then have "set_loop protocol b q now nows e2 = Some (e1, n, p)" using a Cons.prems(3) by simp
    with Cons.IH [OF _ now(2) this] t show ?thesis
      by (auto simp: same_but_regs_def)
  next
    case (Some p')
    then have "e1 = e2" "n = k" "p = p'" using a Cons.prems(3) by auto
    with t Some show ?thesis by (auto simp: asked_def)
  qed
qed simp

lemma ef_inv_set:
  assumes inv: "ef_inv e x" and pat: "pattern AND ef_pattern x = pattern" "falling pattern nows"
    and run: "ef_set t bitptn seen pattern nows e x = Some (out, e', x')"
  shows "ef_inv e' x'"
proof -
  let ?q = "ef_sq x"
  consider "seen AND bitptn = bitptn" | "\<exists>c \<in> set ?q. F_again \<in> state (thr e c)" "seen AND bitptn \<noteq> bitptn"
    | "\<forall>c \<in> set ?q. F_again \<notin> state (thr e c)" "seen AND bitptn \<noteq> bitptn" by blast
  then show ?thesis
  proof cases
    case 2
    then have "e' = add_flag t F_again e" "x' = x" using run by (simp_all add: ef_set_def)
    then show ?thesis using inv waiting_quiet [of e' e] by (simp add: ef_inv_def)
  next
    case 3
    obtain e1 n p where l: "set_loop (ef_protocol x) bitptn ?q pattern nows e = Some (e1, n, p)"
      using run 3 by (auto simp: ef_set_def split: option.splits)
    have "bit pattern i \<Longrightarrow> bit (ef_pattern x) i" for i using pat(1) by (simp add: and_eq_left_bits)
    then have w: "waiting e ?q pattern" using inv waiting_less [of e ?q "ef_pattern x"] by (simp add: ef_inv_def)
    then have "asked e ?q pattern" by (simp add: waiting_def asked_def)
    note a = set_loop_answers [OF this pat(2) l]
    define q' where "q' = filter (\<lambda>c. gpr (thr e1 c) 3 \<noteq> 0) ?q"
    have x': "x' = x\<lparr>ef_pattern := p, ef_sq := q'\<rparr>" and g: "gpr (thr e' c) = gpr (thr e1 c)" for c
    proof -
      have "n = 0 \<Longrightarrow> q' = ?q" using a unfolding q'_def by (auto intro!: filter_True)
      then show "x' = x\<lparr>ef_pattern := p, ef_sq := q'\<rparr>"
        using run 3 l by (auto simp: ef_set_def remove_waiters_eq q'_def split: if_splits)
      show "gpr (thr e' c) = gpr (thr e1 c)"
        using run 3 l by (auto simp: ef_set_def remove_waiters_eq split: if_splits)
    qed
    have "waiting e1 q' p" using a w by (auto simp: waiting_def q'_def same_but_regs_def)
    then have "waiting e' q' p" using waiting_quiet [OF g] by simp
    moreover have "length q' \<le> length ?q" by (simp add: q'_def)
    then have "length ?q \<le> 1 \<Longrightarrow> length q' \<le> 1" by (rule le_trans)
    ultimately show ?thesis using inv by (simp add: ef_inv_def x')
  qed (use inv run in \<open>simp add: ef_set_def\<close>)
qed

text \<open>
  The operations on one flag as steps of a transition system, each at the moment when it holds the
  object's lock. A wait that gets as far as the lock has seen some pattern \<open>first\<close> before it that did not
  satisfy it; one that is satisfied without the lock is satisfied by the current pattern. While a set
  holds the lock, the calls that do not need the lock can clear bits: its first load of the pattern and
  the values that its attempts find are a falling sequence, any number of attempts may fail, and its very
  first test, before the lock, may have seen anything. The last rule lets everything else that the
  threads do happen in between.
\<close>

inductive ef_step :: "lv2 \<times> lv2_event_flag \<Rightarrow> lv2 \<times> lv2_event_flag \<Rightarrow> bool" where
  wait: "t \<notin> set (ef_sq x) \<Longrightarrow> gpr (thr e t) 3 = - 1 \<Longrightarrow> gpr (thr e t) 4 = bitptn \<Longrightarrow>
     gpr (thr e t) 5 = ucast mode \<Longrightarrow> first = ef_pattern x \<or> \<not> fst (check_pattern first bitptn (ucast mode)) \<Longrightarrow>
     ef_wait t bitptn mode timeout (ef_pattern x) e (x\<lparr>ef_pattern := first\<rparr>) = (out, e', x') \<Longrightarrow>
     ef_step (e, x) (e', x')"
| trywait: "ef_step (e, x) (e, snd (snd (ef_trywait bitptn mode x)))"
| clear: "ef_step (e, x) (e, ef_clear bitptn x)"
| timeout: "ef_cancel_wait t e x = (e', x') \<Longrightarrow> ef_step (e, x) (e', x')"
| set: "pattern AND ef_pattern x = pattern \<Longrightarrow> falling pattern nows \<Longrightarrow>
     ef_set t bitptn seen pattern nows e x = Some (out, e', x') \<Longrightarrow> ef_step (e, x) (e', x')"
| cancel: "ef_cancel t e x = Some (out, n, e', x') \<Longrightarrow> ef_step (e, x) (e', x')"
| other: "(\<And>c. c \<in> set (ef_sq x) \<Longrightarrow> gpr (thr e' c) = gpr (thr e c)) \<Longrightarrow> ef_step (e, x) (e', x)"

lemma ef_inv_step: "ef_step s s' \<Longrightarrow> ef_inv (fst s) (snd s) \<Longrightarrow> ef_inv (fst s') (snd s')"
proof (induction rule: ef_step.induct)
  case (wait t x e bitptn mode first timeout out e' x')
  then show ?case using ef_inv_wait [of e x t first bitptn mode timeout out e' x'] by (simp add: satisfied_def)
next
  case (trywait e x bitptn mode)
  obtain ok p res where c: "check_pattern (ef_pattern x) bitptn (ucast mode) = (ok, p, res)" by (metis prod_cases3)
  then show ?case using trywait ef_inv_check [OF _ c] by (auto simp: ef_inv_def ef_trywait_def)
next
  case (clear e x bitptn)
  then show ?case
    using waiting_less [of e "ef_sq x" "ef_pattern x" "ef_pattern x AND bitptn"]
    by (simp add: ef_inv_def ef_clear_def bit_and_iff)
next
  case (timeout t e x e' x')
  then show ?case using ef_inv_timeout [of e x t e' x'] by simp
next
  case (set pattern x nows t bitptn seen e out e' x')
  then show ?case using ef_inv_set [of e x pattern nows t bitptn seen out e' x'] by simp
next
  case (cancel t e x out n e' x')
  show ?case
  proof (cases "\<exists>c \<in> set (ef_sq x). F_again \<in> state (thr e c)")
    case True
    then have "e' = add_flag t F_again e" "x' = x" using cancel(1) by (simp_all add: ef_cancel_def)
    then show ?thesis using cancel waiting_quiet [of e' e] by (simp add: ef_inv_def)
  next
    case False
    then have "ef_sq x' = []" using cancel(1) by (auto simp: ef_cancel_def split: option.splits if_splits)
    then show ?thesis by (simp add: ef_inv_def waiting_def)
  qed
next
  case (other x e' e)
  then show ?case by (simp add: ef_inv_def waiting_def)
qed

text \<open>
  Claim C16. No wake-up is lost: in every state that the operations on an event flag can reach, each
  waiter is unanswered and is not satisfied by the current pattern, and a flag for a single waiter has
  at most one. This covers a \<^verbatim>\<open>sys_event_flag_wait\<close> whose flag is changed in any way between its two
  checks, and a \<^verbatim>\<open>sys_event_flag_set\<close> during which bits are cleared, with any number of failed attempts.
\<close>

theorem event_flag_no_lost_wakeup:
  assumes "ef_step\<^sup>*\<^sup>* (e0, x0) (e, x)" "ef_sq x0 = []" "c \<in> set (ef_sq x)"
  shows "gpr (thr e c) 3 = - 1 \<and> \<not> satisfied (ef_pattern x) (gpr (thr e c) 4) (gpr (thr e c) 5) \<and>
    (ef_type x = SYS_SYNC_WAITER_SINGLE \<longrightarrow> ef_sq x = [c])"
proof -
  have "ef_inv e0 x0" using assms(2) by (simp add: ef_inv_def waiting_def)
  with assms(1) have "ef_inv e x"
    by (induction "(e, x)" arbitrary: e x rule: rtranclp_induct) (use ef_inv_step in fastforce)+
  then show ?thesis using assms(3) by (cases "ef_sq x") (auto simp: ef_inv_def waiting_def)
qed

theorem event_flag_no_lost_wakeup_witness:
  "\<exists>e x. ef_step\<^sup>*\<^sup>* (demo_waiters, demo_flag\<lparr>ef_sq := []\<rparr>) (e, x) \<and> ef_sq x = [2] \<and>
     gpr (thr e 2) 3 = - 1 \<and> \<not> satisfied (ef_pattern x) (gpr (thr e 2) 4) (gpr (thr e 2) 5)"
proof -
  let ?x = "demo_flag\<lparr>ef_sq := []\<rparr>"
  obtain e where w: "ef_wait 2 1 0x22 0 0 demo_waiters ?x = (Blocked, e, demo_flag\<lparr>ef_sq := [2]\<rparr>)"
    by (simp add: ef_wait_def check_pattern_def demo_flag_def emplace_def Let_def)
  have "ef_step (demo_waiters, ?x) (e, demo_flag\<lparr>ef_sq := [2]\<rparr>)"
    using ef_step.wait [of 2 ?x demo_waiters 1 "0x22" 0 0 Blocked e "demo_flag\<lparr>ef_sq := [2]\<rparr>"] w
    by (simp add: demo_waiters_regs demo_flag_def)
  then have r: "ef_step\<^sup>*\<^sup>* (demo_waiters, ?x) (e, demo_flag\<lparr>ef_sq := [2]\<rparr>)" by blast
  from event_flag_no_lost_wakeup [OF this, of 2] show ?thesis using r
    by (intro exI [of _ e] exI [of _ "demo_flag\<lparr>ef_sq := [2]\<rparr>"]) simp
qed

text \<open>
  Cancelling wakes every waiter, oldest first, with \<^verbatim>\<open>CELL_ECANCELED\<close> and the current pattern,
  reports their number, and leaves the flag without waiters; the call always returns.
\<close>

theorem event_flag_cancel_wakes_all:
  assumes "waiting e (ef_sq x) (ef_pattern x)" "\<forall>c \<in> set (ef_sq x). F_again \<notin> state (thr e c)"
  shows "\<exists>e1 e'. ef_cancel t e x = Some (Ret CELL_OK, length (ef_sq x), e', x\<lparr>ef_sq := []\<rparr>) \<and>
    g_to_awake e1 = g_to_awake e @ rev (ef_sq x) \<and> e' = (if ef_sq x = [] then e else awake_all e1) \<and>
    (\<forall>c \<in> set (ef_sq x). gpr (thr e' c) 3 = ucast (CELL_ECANCELED) \<and> gpr (thr e' c) 6 = ef_pattern x)"
proof -
  obtain e1 where e1: "ef_cancel t e x = Some (Ret CELL_OK, length (ef_sq x),
      if ef_sq x = [] then e else awake_all e1, x\<lparr>ef_sq := []\<rparr>)"
    "g_to_awake e1 = g_to_awake e @ rev (ef_sq x)"
    "\<And>c. gpr (thr e1 c) = (if c \<in> set (ef_sq x)
        then (gpr (thr e c))(3 := ucast (CELL_ECANCELED), 6 := ef_pattern x) else gpr (thr e c))"
    using ef_cancel_wakes [OF assms, of t] by blast
  then show ?thesis by (intro exI [of _ e1] exI [of _ "if ef_sq x = [] then e else awake_all e1"]) simp
qed

theorem event_flag_cancel_wakes_all_witness:
  "\<exists>e'. ef_cancel 9 demo_waiters demo_flag = Some (Ret CELL_OK, 3, e', demo_flag\<lparr>ef_sq := []\<rparr>) \<and>
     gpr (thr e' 2) 3 = ucast (CELL_ECANCELED)"
proof -
  have "waiting demo_waiters (ef_sq demo_flag) (ef_pattern demo_flag)"
    by (simp add: waiting_def demo_flag_def demo_waiters_regs satisfied_def check_pattern_def)
  from event_flag_cancel_wakes_all [OF this, of 9] show ?thesis
    by (auto simp: demo_flag_def demo_waiters_regs)
qed

text \<open>
  Claim C32. The update loop of \<^verbatim>\<open>sys_event_flag_set\<close> ends as soon as one of its attempts finds the pattern
  that it started from: whatever values the earlier attempts found, the call returns.
\<close>

theorem event_flag_set_returns:
  assumes "i < length nows" "(pattern # nows) ! i = nows ! i"
  shows "ef_set t bitptn seen pattern nows e x \<noteq> None"
proof -
  have "set_loop protocol b q pattern nows e \<noteq> None" for protocol b q
    using assms
  proof (induction nows arbitrary: pattern e i)
    case (Cons now nows)
    obtain e1 n r where a: "set_attempt protocol b q pattern now e = (e1, n, r)" by (metis prod_cases3)
    show ?case
    proof (cases i)
      case 0
      then have "r \<noteq> None" using a Cons.prems by (auto simp: set_attempt_def split: prod.splits)
      then show ?thesis using a by auto
    next
      case (Suc j)
      then show ?thesis using a Cons.IH [of j now e1] Cons.prems by (cases r) simp_all
    qed
  qed simp
  then obtain r where "set_loop (ef_protocol x) bitptn (ef_sq x) pattern nows e = Some r" by blast
  then show ?thesis by (cases r) (simp add: ef_set_def split: prod.splits)
qed

theorem event_flag_set_returns_witness: "ef_set 9 3 4 4 [0, 0] demo_waiters demo_flag \<noteq> None"
  by (rule event_flag_set_returns [of 1]) simp_all

end
