(* ===== verification/Sys_Event.thy ===== *)
theory Sys_Event
  imports Lv2_Objects
begin

text \<open>
  Event queues and event ports (\<^verbatim>\<open>sys_event.cpp\<close>). A queue keeps at most \<^verbatim>\<open>size\<close> events and two lists
  of waiters, PPU threads in \<open>eq_pq\<close> and SPU threads in \<open>eq_sq\<close>; its type says which one is in use. An
  event is handed to a waiting PPU thread in its registers 4 to 7. What an SPU thread is given, the
  values for its inbound mailbox, is a result of the model (\<open>spu_msg\<close>), because SPU threads are outside it.
\<close>

section \<open>Model: the queue\<close>

abbreviation (input) SYS_PPU_QUEUE :: u32 where "SYS_PPU_QUEUE \<equiv> 1"
abbreviation (input) SYS_SPU_QUEUE :: u32 where "SYS_SPU_QUEUE \<equiv> 2"
abbreviation (input) SYS_EVENT_QUEUE_LOCAL :: u64 where "SYS_EVENT_QUEUE_LOCAL \<equiv> 0"
abbreviation (input) SYS_EVENT_PORT_LOCAL :: u32 where "SYS_EVENT_PORT_LOCAL \<equiv> 1"
abbreviation (input) SYS_EVENT_PORT_IPC :: u32 where "SYS_EVENT_PORT_IPC \<equiv> 3"
abbreviation (input) SYS_EVENT_QUEUE_DESTROY_FORCE :: int where "SYS_EVENT_QUEUE_DESTROY_FORCE \<equiv> 1"

type_synonym spu_msg = "tid \<times> u32 list"

definition set_event :: "tid \<Rightarrow> lv2_event \<Rightarrow> lv2 \<Rightarrow> lv2" where
  "set_event c ev e =
     (case ev of (source, d1, d2, d3) \<Rightarrow> set_gpr c 7 d3 (set_gpr c 6 d2 (set_gpr c 5 d1 (set_gpr c 4 source e))))"

text \<open>The abort of a sender whose receiver is being saved.\<close>

definition abort_sender :: "lv2 \<Rightarrow> lv2" where
  "abort_sender e = (case cur e of None \<Rightarrow> e | Some t \<Rightarrow> add_flag t F_exit (add_flag t F_again e))"

text \<open>
  \<^verbatim>\<open>lv2_event_queue::send\<close>. The port is passed by pointer or not at all; the results are the error code,
  \<^verbatim>\<open>notified_thread\<close>, the mailbox values, and the new state of threads, queue and port.
\<close>

definition queue_send ::
  "lv2_event \<Rightarrow> lv2_event_port option \<Rightarrow> lv2 \<Rightarrow> lv2_event_queue
     \<Rightarrow> error_code \<times> bool \<times> spu_msg option \<times> lv2 \<times> lv2_event_queue \<times> lv2_event_port option" where
  "queue_send ev port e q =
     (if eq_exists q = 0 then (CELL_ENOTCONN, False, None, e, q, port)
      else if eq_pq q = [] \<and> eq_sq q = []
      then if length (eq_events q) < eq_size q
           then (CELL_OK, False, None, e, q\<lparr>eq_events := eq_events q @ [ev]\<rparr>, port)
           else (CELL_EBUSY, False, None, e, q, port)
      else if eq_type q = SYS_PPU_QUEUE
      then (case schedule (thr e) (eq_protocol q) (eq_pq q) of
              (None, pq) \<Rightarrow> (CELL_OK, False, None, e\<lparr>fatal := True\<rparr>, q, port)
            | (Some c, pq) \<Rightarrow>
                if F_again \<in> state (thr e c) then (CELL_EAGAIN, False, None, abort_sender e, q\<lparr>eq_pq := pq\<rparr>, port)
                else
                  (let e1 = awake1 c (set_event c ev e); q1 = q\<lparr>eq_pq := pq\<rparr>
                   in case port of
                        None \<Rightarrow> (CELL_OK, False, None, e1, q1, None)
                      | Some p \<Rightarrow>
                          (case cur e1 of
                             None \<Rightarrow> (CELL_OK, False, None, e1\<lparr>fatal := True\<rparr>, q1, port)
                           | Some t \<Rightarrow>
                               if sint (prio (thr e1 c)) < sint (prio (thr e1 t))
                               then (CELL_OK, True, None, e1, q1, Some (p\<lparr>ep_is_busy := ep_is_busy p + 1\<rparr>))
                               else (CELL_OK, False, None, e1, q1, port))))
      else (case schedule (thr e) (eq_protocol q) (eq_sq q) of
              (None, sq) \<Rightarrow> (CELL_OK, False, None, e\<lparr>fatal := True\<rparr>, q, port)
            | (Some c, sq) \<Rightarrow>
                if F_again \<in> state (thr e c) then (CELL_EAGAIN, False, None, abort_sender e, q\<lparr>eq_sq := sq\<rparr>, port)
                else
                  (case ev of (_, d1, d2, d3) \<Rightarrow>
                     (CELL_OK, False, Some (c, [CELL_OK, ucast d1, ucast d2, ucast d3]), e, q\<lparr>eq_sq := sq\<rparr>, port))))"

text \<open>
  \<^verbatim>\<open>sys_event_queue_receive\<close> up to its wait loop; \<open>is_vsh\<close> stands for \<^verbatim>\<open>Emu.IsVsh()\<close>, which selects a
  shorter timeout for one system queue.
\<close>

definition queue_receive ::
  "tid \<Rightarrow> u64 \<Rightarrow> bool \<Rightarrow> lv2 \<Rightarrow> lv2_event_queue \<Rightarrow> outcome \<times> lv2 \<times> lv2_event_queue" where
  "queue_receive t timeout is_vsh e q =
     (if eq_type q \<noteq> SYS_PPU_QUEUE then (Ret CELL_EINVAL, e, q)
      else
        (let timeout' = (if eq_key q = 0x8005911000000012 \<and> is_vsh then 1 else timeout)
         in case eq_events q of
              [] \<Rightarrow> (case emplace t (eq_pq q) (snd (sleep t timeout' e)) of
                      (pq, e1) \<Rightarrow> (Blocked, e1, q\<lparr>eq_pq := pq\<rparr>))
            | ev # evs \<Rightarrow> (Ret CELL_OK, set_event t ev e, q\<lparr>eq_events := evs\<rparr>)))"

definition queue_receive_round ::
  "tid \<Rightarrow> u64 \<Rightarrow> bool \<Rightarrow> lv2 \<Rightarrow> lv2_event_queue \<Rightarrow> verdict \<times> lv2 \<times> lv2_event_queue" where
  "queue_receive_round t timeout fired e q =
     wait_iter t (t \<in> set (eq_pq q)) (cancel_wait t eq_pq eq_pq_update) timeout fired e q"

text \<open>The loop of \<^verbatim>\<open>sys_event_queue_tryreceive\<close>, which pops events while there are any and \<open>n\<close> allows.\<close>

fun pop_events :: "nat \<Rightarrow> lv2_event list \<Rightarrow> lv2_event list \<times> lv2_event list" where
  "pop_events (Suc n) (ev # evs) = (case pop_events n evs of (out, rest) \<Rightarrow> (ev # out, rest))"
| "pop_events n evs = ([], evs)"

definition queue_tryreceive :: "int \<Rightarrow> lv2_event_queue \<Rightarrow> error_code \<times> lv2_event list \<times> lv2_event_queue" where
  "queue_tryreceive sz q =
     (if eq_type q \<noteq> SYS_PPU_QUEUE then (CELL_EINVAL, [], q)
      else if eq_exists q = 0 then (CELL_ESRCH, [], q)
      else (case pop_events (nat sz) (eq_events q) of (out, rest) \<Rightarrow> (CELL_OK, out, q\<lparr>eq_events := rest\<rparr>)))"

text \<open>The second half of a forced destruction: every waiter is woken with \<^verbatim>\<open>CELL_ECANCELED\<close>.\<close>

fun cancel_ppus :: "tid list \<Rightarrow> lv2 \<Rightarrow> lv2" where
  "cancel_ppus [] e = e"
| "cancel_ppus (c # q) e = cancel_ppus q (append_awake c (set_gpr c 3 (ucast (CELL_ECANCELED)) e))"

definition queue_wake_all :: "lv2 \<Rightarrow> lv2_event_queue \<Rightarrow> spu_msg list \<times> lv2 \<times> lv2_event_queue" where
  "queue_wake_all e q =
     (if eq_type q = SYS_PPU_QUEUE then ([], awake_all (cancel_ppus (eq_pq q) e), q\<lparr>eq_pq := []\<rparr>)
      else (map (\<lambda>c. (c, [CELL_ECANCELED])) (eq_sq q), e, q\<lparr>eq_sq := []\<rparr>))"

definition queue_head :: "lv2_event_queue \<Rightarrow> tid list" where
  "queue_head q = (if eq_type q = SYS_PPU_QUEUE then eq_pq q else eq_sq q)"

section \<open>Model: the system calls on queues\<close>

record sys_event_queue_attribute =
  qa_protocol :: u32
  qa_type :: u32
  qa_name :: u64

definition sys_event_queue_create ::
  "tid \<Rightarrow> u32 \<Rightarrow> sys_event_queue_attribute \<Rightarrow> u64 \<Rightarrow> int \<Rightarrow> kernel \<Rightarrow> error_code \<times> kernel" where
  "sys_event_queue_create t equeue_id at ipc_key sz k0 =
     (let k = enter t k0
      in if sz \<le> 0 \<or> sz > 127 then (CELL_EINVAL, k)
         else if qa_protocol at \<noteq> SYS_SYNC_FIFO \<and> qa_protocol at \<noteq> SYS_SYNC_PRIORITY then (CELL_EINVAL, k)
         else if qa_type at \<noteq> SYS_PPU_QUEUE \<and> qa_type at \<noteq> SYS_SPU_QUEUE then (CELL_EINVAL, k)
         else
           (let pshared = (if ipc_key = SYS_EVENT_QUEUE_LOCAL then SYS_SYNC_NOT_PROCESS_SHARED
                           else SYS_SYNC_PROCESS_SHARED)
            in case lv2_create event_queue_base pshared ipc_key SYS_SYNC_NEWLY_CREATED
                   (\<lambda>i. O_event_queue \<lparr>eq_exists = 0, eq_id = i, eq_protocol = qa_protocol at, eq_type = qa_type at,
                      eq_size = nat sz, eq_name = qa_name at, eq_key = ipc_key, eq_events = [],
                      eq_sq = [], eq_pq = []\<rparr>) True k of
                 (err, k1) \<Rightarrow>
                   if err \<noteq> 0 then (err, k1)
                   else (CELL_OK, write32 equeue_id (g_id (ids k1)) k1)))"

definition event_queue_destroy_check ::
  "tid \<Rightarrow> int \<Rightarrow> nat \<Rightarrow> lv2_object \<Rightarrow> kernel \<Rightarrow> error_code \<times> kernel" where
  "event_queue_destroy_check t mode a x k =
     (case x of
        O_event_queue q \<Rightarrow>
          if mode = 0 \<and> queue_head q \<noteq> [] then (CELL_EBUSY, k)
          else
            (let k1 = on_id_destroy event_queue_base a (eq_key q) (eq_key q \<noteq> 0) k
             in if \<exists>c \<in> set (queue_head q). F_again \<in> state (thr (env k1) c)
                then (CELL_EAGAIN, k1\<lparr>env := add_flag t F_again (env k1)\<rparr>)
                else (CELL_OK, k1))
      | _ \<Rightarrow> (CELL_OK, k))"

definition sys_event_queue_destroy ::
  "tid \<Rightarrow> u32 \<Rightarrow> int \<Rightarrow> kernel \<Rightarrow> outcome \<times> spu_msg list \<times> kernel" where
  "sys_event_queue_destroy t equeue_id mode k0 =
     (let k = enter t k0
      in if mode \<noteq> 0 \<and> mode \<noteq> SYS_EVENT_QUEUE_DESTROY_FORCE then (Ret CELL_EINVAL, [], k)
         else
           (let a = map_option fst (get_obj event_queue_base equeue_id k)
            in case withdraw_if event_queue_base equeue_id (event_queue_destroy_check t mode) k of
                 (None, k1) \<Rightarrow> (Ret CELL_ESRCH, [], k1)
               | (Some r, k1) \<Rightarrow>
                   if F_again \<in> state (thr (env k1) t) then (Again, [], k1)
                   else if r \<noteq> 0 then (Ret r, [], k1)
                   else (case heap k1 (the a) of
                           Some (O_event_queue q) \<Rightarrow>
                             if queue_head q = [] then (Ret CELL_OK, [], k1)
                             else (case queue_wake_all (env k1) q of
                                     (msgs, e, q1) \<Rightarrow>
                                       (Ret CELL_OK, msgs, put_obj (the a) (O_event_queue q1) (k1\<lparr>env := e\<rparr>)))
                         | _ \<Rightarrow> (Ret CELL_OK, [], k1))))"

text \<open>An event in guest memory: four big-endian words of eight bytes. \<^verbatim>\<open>std::copy_n\<close> writes them one after
  the other.\<close>

definition event_bytes :: "lv2_event \<Rightarrow> u8 list" where
  "event_bytes ev = (case ev of (s, d1, d2, d3) \<Rightarrow> be_bytes s @ be_bytes d1 @ be_bytes d2 @ be_bytes d3)"

definition write_events :: "u32 \<Rightarrow> lv2_event list \<Rightarrow> kernel \<Rightarrow> kernel" where
  "write_events a evs k = k\<lparr>mem := vm_write (unat a) (concat (map event_bytes evs)) (mem k)\<rparr>"

text \<open>The local array of the call has 127 elements; writing past it is a crash.\<close>

definition sys_event_queue_tryreceive ::
  "tid \<Rightarrow> u32 \<Rightarrow> u32 \<Rightarrow> int \<Rightarrow> u32 \<Rightarrow> kernel \<Rightarrow> outcome \<times> kernel" where
  "sys_event_queue_tryreceive t equeue_id event_array sz number k0 =
     (let k = enter t k0
      in case get_obj event_queue_base equeue_id k of
           Some (a, O_event_queue q) \<Rightarrow>
             (case queue_tryreceive sz q of
                (r, evs, q1) \<Rightarrow>
                  if r \<noteq> 0 then (Ret r, k)
                  else if length evs > 127 then (Fatal, crash k)
                  else (Ret CELL_OK, write32 number (of_nat (length evs))
                          (write_events event_array evs (put_obj a (O_event_queue q1) k))))
         | _ \<Rightarrow> (Ret CELL_ESRCH, k))"

definition sys_event_queue_receive :: "tid \<Rightarrow> u32 \<Rightarrow> u64 \<Rightarrow> bool \<Rightarrow> kernel \<Rightarrow> outcome \<times> kernel" where
  "sys_event_queue_receive t equeue_id timeout is_vsh k0 =
     (let k1 = enter t k0; k = k1\<lparr>env := set_gpr t 3 0 (env k1)\<rparr>
      in case get_obj event_queue_base equeue_id k of
           Some (a, O_event_queue q) \<Rightarrow>
             (case queue_receive t timeout is_vsh (env k) q of
                (r, e, q1) \<Rightarrow> (r, put_obj a (O_event_queue q1) (k\<lparr>env := e\<rparr>)))
         | _ \<Rightarrow> (Ret CELL_ESRCH, k))"

definition sys_event_queue_drain :: "tid \<Rightarrow> u32 \<Rightarrow> kernel \<Rightarrow> outcome \<times> kernel" where
  "sys_event_queue_drain t equeue_id k0 =
     (let k = enter t k0
      in case get_obj event_queue_base equeue_id k of
           Some (a, O_event_queue q) \<Rightarrow> (Ret CELL_OK, put_obj a (O_event_queue (q\<lparr>eq_events := []\<rparr>)) k)
         | _ \<Rightarrow> (Ret CELL_ESRCH, k))"

text \<open>\<^verbatim>\<open>lv2_event_queue::find\<close>\<close>

definition queue_find :: "u64 \<Rightarrow> kernel \<Rightarrow> nat option" where
  "queue_find ipc_key k = (if ipc_key = SYS_EVENT_QUEUE_LOCAL then None else ipc_get ipc_key (ipc k event_queue_base))"

section \<open>Model: the system calls on ports\<close>

text \<open>\<^verbatim>\<open>lv2_obj::check(port.queue)\<close>: the queue that a port is connected to, if it still exists.\<close>

definition connected :: "lv2_event_port \<Rightarrow> kernel \<Rightarrow> (nat \<times> lv2_event_queue) option" where
  "connected p k =
     (case ep_queue p of
        None \<Rightarrow> None
      | Some a \<Rightarrow> (case heap k a of
                    Some (O_event_queue q) \<Rightarrow> if eq_exists q \<noteq> 0 then Some (a, q) else None
                  | _ \<Rightarrow> None))"

definition sys_event_port_create :: "tid \<Rightarrow> u32 \<Rightarrow> u32 \<Rightarrow> u64 \<Rightarrow> kernel \<Rightarrow> error_code \<times> kernel" where
  "sys_event_port_create t eport_id port_type name k0 =
     (let k = enter t k0
      in if port_type \<noteq> SYS_EVENT_PORT_LOCAL \<and> port_type \<noteq> 3 then (CELL_EINVAL, k)
         else case idm_make event_port_base
                 (O_event_port \<lparr>ep_exists = 0, ep_type = port_type, ep_name = name, ep_is_busy = 0, ep_queue = None\<rparr>) k of
                (Some i, k1) \<Rightarrow> (CELL_OK, write32 eport_id i k1)
              | (None, k1) \<Rightarrow> (CELL_EAGAIN, k1))"

definition event_port_destroy_check :: "nat \<Rightarrow> lv2_object \<Rightarrow> kernel \<Rightarrow> error_code \<times> kernel" where
  "event_port_destroy_check a x k =
     (case x of
        O_event_port p \<Rightarrow> if connected p k \<noteq> None then (CELL_EISCONN, k) else (CELL_OK, k)
      | _ \<Rightarrow> (CELL_OK, k))"

definition sys_event_port_destroy :: "tid \<Rightarrow> u32 \<Rightarrow> kernel \<Rightarrow> error_code \<times> kernel" where
  "sys_event_port_destroy t eport_id k =
     (case withdraw_if event_port_base eport_id event_port_destroy_check (enter t k) of
        (None, k1) \<Rightarrow> (CELL_ESRCH, k1)
      | (Some r, k1) \<Rightarrow> (r, k1))"

definition port_connect :: "u32 \<Rightarrow> u32 \<Rightarrow> nat option \<Rightarrow> kernel \<Rightarrow> error_code \<times> kernel" where
  "port_connect eport_id want qa k =
     (case (get_obj event_port_base eport_id k, qa) of
        (Some (a, O_event_port p), Some b) \<Rightarrow>
          if ep_type p \<noteq> want then (CELL_EINVAL, k)
          else if connected p k \<noteq> None then (CELL_EISCONN, k)
          else (CELL_OK, put_obj a (O_event_port (p\<lparr>ep_queue := Some b\<rparr>)) k)
      | _ \<Rightarrow> (CELL_ESRCH, k))"

definition sys_event_port_connect_local :: "tid \<Rightarrow> u32 \<Rightarrow> u32 \<Rightarrow> kernel \<Rightarrow> error_code \<times> kernel" where
  "sys_event_port_connect_local t eport_id equeue_id k0 =
     (let k = enter t k0
      in port_connect eport_id SYS_EVENT_PORT_LOCAL (map_option fst (get_obj event_queue_base equeue_id k)) k)"

definition sys_event_port_connect_ipc :: "tid \<Rightarrow> u32 \<Rightarrow> u64 \<Rightarrow> kernel \<Rightarrow> error_code \<times> kernel" where
  "sys_event_port_connect_ipc t eport_id ipc_key k0 =
     (let k = enter t k0
      in if ipc_key = 0 then (CELL_EINVAL, k) else port_connect eport_id SYS_EVENT_PORT_IPC (queue_find ipc_key k) k)"

definition sys_event_port_disconnect :: "tid \<Rightarrow> u32 \<Rightarrow> kernel \<Rightarrow> error_code \<times> kernel" where
  "sys_event_port_disconnect t eport_id k0 =
     (let k = enter t k0
      in case get_obj event_port_base eport_id k of
           Some (a, O_event_port p) \<Rightarrow>
             if connected p k = None then (CELL_ENOTCONN, k)
             else if ep_is_busy p \<noteq> 0 then (CELL_EBUSY, k)
             else (CELL_OK, put_obj a (O_event_port (p\<lparr>ep_queue := None\<rparr>)) k)
         | _ \<Rightarrow> (CELL_ESRCH, k))"

definition event_source :: "u32 \<Rightarrow> u32 \<Rightarrow> lv2_event_port \<Rightarrow> u64" where
  "event_source pid eport_id p = (if ep_name p \<noteq> 0 then ep_name p else push_bit 32 (ucast pid) OR ucast eport_id)"

text \<open>
  \<^verbatim>\<open>sys_event_port_send\<close> by the PPU thread \<open>t\<close>; \<open>pid\<close> is \<^verbatim>\<open>process_getpid()\<close>. \<open>Blocked\<close> means that a more
  urgent receiver was notified: the sender waits to be rescheduled and then runs \<open>port_send_end\<close>, where
  \<open>stopped\<close> is the result of \<^verbatim>\<open>test_stopped\<close>.
\<close>

definition sys_event_port_send ::
  "tid \<Rightarrow> u32 \<Rightarrow> u32 \<Rightarrow> u64 \<Rightarrow> u64 \<Rightarrow> u64 \<Rightarrow> kernel \<Rightarrow> outcome \<times> spu_msg option \<times> kernel" where
  "sys_event_port_send t pid eport_id d1 d2 d3 k0 =
     (let k = enter t k0
      in case get_obj event_port_base eport_id k of
           Some (a, O_event_port p) \<Rightarrow>
             if loaded_from_savestate (thr (env k) t)
             then (Blocked, None, put_obj a (O_event_port (p\<lparr>ep_is_busy := ep_is_busy p + 1\<rparr>)) k)
             else
               (case connected p k of
                  None \<Rightarrow> (Ret CELL_ENOTCONN, None, k)
                | Some (b, q) \<Rightarrow>
                    (let ppu_queue = (eq_type q = SYS_PPU_QUEUE)
                     in case queue_send (event_source pid eport_id p, d1, d2, d3)
                               (if ppu_queue then Some p else None) (env k) q of
                          (r, notified, msg, e, q1, p1) \<Rightarrow>
                            (let k1 = put_obj b (O_event_queue q1) (k\<lparr>env := e\<rparr>);
                                 k2 = (case p1 of None \<Rightarrow> k1 | Some p' \<Rightarrow> put_obj a (O_event_port p') k1)
                             in (if notified then Blocked else Ret r, msg, k2))))
         | _ \<Rightarrow> (Ret CELL_ESRCH, None, k))"

definition port_send_end :: "tid \<Rightarrow> nat \<Rightarrow> bool \<Rightarrow> kernel \<Rightarrow> outcome \<times> kernel" where
  "port_send_end t a stopped k =
     (let k1 = (if stopped then k\<lparr>env := add_flag t F_again (env k)\<rparr> else k)
      in case heap k a of
           Some (O_event_port p) \<Rightarrow>
             (Ret CELL_OK, put_obj a (O_event_port (p\<lparr>ep_is_busy := ep_is_busy p - 1\<rparr>)) k1)
         | _ \<Rightarrow> (Fatal, crash k1))"

section \<open>Model: save states\<close>

definition event_queue_save :: "lv2_event_queue \<Rightarrow> u32 \<times> u32 \<times> nat \<times> u64 \<times> u64 \<times> lv2_event list" where
  "event_queue_save q = (eq_protocol q, eq_type q, eq_size q, eq_name q, eq_key q, eq_events q)"

definition event_queue_load :: "u32 \<Rightarrow> u32 \<times> u32 \<times> nat \<times> u64 \<times> u64 \<times> lv2_event list \<Rightarrow> lv2_event_queue" where
  "event_queue_load last_id im = (case im of (p, ty, sz, n, ky, evs) \<Rightarrow>
     \<lparr>eq_exists = 0, eq_id = last_id, eq_protocol = p, eq_type = ty, eq_size = sz, eq_name = n, eq_key = ky,
      eq_events = evs, eq_sq = [], eq_pq = []\<rparr>)"

text \<open>\<^verbatim>\<open>lv2_event_queue::save_ptr\<close>: a port is saved with the identifier of its queue, or zero.\<close>

definition save_ptr :: "lv2_event_port \<Rightarrow> kernel \<Rightarrow> u32" where
  "save_ptr p k = (case connected p k of None \<Rightarrow> 0 | Some (_, q) \<Rightarrow> eq_id q)"

interpretation event_queue_del: destroy_call "event_queue_base" "event_queue_destroy_check t mode" for t mode
  by unfold_locales (simp add: event_queue_destroy_check_def Let_def split: lv2_object.splits)

interpretation event_port_del: destroy_call "event_port_base" "event_port_destroy_check"
  by unfold_locales (simp add: event_port_destroy_check_def split: lv2_object.splits)

section \<open>Lemmas on the queue\<close>

definition eq_inv :: "lv2_event_queue \<Rightarrow> bool" where
  "eq_inv q \<longleftrightarrow> 0 < eq_size q \<and> eq_size q \<le> 127 \<and> length (eq_events q) \<le> eq_size q \<and>
     distinct (eq_pq q) \<and> distinct (eq_sq q) \<and> (eq_pq q \<noteq> [] \<or> eq_sq q \<noteq> [] \<longrightarrow> eq_events q = []) \<and>
     (eq_type q = SYS_PPU_QUEUE \<longrightarrow> eq_sq q = []) \<and> (eq_type q \<noteq> SYS_PPU_QUEUE \<longrightarrow> eq_pq q = [])"

definition regs_event :: "lv2 \<Rightarrow> tid \<Rightarrow> lv2_event" where
  "regs_event e c = (gpr (thr e c) 4, gpr (thr e c) 5, gpr (thr e c) 6, gpr (thr e c) 7)"

lemma regs_set_event [simp]: "regs_event (set_event c ev e) c = ev"
  by (cases ev) (simp add: regs_event_def set_event_def thr_set_gpr)

lemma regs_awake1 [simp]: "regs_event (awake1 d e) c = regs_event e c"
  by (simp add: regs_event_def)

lemma regs_fatal [simp]: "regs_event (e\<lparr>fatal := b\<rparr>) c = regs_event e c"
  by (simp add: regs_event_def)

lemma pop_events_eq: "pop_events n evs = (take n evs, drop n evs)"
  by (induction n evs rule: pop_events.induct) auto

text \<open>Sending to a queue of PPU threads, on every branch.\<close>

lemma queue_send_handed:
  assumes "eq_exists q \<noteq> 0" "eq_type q = SYS_PPU_QUEUE" "F_again \<notin> state (thr e c)" "eq_pq q \<noteq> []"
    and s: "schedule (thr e) (eq_protocol q) (eq_pq q) = (Some c, pq)"
    and run: "queue_send ev port e q = (r, notified, msg, e', q', port')"
  shows "r = CELL_OK \<and> q' = q\<lparr>eq_pq := pq\<rparr> \<and> regs_event e' c = ev \<and>
    (if notified then \<exists>p. port = Some p \<and> port' = Some (p\<lparr>ep_is_busy := ep_is_busy p + 1\<rparr>) else port' = port)"
proof -
  define e1 where "e1 = awake1 c (set_event c ev e)"
  have e1: "regs_event e1 c = ev" by (simp add: e1_def)
  have eq: "queue_send ev port e q = (case port of
        None \<Rightarrow> (CELL_OK, False, None, e1, q\<lparr>eq_pq := pq\<rparr>, None)
      | Some p \<Rightarrow>
          (case cur e1 of
             None \<Rightarrow> (CELL_OK, False, None, e1\<lparr>fatal := True\<rparr>, q\<lparr>eq_pq := pq\<rparr>, port)
           | Some t \<Rightarrow>
               if sint (prio (thr e1 c)) < sint (prio (thr e1 t))
               then (CELL_OK, True, None, e1, q\<lparr>eq_pq := pq\<rparr>, Some (p\<lparr>ep_is_busy := ep_is_busy p + 1\<rparr>))
               else (CELL_OK, False, None, e1, q\<lparr>eq_pq := pq\<rparr>, port)))"
    unfolding e1_def using assms(1-4) s by (simp add: queue_send_def Let_def)
  show ?thesis
  proof (cases port)
    case None
    then show ?thesis using run [symmetric] unfolding eq by (simp add: e1)
  next
    case p: (Some p)
    show ?thesis
      using run [symmetric] unfolding eq
      by (cases "cur e1") (simp_all add: p e1 split: if_splits)
  qed
qed

lemma queue_send_cases:
  assumes inv: "eq_inv q" and ty: "eq_type q = SYS_PPU_QUEUE" and ex: "eq_exists q \<noteq> 0"
    and ag: "\<forall>c \<in> set (eq_pq q). F_again \<notin> state (thr e c)"
    and run: "queue_send ev port e q = (r, notified, msg, e', q', port')"
  obtains (stored) "eq_pq q = []" "length (eq_events q) < eq_size q" "r = CELL_OK" "\<not> notified" "e' = e"
      "q' = q\<lparr>eq_events := eq_events q @ [ev]\<rparr>" "port' = port"
  | (full) "eq_pq q = []" "length (eq_events q) = eq_size q" "r = CELL_EBUSY" "\<not> notified" "e' = e" "q' = q" "port' = port"
  | (handed) c where "pick (thr e) (eq_protocol q) (eq_pq q) = Some c" "c \<in> set (eq_pq q)" "r = CELL_OK"
      "q' = q\<lparr>eq_pq := remove1 c (eq_pq q)\<rparr>" "regs_event e' c = ev"
      "if notified then \<exists>p. port = Some p \<and> port' = Some (p\<lparr>ep_is_busy := ep_is_busy p + 1\<rparr>) else port' = port"
proof (cases "eq_pq q = []")
  case True
  from inv ty have sq: "eq_sq q = []" "length (eq_events q) \<le> eq_size q" by (simp_all add: eq_inv_def)
  show ?thesis
  proof (cases "length (eq_events q) < eq_size q")
    case lt: True
    then have "(r, notified, msg, e', q', port') =
        (CELL_OK, False, None, e, q\<lparr>eq_events := eq_events q @ [ev]\<rparr>, port)"
      using run [symmetric] ex True sq(1) by (simp add: queue_send_def)
    then show ?thesis using True lt by (intro stored) simp_all
  next
    case False
    then have "(r, notified, msg, e', q', port') = (CELL_EBUSY, False, None, e, q, port)"
      using run [symmetric] ex True sq(1) by (simp add: queue_send_def)
    then show ?thesis using True False sq(2) by (intro full) simp_all
  qed
next
  case False
  then obtain c where c: "pick (thr e) (eq_protocol q) (eq_pq q) = Some c"
    by (cases "pick (thr e) (eq_protocol q) (eq_pq q)") simp_all
  then have m: "c \<in> set (eq_pq q)" by (rule pick_mem)
  then have a: "F_again \<notin> state (thr e c)" using ag by simp
  then have "schedule (thr e) (eq_protocol q) (eq_pq q) = (Some c, remove1 c (eq_pq q))"
    using c by (simp add: schedule_def)
  from queue_send_handed [OF ex ty a False this run] show ?thesis using c m handed [of c] by blast
qed

section \<open>The queue is a bounded FIFO\<close>

text \<open>
  A queue of PPU threads as a transition system. Two histories run along: the events that were
  accepted, and the events that receivers got, read from their registers or from the array that
  \<^verbatim>\<open>tryreceive\<close> fills. \<^verbatim>\<open>drain\<close> forgets the events that are stored.
\<close>

record eqsys =
  es_env :: lv2
  es_queue :: lv2_event_queue
  es_sent :: "lv2_event list"
  es_got :: "lv2_event list"

inductive eq_step :: "eqsys \<Rightarrow> eqsys \<Rightarrow> bool" where
  send_stored: "es_queue s = q \<Longrightarrow> eq_pq q = [] \<Longrightarrow>
     queue_send ev port (es_env s) q = (CELL_OK, notified, msg, e', q', port') \<Longrightarrow>
     eq_step s (s\<lparr>es_env := e', es_queue := q', es_sent := es_sent s @ [ev]\<rparr>)"
| send_handed: "es_queue s = q \<Longrightarrow> \<forall>c \<in> set (eq_pq q). F_again \<notin> state (thr (es_env s) c) \<Longrightarrow>
     pick (thr (es_env s)) (eq_protocol q) (eq_pq q) = Some c \<Longrightarrow>
     queue_send ev port (es_env s) q = (CELL_OK, notified, msg, e', q', port') \<Longrightarrow>
     eq_step s (s\<lparr>es_env := e', es_queue := q', es_sent := es_sent s @ [ev], es_got := es_got s @ [regs_event e' c]\<rparr>)"
| send_refused: "es_queue s = q \<Longrightarrow> queue_send ev port (es_env s) q = (r, notified, msg, e', q', port') \<Longrightarrow>
     r \<noteq> CELL_OK \<Longrightarrow> eq_step s (s\<lparr>es_env := e', es_queue := q'\<rparr>)"
| receive: "es_queue s = q \<Longrightarrow> t \<notin> set (eq_pq q) \<Longrightarrow> queue_receive t timeout vsh (es_env s) q = (r, e', q') \<Longrightarrow>
     eq_step s (s\<lparr>es_env := e', es_queue := q', es_got := es_got s @ (if r = Ret CELL_OK then [regs_event e' t] else [])\<rparr>)"
| tryreceive: "queue_tryreceive sz (es_queue s) = (r, evs, q') \<Longrightarrow>
     eq_step s (s\<lparr>es_queue := q', es_got := es_got s @ evs\<rparr>)"
| timeout: "es_queue s = q \<Longrightarrow> cancel_wait t eq_pq eq_pq_update (es_env s) q = (e', q') \<Longrightarrow>
     eq_step s (s\<lparr>es_env := e', es_queue := q'\<rparr>)"
| drain: "eq_step s (s\<lparr>es_queue := (es_queue s)\<lparr>eq_events := []\<rparr>, es_sent := es_got s\<rparr>)"
| other: "eq_step s (s\<lparr>es_env := e'\<rparr>)"

definition eqsys_inv :: "eqsys \<Rightarrow> bool" where
  "eqsys_inv s \<longleftrightarrow> eq_inv (es_queue s) \<and> eq_type (es_queue s) = SYS_PPU_QUEUE \<and> eq_exists (es_queue s) \<noteq> 0 \<and>
     es_sent s = es_got s @ eq_events (es_queue s)"

lemma eq_inv_remove: "eq_inv q \<Longrightarrow> eq_inv (q\<lparr>eq_pq := remove1 c (eq_pq q)\<rparr>)"
  by (auto simp: eq_inv_def)

lemma queue_send_refused:
  assumes "eq_inv q" "eq_type q = SYS_PPU_QUEUE" "queue_send ev port e q = (r, notified, msg, e', q', port')" "r \<noteq> CELL_OK"
  shows "q' = q"
proof (cases "eq_pq q = [] \<or> eq_exists q = 0")
  case True
  then show ?thesis using assms by (auto simp: queue_send_def eq_inv_def split: if_splits)
next
  case False
  show ?thesis
  proof (rule schedule_cases [of "eq_pq q" "thr e" "eq_protocol q"])
    fix c assume "F_again \<in> state (thr e c)" "schedule (thr e) (eq_protocol q) (eq_pq q) = (Some c, eq_pq q)"
    then show ?thesis using False assms(2,3) by (simp add: queue_send_def)
  next
    fix c assume a: "F_again \<notin> state (thr e c)"
      and s: "schedule (thr e) (eq_protocol q) (eq_pq q) = (Some c, remove1 c (eq_pq q))"
    from queue_send_handed [OF _ assms(2) a _ s assms(3)] False assms(4) show ?thesis by simp
  qed (use False in simp)
qed

lemma eqsys_inv_receive:
  assumes "eq_inv q" "eq_type q = SYS_PPU_QUEUE" "t \<notin> set (eq_pq q)" "queue_receive t timeout vsh e q = (r, e', q')"
  shows "eq_inv q' \<and> eq_type q' = SYS_PPU_QUEUE \<and> eq_exists q' = eq_exists q \<and>
    (if r = Ret CELL_OK then [regs_event e' t] else []) @ eq_events q' = eq_events q"
proof (cases "eq_events q")
  case Nil
  then have "r = Blocked" "q' = q\<lparr>eq_pq := t # eq_pq q\<rparr>"
    using assms(2,4) by (auto simp: queue_receive_def Let_def emplace_def)
  then show ?thesis using assms(1-3) Nil by (auto simp: eq_inv_def)
next
  case (Cons ev evs)
  then have "r = Ret CELL_OK" "e' = set_event t ev e" "q' = q\<lparr>eq_events := evs\<rparr>"
    using assms(2,4) by (simp_all add: queue_receive_def)
  then show ?thesis using assms(1,2) Cons by (auto simp: eq_inv_def)
qed

lemma eqsys_inv_step: "eq_step s s' \<Longrightarrow> eqsys_inv s \<Longrightarrow> eqsys_inv s'"
proof (induction rule: eq_step.induct)
  case (send_stored s q ev port notified msg e' q' port')
  then have i: "eq_inv q" "eq_type q = SYS_PPU_QUEUE" "eq_exists q \<noteq> 0" "\<forall>c \<in> set (eq_pq q). F_again \<notin> state (thr (es_env s) c)"
    by (simp_all add: eqsys_inv_def)
  from i send_stored(3) show ?case
  proof (cases rule: queue_send_cases)
    case stored
    then show ?thesis using send_stored i by (simp add: eqsys_inv_def eq_inv_def)
  qed (use send_stored in simp_all)
next
  case (send_handed s q c ev port notified msg e' q' port')
  then have i: "eq_inv q" "eq_type q = SYS_PPU_QUEUE" "eq_exists q \<noteq> 0" by (simp_all add: eqsys_inv_def)
  have m: "eq_pq q \<noteq> []" using send_handed(3) by auto
  from i send_handed(2,4) show ?case
  proof (cases rule: queue_send_cases)
    case (handed d)
    then have "d = c" using send_handed(3) by simp
    then show ?thesis using send_handed i handed m eq_inv_remove [OF i(1), of c]
      by (simp add: eqsys_inv_def) (simp add: eq_inv_def)
  qed (use m in simp_all)
next
  case (send_refused s q ev port r notified msg e' q' port')
  then have "q' = q" using queue_send_refused [of q ev port "es_env s"] by (simp add: eqsys_inv_def)
  then show ?case using send_refused by (simp add: eqsys_inv_def)
next
  case (receive s q t timeout vsh r e' q')
  then show ?case using eqsys_inv_receive [of q t timeout vsh "es_env s" r e' q'] by (auto simp: eqsys_inv_def)
next
  case (tryreceive sz s r evs q')
  then show ?case by (auto simp: eqsys_inv_def queue_tryreceive_def pop_events_eq eq_inv_def)
next
  case (timeout s q t e' q')
  then have "q' = q \<or> q' = q\<lparr>eq_pq := remove1 t (eq_pq q)\<rparr>"
    by (auto simp: cancel_wait_def Let_def split: if_splits)
  then show ?case using timeout eq_inv_remove [of q t] by (auto simp: eqsys_inv_def)
next
  case (drain s)
  then show ?case by (simp add: eqsys_inv_def eq_inv_def)
next
  case (other s e')
  then show ?case by (simp add: eqsys_inv_def)
qed

section \<open>Lemmas on the calls\<close>

definition read_event :: "nat \<Rightarrow> kernel \<Rightarrow> lv2_event" where
  "read_event a k =
     (of_be (vm_read a 8 (mem k)), of_be (vm_read (a + 8) 8 (mem k)), of_be (vm_read (a + 16) 8 (mem k)),
      of_be (vm_read (a + 24) 8 (mem k)))"

lemma length_event_bytes [simp]: "length (event_bytes ev) = 32"
  by (cases ev) (simp add: event_bytes_def)

lemma length_events [simp]: "length (concat (map event_bytes evs)) = 32 * length evs"
  by (induction evs) simp_all

lemma events_at:
  "i < length evs \<Longrightarrow> drop (32 * i) (concat (map event_bytes evs)) =
     event_bytes (evs ! i) @ concat (map event_bytes (drop (Suc i) evs))"
proof (induction evs arbitrary: i)
  case (Cons ev evs)
  show ?case
  proof (cases i)
    case 0
    then show ?thesis by simp
  next
    case (Suc n)
    then show ?thesis using Cons by simp
  qed
qed simp

lemma write_events_sel [simp]: "heap (write_events a evs k) = heap k" "env (write_events a evs k) = env k"
  "ids (write_events a evs k) = ids k" "mem (write_events a evs k) = vm_write (unat a) (concat (map event_bytes evs)) (mem k)"
  by (simp_all add: write_events_def)

lemma write32_sel [simp]: "heap (write32 a v k) = heap k" "env (write32 a v k) = env k" "ids (write32 a v k) = ids k"
  "mem (write32 a v k) = vm_write (unat a) (be_bytes v) (mem k)"
  by (simp_all add: write32_def)

text \<open>The four words of the event at position \<open>i\<close> of an array in memory.\<close>

lemma read_events:
  assumes "i < length evs"
  shows "read_event (unat a + 32 * i) (write_events a evs k) = evs ! i"
proof -
  obtain s d1 d2 d3 where ev: "evs ! i = (s, d1, d2, d3)" by (metis prod_cases4)
  have part: "vm_read (unat a + 32 * i + d) 8 (mem (write_events a evs k)) = take 8 (drop d (event_bytes (evs ! i)))"
    if "d \<le> 24" for d
  proof -
    have "d + 32 * i + 8 \<le> length (concat (map event_bytes evs))" using assms that by simp
    then have "vm_read (unat a + (32 * i + d)) 8 (mem (write_events a evs k)) =
        take 8 (drop d (drop (32 * i) (concat (map event_bytes evs))))"
      by (subst write_events_sel, subst vm_read_part) (simp_all add: add.commute)
    then show ?thesis using that by (simp add: events_at [OF assms] add.assoc)
  qed
  from part [of 0] part [of 8] part [of 16] part [of 24] show ?thesis
    by (simp add: read_event_def ev event_bytes_def)
qed

lemma read_event_cong:
  "(\<And>x. a \<le> x \<Longrightarrow> x < a + 32 \<Longrightarrow> mem k x = mem k' x) \<Longrightarrow> read_event a k = read_event a k'"
  by (auto simp: read_event_def vm_read_def intro!: arg_cong [of _ _ of_be])

lemma cancel_ppus_eq:
  "g_to_awake (cancel_ppus q e) = g_to_awake e @ q \<and>
   (\<forall>c. gpr (thr (cancel_ppus q e) c) 3 = (if c \<in> set q then ucast (CELL_ECANCELED) else gpr (thr e c) 3))"
  by (induction q e rule: cancel_ppus.induct) (auto simp: append_awake_def thr_set_gpr set_gpr_def)

section \<open>Properties\<close>

text \<open>
  Claim C17. An event queue is a FIFO: in every state that sending, receiving (blocking or not), timeouts and
  draining can reach, the events that receivers got, in the order in which they got them, followed by the
  events stored in the queue, are the accepted events in the order in which they were sent. None is lost,
  duplicated or reordered, at most \<^verbatim>\<open>size\<close> are stored, and nobody waits while an event is stored.
\<close>

theorem event_queue_fifo:
  assumes "eq_step\<^sup>*\<^sup>* s0 s" "eqsys_inv s0"
  shows "es_sent s = es_got s @ eq_events (es_queue s) \<and> length (eq_events (es_queue s)) \<le> eq_size (es_queue s) \<and>
    (eq_pq (es_queue s) \<noteq> [] \<longrightarrow> eq_events (es_queue s) = [] \<and> es_got s = es_sent s)"
proof -
  from assms have "eqsys_inv s"
    by (induction rule: rtranclp_induct) (use eqsys_inv_step in auto)
  then show ?thesis by (auto simp: eqsys_inv_def eq_inv_def)
qed

definition demo_queue :: lv2_event_queue where
  "demo_queue = \<lparr>eq_exists = 1, eq_id = 0x8d000000, eq_protocol = SYS_SYNC_FIFO, eq_type = SYS_PPU_QUEUE, eq_size = 2,
     eq_name = 0, eq_key = 0, eq_events = [], eq_sq = [], eq_pq = []\<rparr>"

theorem event_queue_fifo_witness:
  "\<exists>s. eq_step\<^sup>*\<^sup>* \<lparr>es_env = demo_lv2 [], es_queue = demo_queue, es_sent = [], es_got = []\<rparr> s \<and>
     es_sent s = [(1, 2, 3, 4)] \<and> es_sent s = es_got s @ eq_events (es_queue s)"
proof -
  let ?s = "\<lparr>es_env = demo_lv2 [], es_queue = demo_queue, es_sent = [], es_got = []\<rparr>"
  let ?t = "?s\<lparr>es_queue := demo_queue\<lparr>eq_events := [(1, 2, 3, 4)]\<rparr>, es_sent := [(1, 2, 3, 4)]\<rparr>"
  have "queue_send (1, 2, 3, 4) None (demo_lv2 []) demo_queue =
      (CELL_OK, False, None, demo_lv2 [], demo_queue\<lparr>eq_events := [(1, 2, 3, 4)]\<rparr>, None)"
    by (simp add: queue_send_def demo_queue_def)
  then have "eq_step ?s ?t"
    using eq_step.send_stored [of ?s demo_queue "(1, 2, 3, 4)" None False] by (simp add: demo_queue_def)
  then have r: "eq_step\<^sup>*\<^sup>* ?s ?t" by blast
  moreover have "eqsys_inv ?s" by (simp add: eqsys_inv_def eq_inv_def demo_queue_def)
  ultimately show ?thesis using event_queue_fifo [of ?s ?t] by (intro exI [of _ ?t]) simp
qed

text \<open>
  Claim C33. \<^verbatim>\<open>sys_event_queue_tryreceive\<close> stays inside its local array of 127 events and inside the guest's
  array: it takes the oldest \<open>min (size, stored)\<close> events (none for a negative size), changes no byte of guest
  memory but the 32 bytes of each of them and the four bytes of \<^verbatim>\<open>number\<close>, reports their number there and
  leaves the others stored. The events read back in order from the array if the bytes of \<^verbatim>\<open>number\<close> are not
  among those of the array: the count is written last, over whatever is there.
\<close>

theorem event_tryreceive_bounds:
  assumes "get_obj event_queue_base j k = Some (a, O_event_queue q)" "eq_inv q" "eq_type q = SYS_PPU_QUEUE" "eq_exists q \<noteq> 0"
    and n: "n = min (nat sz) (length (eq_events q))"
  shows "\<exists>k'. sys_event_queue_tryreceive t j arr sz number k = (Ret CELL_OK, k') \<and> n \<le> 127 \<and>
    of_be (vm_read (unat number) 4 (mem k')) = (of_nat n :: u32) \<and>
    (unat number + 4 \<le> unat arr \<or> unat arr + 32 * n \<le> unat number \<longrightarrow>
       (\<forall>i < n. read_event (unat arr + 32 * i) k' = eq_events q ! i)) \<and>
    (\<forall>x. x \<notin> {unat arr ..< unat arr + 32 * n} \<and> x \<notin> {unat number ..< unat number + 4} \<longrightarrow> mem k' x = mem k x) \<and>
    heap k' a = Some (O_event_queue (q\<lparr>eq_events := drop n (eq_events q)\<rparr>))"
proof -
  let ?evs = "take (nat sz) (eq_events q)"
  let ?k0 = "put_obj a (O_event_queue (q\<lparr>eq_events := drop n (eq_events q)\<rparr>)) (enter t k)"
  define k1 k' where "k1 = write_events arr ?evs ?k0" and "k' = write32 number (of_nat n) k1"
  have len: "length ?evs = n" "n \<le> 127" using assms(2) by (auto simp: eq_inv_def n)
  have dr: "drop (nat sz) (eq_events q) = drop n (eq_events q)" by (simp add: n min_def)
  have run: "sys_event_queue_tryreceive t j arr sz number k = (Ret CELL_OK, k')"
    using assms(1,3,4) len dr
    by (simp add: sys_event_queue_tryreceive_def queue_tryreceive_def pop_events_eq Let_def k1_def k'_def)
  have out: "mem k' x = mem k1 x" if "x \<notin> {unat number ..< unat number + 4}" for x
    using that by (auto simp: k'_def intro!: vm_write_outside)
  have "read_event (unat arr + 32 * i) k' = eq_events q ! i"
    if "unat number + 4 \<le> unat arr \<or> unat arr + 32 * n \<le> unat number" and i: "i < n" for i
  proof -
    have "read_event (unat arr + 32 * i) k' = read_event (unat arr + 32 * i) k1"
      using that by (intro read_event_cong out) auto
    also have "\<dots> = ?evs ! i" unfolding k1_def using i len(1) by (intro read_events) simp
    finally show ?thesis using i by (simp add: n)
  qed
  moreover have "mem k' x = mem k x"
    if "x \<notin> {unat arr ..< unat arr + 32 * n}" "x \<notin> {unat number ..< unat number + 4}" for x
  proof -
    have "mem k1 x = mem ?k0 x" unfolding k1_def write_events_sel
      using that(1) len(1) by (intro vm_write_outside) auto
    with out [OF that(2)] show ?thesis by simp
  qed
  moreover have "of_be (vm_read (unat number) 4 (mem k')) = (of_nat n :: u32)"
    using vm_read_write [of "unat number" "be_bytes (of_nat n :: u32)" "mem k1"] by (simp add: k'_def)
  ultimately show ?thesis using run len(2) by (intro exI [of _ k']) (simp add: k'_def k1_def)
qed

theorem event_tryreceive_bounds_witness:
  "\<exists>k'. sys_event_queue_tryreceive 1 event_queue_base 0x1000 5 0x10
      (demo_kernel (O_event_queue (demo_queue\<lparr>eq_events := [(1, 2, 3, 4)]\<rparr>)) []) = (Ret CELL_OK, k') \<and>
     of_be (vm_read 0x10 4 (mem k')) = (1 :: u32) \<and> read_event 0x1000 k' = (1, 2, 3, 4)"
proof -
  let ?q = "demo_queue\<lparr>eq_events := [(1, 2, 3, 4)]\<rparr>"
  have q: "get_obj event_queue_base event_queue_base (demo_kernel (O_event_queue ?q) []) = Some (0, O_event_queue ?q)"
    by (simp add: demo_kernel_get)
  from event_tryreceive_bounds [OF q, of 1 5 1 "0x1000" "0x10"] show ?thesis
    by (auto simp: eq_inv_def demo_queue_def)
qed

text \<open>
  Destroying the last handle of a queue of PPU threads. Without force a queue with waiters is refused
  with \<^verbatim>\<open>CELL_EBUSY\<close> and nothing changes. Otherwise the handle is retired, every waiter wakes up with
  \<^verbatim>\<open>CELL_ECANCELED\<close>, and all later sends, from ports that are still connected, fail with \<^verbatim>\<open>CELL_ENOTCONN\<close>.
\<close>

theorem event_queue_destroy_behaviour:
  assumes "idm_inv (ids k)" "get_obj event_queue_base j k = Some (a, O_event_queue q)" "eq_type q = SYS_PPU_QUEUE"
    and "eq_exists q = 1" "mode = 0 \<or> mode = SYS_EVENT_QUEUE_DESTROY_FORCE"
    and "\<forall>c \<in> insert t (set (eq_pq q)). F_again \<notin> state (thr (env k) c)"
    and run: "sys_event_queue_destroy t j mode k = (r, msgs, k')"
  shows "if mode = 0 \<and> eq_pq q \<noteq> [] then r = Ret CELL_EBUSY \<and> k' = enter t k
    else r = Ret CELL_OK \<and> get_obj event_queue_base j k' = None \<and>
      (\<exists>q'. heap k' a = Some (O_event_queue q') \<and> eq_pq q' = [] \<and>
         (\<forall>ev port e. queue_send ev port e q' = (CELL_ENOTCONN, False, None, e, q', port))) \<and>
      (\<forall>c \<in> set (eq_pq q). gpr (thr (env k') c) 3 = ucast (CELL_ECANCELED))"
proof (cases "mode = 0 \<and> eq_pq q \<noteq> []")
  case True
  then have "event_queue_destroy_check t mode a (O_event_queue q) (enter t k) = (CELL_EBUSY, enter t k)"
    using assms(3) by (simp add: event_queue_destroy_check_def queue_head_def)
  then show ?thesis using True run assms(2,6)
    by (auto simp: sys_event_queue_destroy_def withdraw_if_def thr_add_flag)
next
  case False
  define k1 where "k1 = on_id_destroy event_queue_base a (eq_key q) (eq_key q \<noteq> 0) (enter t k)"
  define k2 where "k2 = k1\<lparr>ids := lv2_delete event_queue_base j (ids k1)\<rparr>"
  have k1: "heap k1 a = Some (O_event_queue (q\<lparr>eq_exists := 0\<rparr>))" "env k1 = add_flag t F_wait (env k)" "ids k1 = ids k"
    using get_obj_heap [OF assms(2)] assms(4) by (simp_all add: k1_def on_id_destroy_def Let_def)
  have ag: "F_again \<notin> state (thr (env k1) c)" if "c \<in> insert t (set (eq_pq q))" for c
    using assms(6) that by (auto simp: k1(2) thr_add_flag)
  then have "event_queue_destroy_check t mode a (O_event_queue q) (enter t k) = (CELL_OK, k1)"
    using False assms(3) by (auto simp: event_queue_destroy_check_def queue_head_def k1_def [symmetric] Let_def)
  then have w: "withdraw_if event_queue_base j (event_queue_destroy_check t mode) (enter t k) = (Some CELL_OK, k2)"
    using assms(2) by (simp add: withdraw_if_def k2_def)
  have gone: "idm_get event_queue_base (lv2_traits event_queue_base) j (ids k2) = None"
    using assms(1) by (simp add: k2_def k1(3) idm_get_lv2_look idm_inv_delete idm.del_look)
  then have none: "get_obj event_queue_base j k2 = None" by (simp add: get_obj_def)
  define e2 q2 where "e2 = awake_all (cancel_ppus (eq_pq q) (env k1))" and "q2 = q\<lparr>eq_exists := 0, eq_pq := []\<rparr>"
  have k': "r = Ret CELL_OK \<and> k' = (if eq_pq q = [] then k2 else put_obj a (O_event_queue q2) (k2\<lparr>env := e2\<rparr>))"
    using run assms(2,3,5) w ag [of t] k1(1)
    by (auto simp: sys_event_queue_destroy_def queue_head_def queue_wake_all_def Let_def e2_def q2_def k2_def)
  have "get_obj event_queue_base j (put_obj a y (k2\<lparr>env := e\<rparr>)) = None" for y e
    using gone by (simp add: get_obj_def)
  moreover have "heap k' a = Some (O_event_queue q2)" using k' k1(1) by (simp add: q2_def k2_def)
  moreover have "gpr (thr (env k') c) 3 = ucast (CELL_ECANCELED)" if "c \<in> set (eq_pq q)" for c
    using k' that cancel_ppus_eq [of "eq_pq q" "env k1"] by (auto simp: e2_def)
  ultimately show ?thesis
    using False k' none by (auto simp: q2_def queue_send_def)
qed

theorem event_queue_destroy_behaviour_witness:
  "\<exists>msgs k'. sys_event_queue_destroy 1 event_queue_base 1 (demo_kernel (O_event_queue (demo_queue\<lparr>eq_pq := [5, 3]\<rparr>)) []) =
       (Ret CELL_OK, msgs, k') \<and> gpr (thr (env k') 5) 3 = ucast (CELL_ECANCELED)"
proof -
  let ?q = "demo_queue\<lparr>eq_pq := [5, 3]\<rparr>"
  let ?k = "demo_kernel (O_event_queue ?q) []"
  obtain r msgs k' where r: "sys_event_queue_destroy 1 event_queue_base 1 ?k = (r, msgs, k')" by (metis prod_cases3)
  have "get_obj event_queue_base event_queue_base ?k = Some (0, O_event_queue ?q)" by (simp add: demo_kernel_get)
  from event_queue_destroy_behaviour [OF demo_kernel_idm this _ _ _ _ r]
  have "r = Ret CELL_OK" "gpr (thr (env k') 5) 3 = ucast (CELL_ECANCELED)"
    by (auto simp: demo_queue_def demo_kernel_def demo_defs)
  with r show ?thesis by blast
qed

text \<open>
  \<^verbatim>\<open>sys_event_port_disconnect\<close> refuses a port in use by a sender that waits to be rescheduled, but
  \<^verbatim>\<open>sys_event_port_destroy\<close> does not look at \<^verbatim>\<open>is_busy\<close>: once the queue has been destroyed, the port is destroyed
  while the sender still holds a pointer to it, which it writes through when it resumes.
\<close>

theorem event_port_destroyed_while_busy:
  assumes "idm_inv (ids k)" "get_obj event_port_base j k = Some (a, O_event_port p)" "ep_is_busy p \<noteq> 0"
    and "ep_queue p = Some b" "heap k b = Some (O_event_queue q)" "eq_exists q = 0"
  shows "\<exists>k'. sys_event_port_destroy t j k = (CELL_OK, k') \<and> get_obj event_port_base j k' = None"
proof -
  have "connected p (enter t k) = None" using assms(4-6) by (simp add: connected_def)
  then have "sys_event_port_destroy t j k = (CELL_OK, (enter t k)\<lparr>ids := lv2_delete event_port_base j (ids k)\<rparr>)"
    using assms(2) by (simp add: sys_event_port_destroy_def withdraw_if_def event_port_destroy_check_def)
  then show ?thesis using get_obj_deleted [of "enter t k" event_port_base j] assms(1) by simp
qed

theorem event_port_destroyed_while_busy_witness:
  "let k = put_obj 1 (O_event_queue (demo_queue\<lparr>eq_exists := 0\<rparr>))
         (demo_kernel (O_event_port \<lparr>ep_exists = 0, ep_type = 1, ep_name = 0, ep_is_busy = 1, ep_queue = Some 1\<rparr>) [])
   in \<exists>k'. sys_event_port_destroy 1 event_port_base k = (CELL_OK, k') \<and> get_obj event_port_base event_port_base k' = None"
proof -
  let ?p = "\<lparr>ep_exists = 0, ep_type = 1, ep_name = 0, ep_is_busy = 1, ep_queue = Some 1\<rparr> :: lv2_event_port"
  let ?k0 = "demo_kernel (O_event_port ?p) []"
  let ?k = "put_obj 1 (O_event_queue (demo_queue\<lparr>eq_exists := 0\<rparr>)) ?k0"
  have g: "get_obj event_port_base event_port_base ?k = Some (0, O_event_port ?p)"
    by (rule get_obj_put_other) (simp_all add: demo_kernel_get)
  have i: "idm_inv (ids ?k)" using demo_kernel_idm [of "O_event_port ?p" "[]"] by simp
  have "ep_is_busy ?p \<noteq> 0" "ep_queue ?p = Some 1" "heap ?k 1 = Some (O_event_queue (demo_queue\<lparr>eq_exists := 0\<rparr>))"
    "eq_exists (demo_queue\<lparr>eq_exists := 0\<rparr>) = 0" by simp_all
  from event_port_destroyed_while_busy [OF i g this] show ?thesis unfolding Let_def .
qed

end
