(* ===== verification/Sys_Cond.thy ===== *)
theory Sys_Cond
  imports Sys_Mutex
begin

text \<open>
  The condition variable of \<^verbatim>\<open>sys_cond.h\<close> and \<^verbatim>\<open>sys_cond.cpp\<close>. A waiter leaves its mutex, queues at
  the condition variable, is moved to the mutex (as owner or into its queue) by a signal or by its
  own timeout, and returns owning the mutex with the recursion count it had before. The calls are given
  on the condition variable and its mutex; the signalling calls one round of their loop at a time,
  where \<^const>\<open>Blocked\<close> stands for \<^verbatim>\<open>continue\<close> (the caller was suspended in between). \<open>seen\<close> is whether
  the unlocked load of \<^verbatim>\<open>cond.sq\<close> found a waiter.
\<close>

section \<open>Model: signalling\<close>

definition cond_signal ::
  "tid \<Rightarrow> bool \<Rightarrow> lv2 \<Rightarrow> lv2_cond \<Rightarrow> lv2_mutex \<Rightarrow> outcome \<times> lv2 \<times> lv2_cond \<times> lv2_mutex" where
  "cond_signal t seen e c m =
     (if F_suspend \<in> state (thr e t) then (Blocked, e, c, m)
      else if \<not> seen then (Ret CELL_OK, e, c, m)
      else
        (case schedule (thr e) (mx_protocol m) (cv_sq c) of
           (None, _) \<Rightarrow> (Ret CELL_OK, e, c, m)
         | (Some w, q) \<Rightarrow>
             if F_again \<in> state (thr e w) then (Ret CELL_OK, add_flag t F_again e, c\<lparr>cv_sq := q\<rparr>, m)
             else
               (case try_own w e m of
                  (owned, e1, m1) \<Rightarrow>
                    (Ret CELL_OK, if owned then awake1 w e1 else e1, c\<lparr>cv_sq := q\<rparr>, m1))))"

text \<open>The body of the loop in \<^verbatim>\<open>sys_cond_signal_all\<close>; the first component is the local \<^verbatim>\<open>result\<close>.\<close>

definition send_one :: "tid \<Rightarrow> tid option \<times> lv2 \<times> lv2_mutex \<Rightarrow> tid option \<times> lv2 \<times> lv2_mutex" where
  "send_one w s =
     (case s of
        (r, e, m) \<Rightarrow>
          (case try_own w e m of
             (owned, e1, m1) \<Rightarrow>
               if owned then (Some w, e1\<lparr>fatal := fatal e1 \<or> r \<noteq> None\<rparr>, m1) else (r, e1, m1)))"

definition cond_signal_all ::
  "tid \<Rightarrow> bool \<Rightarrow> lv2 \<Rightarrow> lv2_cond \<Rightarrow> lv2_mutex \<Rightarrow> (outcome \<times> lv2 \<times> lv2_cond \<times> lv2_mutex) option" where
  "cond_signal_all t seen e c m =
     (if F_suspend \<in> state (thr e t) then Some (Blocked, e, c, m)
      else if \<not> seen then Some (Ret CELL_OK, e, c, m)
      else if \<exists>w \<in> set (cv_sq c). F_again \<in> state (thr e w)
      then Some (Ret CELL_OK, add_flag t F_again e, c, m)
      else
        (case drain (\<lambda>s. thr (fst (snd s))) SYS_SYNC_PRIORITY send_one (cv_sq c) (None, e, m) of
           None \<Rightarrow> None
         | Some (r, e1, m1) \<Rightarrow>
             Some (Ret CELL_OK, case r of None \<Rightarrow> e1 | Some w \<Rightarrow> awake1 w e1, c\<lparr>cv_sq := []\<rparr>, m1)))"

text \<open>\<open>alive\<close> is whether a PPU thread with the target's id exists.\<close>

definition cond_signal_to ::
  "tid \<Rightarrow> tid \<Rightarrow> bool \<Rightarrow> bool \<Rightarrow> lv2 \<Rightarrow> lv2_cond \<Rightarrow> lv2_mutex \<Rightarrow> outcome \<times> lv2 \<times> lv2_cond \<times> lv2_mutex" where
  "cond_signal_to t w alive seen e c m =
     (if \<not> alive then (Ret CELL_ESRCH, e, c, m)
      else if F_suspend \<in> state (thr e t) then (Blocked, e, c, m)
      else if seen \<and> w \<in> set (cv_sq c)
      then if F_again \<in> state (thr e w) then (Ret CELL_EPERM, add_flag t F_again e, c, m)
           else
             (case try_own w e m of
                (owned, e1, m1) \<Rightarrow>
                  (Ret CELL_OK, if owned then awake1 w e1 else e1, c\<lparr>cv_sq := snd (unqueue (cv_sq c) w)\<rparr>, m1))
      else (Ret CELL_EPERM, e, c, m))"

section \<open>Model: waiting\<close>

text \<open>
  The call up to its wait loop; the first component is the recursion count that the handler keeps in
  \<^verbatim>\<open>cond.ret\<close>. A thread restored from a save state does not own the mutex and queues where it was: bit 0
  of the saved word is set if that was the mutex, the upper half is the count.
\<close>

definition cond_wait ::
  "tid \<Rightarrow> u64 \<Rightarrow> lv2 \<Rightarrow> lv2_cond \<Rightarrow> lv2_mutex \<Rightarrow> u32 \<times> outcome \<times> lv2 \<times> lv2_cond \<times> lv2_mutex" where
  "cond_wait t timeout e0 c m =
     (let e = set_gpr t 3 0 e0
      in if \<not> loaded_from_savestate (thr e t) \<and> mx_owner m \<noteq> t
         then (0, if F_again \<in> state (thr e t) then Again else Ret CELL_EPERM, e, c, m)
         else
           (let st = sstate (thr e t); e1 = upd_thr t (\<lambda>p. p\<lparr>sstate := 0\<rparr>) e
            in if loaded_from_savestate (thr e t)
               then
                 (case (if bit st 0
                        then (case try_own t e1 m of (owned, e2, m1) \<Rightarrow> (owned, e2, c, m1))
                        else (case emplace t (cv_sq c) e1 of (q, e2) \<Rightarrow> (False, e2, c\<lparr>cv_sq := q\<rparr>, m))) of
                    (owned, e2, c1, m1) \<Rightarrow>
                      if owned then (0, Fatal, e2, c1, m1)
                      else
                        (let e3 = snd (sleep t timeout e2)
                         in (ucast (drop_bit 32 st), if F_again \<in> state (thr e3 t) then Again else Blocked,
                             e3, c1, m1)))
               else
                 (case emplace t (cv_sq c) e1 of
                    (q, e2) \<Rightarrow>
                      (case reown (thr e2) (m\<lparr>mx_lock_count := 0\<rparr>) of
                         (r, m1) \<Rightarrow>
                           if (case r of None \<Rightarrow> False | Some w \<Rightarrow> F_again \<in> state (thr e2 w))
                           then (0, Again, add_flag t F_again e2, c\<lparr>cv_sq := snd (unqueue q t)\<rparr>, m1)
                           else
                             (let e3 = (case r of None \<Rightarrow> e2 | Some w \<Rightarrow> append_awake w e2);
                                  e4 = snd (sleep t timeout e3)
                              in (mx_lock_count m, if F_again \<in> state (thr e4 t) then Again else Blocked,
                                  e4, c\<lparr>cv_sq := q\<rparr>, m1))))))"

text \<open>
  One round of the wait loop. \<open>fired\<close> is set when \<^verbatim>\<open>wait_timeout\<close> returned true and \<^verbatim>\<open>check_state\<close> did
  not send the thread round again; it carries the \<^verbatim>\<open>start_time\<close> that was read in between. A round also
  gives the timeout of the next one.
\<close>

definition cond_expire ::
  "tid \<Rightarrow> u64 \<Rightarrow> lv2 \<Rightarrow> lv2_cond \<Rightarrow> lv2_mutex \<Rightarrow> verdict \<times> lv2 \<times> lv2_cond \<times> lv2_mutex" where
  "cond_expire t start e c m =
     (let e1 = add_flag t F_wait e
      in case (if t \<in> set (cv_sq c)
               then (case try_own t (set_gpr t 3 (ucast (CELL_ETIMEDOUT)) e1) m of
                       (owned, e2, m1) \<Rightarrow> (owned, e2, c\<lparr>cv_sq := snd (unqueue (cv_sq c) t)\<rparr>, m1))
               else (mx_owner m = t, e1, c, m)) of
           (done, e2, c1, m1) \<Rightarrow>
             if done then (Leave, e2, c1, m1)
             else (Keep_waiting, upd_thr t (\<lambda>p. p\<lparr>start_time := start\<rparr>) (snd (sleep t 0 e2)), c1, m1))"

definition cond_wait_round ::
  "tid \<Rightarrow> u32 \<Rightarrow> u64 \<Rightarrow> u64 option \<Rightarrow> lv2 \<Rightarrow> lv2_cond \<Rightarrow> lv2_mutex
     \<Rightarrow> u64 \<times> verdict \<times> lv2 \<times> lv2_cond \<times> lv2_mutex" where
  "cond_wait_round t count timeout fired e c m =
     (let st = state (thr e t)
      in if st = {} then (timeout, Leave, e, c, m)
         else if F_signal \<in> st then (timeout, Leave, del_flag t F_signal e, c, m)
         else if is_stopped st
         then if t \<in> set (cv_sq c) \<or> t \<in> set (mx_sq m)
              then (timeout, Stop_again,
                    add_flag t F_again (upd_thr t (\<lambda>p. p\<lparr>sstate :=
                      (if t \<in> set (mx_sq m) then 1 else 0) OR push_bit 32 (ucast count)\<rparr>) e), c, m)
              else (timeout, Leave, e, c, m)
         else
           (case (timeout \<noteq> 0, fired) of
              (True, Some start) \<Rightarrow> (0, cond_expire t start e c m)
            | _ \<Rightarrow> (timeout, Keep_waiting, e, c, m)))"

definition cond_wait_end :: "tid \<Rightarrow> u32 \<Rightarrow> lv2 \<Rightarrow> lv2_mutex \<Rightarrow> outcome \<times> lv2_mutex" where
  "cond_wait_end t count e m =
     (if mx_owner m \<noteq> t then (Fatal, m) else (Ret (ret_gpr3 t e), m\<lparr>mx_lock_count := count\<rparr>))"

section \<open>Model: the system calls\<close>

record sys_cond_attribute =
  ca_pshared :: u32
  ca_ipc_key :: u64
  ca_flags :: u32
  ca_name :: u64

definition sys_cond_create :: "tid \<Rightarrow> u32 \<Rightarrow> u32 \<Rightarrow> sys_cond_attribute \<Rightarrow> kernel \<Rightarrow> error_code \<times> kernel" where
  "sys_cond_create t cond_id mutex_id at k0 =
     (let k = enter t k0
      in case get_obj mutex_base mutex_id k of
           None \<Rightarrow> (CELL_ESRCH, k)
         | Some (a, _) \<Rightarrow>
             (let ipc_key = get_key (ca_pshared at) (ca_ipc_key at)
              in case lv2_create cond_base (ca_pshared at) ipc_key (ca_flags at)
                        (\<lambda>_. O_cond \<lparr>cv_exists = 0, cv_key = ipc_key, cv_name = ca_name at,
                           cv_mtx_id = mutex_id, cv_mutex = a, cv_sq = []\<rparr>) True k of
                   (err, k1) \<Rightarrow>
                     if err \<noteq> 0 then (err, k1)
                     else (CELL_OK, write32 cond_id (g_id (ids k1)) k1)))"

definition cond_destroy_check :: "nat \<Rightarrow> lv2_object \<Rightarrow> kernel \<Rightarrow> error_code \<times> kernel" where
  "cond_destroy_check a x k =
     (case x of
        O_cond c \<Rightarrow>
          if cv_sq c \<noteq> [] then (CELL_EBUSY, k)
          else
            (case heap k (cv_mutex c) of
               Some (O_mutex m) \<Rightarrow>
                 (CELL_OK, on_id_destroy cond_base a (cv_key c) (cv_key c \<noteq> 0)
                    (put_obj (cv_mutex c) (O_mutex (m\<lparr>mx_cond_count := mx_cond_count m - 1\<rparr>)) k))
             | _ \<Rightarrow> (CELL_OK, crash k))
      | _ \<Rightarrow> (CELL_OK, k))"

definition sys_cond_destroy :: "tid \<Rightarrow> u32 \<Rightarrow> kernel \<Rightarrow> error_code \<times> kernel" where
  "sys_cond_destroy t cond_id k0 =
     (case withdraw_if cond_base cond_id cond_destroy_check (enter t k0) of
        (None, k) \<Rightarrow> (CELL_ESRCH, k)
      | (Some r, k) \<Rightarrow> (r, k))"

text \<open>Running an operation on the condition variable that a handle names, and on its mutex.\<close>

definition on_cond ::
  "u32 \<Rightarrow> (lv2 \<Rightarrow> lv2_cond \<Rightarrow> lv2_mutex \<Rightarrow> outcome \<times> lv2 \<times> lv2_cond \<times> lv2_mutex) \<Rightarrow> kernel
     \<Rightarrow> outcome \<times> kernel" where
  "on_cond idn f k =
     (case get_obj cond_base idn k of
        Some (a, O_cond c) \<Rightarrow>
          (case heap k (cv_mutex c) of
             Some (O_mutex m) \<Rightarrow>
               (case f (env k) c m of
                  (r, e, c', m') \<Rightarrow> (r, put_obj (cv_mutex c) (O_mutex m') (put_obj a (O_cond c') (k\<lparr>env := e\<rparr>))))
           | _ \<Rightarrow> (Fatal, crash k))
      | _ \<Rightarrow> (Ret CELL_ESRCH, k))"

text \<open>\<open>stopped\<close> is the result of \<^verbatim>\<open>test_stopped\<close> at the start of a round.\<close>

definition signal_round :: "tid \<Rightarrow> bool \<Rightarrow> (kernel \<Rightarrow> outcome \<times> kernel) \<Rightarrow> kernel \<Rightarrow> outcome \<times> kernel" where
  "signal_round t stopped f k =
     (let k1 = enter t k
      in if stopped then (Again, k1\<lparr>env := add_flag t F_again (env k1)\<rparr>) else f k1)"

definition sys_cond_signal :: "tid \<Rightarrow> u32 \<Rightarrow> bool \<Rightarrow> bool \<Rightarrow> kernel \<Rightarrow> outcome \<times> kernel" where
  "sys_cond_signal t cond_id stopped seen = signal_round t stopped (on_cond cond_id (cond_signal t seen))"

definition sys_cond_signal_all ::
  "tid \<Rightarrow> u32 \<Rightarrow> bool \<Rightarrow> bool \<Rightarrow> kernel \<Rightarrow> outcome \<times> kernel" where
  "sys_cond_signal_all t cond_id stopped seen =
     signal_round t stopped (on_cond cond_id
       (\<lambda>e c m. case cond_signal_all t seen e c m of None \<Rightarrow> (Fatal, e, c, m) | Some r \<Rightarrow> r))"

definition sys_cond_signal_to ::
  "tid \<Rightarrow> u32 \<Rightarrow> tid \<Rightarrow> bool \<Rightarrow> bool \<Rightarrow> bool \<Rightarrow> kernel \<Rightarrow> outcome \<times> kernel" where
  "sys_cond_signal_to t cond_id w alive stopped seen =
     signal_round t stopped (on_cond cond_id (cond_signal_to t w alive seen))"

definition sys_cond_wait :: "tid \<Rightarrow> u32 \<Rightarrow> u64 \<Rightarrow> kernel \<Rightarrow> outcome \<times> kernel" where
  "sys_cond_wait t cond_id timeout k0 =
     (let k = enter t k0
      in on_cond cond_id (\<lambda>e c m. snd (cond_wait t timeout e c m)) (k\<lparr>env := set_gpr t 3 0 (env k)\<rparr>))"

text \<open>Save states keep the key, the name and the mutex; the pointer is resolved again when loading.\<close>

definition cond_save :: "lv2_cond \<Rightarrow> u64 \<times> u64 \<times> u32" where
  "cond_save c = (cv_key c, cv_name c, cv_mtx_id c)"

interpretation cond_del: destroy_call "cond_base" "cond_destroy_check"
  by unfold_locales (simp add: cond_destroy_check_def crash_def split: lv2_object.splits option.splits)

section \<open>Many threads on one condition variable\<close>

datatype cphase = C_out | C_lock | C_hold | C_wait u32

record csys =
  cs_env :: lv2
  cs_cond :: lv2_cond
  cs_mutex :: lv2_mutex
  cs_phase :: "tid \<Rightarrow> cphase"
  cs_depth :: "tid \<Rightarrow> nat"

text \<open>A thread is outside, blocked in \<^verbatim>\<open>sys_mutex_lock\<close>, holds the mutex, or is blocked in
  \<^verbatim>\<open>sys_cond_wait\<close> with the count that its handler keeps. For the mutex a thread in the condition queue is
  idle. \<open>cs_depth\<close> is no state of the code: it counts the successful lock calls of a thread that are not
  yet matched by a successful unlock, and a wait does not touch it.\<close>

definition mutex_view :: "lv2_cond \<Rightarrow> (tid \<Rightarrow> cphase) \<Rightarrow> tid \<Rightarrow> phase" where
  "mutex_view c ph u =
     (case ph u of
        C_out \<Rightarrow> Idle | C_lock \<Rightarrow> Waiting | C_hold \<Rightarrow> Holding
      | C_wait _ \<Rightarrow> if u \<in> set (cv_sq c) then Idle else Waiting)"

text \<open>The results that a blocked call can carry in register 3.\<close>

definition answers :: "cphase \<Rightarrow> u64 set" where
  "answers p =
     (case p of C_lock \<Rightarrow> {0} | C_wait _ \<Rightarrow> {0, ucast (CELL_ETIMEDOUT)} | _ \<Rightarrow> UNIV)"

definition running :: "cphase \<Rightarrow> bool" where
  "running p \<longleftrightarrow> p = C_out \<or> p = C_hold"

text \<open>
  The threads that run lock, unlock, wait and signal; the blocked ones go through their wait loops,
  where a raised signal means that the thread is in neither queue; anything may happen to the thread
  state between the calls as long as no save state is being taken and the results of blocked threads
  are left alone.
\<close>

inductive cond_step :: "csys \<Rightarrow> csys \<Rightarrow> bool" where
  lock: "\<lbrakk>running (ph t); t \<noteq> 0; own_view t m seen; \<forall>v \<in> set spins. own_view t m v;
     t \<in> set (g_ppu e); F_signal \<notin> state (thr e t);
     mutex_lock t timeout seen spins e m = (out, e', m')\<rbrakk> \<Longrightarrow>
   cond_step \<lparr>cs_env = e, cs_cond = c, cs_mutex = m, cs_phase = ph, cs_depth = d\<rparr>
     \<lparr>cs_env = e', cs_cond = c, cs_mutex = m', cs_phase = ph(t :=
       (if out = Ret CELL_OK then C_hold else if out = Blocked then C_lock else ph t)),
       cs_depth = d(t := (if out = Ret CELL_OK then d t + 1 else d t))\<rparr>"
| lock_wait: "\<lbrakk>ph t = C_lock; state (thr e t) \<noteq> {}; \<not> is_stopped (state (thr e t));
     F_signal \<in> state (thr e t) \<longrightarrow> t \<notin> set (mx_sq m); mutex_wait t timeout fired e m = (v, e', m')\<rbrakk> \<Longrightarrow>
   cond_step \<lparr>cs_env = e, cs_cond = c, cs_mutex = m, cs_phase = ph, cs_depth = d\<rparr>
     \<lparr>cs_env = e', cs_cond = c, cs_mutex = m', cs_phase = ph(t :=
       (if v = Keep_waiting then C_lock else if ret_gpr3 t e' = CELL_OK then C_hold else C_out)),
       cs_depth = d(t := (if v \<noteq> Keep_waiting \<and> ret_gpr3 t e' = CELL_OK then d t + 1 else d t))\<rparr>"
| unlock: "\<lbrakk>running (ph t); t \<noteq> 0; own_view t m seen; mutex_unlock t seen e m = (out, e', m')\<rbrakk> \<Longrightarrow>
   cond_step \<lparr>cs_env = e, cs_cond = c, cs_mutex = m, cs_phase = ph, cs_depth = d\<rparr>
     \<lparr>cs_env = e', cs_cond = c, cs_mutex = m', cs_phase = ph(t := (if mx_owner m' = t then ph t else C_out)),
       cs_depth = d(t := (if out = Ret CELL_OK then d t - 1 else d t))\<rparr>"
| wait: "\<lbrakk>running (ph t); t \<noteq> 0; \<not> loaded_from_savestate (thr e t);
     cond_wait t timeout e c m = (n, out, e', c', m')\<rbrakk> \<Longrightarrow>
   cond_step \<lparr>cs_env = e, cs_cond = c, cs_mutex = m, cs_phase = ph, cs_depth = d\<rparr>
     \<lparr>cs_env = e', cs_cond = c', cs_mutex = m', cs_phase = ph(t := (if out = Blocked then C_wait n else ph t)),
       cs_depth = d\<rparr>"
| wait_on: "\<lbrakk>ph t = C_wait n; state (thr e t) \<noteq> {}; \<not> is_stopped (state (thr e t));
     F_signal \<in> state (thr e t) \<longrightarrow> t \<notin> set (cv_sq c) \<and> t \<notin> set (mx_sq m);
     cond_wait_round t n timeout fired e c m = (timeout', Keep_waiting, e', c', m')\<rbrakk> \<Longrightarrow>
   cond_step \<lparr>cs_env = e, cs_cond = c, cs_mutex = m, cs_phase = ph, cs_depth = d\<rparr>
     \<lparr>cs_env = e', cs_cond = c', cs_mutex = m', cs_phase = ph, cs_depth = d\<rparr>"
| wait_end: "\<lbrakk>ph t = C_wait n; state (thr e t) \<noteq> {}; \<not> is_stopped (state (thr e t));
     F_signal \<in> state (thr e t) \<longrightarrow> t \<notin> set (cv_sq c) \<and> t \<notin> set (mx_sq m);
     cond_wait_round t n timeout fired e c m = (timeout', Leave, e', c', m');
     cond_wait_end t n e' m' = (out, m'')\<rbrakk> \<Longrightarrow>
   cond_step \<lparr>cs_env = e, cs_cond = c, cs_mutex = m, cs_phase = ph, cs_depth = d\<rparr>
     \<lparr>cs_env = e', cs_cond = c', cs_mutex = m'', cs_phase = ph(t := (if out = Fatal then C_out else C_hold)),
       cs_depth = d\<rparr>"
| signal: "\<lbrakk>running (ph t); cond_signal t seen1 e c m = (out, e', c', m')\<rbrakk> \<Longrightarrow>
   cond_step \<lparr>cs_env = e, cs_cond = c, cs_mutex = m, cs_phase = ph, cs_depth = d\<rparr>
     \<lparr>cs_env = e', cs_cond = c', cs_mutex = m', cs_phase = ph, cs_depth = d\<rparr>"
| signal_all: "\<lbrakk>running (ph t); cond_signal_all t seen1 e c m = Some (out, e', c', m')\<rbrakk> \<Longrightarrow>
   cond_step \<lparr>cs_env = e, cs_cond = c, cs_mutex = m, cs_phase = ph, cs_depth = d\<rparr>
     \<lparr>cs_env = e', cs_cond = c', cs_mutex = m', cs_phase = ph, cs_depth = d\<rparr>"
| signal_to: "\<lbrakk>running (ph t); cond_signal_to t w alive seen1 e c m = (out, e', c', m')\<rbrakk> \<Longrightarrow>
   cond_step \<lparr>cs_env = e, cs_cond = c, cs_mutex = m, cs_phase = ph, cs_depth = d\<rparr>
     \<lparr>cs_env = e', cs_cond = c', cs_mutex = m', cs_phase = ph, cs_depth = d\<rparr>"
| environment: "\<lbrakk>\<forall>u. F_again \<notin> state (thr e' u);
     \<forall>u. \<not> running (ph u) \<longrightarrow> gpr (thr e' u) 3 = gpr (thr e u) 3\<rbrakk> \<Longrightarrow>
   cond_step \<lparr>cs_env = e, cs_cond = c, cs_mutex = m, cs_phase = ph, cs_depth = d\<rparr>
     \<lparr>cs_env = e', cs_cond = c, cs_mutex = m, cs_phase = ph, cs_depth = d\<rparr>"

definition csys_ok :: "lv2 \<Rightarrow> lv2_cond \<Rightarrow> lv2_mutex \<Rightarrow> (tid \<Rightarrow> cphase) \<Rightarrow> bool" where
  "csys_ok e c m ph \<longleftrightarrow> own_ok m (mutex_view c ph) \<and> distinct (cv_sq c) \<and>
     (\<forall>u \<in> set (cv_sq c). \<exists>n. ph u = C_wait n) \<and>
     (\<forall>u n. ph u = C_wait n \<longrightarrow> mx_recursive m = SYS_SYNC_RECURSIVE \<or> n = 0) \<and>
     (ph (mx_owner m) \<noteq> C_hold \<longrightarrow> mx_lock_count m = 0) \<and> ph 0 = C_out \<and>
     (\<forall>u. F_again \<notin> state (thr e u) \<and> gpr (thr e u) 3 \<in> answers (ph u))"

section \<open>Lemmas\<close>

lemma own_next_sel [simp]: "mx_recursive (own_next t m) = mx_recursive m"
  "mx_lock_count (own_next t m) = mx_lock_count m" "mx_protocol (own_next t m) = mx_protocol m"
  by (simp_all add: own_next_def)

lemma fold_own_sel [simp]: "mx_recursive (fold own_next ws m) = mx_recursive m"
  "mx_lock_count (fold own_next ws m) = mx_lock_count m"
  by (induction ws arbitrary: m) simp_all

lemma csys_ok_queued:
  assumes "csys_ok e c m ph" "u \<in> set (cv_sq c)"
  shows "mutex_view c ph u = Idle" "u \<noteq> 0" "u \<noteq> mx_owner m" "u \<notin> set (mx_sq m)" "\<exists>n. ph u = C_wait n"
proof -
  show w: "\<exists>n. ph u = C_wait n" using assms by (simp add: csys_ok_def)
  then show v: "mutex_view c ph u = Idle" using assms(2) by (auto simp: mutex_view_def)
  show z: "u \<noteq> 0" using w assms(1) by (auto simp: csys_ok_def)
  have own: "own_ok m (mutex_view c ph)" using assms(1) by (simp add: csys_ok_def)
  then show "u \<noteq> mx_owner m" "u \<notin> set (mx_sq m)" using v z by (auto simp: own_ok_def)
qed

lemma csys_ok_env:
  assumes "csys_ok e c m ph" "calm t e e'" "gpr (thr e' t) 3 \<in> answers (ph t)"
  shows "csys_ok e' c m ph"
proof -
  have "gpr (thr e' u) 3 \<in> answers (ph u)" for u
    using assms by (cases "u = t") (auto simp: csys_ok_def calm_def)
  with assms show ?thesis by (simp add: csys_ok_def calm_def)
qed

lemma csys_ok_calm:
  "csys_ok e c m ph \<Longrightarrow> calm t e e' \<Longrightarrow> gpr (thr e' t) = gpr (thr e t) \<or> running (ph t) \<Longrightarrow> csys_ok e' c m ph"
  by (rule csys_ok_env, assumption+) (auto simp: csys_ok_def running_def answers_def)

text \<open>Threads move from the condition queue to the mutex.\<close>

lemma csys_ok_send:
  assumes ok: "csys_ok e c m ph" and ws: "distinct ws" "set ws \<subseteq> set (cv_sq c)"
    and c': "distinct (cv_sq c')" "set (cv_sq c') = set (cv_sq c) - set ws"
  shows "csys_ok e c' (fold own_next ws m) ph"
proof -
  let ?v = "mutex_view c ph" and ?m = "fold own_next ws m"
  have own: "own_ok m ?v" using ok by (simp add: csys_ok_def)
  have idle: "\<forall>w \<in> set ws. ?v w = Idle \<and> w \<noteq> 0" using csys_ok_queued(1,2) [OF ok] ws(2) by blast
  have "mutex_view c' ph u = (if u \<in> set ws then Waiting else ?v u)" for u
    using ws(2) c'(2) csys_ok_queued(5) [OF ok, of u] by (auto simp: mutex_view_def split: cphase.splits)
  then have "mutex_view c' ph = (\<lambda>u. if u \<in> set ws then Waiting else ?v u)" by auto
  with mx.all_keep [OF own ws(1) idle] have "own_ok ?m (mutex_view c' ph)" by simp
  moreover have "mx_lock_count m = 0" if "ph (mx_owner ?m) \<noteq> C_hold"
  proof (cases "mx_owner m = 0")
    case True
    with own show ?thesis by (simp add: own_ok_def mutex_inv_def)
  next
    case False
    with that ok show ?thesis by (simp add: mx.all_owned csys_ok_def)
  qed
  ultimately show ?thesis using ok c' by (auto simp: csys_ok_def)
qed

lemma csys_ok_send_one:
  assumes ok: "csys_ok e c m ph" and w: "w \<in> set (cv_sq c)"
  shows "csys_ok e (c\<lparr>cv_sq := remove1 w (cv_sq c)\<rparr>) (own_next w m) ph"
proof -
  have d: "distinct (cv_sq c)" using ok by (simp add: csys_ok_def)
  show ?thesis
    using csys_ok_send [OF ok, of "[w]" "c\<lparr>cv_sq := remove1 w (cv_sq c)\<rparr>"] w d by simp
qed

text \<open>The thread state after one waiter was sent to the mutex.\<close>

definition sent :: "tid \<Rightarrow> lv2 \<Rightarrow> lv2_mutex \<Rightarrow> lv2" where
  "sent w e m = (if mx_owner m = 0 then awake1 w e else stamp_order w e)"

lemma calm_sent: "calm t a b \<Longrightarrow> calm t a (sent w b m)"
  by (simp add: sent_def calm_intros)

lemma gpr_sent [simp]: "gpr (thr (sent w e m) u) = gpr (thr e u)"
  by (simp add: sent_def)

lemma cond_signal_eq:
  assumes "F_suspend \<notin> state (thr e t)" "pick (thr e) (mx_protocol m) (cv_sq c) = Some w"
    and "F_again \<notin> state (thr e w)"
  shows "cond_signal t True e c m =
    (Ret CELL_OK, sent w e m, c\<lparr>cv_sq := remove1 w (cv_sq c)\<rparr>, own_next w m)"
  using assms by (simp add: cond_signal_def schedule_def try_own_next sent_def)

lemma cond_signal_idle:
  assumes "F_suspend \<in> state (thr e t) \<or> \<not> seen \<or> cv_sq c = []"
  shows "cond_signal t seen e c m = (if F_suspend \<in> state (thr e t) then Blocked else Ret CELL_OK, e, c, m)"
  using assms by (auto simp: cond_signal_def schedule_def pick_def)

lemma cond_signal_to_eq:
  assumes "F_suspend \<notin> state (thr e t)" "w \<in> set (cv_sq c)" "F_again \<notin> state (thr e w)"
  shows "cond_signal_to t w True True e c m =
    (Ret CELL_OK, sent w e m, c\<lparr>cv_sq := remove1 w (cv_sq c)\<rparr>, own_next w m)"
  using assms by (simp add: cond_signal_to_def unqueue_def try_own_next sent_def)

lemma fold_send_owned:
  "mx_owner m \<noteq> 0 \<Longrightarrow> fold send_one ws (r, e, m) = (r, fold stamp_order ws e, fold own_next ws m)"
  by (induction ws arbitrary: e m) (simp_all add: send_one_def try_own_next mx.own_owner)

lemma fold_send_free:
  "mx_owner m = 0 \<Longrightarrow> w \<noteq> 0 \<Longrightarrow>
   fold send_one (w # ws) (None, e, m) = (Some w, fold stamp_order ws e, fold own_next (w # ws) m)"
  by (simp add: send_one_def try_own_next fold_send_owned mx.own_owner)

text \<open>The thread state after the waiters \<open>ws\<close> were sent in that order.\<close>

definition sent_all :: "tid list \<Rightarrow> lv2 \<Rightarrow> lv2_mutex \<Rightarrow> lv2" where
  "sent_all ws e m =
     (if mx_owner m = 0 then case ws of [] \<Rightarrow> e | w # ws' \<Rightarrow> awake1 w (fold stamp_order ws' e)
      else fold stamp_order ws e)"

lemma calm_stamp_all: "calm t a b \<Longrightarrow> calm t a (fold stamp_order ws b)"
  by (induction ws arbitrary: b) (simp_all add: calm_stamp)

lemma calm_sent_all: "calm t a b \<Longrightarrow> calm t a (sent_all ws b m)"
  by (auto simp: sent_all_def intro: calm_stamp_all calm_stamp calm_awake1 split: list.splits)

lemma gpr_stamp_all [simp]: "gpr (thr (fold stamp_order ws e) u) = gpr (thr e u)"
  by (induction ws arbitrary: e) simp_all

lemma gpr_sent_all [simp]: "gpr (thr (sent_all ws e m) u) = gpr (thr e u)"
  by (simp add: sent_all_def split: list.splits)

lemma again_send_one:
  "F_again \<in> state (thr (fst (snd (send_one w s))) d) \<longleftrightarrow> F_again \<in> state (thr (fst (snd s)) d)"
  by (simp add: send_one_def try_own_next split: prod.splits)

lemma cond_signal_all_eq:
  assumes "F_suspend \<notin> state (thr e t)" "distinct (cv_sq c)" "0 \<notin> set (cv_sq c)"
    and "\<forall>w \<in> set (cv_sq c). F_again \<notin> state (thr e w)"
  obtains ws where "distinct ws" "set ws = set (cv_sq c)"
    "\<forall>w ws'. ws = w # ws' \<longrightarrow> pick (thr e) SYS_SYNC_PRIORITY (cv_sq c) = Some w"
    "cond_signal_all t True e c m = Some (Ret CELL_OK, sent_all ws e m, c\<lparr>cv_sq := []\<rparr>, fold own_next ws m)"
proof -
  let ?th = "\<lambda>s. thr (fst (snd s))"
  obtain ws where ws: "distinct ws" "set ws = set (cv_sq c)"
    "drain ?th SYS_SYNC_PRIORITY send_one (cv_sq c) (None, e, m) = Some (fold send_one ws (None, e, m))"
    "\<forall>w ws'. ws = w # ws' \<longrightarrow> pick (thr e) SYS_SYNC_PRIORITY (cv_sq c) = Some w"
    using drain_all [of "cv_sq c" ?th "(None, e, m)" send_one SYS_SYNC_PRIORITY] assms(2,4) again_send_one
    by auto
  have "cond_signal_all t True e c m = Some (Ret CELL_OK, sent_all ws e m, c\<lparr>cv_sq := []\<rparr>, fold own_next ws m)"
  proof (cases "mx_owner m = 0")
    case True
    show ?thesis
    proof (cases ws)
      case Nil
      with True ws assms show ?thesis by (simp add: cond_signal_all_def sent_all_def)
    next
      case (Cons w ws')
      then have "w \<noteq> 0" using ws(2) assms(3) by auto
      with fold_send_free [OF True] Cons True ws(3) assms show ?thesis
        by (simp add: cond_signal_all_def sent_all_def)
    qed
  next
    case False
    with fold_send_owned [OF False] ws(3) assms show ?thesis
      by (simp add: cond_signal_all_def sent_all_def)
  qed
  with that ws show ?thesis by blast
qed

text \<open>A call to wait by the owner, when no thread is being saved.\<close>

lemma cond_wait_eq:
  assumes "\<not> loaded_from_savestate (thr e t)" "mx_owner m = t" "\<forall>u. F_again \<notin> state (thr e u)"
  obtains e' where "cond_wait t timeout e c m =
      (mx_lock_count m, Blocked, e', c\<lparr>cv_sq := t # cv_sq c\<rparr>,
       case pick (thr e') (mx_protocol m) (mx_sq m) of
         None \<Rightarrow> m\<lparr>mx_lock_count := 0, mx_owner := 0\<rparr>
       | Some w \<Rightarrow> m\<lparr>mx_lock_count := 0, mx_owner := w, mx_sq := remove1 w (mx_sq m)\<rparr>)"
    "calm t e e'" "gpr (thr e' t) 3 = 0"
proof -
  define e1 where "e1 = upd_thr t (\<lambda>p. p\<lparr>sstate := 0\<rparr>) (set_gpr t 3 0 e)"
  define e2 where "e2 = snd (emplace t (cv_sq c) e1)"
  have q: "emplace t (cv_sq c) e1 = (t # cv_sq c, e2)" by (simp add: e2_def emplace_def Let_def)
  have c2: "calm t e e2"
    by (simp add: calm_def e2_def e1_def emplace_def Let_def thr_set_gpr)
  have ag: "F_again \<notin> state (thr e2 u)" for u using c2 assms(3) by (simp add: calm_def)
  have g: "gpr (thr e2 t) 3 = 0" by (simp add: e2_def e1_def emplace_def Let_def thr_set_gpr)
  define r where "r = pick (thr e2) (mx_protocol m) (mx_sq m)"
  define e4 where "e4 = snd (sleep t timeout (case r of None \<Rightarrow> e2 | Some w \<Rightarrow> append_awake w e2))"
  have c4: "calm t e e4" using c2 by (auto simp: e4_def intro!: calm_sleep calm_append split: option.splits)
  have r4: "r = pick (thr e4) (mx_protocol m) (mx_sq m)"
    by (simp add: e4_def r_def split: option.splits)
  have l: "loaded_from_savestate (thr (set_gpr t 3 0 e) t) = loaded_from_savestate (thr e t)"
    by (simp add: thr_set_gpr)
  have "cond_wait t timeout e c m = (mx_lock_count m, Blocked, e4, c\<lparr>cv_sq := t # cv_sq c\<rparr>,
       case r of None \<Rightarrow> m\<lparr>mx_lock_count := 0, mx_owner := 0\<rparr>
       | Some w \<Rightarrow> m\<lparr>mx_lock_count := 0, mx_owner := w, mx_sq := remove1 w (mx_sq m)\<rparr>)"
    using assms(1,2) ag c4 assms(3) unfolding cond_wait_def Let_def l e1_def [symmetric] q prod.case
    by (cases r) (simp_all add: reown_def schedule_def r_def [symmetric] e4_def calm_def)
  moreover have "gpr (thr e4 t) 3 = 0" using g by (simp add: e4_def split: option.splits)
  ultimately show ?thesis using that [of e4] c4 r4 by simp
qed

section \<open>The invariant\<close>

lemma csys_ok_sent: "csys_ok e c m ph \<Longrightarrow> csys_ok (sent w e m0) c m ph"
  by (rule csys_ok_calm [OF _ calm_sent [OF calm_refl]]) simp_all

lemma csys_ok_sent_all: "csys_ok e c m ph \<Longrightarrow> csys_ok (sent_all ws e m0) c m ph"
  by (rule csys_ok_calm [OF _ calm_sent_all [OF calm_refl]]) simp_all

lemma csys_ok_signal:
  assumes ok: "csys_ok e c m ph" and run: "cond_signal t seen e c m = (out, e', c', m')"
  shows "csys_ok e' c' m' ph \<and> mx_lock_count m' = mx_lock_count m"
proof (cases "F_suspend \<in> state (thr e t) \<or> \<not> seen \<or> cv_sq c = []")
  case True
  with cond_signal_idle [OF True] run ok show ?thesis by auto
next
  case False
  then obtain w where w: "pick (thr e) (mx_protocol m) (cv_sq c) = Some w" by (cases "cv_sq c") (auto simp: pick_def)
  have "F_again \<notin> state (thr e w)" using ok by (simp add: csys_ok_def)
  from cond_signal_eq [OF _ w this, of t] run False have
    "e' = sent w e m" "c' = c\<lparr>cv_sq := remove1 w (cv_sq c)\<rparr>" "m' = own_next w m" by auto
  with csys_ok_sent [OF csys_ok_send_one [OF ok pick_mem [OF w]]] show ?thesis by simp
qed

lemma csys_ok_signal_to:
  assumes ok: "csys_ok e c m ph" and run: "cond_signal_to t w alive seen e c m = (out, e', c', m')"
  shows "csys_ok e' c' m' ph \<and> mx_lock_count m' = mx_lock_count m"
proof (cases "alive \<and> F_suspend \<notin> state (thr e t) \<and> seen \<and> w \<in> set (cv_sq c)")
  case False
  with run have "e' = e" "c' = c" "m' = m" by (auto simp: cond_signal_to_def split: if_splits)
  with ok show ?thesis by simp
next
  case True
  have "F_again \<notin> state (thr e w)" using ok by (simp add: csys_ok_def)
  from cond_signal_to_eq [OF _ _ this, of t c m] run True have
    "e' = sent w e m" "c' = c\<lparr>cv_sq := remove1 w (cv_sq c)\<rparr>" "m' = own_next w m" by auto
  with csys_ok_sent [OF csys_ok_send_one [OF ok, of w]] True show ?thesis by simp
qed

lemma csys_ok_signal_all:
  assumes ok: "csys_ok e c m ph" and run: "cond_signal_all t seen e c m = Some (out, e', c', m')"
  shows "csys_ok e' c' m' ph \<and> mx_lock_count m' = mx_lock_count m"
proof (cases "F_suspend \<in> state (thr e t) \<or> \<not> seen")
  case True
  with run ok show ?thesis by (auto simp: cond_signal_all_def split: if_splits)
next
  case False
  have h: "F_suspend \<notin> state (thr e t)" "distinct (cv_sq c)" "0 \<notin> set (cv_sq c)"
    "\<forall>w \<in> set (cv_sq c). F_again \<notin> state (thr e w)"
    using ok False csys_ok_queued(2) [OF ok] by (auto simp: csys_ok_def)
  obtain ws where ws: "distinct ws" "set ws = set (cv_sq c)"
    "cond_signal_all t True e c m = Some (Ret CELL_OK, sent_all ws e m, c\<lparr>cv_sq := []\<rparr>, fold own_next ws m)"
    by (rule cond_signal_all_eq [OF h]) blast
  with run False have "e' = sent_all ws e m" "c' = c\<lparr>cv_sq := []\<rparr>" "m' = fold own_next ws m" by auto
  moreover have "csys_ok e (c\<lparr>cv_sq := []\<rparr>) (fold own_next ws m) ph"
    using ws by (intro csys_ok_send [OF ok]) simp_all
  ultimately show ?thesis using csys_ok_sent_all by simp
qed

lemma mutex_inv_uncount: "mutex_inv m \<Longrightarrow> mutex_inv (m\<lparr>mx_lock_count := 0\<rparr>)"
  by (auto simp: mutex_inv_def)

lemma own_ok_uncount: "own_ok m v \<Longrightarrow> own_ok (m\<lparr>mx_lock_count := 0\<rparr>) v"
  by (auto simp: own_ok_def intro: mutex_inv_uncount)

lemma csys_ok_wait:
  assumes ok: "csys_ok e c m ph" and r: "running (ph t)" "t \<noteq> 0" "\<not> loaded_from_savestate (thr e t)"
    and run: "cond_wait t timeout e c m = (n, out, e', c', m')"
  shows "csys_ok e' c' m' (ph(t := (if out = Blocked then C_wait n else ph t)))"
proof (cases "mx_owner m = t")
  case False
  have ag: "F_again \<notin> state (thr e t)" using ok by (simp add: csys_ok_def)
  have l: "loaded_from_savestate (thr (set_gpr t 3 0 e) t) = loaded_from_savestate (thr e t)"
    by (simp add: thr_set_gpr)
  have "out = Ret CELL_EPERM" "e' = set_gpr t 3 0 e" "c' = c" "m' = m"
    using run False r(3) ag by (simp_all add: cond_wait_def Let_def l)
  then show ?thesis
    using csys_ok_calm [OF ok calm_set_gpr [OF calm_refl], of t] r(1) by simp
next
  case own: True
  have ag: "\<forall>u. F_again \<notin> state (thr e u)" using ok by (simp add: csys_ok_def)
  have oo: "own_ok m (mutex_view c ph)" using ok by (simp add: csys_ok_def)
  have "mutex_view c ph t \<noteq> Idle" using oo own r(2) by (simp add: own_ok_def)
  then have hold: "ph t = C_hold" using r(1) by (auto simp: mutex_view_def running_def)
  let ?c = "c\<lparr>cv_sq := t # cv_sq c\<rparr>" and ?v = "mutex_view c ph" and ?m0 = "m\<lparr>mx_lock_count := 0\<rparr>"
  obtain e1 where e1: "cond_wait t timeout e c m = (mx_lock_count m, Blocked, e1, ?c,
       case pick (thr e1) (mx_protocol m) (mx_sq m) of
         None \<Rightarrow> m\<lparr>mx_lock_count := 0, mx_owner := 0\<rparr>
       | Some w \<Rightarrow> m\<lparr>mx_lock_count := 0, mx_owner := w, mx_sq := remove1 w (mx_sq m)\<rparr>)"
    "calm t e e1" "gpr (thr e1 t) 3 = 0" by (rule cond_wait_eq [OF r(3) own ag, where timeout = timeout and c = c]) blast
  define w where "w = pick (thr e1) (mx_protocol m) (mx_sq m)"
  have eqs: "n = mx_lock_count m" "out = Blocked" "e' = e1" "c' = ?c"
    and m': "m' = (case w of None \<Rightarrow> ?m0\<lparr>mx_owner := 0\<rparr>
      | Some w \<Rightarrow> ?m0\<lparr>mx_owner := w, mx_sq := remove1 w (mx_sq m)\<rparr>)"
    using run unfolding e1(1) w_def [symmetric] prod.inject by (simp_all only:)
  have o0: "own_ok ?m0 ?v" by (rule own_ok_uncount [OF oo])
  have "own_ok m' (?v(t := Idle))"
  proof (cases w)
    case None
    then have "mx_sq m = []" by (simp add: w_def)
    with None m' own_ok_release [OF o0, of t] own show ?thesis by simp
  next
    case (Some x)
    then have "x \<in> set (mx_sq m)" using pick_mem [of "thr e1" "mx_protocol m"] by (simp add: w_def)
    with Some m' own_ok_hand [OF o0, of t x] own show ?thesis by simp
  qed
  moreover have "mutex_view ?c (ph(t := C_wait n)) = ?v(t := Idle)"
    by (auto simp: mutex_view_def split: cphase.splits)
  ultimately have o': "own_ok m' (mutex_view ?c (ph(t := C_wait n)))" by simp
  have q: "distinct (cv_sq ?c)" "\<forall>u \<in> set (cv_sq ?c). \<exists>k. (ph(t := C_wait n)) u = C_wait k"
  proof -
    have "t \<notin> set (cv_sq c)" using csys_ok_queued(5) [OF ok, of t] hold by auto
    with ok show "distinct (cv_sq ?c)" by (simp add: csys_ok_def)
    show "\<forall>u \<in> set (cv_sq ?c). \<exists>k. (ph(t := C_wait n)) u = C_wait k" using csys_ok_queued(5) [OF ok] by simp
  qed
  have mi: "mutex_inv m" using oo by (simp add: own_ok_def)
  then have "mx_recursive m = SYS_SYNC_RECURSIVE \<or> n = 0" by (auto simp: eqs(1) mutex_inv_def)
  moreover have "mx_recursive m' = mx_recursive m" and l: "mx_lock_count m' = 0"
    by (simp_all add: m' split: option.splits)
  moreover have "ph u = C_wait k \<longrightarrow> mx_recursive m = SYS_SYNC_RECURSIVE \<or> k = 0" for u k
    using ok by (simp add: csys_ok_def)
  ultimately have rc: "\<forall>u k. (ph(t := C_wait n)) u = C_wait k \<longrightarrow> mx_recursive m' = SYS_SYNC_RECURSIVE \<or> k = 0"
    by auto
  have "F_again \<notin> state (thr e1 u) \<and> gpr (thr e1 u) 3 \<in> answers ((ph(t := C_wait n)) u)" for u
  proof (cases "u = t")
    case True
    with ag e1(2,3) show ?thesis by (simp add: calm_def answers_def)
  next
    case False
    with ok e1(2) show ?thesis by (simp add: csys_ok_def calm_def)
  qed
  moreover have "ph 0 = C_out" using ok by (simp add: csys_ok_def)
  ultimately show ?thesis using o' q rc l r(2) by (simp add: eqs csys_ok_def)
qed

text \<open>A waiter that leaves its loop owns the mutex.\<close>

lemma csys_ok_leave:
  assumes ok: "csys_ok e c m ph" and w: "ph t = C_wait n" and o: "mx_owner m = t"
  shows "cond_wait_end t n e m = (Ret (ret_gpr3 t e), m\<lparr>mx_lock_count := n\<rparr>)"
    "csys_ok e c (m\<lparr>mx_lock_count := n\<rparr>) (ph(t := C_hold))"
    "ret_gpr3 t e \<in> {CELL_OK, CELL_ETIMEDOUT}"
proof -
  show "cond_wait_end t n e m = (Ret (ret_gpr3 t e), m\<lparr>mx_lock_count := n\<rparr>)"
    using o by (simp add: cond_wait_end_def)
  have "gpr (thr e t) 3 \<in> {0, ucast (CELL_ETIMEDOUT)}"
  proof -
    have "gpr (thr e t) 3 \<in> answers (ph t)" using ok by (simp add: csys_ok_def)
    with w show ?thesis by (simp add: answers_def)
  qed
  then show "ret_gpr3 t e \<in> {CELL_OK, CELL_ETIMEDOUT}"
    by (auto simp: ret_gpr3_def)
  have t: "t \<noteq> 0" using ok w by (auto simp: csys_ok_def)
  have nq: "t \<notin> set (cv_sq c)" using csys_ok_queued(3) [OF ok, of t] o by auto
  have "own_ok m ((mutex_view c ph)(t := Holding))"
    using ok o t by (intro own_ok_hold) (simp_all add: csys_ok_def)
  moreover have "mutex_view c (ph(t := C_hold)) = (mutex_view c ph)(t := Holding)"
    by (auto simp: mutex_view_def)
  moreover have "own_ok (m\<lparr>mx_lock_count := n\<rparr>) v" if "own_ok m v" for v
    using that ok w o t by (auto simp: csys_ok_def own_ok_def mutex_inv_def)
  ultimately have "own_ok (m\<lparr>mx_lock_count := n\<rparr>) (mutex_view c (ph(t := C_hold)))" by simp
  then show "csys_ok e c (m\<lparr>mx_lock_count := n\<rparr>) (ph(t := C_hold))"
    using ok o t nq by (auto simp: csys_ok_def answers_def)
qed

lemma calm_start_time: "calm t a b \<Longrightarrow> calm t a (upd_thr u (\<lambda>p. p\<lparr>start_time := x\<rparr>) b)"
  by (simp add: calm_def)

lemma cond_expire_eq:
  assumes "t \<in> set (cv_sq c)"
  shows "cond_expire t start e c m =
    (let e1 = set_gpr t 3 (ucast (CELL_ETIMEDOUT)) (add_flag t F_wait e); c' = c\<lparr>cv_sq := remove1 t (cv_sq c)\<rparr>
     in if mx_owner m = 0 then (Leave, e1, c', own_next t m)
        else (Keep_waiting, upd_thr t (\<lambda>p. p\<lparr>start_time := start\<rparr>) (snd (sleep t 0 (stamp_order t e1))), c', own_next t m))"
  using assms by (simp add: cond_expire_def try_own_next unqueue_def Let_def)

lemma csys_ok_waiter:
  assumes "csys_ok e c m ph" "ph t = C_wait n"
  shows "t \<in> set (cv_sq c) \<or> t \<in> set (mx_sq m) \<or> mx_owner m = t" "t \<noteq> 0"
proof -
  have "t \<notin> set (cv_sq c) \<Longrightarrow> mutex_view c ph t = Waiting" using assms(2) by (simp add: mutex_view_def)
  moreover have "mutex_view c ph t = Waiting \<longrightarrow> t \<in> set (mx_sq m) \<or> t = mx_owner m"
    using assms(1) by (simp add: csys_ok_def own_ok_def)
  ultimately show "t \<in> set (cv_sq c) \<or> t \<in> set (mx_sq m) \<or> mx_owner m = t" by auto
  show "t \<noteq> 0" using assms by (auto simp: csys_ok_def)
qed

lemma csys_ok_expire:
  assumes ok: "csys_ok e c m ph" and w: "ph t = C_wait n"
    and run: "cond_expire t start e c m = (v, e', c', m')"
  shows "csys_ok e' c' m' ph \<and> mx_lock_count m' = mx_lock_count m \<and> v \<noteq> Stop_again \<and>
    (v = Leave \<longrightarrow> mx_owner m' = t)"
proof (cases "t \<in> set (cv_sq c)")
  case True
  let ?e = "set_gpr t 3 (ucast (CELL_ETIMEDOUT)) (add_flag t F_wait e)"
  have m': "m' = own_next t m" "c' = c\<lparr>cv_sq := remove1 t (cv_sq c)\<rparr>"
    and e': "e' = (if mx_owner m = 0 then ?e
      else upd_thr t (\<lambda>p. p\<lparr>start_time := start\<rparr>) (snd (sleep t 0 (stamp_order t ?e))))"
    and v: "v = (if mx_owner m = 0 then Leave else Keep_waiting)"
    using run unfolding cond_expire_eq [OF True] Let_def by (simp_all split: if_splits)
  have "calm t e e'" unfolding e' by (simp add: calm_intros calm_start_time)
  moreover have "gpr (thr e' t) 3 \<in> answers (ph t)" unfolding e' by (simp add: thr_set_gpr w answers_def)
  ultimately have "csys_ok e' c' m' ph"
    using csys_ok_env [OF csys_ok_send_one [OF ok True]] m' by simp
  then show ?thesis using v m' by (auto simp: own_next_def)
next
  case False
  then have e': "c' = c" "m' = m" "v = (if mx_owner m = t then Leave else Keep_waiting)"
    "e' = (if mx_owner m = t then add_flag t F_wait e
       else upd_thr t (\<lambda>p. p\<lparr>start_time := start\<rparr>) (snd (sleep t 0 (add_flag t F_wait e))))"
    using run by (simp_all add: cond_expire_def Let_def split: if_splits)
  have "calm t e e'" unfolding e'(4) by (simp add: calm_intros calm_start_time)
  moreover have "gpr (thr e' t) = gpr (thr e t)" unfolding e'(4) by simp
  ultimately have "csys_ok e' c m ph" using csys_ok_calm [OF ok] by blast
  then show ?thesis using e'(1-3) by simp
qed

lemma csys_ok_round:
  assumes ok: "csys_ok e c m ph" and w: "ph t = C_wait n"
    and st: "state (thr e t) \<noteq> {}" "\<not> is_stopped (state (thr e t))"
    and sig: "F_signal \<in> state (thr e t) \<longrightarrow> t \<notin> set (cv_sq c) \<and> t \<notin> set (mx_sq m)"
    and run: "cond_wait_round t n timeout fired e c m = (timeout', v, e', c', m')"
  shows "csys_ok e' c' m' ph \<and> mx_lock_count m' = mx_lock_count m \<and> v \<noteq> Stop_again \<and>
    (v = Leave \<longrightarrow> mx_owner m' = t)"
proof (cases "F_signal \<in> state (thr e t)")
  case True
  then have "v = Leave" "e' = del_flag t F_signal e" "c' = c" "m' = m"
    using run st by (simp_all add: cond_wait_round_def Let_def)
  moreover have "csys_ok (del_flag t F_signal e) c m ph"
    by (rule csys_ok_calm [OF ok calm_del_flag [OF calm_refl]]) simp_all
  ultimately show ?thesis using sig True csys_ok_waiter(1) [OF ok w] by simp
next
  case False
  show ?thesis
  proof (cases "timeout \<noteq> 0 \<and> fired \<noteq> None")
    case True
    then obtain start where "cond_expire t start e c m = (v, e', c', m')"
      using run st False by (auto simp: cond_wait_round_def Let_def)
    from csys_ok_expire [OF ok w this] show ?thesis .
  next
    case no: False
    then have "v = Keep_waiting" "e' = e" "c' = c" "m' = m"
      using run st False by (auto simp: cond_wait_round_def Let_def split: option.splits bool.splits)
    with ok show ?thesis by simp
  qed
qed

lemma csys_ok_phase:
  assumes ok: "csys_ok e c m ph" and t: "t \<noteq> 0" "\<forall>n. ph t \<noteq> C_wait n" "\<forall>n. p \<noteq> C_wait n"
    and own: "own_ok m' ((mutex_view c ph)(t := mutex_view c (\<lambda>_. p) t))"
    and rc: "mx_recursive m' = mx_recursive m"
    and lc: "(ph(t := p)) (mx_owner m') = C_hold \<or> mx_lock_count m' = 0"
    and an: "gpr (thr e t) 3 \<in> answers p"
  shows "csys_ok e c m' (ph(t := p))"
proof -
  have "mutex_view c (ph(t := p)) = (mutex_view c ph)(t := mutex_view c (\<lambda>_. p) t)"
    by (auto simp: mutex_view_def)
  moreover have "t \<notin> set (cv_sq c)" using csys_ok_queued(5) [OF ok, of t] t(2) by auto
  ultimately show ?thesis using ok own rc lc an t by (auto simp: csys_ok_def)
qed

lemma mutex_view_simps [simp]: "mutex_view c (\<lambda>_. C_out) t = Idle" "mutex_view c (\<lambda>_. C_hold) t = Holding"
  "mutex_view c (\<lambda>_. C_lock) t = Waiting"
  by (simp_all add: mutex_view_def)

lemma csys_ok_owner:
  assumes "csys_ok e c m ph" "running (ph t)" "t \<noteq> 0"
  shows "ph t = (if mx_owner m = t then C_hold else C_out)"
proof -
  have "mx_owner m = t \<longrightarrow> mutex_view c ph t \<noteq> Idle" "mutex_view c ph t = Holding \<longrightarrow> t = mx_owner m"
    using assms(1,3) by (auto simp: csys_ok_def own_ok_def)
  with assms(2) show ?thesis by (auto simp: running_def mutex_view_def)
qed

lemma csys_ok_lock:
  assumes ok: "csys_ok e c m ph" and p: "running (ph t)" and t: "t \<noteq> 0"
    and view: "own_view t m seen" "\<forall>v \<in> set spins. own_view t m v"
    and live: "t \<in> set (g_ppu e)" "F_signal \<notin> state (thr e t)"
    and run: "mutex_lock t timeout seen spins e m = (out, e', m')"
  shows "csys_ok e' c m' (ph(t := (if out = Ret CELL_OK then C_hold else if out = Blocked then C_lock else ph t)))"
proof -
  have "calm t e e'" using mutex_lock_calm [of t e timeout seen spins m] run by simp
  then have e': "csys_ok e' c m ph" using csys_ok_calm [OF ok] p by blast
  then have oo: "own_ok m (mutex_view c ph)" by (simp add: csys_ok_def)
  have np: "\<forall>n. ph t \<noteq> C_wait n" using p by (auto simp: running_def)
  note ph = csys_ok_owner [OF e' p t]
  from run view t live show ?thesis
  proof (cases rule: mutex_lock_cases)
    case taken
    have "own_ok m' ((mutex_view c ph)(t := Holding))" using own_ok_take [OF oo _ t] taken(2,3) by simp
    then have "csys_ok e' c m' (ph(t := C_hold))"
      by (intro csys_ok_phase [OF e' t np]) (simp_all add: taken(3) answers_def)
    with taken(1) show ?thesis by simp
  next
    case deeper
    have "own_ok m' ((mutex_view c ph)(t := Holding))"
      using own_ok_hold [OF own_ok_count [OF oo, of "mx_lock_count m + 1"], of t] deeper t by simp
    then have "csys_ok e' c m' (ph(t := C_hold))"
      by (intro csys_ok_phase [OF e' t np]) (simp_all add: deeper(2,5) answers_def)
    with deeper(1) show ?thesis by simp
  next
    case (error r)
    then show ?thesis using e' by simp
  next
    case queued
    have i: "mutex_view c ph t = Idle" using ph queued(3) by (simp add: mutex_view_def)
    have "own_ok m' ((mutex_view c ph)(t := Waiting))" using own_ok_enqueue [OF oo i t] queued(2,4) by simp
    moreover have "ph (mx_owner m) = C_hold \<or> mx_lock_count m = 0" using e' by (auto simp: csys_ok_def)
    ultimately have "csys_ok e' c m' (ph(t := C_lock))" using queued(3)
      by (intro csys_ok_phase [OF e' t np]) (simp_all add: queued(4,5) answers_def)
    with queued(1) show ?thesis by simp
  qed
qed

lemma csys_ok_lock_wait:
  assumes ok: "csys_ok e c m ph" and p: "ph t = C_lock" and st: "state (thr e t) \<noteq> {}"
    "\<not> is_stopped (state (thr e t))" and sig: "F_signal \<in> state (thr e t) \<longrightarrow> t \<notin> set (mx_sq m)"
    and run: "mutex_wait t timeout fired e m = (v, e', m')"
  shows "csys_ok e' c m' (ph(t :=
     (if v = Keep_waiting then C_lock else if ret_gpr3 t e' = CELL_OK then C_hold else C_out)))"
proof -
  have c: "calm t e e'" using mutex_wait_calm [OF st(2), of timeout fired m] run by simp
  have oo: "own_ok m (mutex_view c ph)" and an: "gpr (thr e t) 3 \<in> answers (ph t)"
    using ok by (auto simp: csys_ok_def)
  have g: "gpr (thr e t) 3 = 0" using an p by (simp add: answers_def)
  have t: "t \<noteq> 0" using ok p by (auto simp: csys_ok_def)
  have "mutex_view c ph t = Waiting" using p by (simp add: mutex_view_def)
  then have w: "t \<notin> set (mx_sq m) \<Longrightarrow> mx_owner m = t" using oo unfolding own_ok_def by blast
  have np: "\<forall>n. ph t \<noteq> C_wait n" using p by simp
  have hold: "csys_ok e' c m (ph(t := C_hold))" if "t \<notin> set (mx_sq m)" "gpr (thr e' t) 3 = 0"
  proof -
    have "csys_ok e' c m ph" using csys_ok_env [OF ok c] that(2) p by (simp add: answers_def)
    moreover have "own_ok m ((mutex_view c ph)(t := Holding))" by (rule own_ok_hold [OF oo w [OF that(1)] t])
    ultimately show ?thesis using t np w [OF that(1)] by (intro csys_ok_phase) (simp_all add: answers_def)
  qed
  from run [unfolded mutex_wait_def] sig st(1) show ?thesis
  proof (cases rule: wait_iter_cases)
    case signalled
    then have "gpr (thr e' t) 3 = 0" using g by auto
    with hold [OF signalled(2)] signalled show ?thesis by (simp add: ret_gpr3_def)
  next
    case again
    with st(2) show ?thesis by simp
  next
    case timed
    show ?thesis
    proof (cases "t \<in> set (mx_sq m)")
      case True
      with timed(4) have e'_eq: "e' = set_gpr t 3 0x8001000B (add_flag t F_wait e)"
        and m': "m' = m\<lparr>mx_sq := remove1 t (mx_sq m)\<rparr>" by (auto simp: cancel_wait_def Let_def)
      have w1: "csys_ok (add_flag t F_wait e) c m ph"
        by (rule csys_ok_calm [OF ok calm_add_flag [OF calm_refl]]) simp_all
      have "own_ok m' ((mutex_view c ph)(t := Idle))" unfolding m' by (rule own_ok_drop [OF oo True])
      moreover have "mx_owner m \<noteq> t" using oo True by (auto simp: own_ok_def mutex_inv_def)
      moreover have "ph (mx_owner m) = C_hold \<or> mx_lock_count m = 0" using ok by (auto simp: csys_ok_def)
      ultimately have "csys_ok (add_flag t F_wait e) c m' (ph(t := C_out))"
        by (intro csys_ok_phase [OF w1 t np]) (simp_all add: m' answers_def)
      then have "csys_ok e' c m' (ph(t := C_out))" unfolding e'_eq
        by (rule csys_ok_calm [OF _ calm_set_gpr [OF calm_refl]]) (simp add: running_def)
      then show ?thesis using timed(1) by (simp add: ret_gpr3_def e'_eq thr_set_gpr)
    next
      case False
      with timed(4) have m': "m' = m" "e' = add_flag t F_wait e" by (auto simp: cancel_wait_def Let_def)
      with hold [OF False] timed(1) g show ?thesis by (simp add: ret_gpr3_def)
    qed
  next
    case more
    with ok p show ?thesis by (simp add: fun_upd_idem)
  qed
qed

lemma csys_ok_unlock:
  assumes ok: "csys_ok e c m ph" and p: "running (ph t)" and t: "t \<noteq> 0" and view: "own_view t m seen"
    and run: "mutex_unlock t seen e m = (out, e', m')"
  shows "csys_ok e' c m' (ph(t := (if mx_owner m' = t then ph t else C_out)))"
proof -
  have oo: "own_ok m (mutex_view c ph)" and ag: "\<And>u. F_again \<notin> state (thr e u)"
    using ok by (auto simp: csys_ok_def)
  then have mi: "mutex_inv m" by (simp add: own_ok_def)
  have np: "\<forall>n. ph t \<noteq> C_wait n" using p by (auto simp: running_def)
  note ph = csys_ok_owner [OF ok p t]
  from run mi view ag show ?thesis
  proof (cases rule: mutex_unlock_cases)
    case foreign
    then show ?thesis using ok ph by (simp add: fun_upd_idem)
  next
    case shallower
    then have "mx_recursive m = SYS_SYNC_RECURSIVE" using mi by (auto simp: mutex_inv_def)
    then have "own_ok m' ((mutex_view c ph)(t := Holding))"
      using own_ok_hold [OF own_ok_count [OF oo, of "mx_lock_count m - 1"], of t] shallower(2,5) t by simp
    then have "csys_ok e c m' (ph(t := C_hold))"
      by (intro csys_ok_phase [OF ok t np]) (simp_all add: shallower(2,5) answers_def)
    with shallower ph show ?thesis by simp
  next
    case released
    have "own_ok m' ((mutex_view c ph)(t := Idle))"
      unfolding released(6) by (rule own_ok_release [OF oo released(2,3,4)])
    then have "csys_ok e c m' (ph(t := C_out))"
      by (intro csys_ok_phase [OF ok t np]) (simp_all add: released(3,6) answers_def)
    with released t show ?thesis by simp
  next
    case (handed w)
    have "own_ok m' ((mutex_view c ph)(t := Idle))"
      unfolding handed(7) by (rule own_ok_hand [OF oo handed(2,3,5)])
    then have "csys_ok e c m' (ph(t := C_out))"
      by (intro csys_ok_phase [OF ok t np]) (simp_all add: handed(3,7) answers_def)
    then have "csys_ok (awake1 w e) c m' (ph(t := C_out))"
      by (rule csys_ok_calm [OF _ calm_awake1 [OF calm_refl]]) simp_all
    moreover have "w \<noteq> t" using handed(2,5) mi by (auto simp: mutex_inv_def)
    ultimately show ?thesis using handed by simp
  qed
qed

definition csys_inv :: "csys \<Rightarrow> bool" where
  "csys_inv s \<longleftrightarrow> csys_ok (cs_env s) (cs_cond s) (cs_mutex s) (cs_phase s)"

lemma csys_inv_step: "cond_step s s' \<Longrightarrow> csys_inv s \<Longrightarrow> csys_inv s'"
proof (induction rule: cond_step.induct)
  case (wait_on ph t n e c m timeout fired timeout' e' c' m')
  then show ?case using csys_ok_round [of e c m ph t n timeout fired timeout'] by (simp add: csys_inv_def)
next
  case (wait_end ph t n e c m timeout fired timeout' e' c' m' out m'')
  have ok: "csys_ok e c m ph" using wait_end.prems by (simp add: csys_inv_def)
  from csys_ok_round [OF ok wait_end(1-5)] have r: "csys_ok e' c' m' ph" "mx_owner m' = t" by simp_all
  from csys_ok_leave [OF r(1) wait_end(1) r(2)] wait_end(6) show ?case by (simp add: csys_inv_def)
next
  case (environment e' ph e c m)
  then have "gpr (thr e' u) 3 \<in> answers (ph u)" for u
    by (cases "running (ph u)") (auto simp: csys_inv_def csys_ok_def running_def answers_def)
  with environment show ?case by (simp add: csys_inv_def csys_ok_def)
qed (unfold csys_inv_def csys.select_convs,
  (rule csys_ok_lock csys_ok_lock_wait csys_ok_unlock csys_ok_wait
     csys_ok_signal [THEN conjunct1] csys_ok_signal_all [THEN conjunct1] csys_ok_signal_to [THEN conjunct1];
     assumption)+)

text \<open>
  The recursion count of the code against the ghost count of nested locks: a holder is one lock deeper than
  the mutex's counter, a waiter one deeper than the count that its handler keeps.
\<close>

definition nesting :: "lv2_mutex \<Rightarrow> cphase \<Rightarrow> nat" where
  "nesting m p =
     (case p of C_hold \<Rightarrow> unat (mx_lock_count m) + 1 | C_wait n \<Rightarrow> unat n + 1 | C_out \<Rightarrow> 0 | C_lock \<Rightarrow> 0)"

definition depth_ok :: "lv2_mutex \<Rightarrow> (tid \<Rightarrow> cphase) \<Rightarrow> (tid \<Rightarrow> nat) \<Rightarrow> bool" where
  "depth_ok m ph d \<longleftrightarrow> (\<forall>u. d u = nesting m (ph u))"

lemma nesting_simps [simp]: "nesting m C_hold = unat (mx_lock_count m) + 1" "nesting m (C_wait n) = unat n + 1"
  "nesting m C_out = 0" "nesting m C_lock = 0"
  by (simp_all add: nesting_def)

lemma nesting_count: "mx_lock_count m' = mx_lock_count m \<Longrightarrow> nesting m' = nesting m"
  by (simp add: nesting_def [abs_def])

lemma csys_ok_holder: "csys_ok e c m ph \<Longrightarrow> ph u = C_hold \<Longrightarrow> u = mx_owner m \<and> u \<noteq> 0"
proof -
  assume ok: "csys_ok e c m ph" and h: "ph u = C_hold"
  have "mutex_view c ph u = Holding" using h by (simp add: mutex_view_def)
  moreover have "own_ok m (mutex_view c ph)" "ph 0 = C_out" using ok by (simp_all add: csys_ok_def)
  ultimately show ?thesis using h unfolding own_ok_def by auto
qed

lemma depth_ok_upd:
  assumes "depth_ok m ph d" "x = nesting m' p" "mx_lock_count m' = mx_lock_count m \<or> (\<forall>u. u \<noteq> t \<longrightarrow> ph u \<noteq> C_hold)"
  shows "depth_ok m' (ph(t := p)) (d(t := x))"
  using assms by (auto simp: depth_ok_def nesting_def split: cphase.splits)

lemma depth_ok_lock:
  assumes ok: "csys_ok e c m ph" and d: "depth_ok m ph d" and p: "running (ph t)" and t: "t \<noteq> 0"
    and view: "own_view t m seen" "\<forall>v \<in> set spins. own_view t m v"
    and live: "t \<in> set (g_ppu e)" "F_signal \<notin> state (thr e t)"
    and run: "mutex_lock t timeout seen spins e m = (out, e', m')"
  shows "depth_ok m' (ph(t := (if out = Ret CELL_OK then C_hold else if out = Blocked then C_lock else ph t)))
     (d(t := (if out = Ret CELL_OK then d t + 1 else d t)))"
proof -
  have ph: "ph t = (if mx_owner m = t then C_hold else C_out)" by (rule csys_ok_owner [OF ok p t])
  have dt: "d t = nesting m (ph t)" using d by (simp add: depth_ok_def)
  have mi: "mutex_inv m" using ok by (simp add: csys_ok_def own_ok_def)
  have others: "ph u \<noteq> C_hold" if "mx_owner m = t \<or> mx_owner m = 0" "u \<noteq> t" for u
    using csys_ok_holder [OF ok, of u] that by auto
  from run view t live show ?thesis
  proof (cases rule: mutex_lock_cases)
    case taken
    then have "mx_lock_count m = 0" using mi by (simp add: mutex_inv_def)
    with taken dt ph t others show ?thesis by (auto intro!: depth_ok_upd [OF d])
  next
    case deeper
    have "unat (mx_lock_count m + 1) = unat (mx_lock_count m) + 1"
      using deeper(4) by (unat_arith, simp)
    with deeper dt ph t others show ?thesis by (auto intro!: depth_ok_upd [OF d])
  next
    case (error r)
    with d show ?thesis by simp
  next
    case queued
    with dt ph show ?thesis by (auto intro!: depth_ok_upd [OF d])
  qed
qed

lemma depth_ok_lock_wait:
  assumes ok: "csys_ok e c m ph" and d: "depth_ok m ph d" and p: "ph t = C_lock"
    and st: "state (thr e t) \<noteq> {}" "\<not> is_stopped (state (thr e t))"
    and sig: "F_signal \<in> state (thr e t) \<longrightarrow> t \<notin> set (mx_sq m)"
    and run: "mutex_wait t timeout fired e m = (v, e', m')"
  shows "depth_ok m' (ph(t := (if v = Keep_waiting then C_lock else if ret_gpr3 t e' = CELL_OK then C_hold else C_out)))
     (d(t := (if v \<noteq> Keep_waiting \<and> ret_gpr3 t e' = CELL_OK then d t + 1 else d t)))"
proof -
  let ?ph = "ph(t := (if v = Keep_waiting then C_lock else if ret_gpr3 t e' = CELL_OK then C_hold else C_out))"
  have ok': "csys_ok e' c m' ?ph" by (rule csys_ok_lock_wait [OF ok p st sig run])
  have dt: "d t = 0" using d p by (simp add: depth_ok_def)
  from run [unfolded mutex_wait_def] sig st(1) have m': "mx_lock_count m' = mx_lock_count m \<and> mx_owner m' = mx_owner m"
    by (cases rule: wait_iter_cases) (auto simp: cancel_wait_def Let_def split: if_splits)
  have "mx_lock_count m' = 0" if h: "?ph t = C_hold"
  proof -
    have "ph (mx_owner m) \<noteq> C_hold" using csys_ok_holder [OF ok' h] m' p by simp
    then show ?thesis using ok m' by (simp add: csys_ok_def)
  qed
  then show ?thesis using dt m' by (intro depth_ok_upd [OF d]) (auto split: if_splits)
qed

lemma depth_ok_unlock:
  assumes ok: "csys_ok e c m ph" and d: "depth_ok m ph d" and p: "running (ph t)" and t: "t \<noteq> 0"
    and view: "own_view t m seen" and run: "mutex_unlock t seen e m = (out, e', m')"
  shows "depth_ok m' (ph(t := (if mx_owner m' = t then ph t else C_out)))
     (d(t := (if out = Ret CELL_OK then d t - 1 else d t)))"
proof -
  have ph: "ph t = (if mx_owner m = t then C_hold else C_out)" by (rule csys_ok_owner [OF ok p t])
  have dt: "d t = nesting m (ph t)" using d by (simp add: depth_ok_def)
  have mi: "mutex_inv m" and ag: "\<And>u. F_again \<notin> state (thr e u)"
    using ok by (auto simp: csys_ok_def own_ok_def)
  have others: "ph u \<noteq> C_hold" if "mx_owner m = t" "u \<noteq> t" for u
    using csys_ok_holder [OF ok, of u] that by auto
  from run mi view ag show ?thesis
  proof (cases rule: mutex_unlock_cases)
    case foreign
    with d dt ph show ?thesis by (auto intro!: depth_ok_upd [OF d])
  next
    case shallower
    then have "unat (mx_lock_count m - 1) + 1 = unat (mx_lock_count m)" by unat_arith
    with shallower dt ph t others show ?thesis by (auto intro!: depth_ok_upd [OF d])
  next
    case released
    with dt ph t show ?thesis by (auto intro!: depth_ok_upd [OF d])
  next
    case (handed w)
    then have "w \<noteq> t" using mi by (auto simp: mutex_inv_def)
    with handed dt ph t show ?thesis by (auto intro!: depth_ok_upd [OF d])
  qed
qed

lemma depth_ok_wait:
  assumes ok: "csys_ok e c m ph" and d: "depth_ok m ph d" and r: "running (ph t)" "t \<noteq> 0"
    and l: "\<not> loaded_from_savestate (thr e t)" and run: "cond_wait t timeout e c m = (n, out, e', c', m')"
  shows "depth_ok m' (ph(t := (if out = Blocked then C_wait n else ph t))) d"
proof (cases "mx_owner m = t")
  case False
  have "F_again \<notin> state (thr e t)" using ok by (simp add: csys_ok_def)
  moreover have "loaded_from_savestate (thr (set_gpr t 3 0 e) t) = loaded_from_savestate (thr e t)"
    by (simp add: thr_set_gpr)
  ultimately have "out = Ret CELL_EPERM" "m' = m" using run False l by (simp_all add: cond_wait_def Let_def)
  with d show ?thesis by simp
next
  case own: True
  have ag: "\<forall>u. F_again \<notin> state (thr e u)" using ok by (simp add: csys_ok_def)
  have "n = mx_lock_count m \<and> out = Blocked"
    by (rule cond_wait_eq [OF l own ag, where timeout = timeout and c = c]) (simp add: run)
  moreover have "ph t = C_hold" using csys_ok_owner [OF ok r] own by simp
  moreover have "ph u \<noteq> C_hold" if "u \<noteq> t" for u using csys_ok_holder [OF ok, of u] own that by auto
  ultimately have "depth_ok m' (ph(t := C_wait n)) (d(t := d t))"
    using d by (intro depth_ok_upd [OF d]) (auto simp: depth_ok_def)
  then show ?thesis using \<open>n = mx_lock_count m \<and> out = Blocked\<close> by simp
qed

lemma depth_ok_end:
  assumes ok: "csys_ok e c m ph" and d: "depth_ok m ph d" and w: "ph t = C_wait n" and o: "mx_owner m = t"
  shows "depth_ok (m\<lparr>mx_lock_count := n\<rparr>) (ph(t := C_hold)) d"
proof -
  have "ph u \<noteq> C_hold" if "u \<noteq> t" for u using csys_ok_holder [OF ok, of u] o that by auto
  then have "depth_ok (m\<lparr>mx_lock_count := n\<rparr>) (ph(t := C_hold)) (d(t := d t))"
    using d w by (intro depth_ok_upd [OF d]) (auto simp: depth_ok_def)
  then show ?thesis by simp
qed

lemma depth_ok_same: "depth_ok m ph d \<Longrightarrow> mx_lock_count m' = mx_lock_count m \<Longrightarrow> depth_ok m' ph d"
  by (simp add: depth_ok_def nesting_count [of m' m])

definition depth_inv :: "csys \<Rightarrow> bool" where
  "depth_inv s \<longleftrightarrow> depth_ok (cs_mutex s) (cs_phase s) (cs_depth s)"

lemma depth_inv_step: "cond_step s s' \<Longrightarrow> csys_inv s \<Longrightarrow> depth_inv s \<Longrightarrow> depth_inv s'"
proof (induction rule: cond_step.induct)
  case (wait_on ph t n e c m timeout fired timeout' e' c' m')
  then show ?case using csys_ok_round [of e c m ph t n timeout fired timeout']
    by (auto simp: csys_inv_def depth_inv_def intro: depth_ok_same)
next
  case (wait_end ph t n e c m timeout fired timeout' e' c' m' out m'' d)
  have ok: "csys_ok e c m ph" and d: "depth_ok m ph d"
    using wait_end.prems by (simp_all add: csys_inv_def depth_inv_def)
  from csys_ok_round [OF ok wait_end(1-5)] have r: "csys_ok e' c' m' ph" "mx_owner m' = t"
    "mx_lock_count m' = mx_lock_count m" by simp_all
  from csys_ok_leave(1) [OF r(1) wait_end(1) r(2)] wait_end(6) depth_ok_end [OF r(1) depth_ok_same [OF d r(3)] wait_end(1) r(2)]
  show ?case by (simp add: depth_inv_def)
next
  case (signal ph t seen1 e c m out e' c' m' d)
  then show ?case using csys_ok_signal [of e c m ph t seen1 out e' c' m']
    by (auto simp: csys_inv_def depth_inv_def intro: depth_ok_same)
next
  case (signal_all ph t seen1 e c m out e' c' m' d)
  then show ?case using csys_ok_signal_all [of e c m ph t seen1 out e' c' m']
    by (auto simp: csys_inv_def depth_inv_def intro: depth_ok_same)
next
  case (signal_to ph t w alive seen1 e c m out e' c' m' d)
  then show ?case using csys_ok_signal_to [of e c m ph t w alive seen1 out e' c' m']
    by (auto simp: csys_inv_def depth_inv_def intro: depth_ok_same)
next
  case (environment e' ph e c m d)
  then show ?case by (simp add: depth_inv_def)
qed (unfold csys_inv_def depth_inv_def csys.select_convs,
  (rule depth_ok_lock depth_ok_lock_wait depth_ok_unlock depth_ok_wait; assumption)+)

definition csys_init :: "csys \<Rightarrow> bool" where
  "csys_init s \<longleftrightarrow> cs_phase s = (\<lambda>_. C_out) \<and> cs_depth s = (\<lambda>_. 0) \<and> mx_owner (cs_mutex s) = 0 \<and>
     mx_sq (cs_mutex s) = [] \<and> mx_lock_count (cs_mutex s) = 0 \<and> cv_sq (cs_cond s) = [] \<and>
     (\<forall>u. F_again \<notin> state (thr (cs_env s) u))"

lemma csys_reachable_inv: "cond_step\<^sup>*\<^sup>* s0 s \<Longrightarrow> csys_init s0 \<Longrightarrow> csys_inv s \<and> depth_inv s"
proof (induction rule: rtranclp_induct)
  case base
  then have "mutex_view (cs_cond s0) (cs_phase s0) = (\<lambda>_. Idle)"
    by (simp add: csys_init_def mutex_view_def fun_eq_iff)
  with base show ?case
    by (simp add: csys_init_def csys_inv_def csys_ok_def own_ok_def mutex_inv_def answers_def
        depth_inv_def depth_ok_def)
qed (blast intro: csys_inv_step depth_inv_step)

section \<open>Properties\<close>

text \<open>
  Claim C5. The monitor discipline. Starting from a free mutex and running any number of threads that
  lock, unlock, wait with and without timeouts and signal in any order: at most one thread holds the
  mutex, the owner word names it, and the recursion counter is one less than the number of its lock calls
  that are not yet unlocked; a thread blocked in \<^verbatim>\<open>sys_cond_wait\<close> is in exactly one of the condition queue, the mutex queue and
  the owner field, so that no waiter is lost and none is queued twice; and when its loop ends, by a signal
  or by its timeout, the ownership check of the handler holds, the call returns \<^verbatim>\<open>CELL_OK\<close> or
  \<^verbatim>\<open>CELL_ETIMEDOUT\<close>, and the recursion counter again stands for the lock calls the thread had made
  before it started to wait.
\<close>

theorem cond_monitor:
  assumes "cond_step\<^sup>*\<^sup>* s0 s" "csys_init s0"
  shows "(cs_phase s u = C_hold \<and> cs_phase s v = C_hold \<longrightarrow> u = v) \<and>
    (cs_phase s u = C_hold \<longrightarrow> mx_owner (cs_mutex s) = u \<and> unat (mx_lock_count (cs_mutex s)) + 1 = cs_depth s u) \<and>
    (cs_phase s u = C_wait n \<longrightarrow>
       u \<in> set (cv_sq (cs_cond s)) \<and> u \<notin> set (mx_sq (cs_mutex s)) \<and> mx_owner (cs_mutex s) \<noteq> u \<or>
       u \<notin> set (cv_sq (cs_cond s)) \<and> u \<in> set (mx_sq (cs_mutex s)) \<and> mx_owner (cs_mutex s) \<noteq> u \<or>
       u \<notin> set (cv_sq (cs_cond s)) \<and> u \<notin> set (mx_sq (cs_mutex s)) \<and> mx_owner (cs_mutex s) = u) \<and>
    (cs_phase s u = C_wait n \<and> state (thr (cs_env s) u) \<noteq> {} \<and> \<not> is_stopped (state (thr (cs_env s) u)) \<and>
       (F_signal \<in> state (thr (cs_env s) u) \<longrightarrow> u \<notin> set (cv_sq (cs_cond s)) \<and> u \<notin> set (mx_sq (cs_mutex s))) \<and>
       cond_wait_round u n timeout fired (cs_env s) (cs_cond s) (cs_mutex s) = (timeout', Leave, e', c', m') \<longrightarrow>
       (\<exists>r \<in> {CELL_OK, CELL_ETIMEDOUT}. \<exists>count. unat count + 1 = cs_depth s u \<and>
          cond_wait_end u n e' m' = (Ret r, m'\<lparr>mx_lock_count := count\<rparr>)))"
proof -
  define e c m ph d where "e = cs_env s" and "c = cs_cond s" and "m = cs_mutex s" and "ph = cs_phase s"
    and "d = cs_depth s"
  have ok: "csys_ok e c m ph" and du: "d u = nesting m (ph u)"
    using csys_reachable_inv [OF assms]
    by (simp_all add: csys_inv_def depth_inv_def depth_ok_def e_def c_def m_def ph_def d_def)
  have oo: "own_ok m (mutex_view c ph)" using ok by (simp add: csys_ok_def)
  have h: "ph x = C_hold \<Longrightarrow> x = mx_owner m" for x using csys_ok_holder [OF ok] by blast
  then have "ph u = C_hold \<and> ph v = C_hold \<longrightarrow> u = v" by auto
  moreover have "ph u = C_hold \<longrightarrow> mx_owner m = u \<and> unat (mx_lock_count m) + 1 = d u" using h du by simp
  moreover have "mx_owner m \<notin> set (mx_sq m)" using oo by (simp add: own_ok_def mutex_inv_def)
  then have "ph u = C_wait n \<longrightarrow>
      u \<in> set (cv_sq c) \<and> u \<notin> set (mx_sq m) \<and> mx_owner m \<noteq> u \<or>
      u \<notin> set (cv_sq c) \<and> u \<in> set (mx_sq m) \<and> mx_owner m \<noteq> u \<or>
      u \<notin> set (cv_sq c) \<and> u \<notin> set (mx_sq m) \<and> mx_owner m = u"
    using csys_ok_waiter(1) [OF ok, of u n] csys_ok_queued(3,4) [OF ok, of u] by blast
  moreover have "\<exists>r \<in> {CELL_OK, CELL_ETIMEDOUT}. \<exists>count. unat count + 1 = d u \<and>
      cond_wait_end u n e' m' = (Ret r, m'\<lparr>mx_lock_count := count\<rparr>)"
    if w: "ph u = C_wait n" and run: "state (thr e u) \<noteq> {}" "\<not> is_stopped (state (thr e u))"
      "F_signal \<in> state (thr e u) \<longrightarrow> u \<notin> set (cv_sq c) \<and> u \<notin> set (mx_sq m)"
      "cond_wait_round u n timeout fired e c m = (timeout', Leave, e', c', m')"
  proof -
    from csys_ok_round [OF ok w run] have "csys_ok e' c' m' ph" "mx_owner m' = u" by simp_all
    from csys_ok_leave [OF this(1) w this(2)] du w show ?thesis by (intro bexI exI [of _ n] conjI) simp_all
  qed
  ultimately show ?thesis
    unfolding e_def [symmetric] c_def [symmetric] m_def [symmetric] ph_def [symmetric] d_def [symmetric] by blast
qed

definition demo_cond :: lv2_cond where
  "demo_cond = \<lparr>cv_exists = 1, cv_key = 0, cv_name = 0, cv_mtx_id = 0x85000000, cv_mutex = 0, cv_sq = []\<rparr>"

text \<open>Thread 3 locks the mutex twice and waits.\<close>

theorem cond_monitor_witness:
  "\<exists>s s0. csys_init s0 \<and> cond_step\<^sup>*\<^sup>* s0 s \<and> cs_phase s 3 = C_wait 1 \<and> cs_depth s 3 = 2 \<and>
     (3 \<in> set (cv_sq (cs_cond s)) \<or> 3 \<in> set (mx_sq (cs_mutex s)) \<or> mx_owner (cs_mutex s) = 3)"
proof -
  let ?e = "demo_lv2 [1, 3]" and ?m = "demo_mutex\<lparr>mx_owner := 3\<rparr>"
  let ?n = "?m\<lparr>mx_lock_count := 1\<rparr>" and ?ph = "(\<lambda>_. C_out)(3 := C_hold)" and ?d = "\<lambda>k. (\<lambda>_. 0)(3 := k)"
  define s0 s1 s2 where
    "s0 = \<lparr>cs_env = ?e, cs_cond = demo_cond, cs_mutex = demo_mutex, cs_phase = (\<lambda>_. C_out), cs_depth = (\<lambda>_. 0)\<rparr>"
    and "s1 = \<lparr>cs_env = ?e, cs_cond = demo_cond, cs_mutex = ?m, cs_phase = ?ph, cs_depth = ?d 1\<rparr>"
    and "s2 = \<lparr>cs_env = ?e, cs_cond = demo_cond, cs_mutex = ?n, cs_phase = ?ph, cs_depth = ?d (Suc (Suc 0))\<rparr>"
  have l: "mutex_lock 3 0 (0, None) [] ?e demo_mutex = (Ret CELL_OK, ?e, ?m)"
    "mutex_lock 3 0 (3, None) [] ?e ?m = (Ret CELL_OK, ?e, ?n)"
    by (simp_all add: mutex_lock_def try_lock_def control_of_def demo_mutex_def)
  have step1: "cond_step s0 s1"
    using cond_step.lock [of "\<lambda>_. C_out" 3 demo_mutex "(0, None)" "[]" ?e 0 _ ?e ?m demo_cond "\<lambda>_. 0"] l(1)
    by (simp add: s0_def s1_def own_view_def running_def demo_mutex_def demo_defs)
  have step2: "cond_step s1 s2"
    using cond_step.lock [of ?ph 3 ?m "(3, None)" "[]" ?e 0 _ ?e ?n demo_cond "?d 1"] l(2)
    by (simp add: s1_def s2_def own_view_def running_def demo_mutex_def demo_defs)
  have i: "csys_init s0"
    by (simp add: s0_def csys_init_def demo_mutex_def demo_cond_def demo_defs)
  obtain e' c' m' where w: "cond_wait 3 0 ?e demo_cond ?n = (1, Blocked, e', c', m')"
    by (rule cond_wait_eq [of ?e 3 ?n 0 demo_cond]) (simp_all add: demo_mutex_def demo_defs)
  define s where "s = \<lparr>cs_env = e', cs_cond = c', cs_mutex = m',
      cs_phase = (\<lambda>_. C_out)(3 := C_wait 1), cs_depth = ?d (Suc (Suc 0))\<rparr>"
  have step3: "cond_step s2 s"
    using cond_step.wait [of ?ph 3 ?e 0 demo_cond ?n 1 Blocked e' c' m' "?d (Suc (Suc 0))"] w
    by (simp add: s_def s2_def running_def demo_defs)
  have "cond_step\<^sup>*\<^sup>* s0 s"
    using r_into_rtranclp [of cond_step, OF step1] step2 step3 by (meson rtranclp.rtrancl_into_rtrancl)
  then have r: "cond_step\<^sup>*\<^sup>* s0 s" "cs_phase s 3 = C_wait 1" "cs_depth s 3 = 2" by (simp_all add: s_def)
  from cond_monitor [OF r(1) i, of 3 3 1] r i show ?thesis by blast
qed

text \<open>
  Waiting gives the mutex up completely. The owner's call saves the recursion count, queues the
  caller at the condition variable and hands the mutex to the waiter that the protocol picks, or frees
  it; the invariant of the mutex is kept. Any other thread gets \<^verbatim>\<open>CELL_EPERM\<close> and changes neither object.
\<close>

theorem cond_wait_behaviour:
  assumes "cond_wait t timeout e c m = (n, out, e', c', m')" "mutex_inv m" "\<not> loaded_from_savestate (thr e t)"
    and "\<forall>u. F_again \<notin> state (thr e u)"
  shows "mutex_inv m' \<and>
    (if mx_owner m \<noteq> t then out = Ret CELL_EPERM \<and> c' = c \<and> m' = m
     else out = Blocked \<and> n = mx_lock_count m \<and> c' = c\<lparr>cv_sq := t # cv_sq c\<rparr> \<and> mx_lock_count m' = 0 \<and>
       (case pick (thr e') (mx_protocol m) (mx_sq m) of
          None \<Rightarrow> mx_owner m' = 0 \<and> mx_sq m' = []
        | Some w \<Rightarrow> mx_owner m' = w \<and> w \<in> set (mx_sq m) \<and> mx_sq m' = remove1 w (mx_sq m)))"
proof (cases "mx_owner m = t")
  case False
  have "loaded_from_savestate (thr (set_gpr t 3 0 e) t) = loaded_from_savestate (thr e t)"
    by (simp add: thr_set_gpr)
  with assms False have "out = Ret CELL_EPERM" "c' = c" "m' = m" by (simp_all add: cond_wait_def Let_def)
  with assms(2) False show ?thesis by simp
next
  case own: True
  let ?m0 = "m\<lparr>mx_lock_count := 0\<rparr>"
  obtain e1 where e1: "cond_wait t timeout e c m = (mx_lock_count m, Blocked, e1, c\<lparr>cv_sq := t # cv_sq c\<rparr>,
       case pick (thr e1) (mx_protocol m) (mx_sq m) of
         None \<Rightarrow> m\<lparr>mx_lock_count := 0, mx_owner := 0\<rparr>
       | Some w \<Rightarrow> m\<lparr>mx_lock_count := 0, mx_owner := w, mx_sq := remove1 w (mx_sq m)\<rparr>)"
    by (rule cond_wait_eq [OF assms(3) own assms(4), where timeout = timeout and c = c]) blast
  define w where "w = pick (thr e1) (mx_protocol m) (mx_sq m)"
  have eqs: "n = mx_lock_count m" "out = Blocked" "e' = e1" "c' = c\<lparr>cv_sq := t # cv_sq c\<rparr>"
    and m': "m' = (case w of None \<Rightarrow> ?m0\<lparr>mx_owner := 0\<rparr>
      | Some w \<Rightarrow> ?m0\<lparr>mx_owner := w, mx_sq := remove1 w (mx_sq m)\<rparr>)"
    using assms(1) unfolding e1 w_def [symmetric] prod.inject by (simp_all only:)
  note i0 = mutex_inv_uncount [OF assms(2)]
  show ?thesis
  proof (cases w)
    case None
    then have "mx_sq m = []" by (simp add: w_def)
    with mutex_inv_unlock(1) [OF i0] None own eqs m' w_def show ?thesis by simp
  next
    case (Some x)
    then have "x \<in> set (mx_sq m)" using pick_mem [of "thr e1" "mx_protocol m"] by (simp add: w_def)
    with mutex_inv_unlock(2) [OF i0, of x] Some own eqs m' w_def show ?thesis by simp
  qed
qed

theorem cond_wait_behaviour_witness:
  "mx_owner (snd (snd (snd (snd (cond_wait 3 0 (demo_lv2 [1, 3]) demo_cond
     (demo_mutex\<lparr>mx_owner := 3, mx_lock_count := 2, mx_sq := [7, 5]\<rparr>)))))) = 5"
proof -
  let ?m = "demo_mutex\<lparr>mx_owner := 3, mx_lock_count := 2, mx_sq := [7, 5]\<rparr>" and ?e = "demo_lv2 [1, 3]"
  obtain n out e' c' m' where run: "cond_wait 3 0 ?e demo_cond ?m = (n, out, e', c', m')"
    using prod_cases5 by blast
  have "mutex_inv ?m" "\<not> loaded_from_savestate (thr ?e 3)" "\<forall>u. F_again \<notin> state (thr ?e u)"
    by (simp_all add: mutex_inv_def demo_mutex_def demo_defs)
  from cond_wait_behaviour [OF run this] run show ?thesis by (simp add: demo_mutex_def pick_def)
qed

text \<open>
  Signalling moves waiters to the mutex and wakes only a thread that now owns it. \<^verbatim>\<open>signal\<close> takes
  the waiter that the mutex's protocol picks, \<^verbatim>\<open>signal_to\<close> the named one (\<^verbatim>\<open>CELL_EPERM\<close> if it does not
  wait, \<^verbatim>\<open>CELL_ESRCH\<close> if it does not exist): it becomes the owner of a free mutex and is queued behind
  another owner. \<^verbatim>\<open>signal_all\<close> ends and empties the condition queue: with the mutex free the waiter of the
  best priority becomes the owner, and all the others are added to the mutex queue.
\<close>

theorem cond_signal_behaviour:
  assumes "F_suspend \<notin> state (thr e t)" "distinct (cv_sq c)" "0 \<notin> set (cv_sq c)"
    and "\<forall>w \<in> set (cv_sq c). F_again \<notin> state (thr e w)"
  shows "cond_signal t (cv_sq c \<noteq> []) e c m =
      (case pick (thr e) (mx_protocol m) (cv_sq c) of
         None \<Rightarrow> (Ret CELL_OK, e, c, m)
       | Some w \<Rightarrow>
           (Ret CELL_OK, if mx_owner m = 0 then awake1 w e else stamp_order w e, c\<lparr>cv_sq := remove1 w (cv_sq c)\<rparr>,
            if mx_owner m = 0 then m\<lparr>mx_owner := w\<rparr> else m\<lparr>mx_sq := w # mx_sq m\<rparr>)) \<and>
    cond_signal_to t w alive (cv_sq c \<noteq> []) e c m =
      (if \<not> alive then (Ret CELL_ESRCH, e, c, m)
       else if w \<notin> set (cv_sq c) then (Ret CELL_EPERM, e, c, m)
       else (Ret CELL_OK, if mx_owner m = 0 then awake1 w e else stamp_order w e, c\<lparr>cv_sq := remove1 w (cv_sq c)\<rparr>,
             if mx_owner m = 0 then m\<lparr>mx_owner := w\<rparr> else m\<lparr>mx_sq := w # mx_sq m\<rparr>)) \<and>
    (\<exists>e' m' ws. cond_signal_all t (cv_sq c \<noteq> []) e c m = Some (Ret CELL_OK, e', c\<lparr>cv_sq := []\<rparr>, m') \<and>
       distinct ws \<and> mx_sq m' = ws @ mx_sq m \<and>
       (case pick (thr e) SYS_SYNC_PRIORITY (cv_sq c) of
          None \<Rightarrow> ws = [] \<and> mx_owner m' = mx_owner m
        | Some w \<Rightarrow> if mx_owner m = 0 then mx_owner m' = w \<and> set ws = set (cv_sq c) - {w}
                   else mx_owner m' = mx_owner m \<and> set ws = set (cv_sq c)))"
proof (intro conjI)
  show "cond_signal t (cv_sq c \<noteq> []) e c m =
      (case pick (thr e) (mx_protocol m) (cv_sq c) of
         None \<Rightarrow> (Ret CELL_OK, e, c, m)
       | Some w \<Rightarrow>
           (Ret CELL_OK, if mx_owner m = 0 then awake1 w e else stamp_order w e, c\<lparr>cv_sq := remove1 w (cv_sq c)\<rparr>,
            if mx_owner m = 0 then m\<lparr>mx_owner := w\<rparr> else m\<lparr>mx_sq := w # mx_sq m\<rparr>))"
  proof (cases "pick (thr e) (mx_protocol m) (cv_sq c)")
    case None
    then have "cv_sq c = []" by simp
    with cond_signal_idle [of e t False c m] assms(1) None show ?thesis by simp
  next
    case (Some x)
    then have x: "x \<in> set (cv_sq c)" by (rule pick_mem)
    then have n: "(cv_sq c \<noteq> []) = True" by auto
    have "F_again \<notin> state (thr e x)" using assms(4) x by blast
    from cond_signal_eq [OF assms(1) Some this] show ?thesis unfolding n Some by (simp add: sent_def own_next_def)
  qed
  show "cond_signal_to t w alive (cv_sq c \<noteq> []) e c m =
      (if \<not> alive then (Ret CELL_ESRCH, e, c, m)
       else if w \<notin> set (cv_sq c) then (Ret CELL_EPERM, e, c, m)
       else (Ret CELL_OK, if mx_owner m = 0 then awake1 w e else stamp_order w e, c\<lparr>cv_sq := remove1 w (cv_sq c)\<rparr>,
             if mx_owner m = 0 then m\<lparr>mx_owner := w\<rparr> else m\<lparr>mx_sq := w # mx_sq m\<rparr>))"
  proof (cases "alive \<and> w \<in> set (cv_sq c)")
    case True
    then have n: "(cv_sq c \<noteq> []) = True" "alive = True" by auto
    have "F_again \<notin> state (thr e w)" using assms(4) True by blast
    from cond_signal_to_eq [OF assms(1) _ this, of c m] True show ?thesis
      unfolding n by (simp add: sent_def own_next_def)
  next
    case False
    with assms(1) show ?thesis by (auto simp: cond_signal_to_def)
  qed
  obtain ws where ws: "distinct ws" "set ws = set (cv_sq c)"
    "\<forall>w ws'. ws = w # ws' \<longrightarrow> pick (thr e) SYS_SYNC_PRIORITY (cv_sq c) = Some w"
    "cond_signal_all t True e c m = Some (Ret CELL_OK, sent_all ws e m, c\<lparr>cv_sq := []\<rparr>, fold own_next ws m)"
    by (rule cond_signal_all_eq [OF assms])
  have all: "\<exists>e'. cond_signal_all t (cv_sq c \<noteq> []) e c m = Some (Ret CELL_OK, e', c\<lparr>cv_sq := []\<rparr>, fold own_next ws m)"
    using ws(2,4) assms(1) by (cases "cv_sq c") (simp_all add: cond_signal_all_def)
  let ?P = "\<lambda>m' ws. distinct ws \<and> mx_sq m' = ws @ mx_sq m \<and>
       (case pick (thr e) SYS_SYNC_PRIORITY (cv_sq c) of
          None \<Rightarrow> ws = [] \<and> mx_owner m' = mx_owner m
        | Some w \<Rightarrow> if mx_owner m = 0 then mx_owner m' = w \<and> set ws = set (cv_sq c) - {w}
                   else mx_owner m' = mx_owner m \<and> set ws = set (cv_sq c))"
  have "\<exists>ws'. ?P (fold own_next ws m) ws'"
  proof (cases ws)
    case Nil
    then have "cv_sq c = []" using ws(2) by simp
    with Nil show ?thesis by (simp add: pick_def)
  next
    case (Cons x xs)
    then have x: "pick (thr e) SYS_SYNC_PRIORITY (cv_sq c) = Some x" "x \<noteq> 0" using ws(2,3) assms(3) by auto
    show ?thesis
    proof (cases "mx_owner m = 0")
      case True
      with mx.all_free [OF True x(2), of xs] Cons ws x show ?thesis by (intro exI [of _ "rev xs"]) auto
    next
      case False
      with mx.all_owned [OF False, of ws] ws x show ?thesis by (intro exI [of _ "rev ws"]) simp
    qed
  qed
  with all show "\<exists>e' m' ws. cond_signal_all t (cv_sq c \<noteq> []) e c m = Some (Ret CELL_OK, e', c\<lparr>cv_sq := []\<rparr>, m') \<and>
      ?P m' ws" by blast
qed

theorem cond_signal_behaviour_witness:
  "mx_owner (snd (snd (snd (cond_signal 1 True (demo_lv2 [1]) (demo_cond\<lparr>cv_sq := [7, 5]\<rparr>) demo_mutex)))) = 5"
proof -
  let ?c = "demo_cond\<lparr>cv_sq := [7, 5]\<rparr>" and ?e = "demo_lv2 [1]"
  have "F_suspend \<notin> state (thr ?e 1)" "distinct (cv_sq ?c)" "0 \<notin> set (cv_sq ?c)"
    "\<forall>w \<in> set (cv_sq ?c). F_again \<notin> state (thr ?e w)" by (simp_all add: demo_defs)
  from cond_signal_behaviour [OF this, of demo_mutex 5 True] show ?thesis
    by (simp add: demo_mutex_def pick_def)
qed

end
