(* ===== verification/Sys_Lwmutex.thy ===== *)
theory Sys_Lwmutex
  imports Lv2_Objects
begin

text \<open>
  The kernel half of the lightweight mutex, \<^verbatim>\<open>sys_lwmutex.h\<close> and \<^verbatim>\<open>sys_lwmutex.cpp\<close>. The guest library
  counts owners in user memory and enters the kernel only to sleep and to wake; the kernel object is a
  token (\<^verbatim>\<open>signaled\<close>, with a second bit for \<^verbatim>\<open>unlock2\<close>) and a queue. Loads that precede an atomic
  operation appear as arguments: \<open>seen\<close> of \<open>lw_try_unlock\<close> is the queue head and the token that were
  loaded, \<open>late\<close> of \<open>lwmutex_lock\<close> says that the first look at the token found none.
\<close>

section \<open>Model: the control word\<close>

abbreviation (input) smin :: u32 where "smin \<equiv> 0x80000000"

definition lw_token :: "bool \<Rightarrow> u32" where
  "lw_token unlock2 = (if unlock2 then smin else 1)"

text \<open>A waiter that joins the queue switches the notification of a waiting destroyer off.\<close>

definition lw_unnotify :: "u32 \<Rightarrow> u32" where
  "lw_unnotify v = (if v \<le> smin then v else v AND 0x7fffffff)"

definition lw_try_own :: "tid \<Rightarrow> bool \<Rightarrow> lv2 \<Rightarrow> lv2_lwmutex \<Rightarrow> u32 \<times> lv2 \<times> lv2_lwmutex" where
  "lw_try_own t wait_only e x =
     (if lw_signaled x = 0
      then (0, stamp_order t e,
            x\<lparr>lw_sq := t # lw_sq x, lw_lwcond_waiters := lw_unnotify (lw_lwcond_waiters x)\<rparr>)
      else (lw_signaled x, e\<lparr>fatal := fatal e \<or> wait_only\<rparr>, x\<lparr>lw_signaled := 0\<rparr>))"

definition lw_try_unlock :: "bool \<Rightarrow> tid option \<times> u32 \<Rightarrow> lv2_lwmutex \<Rightarrow> bool \<times> lv2_lwmutex" where
  "lw_try_unlock unlock2 seen x =
     (if fst seen = None \<and> lw_sq x = [] \<and> lw_signaled x = snd seen
      then (True, x\<lparr>lw_signaled := snd seen OR lw_token unlock2\<rparr>) else (False, x))"

definition lw_reown :: "bool \<Rightarrow> (tid \<Rightarrow> ppu_thread) \<Rightarrow> lv2_lwmutex \<Rightarrow> tid option \<times> lv2_lwmutex" where
  "lw_reown unlock2 th x =
     (case schedule th (lw_protocol x) (lw_sq x) of
        (Some r, q) \<Rightarrow> (Some r, x\<lparr>lw_sq := q\<rparr>)
      | (None, _) \<Rightarrow> (None, x\<lparr>lw_signaled := lw_signaled x OR lw_token unlock2\<rparr>))"

section \<open>Model: the calls on one lightweight mutex\<close>

definition lw_answer :: "tid \<Rightarrow> u32 \<Rightarrow> lv2 \<Rightarrow> lv2" where
  "lw_answer t signal e = (if bit signal 0 then e else set_gpr t 3 (ucast (CELL_EBUSY)) e)"

definition lwmutex_lock ::
  "tid \<Rightarrow> u64 \<Rightarrow> bool \<Rightarrow> lv2 \<Rightarrow> lv2_lwmutex \<Rightarrow> outcome \<times> lv2 \<times> lv2_lwmutex" where
  "lwmutex_lock t timeout late e x =
     (let e0 = set_gpr t 3 0 e
      in if lw_signaled x \<noteq> 0 \<and> \<not> late
         then (let e1 = lw_answer t (lw_signaled x) e0 in (Ret (ret_gpr3 t e1), e1, x\<lparr>lw_signaled := 0\<rparr>))
         else
           (case lw_try_own t False (upd_thr t (\<lambda>p. p\<lparr>cancel_sleep := 1\<rparr>) e0) x of
              (signal, e1, x1) \<Rightarrow>
                if signal \<noteq> 0
                then (let e2 = upd_thr t (\<lambda>p. p\<lparr>cancel_sleep := 0\<rparr>) (lw_answer t signal e1)
                      in (Ret (ret_gpr3 t e2), e2, x1))
                else
                  (case sleep t timeout e1 of
                     (slept, e2) \<Rightarrow> (if slept then Blocked else Ret (ret_gpr3 t e2), e2, x1))))"

definition lwmutex_wait :: "tid \<Rightarrow> u64 \<Rightarrow> bool \<Rightarrow> lv2 \<Rightarrow> lv2_lwmutex \<Rightarrow> verdict \<times> lv2 \<times> lv2_lwmutex" where
  "lwmutex_wait t timeout fired e x =
     wait_iter t (t \<in> set (lw_sq x)) (cancel_wait t lw_sq lw_sq_update) timeout fired e x"

definition lwmutex_trylock :: "lv2_lwmutex \<Rightarrow> outcome \<times> lv2_lwmutex" where
  "lwmutex_trylock x =
     (if bit (lw_signaled x) 0 then (Ret CELL_OK, x\<lparr>lw_signaled := 0\<rparr>) else (Ret CELL_EBUSY, x))"

text \<open>\<^verbatim>\<open>_sys_lwmutex_unlock\<close> and, with the flag, \<^verbatim>\<open>_sys_lwmutex_unlock2\<close>.\<close>

definition lwmutex_unlock ::
  "bool \<Rightarrow> tid \<Rightarrow> tid option \<times> u32 \<Rightarrow> lv2 \<Rightarrow> lv2_lwmutex \<Rightarrow> outcome \<times> lv2 \<times> lv2_lwmutex" where
  "lwmutex_unlock unlock2 t seen e x =
     (case lw_try_unlock unlock2 seen x of
        (True, x1) \<Rightarrow> (Ret CELL_OK, e, x1)
      | (False, x1) \<Rightarrow>
          (case lw_reown unlock2 (thr e) x1 of
             (None, x2) \<Rightarrow> (Ret CELL_OK, e, x2)
           | (Some c, x2) \<Rightarrow>
               if F_again \<in> state (thr e c) then (Ret CELL_OK, add_flag t F_again e, x2)
               else (Ret CELL_OK, awake1 c (if unlock2 then set_gpr c 3 (ucast (CELL_EBUSY)) e else e), x2)))"

section \<open>Model: the system calls\<close>

definition lw_create :: "u32 \<Rightarrow> u32 \<Rightarrow> lv2_object \<Rightarrow> kernel \<Rightarrow> error_code \<times> kernel" where
  "lw_create b out x k =
     (case idm_make b x k of
        (None, k1) \<Rightarrow> (CELL_EAGAIN, k1)
      | (Some idn, k1) \<Rightarrow> (CELL_OK, write32 out idn k1))"

definition sys_lwmutex_create ::
  "tid \<Rightarrow> u32 \<Rightarrow> u32 \<Rightarrow> u32 \<Rightarrow> int \<Rightarrow> u64 \<Rightarrow> kernel \<Rightarrow> error_code \<times> kernel" where
  "sys_lwmutex_create t lwmutex_id protocol control has_name name k0 =
     (let k = enter t k0
      in if protocol \<notin> {SYS_SYNC_FIFO, SYS_SYNC_RETRY, SYS_SYNC_PRIORITY} then (CELL_EINVAL, k)
         else lw_create lwmutex_base lwmutex_id
                (O_lwmutex \<lparr>lw_exists = 0, lw_protocol = protocol, lw_control = control,
                   lw_name = (if has_name < 0 then name else 0), lw_lwcond_waiters = 0, lw_signaled = 0,
                   lw_sq = []\<rparr>) k)"

text \<open>
  One round of the loop in \<^verbatim>\<open>_sys_lwmutex_destroy\<close>; \<open>first\<close> is the object that an earlier round found.
  A round that meets threads inside \<^verbatim>\<open>_sys_lwcond_queue_wait\<close> marks the counter, puts the caller to sleep
  and ends with \<^const>\<open>Blocked\<close>; the caller then waits until \<open>lw_drained\<close> holds of the counter, and goes
  round again.
\<close>

definition lwmutex_destroy_check ::
  "tid \<Rightarrow> nat option \<Rightarrow> nat \<Rightarrow> lv2_object \<Rightarrow> kernel \<Rightarrow> error_code \<times> kernel" where
  "lwmutex_destroy_check t first a y k =
     (case y of
        O_lwmutex x \<Rightarrow>
          if first \<noteq> None \<and> first \<noteq> Some a then (CELL_ESRCH, k)
          else if lw_sq x \<noteq> [] then (CELL_EBUSY, k)
          else
            (let v = lw_lwcond_waiters x OR smin;
                 k1 = put_obj a (O_lwmutex (x\<lparr>lw_lwcond_waiters := v\<rparr>)) k
             in if v \<noteq> smin then (CELL_EAGAIN, k1\<lparr>env := snd (sleep t 0 (env k1))\<rparr>) else (CELL_OK, k1))
      | _ \<Rightarrow> (CELL_OK, k))"

definition lw_drained :: "u32 \<Rightarrow> bool" where
  "lw_drained v \<longleftrightarrow> v \<le> smin"

definition sys_lwmutex_destroy :: "tid \<Rightarrow> u32 \<Rightarrow> nat option \<Rightarrow> kernel \<Rightarrow> outcome \<times> kernel" where
  "sys_lwmutex_destroy t idn first k0 =
     (case withdraw_if lwmutex_base idn (lwmutex_destroy_check t first) (enter t k0) of
        (None, k) \<Rightarrow> (Ret CELL_ESRCH, k)
      | (Some r, k) \<Rightarrow> (if r = CELL_EAGAIN then Blocked else Ret r, k))"

definition on_lwmutex ::
  "u32 \<Rightarrow> (lv2 \<Rightarrow> lv2_lwmutex \<Rightarrow> outcome \<times> lv2 \<times> lv2_lwmutex) \<Rightarrow> kernel \<Rightarrow> outcome \<times> kernel" where
  "on_lwmutex idn f k =
     (case get_obj lwmutex_base idn k of
        Some (a, O_lwmutex x) \<Rightarrow>
          (case f (env k) x of (r, e, x') \<Rightarrow> (r, put_obj a (O_lwmutex x') (k\<lparr>env := e\<rparr>)))
      | _ \<Rightarrow> (Ret CELL_ESRCH, k))"

definition sys_lwmutex_lock :: "tid \<Rightarrow> u32 \<Rightarrow> u64 \<Rightarrow> bool \<Rightarrow> kernel \<Rightarrow> outcome \<times> kernel" where
  "sys_lwmutex_lock t idn timeout late k0 =
     (let k = enter t k0
      in on_lwmutex idn (lwmutex_lock t timeout late) (k\<lparr>env := set_gpr t 3 0 (env k)\<rparr>))"

definition sys_lwmutex_trylock :: "tid \<Rightarrow> u32 \<Rightarrow> kernel \<Rightarrow> outcome \<times> kernel" where
  "sys_lwmutex_trylock t idn k =
     on_lwmutex idn (\<lambda>e x. case lwmutex_trylock x of (r, x') \<Rightarrow> (r, e, x')) (enter t k)"

definition sys_lwmutex_unlock :: "tid \<Rightarrow> u32 \<Rightarrow> tid option \<times> u32 \<Rightarrow> kernel \<Rightarrow> outcome \<times> kernel" where
  "sys_lwmutex_unlock t idn seen k = on_lwmutex idn (lwmutex_unlock False t seen) (enter t k)"

definition sys_lwmutex_unlock2 :: "tid \<Rightarrow> u32 \<Rightarrow> tid option \<times> u32 \<Rightarrow> kernel \<Rightarrow> outcome \<times> kernel" where
  "sys_lwmutex_unlock2 t idn seen k = on_lwmutex idn (lwmutex_unlock True t seen) (enter t k)"

text \<open>Save states keep the protocol, the guest address, the name and the token.\<close>

definition lwmutex_save :: "lv2_lwmutex \<Rightarrow> u32 \<times> u32 \<times> u64 \<times> u32" where
  "lwmutex_save x = (lw_protocol x, lw_control x, lw_name x, lw_signaled x)"

definition lwmutex_load :: "u32 \<times> u32 \<times> u64 \<times> u32 \<Rightarrow> lv2_lwmutex" where
  "lwmutex_load im = (case im of (p, c, n, s) \<Rightarrow>
     \<lparr>lw_exists = 0, lw_protocol = p, lw_control = c, lw_name = n, lw_lwcond_waiters = 0, lw_signaled = s,
      lw_sq = []\<rparr>)"

interpretation lwmutex_del: destroy_call "lwmutex_base" "lwmutex_destroy_check t first" for t first
  by unfold_locales (simp add: lwmutex_destroy_check_def Let_def split: lv2_object.splits)

section \<open>Lemmas\<close>

text \<open>A token and a waiter never meet: this is what makes a sleeping thread reachable for an unlock.\<close>

definition lw_inv :: "lv2_lwmutex \<Rightarrow> bool" where
  "lw_inv x \<longleftrightarrow> distinct (lw_sq x) \<and> 0 \<notin> set (lw_sq x) \<and> (lw_signaled x = 0 \<or> lw_sq x = [])"

lemma lw_token_nonzero [simp]: "v OR lw_token u \<noteq> 0"
  by (simp add: lw_token_def or_eq_0_iff)

lemma lw_inv_sel:
  "lw_inv x \<Longrightarrow> lw_inv (x\<lparr>lw_signaled := 0\<rparr>)" "lw_inv x \<Longrightarrow> lw_inv (x\<lparr>lw_sq := remove1 c (lw_sq x)\<rparr>)"
  "lw_inv x \<Longrightarrow> lw_sq x = [] \<Longrightarrow> lw_inv (x\<lparr>lw_signaled := v\<rparr>)"
  "lw_inv x \<Longrightarrow> lw_signaled x = 0 \<Longrightarrow> t \<noteq> 0 \<Longrightarrow> t \<notin> set (lw_sq x) \<Longrightarrow>
     lw_inv (x\<lparr>lw_sq := t # lw_sq x, lw_lwcond_waiters := w\<rparr>)"
  by (auto simp: lw_inv_def dest: subsetD [OF set_remove1_subset])

lemma calm_fatal: "calm t a b \<Longrightarrow> calm t a (b\<lparr>fatal := v\<rparr>)"
  by (simp add: calm_def)

lemma calm_answer: "calm t a b \<Longrightarrow> calm t a (lw_answer t signal b)"
  by (simp add: lw_answer_def calm_set_gpr)

text \<open>What each call does when no save state is being taken.\<close>

lemma lwmutex_lock_cases:
  assumes run: "lwmutex_lock t timeout late e x = (out, e', x')"
    and live: "t \<in> set (g_ppu e)" "F_signal \<notin> state (thr e t)"
  obtains (token) "lw_signaled x \<noteq> 0" "x' = x\<lparr>lw_signaled := 0\<rparr>"
      "out = Ret (if bit (lw_signaled x) 0 then CELL_OK else CELL_EBUSY)" "calm t e e'"
  | (queued) "lw_signaled x = 0" "out = Blocked" "calm t e e'" "gpr (thr e' t) 3 = 0"
      "x' = x\<lparr>lw_sq := t # lw_sq x, lw_lwcond_waiters := lw_unnotify (lw_lwcond_waiters x)\<rparr>"
proof (cases "lw_signaled x = 0")
  case True
  let ?e = "stamp_order t (upd_thr t (\<lambda>p. p\<lparr>cancel_sleep := 1\<rparr>) (set_gpr t 3 0 e))"
  have "fst (sleep t timeout ?e)" using live by (intro sleep_True) (simp_all add: set_gpr_def)
  then obtain e2 where e2: "sleep t timeout ?e = (True, e2)" by (cases "sleep t timeout ?e") simp
  then have q: "out = Blocked" "e' = e2"
    "x' = x\<lparr>lw_sq := t # lw_sq x, lw_lwcond_waiters := lw_unnotify (lw_lwcond_waiters x)\<rparr>"
    using run True by (simp_all add: lwmutex_lock_def lw_try_own_def Let_def)
  have e2': "e2 = snd (sleep t timeout ?e)" using e2 by simp
  have "calm t e e2" unfolding e2' by (intro calm_intros)
  moreover have "gpr (thr e2 t) 3 = 0" unfolding e2' by (simp add: thr_set_gpr)
  ultimately show ?thesis using queued [OF True q(1)] q by simp
next
  case False
  have r: "x' = x\<lparr>lw_signaled := 0\<rparr>"
    "out = Ret (if bit (lw_signaled x) 0 then CELL_OK else CELL_EBUSY)"
    using run False
    by (cases late; auto simp: lwmutex_lock_def lw_try_own_def Let_def ret_gpr3_def lw_answer_def thr_set_gpr)+
  have "calm t e e'" using run False
    by (cases late) (auto simp: lwmutex_lock_def lw_try_own_def Let_def intro!: calm_intros calm_fatal calm_answer)
  with token [OF False r] show ?thesis .
qed

lemma lwmutex_unlock_cases:
  assumes run: "lwmutex_unlock unlock2 t seen e x = (out, e', x')" and quiet: "\<And>u. F_again \<notin> state (thr e u)"
  obtains (stored) "out = Ret CELL_OK" "lw_sq x = []" "e' = e"
      "x' = x\<lparr>lw_signaled := lw_signaled x OR lw_token unlock2\<rparr>"
  | (handed) c where "out = Ret CELL_OK" "pick (thr e) (lw_protocol x) (lw_sq x) = Some c" "c \<in> set (lw_sq x)"
      "x' = x\<lparr>lw_sq := remove1 c (lw_sq x)\<rparr>"
      "e' = awake1 c (if unlock2 then set_gpr c 3 (ucast (CELL_EBUSY)) e else e)"
proof (cases "fst seen = None \<and> lw_sq x = [] \<and> lw_signaled x = snd seen")
  case True
  with run show ?thesis by (intro stored) (auto simp: lwmutex_unlock_def lw_try_unlock_def)
next
  case False
  then have t: "lw_try_unlock unlock2 seen x = (False, x)" by (auto simp: lw_try_unlock_def)
  show ?thesis
  proof (cases "pick (thr e) (lw_protocol x) (lw_sq x)")
    case None
    then have "lw_sq x = []" by simp
    with run t None show ?thesis by (intro stored) (simp_all add: lwmutex_unlock_def lw_reown_def schedule_def)
  next
    case (Some c)
    with run t quiet [of c] pick_mem [OF Some] show ?thesis
      by (intro handed [of c]) (simp_all add: lwmutex_unlock_def lw_reown_def schedule_def)
  qed
qed

section \<open>Many threads on one lightweight mutex\<close>

text \<open>
  The threads blocked in \<^verbatim>\<open>_sys_lwmutex_lock\<close>, the number of times the mutex was passed to a thread (a
  token taken or a waiter dequeued by an unlock), and the number of unlocks.
\<close>

record lwsys =
  ls_env :: lv2
  ls_lw :: lv2_lwmutex
  ls_waiting :: "tid set"
  ls_grants :: nat
  ls_unlocks :: nat

inductive lw_step :: "lwsys \<Rightarrow> lwsys \<Rightarrow> bool" where
  lock: "\<lbrakk>t \<notin> ls_waiting s; t \<noteq> 0; t \<in> set (g_ppu (ls_env s)); F_signal \<notin> state (thr (ls_env s) t);
     lwmutex_lock t timeout late (ls_env s) (ls_lw s) = (out, e', x')\<rbrakk> \<Longrightarrow>
   lw_step s (s\<lparr>ls_env := e', ls_lw := x',
     ls_waiting := (if out = Blocked then insert t (ls_waiting s) else ls_waiting s),
     ls_grants := (if out = Blocked then ls_grants s else ls_grants s + 1)\<rparr>)"
| wait: "\<lbrakk>t \<in> ls_waiting s; state (thr (ls_env s) t) \<noteq> {}; \<not> is_stopped (state (thr (ls_env s) t));
     F_signal \<in> state (thr (ls_env s) t) \<longrightarrow> t \<notin> set (lw_sq (ls_lw s));
     lwmutex_wait t timeout fired (ls_env s) (ls_lw s) = (v, e', x')\<rbrakk> \<Longrightarrow>
   lw_step s (s\<lparr>ls_env := e', ls_lw := x',
     ls_waiting := (if v = Keep_waiting then ls_waiting s else ls_waiting s - {t})\<rparr>)"
| trylock: "\<lbrakk>lwmutex_trylock (ls_lw s) = (out, x')\<rbrakk> \<Longrightarrow>
   lw_step s (s\<lparr>ls_lw := x', ls_grants := (if out = Ret CELL_OK then ls_grants s + 1 else ls_grants s)\<rparr>)"
| unlock: "\<lbrakk>t \<notin> ls_waiting s; lwmutex_unlock unlock2 t seen (ls_env s) (ls_lw s) = (out, e', x')\<rbrakk> \<Longrightarrow>
   lw_step s (s\<lparr>ls_env := e', ls_lw := x', ls_unlocks := ls_unlocks s + 1,
     ls_grants := ls_grants s + (length (lw_sq (ls_lw s)) - length (lw_sq x'))\<rparr>)"
| environment: "\<lbrakk>\<forall>u. F_again \<notin> state (thr e' u)\<rbrakk> \<Longrightarrow> lw_step s (s\<lparr>ls_env := e'\<rparr>)"

definition lwsys_inv :: "lwsys \<Rightarrow> bool" where
  "lwsys_inv s \<longleftrightarrow> lw_inv (ls_lw s) \<and> set (lw_sq (ls_lw s)) \<subseteq> ls_waiting s \<and>
     (\<forall>u. F_again \<notin> state (thr (ls_env s) u)) \<and>
     ls_grants s + of_bool (lw_signaled (ls_lw s) \<noteq> 0) \<le> ls_unlocks s"

lemma calm_again: "calm t e e' \<Longrightarrow> (\<forall>u. F_again \<notin> state (thr e' u)) \<longleftrightarrow> (\<forall>u. F_again \<notin> state (thr e u))"
  by (simp add: calm_def)

lemma lwsys_inv_lock:
  assumes "lwsys_inv s" "t \<notin> ls_waiting s" "t \<noteq> 0" "t \<in> set (g_ppu (ls_env s))" "F_signal \<notin> state (thr (ls_env s) t)"
    and "lwmutex_lock t timeout late (ls_env s) (ls_lw s) = (out, e', x')"
  shows "lwsys_inv (s\<lparr>ls_env := e', ls_lw := x',
     ls_waiting := (if out = Blocked then insert t (ls_waiting s) else ls_waiting s),
     ls_grants := (if out = Blocked then ls_grants s else ls_grants s + 1)\<rparr>)"
proof -
  have i: "lw_inv (ls_lw s)" and sub: "set (lw_sq (ls_lw s)) \<subseteq> ls_waiting s"
    and ag: "\<forall>u. F_again \<notin> state (thr (ls_env s) u)"
    and gr: "ls_grants s + of_bool (lw_signaled (ls_lw s) \<noteq> 0) \<le> ls_unlocks s"
    using assms(1) by (simp_all add: lwsys_inv_def)
  from assms(6,4,5) show ?thesis
  proof (cases rule: lwmutex_lock_cases)
    case token
    with calm_again [of t "ls_env s" e'] lw_inv_sel(1) [OF i] sub ag gr show ?thesis by (simp add: lwsys_inv_def)
  next
    case queued
    have "lw_inv x'" unfolding queued(5) using lw_inv_sel(4) [OF i queued(1) assms(3)] sub assms(2) by blast
    with queued calm_again [OF queued(3)] sub ag gr show ?thesis by (auto simp: lwsys_inv_def)
  qed
qed

lemma lwsys_inv_wait:
  assumes "lwsys_inv s" "t \<in> ls_waiting s" "state (thr (ls_env s) t) \<noteq> {}" "\<not> is_stopped (state (thr (ls_env s) t))"
    and "F_signal \<in> state (thr (ls_env s) t) \<longrightarrow> t \<notin> set (lw_sq (ls_lw s))"
    and "lwmutex_wait t timeout fired (ls_env s) (ls_lw s) = (v, e', x')"
  shows "lwsys_inv (s\<lparr>ls_env := e', ls_lw := x',
     ls_waiting := (if v = Keep_waiting then ls_waiting s else ls_waiting s - {t})\<rparr>)"
proof -
  have i: "lw_inv (ls_lw s)" and sub: "set (lw_sq (ls_lw s)) \<subseteq> ls_waiting s"
    and ag: "\<forall>u. F_again \<notin> state (thr (ls_env s) u)"
    using assms(1) by (simp_all add: lwsys_inv_def)
  have c: "calm t (ls_env s) e'" using assms(4,6)
    by (auto simp: lwmutex_wait_def wait_iter_def cancel_wait_def Let_def split: if_splits intro!: calm_intros)
  have d: "distinct (lw_sq (ls_lw s))" using i by (simp add: lw_inv_def)
  from assms(6) [unfolded lwmutex_wait_def] assms(5,3) show ?thesis
  proof (cases rule: wait_iter_cases)
    case signalled
    with assms(1) sub calm_again [OF c] show ?thesis by (auto simp: lwsys_inv_def)
  next
    case timed
    have "x' = (ls_lw s)\<lparr>lw_sq := remove1 t (lw_sq (ls_lw s))\<rparr>"
      using timed(4) by (cases "t \<in> set (lw_sq (ls_lw s))") (auto simp: cancel_wait_def Let_def remove1_idem)
    with lw_inv_sel(2) [OF i] assms(1) sub d timed(1) calm_again [OF c] show ?thesis
      by (auto simp: lwsys_inv_def)
  qed (use assms calm_again [OF c] in \<open>simp_all add: lwsys_inv_def\<close>)
qed

lemma lwsys_inv_unlock:
  assumes "lwsys_inv s" "lwmutex_unlock unlock2 t seen (ls_env s) (ls_lw s) = (out, e', x')"
  shows "lwsys_inv (s\<lparr>ls_env := e', ls_lw := x', ls_unlocks := ls_unlocks s + 1,
     ls_grants := ls_grants s + (length (lw_sq (ls_lw s)) - length (lw_sq x'))\<rparr>)"
proof -
  have i: "lw_inv (ls_lw s)" and sub: "set (lw_sq (ls_lw s)) \<subseteq> ls_waiting s"
    and ag: "\<And>u. F_again \<notin> state (thr (ls_env s) u)"
    and gr: "ls_grants s + of_bool (lw_signaled (ls_lw s) \<noteq> 0) \<le> ls_unlocks s"
    using assms(1) by (simp_all add: lwsys_inv_def)
  from assms(2) ag show ?thesis
  proof (cases rule: lwmutex_unlock_cases)
    case stored
    with lw_inv_sel(3) [OF i] sub ag gr show ?thesis by (simp add: lwsys_inv_def)
  next
    case (handed c)
    have "\<forall>u. F_again \<notin> state (thr e' u)" unfolding handed(5) using ag by simp
    moreover have "length (lw_sq (ls_lw s)) - length (lw_sq x') = 1"
      using handed(3,4) length_remove1_mem [OF handed(3)] by simp
    moreover have "set (lw_sq x') \<subseteq> ls_waiting s"
      using sub handed(4) set_remove1_subset [of c "lw_sq (ls_lw s)"] by auto
    moreover have "lw_inv x'" unfolding handed(4) by (rule lw_inv_sel(2) [OF i])
    moreover have "lw_signaled x' = lw_signaled (ls_lw s)" by (simp add: handed(4))
    ultimately show ?thesis using gr by (simp add: lwsys_inv_def)
  qed
qed

lemma lwsys_inv_step: "lw_step s s' \<Longrightarrow> lwsys_inv s \<Longrightarrow> lwsys_inv s'"
proof (induction rule: lw_step.induct)
  case (trylock s out x')
  have "lw_signaled (ls_lw s) \<noteq> 0" if "bit (lw_signaled (ls_lw s)) 0" using that by auto
  with trylock show ?case using lw_inv_sel(1) [of "ls_lw s"]
    by (auto simp: lwsys_inv_def lwmutex_trylock_def split: if_splits)
next
  case (environment e' s)
  then show ?case by (simp add: lwsys_inv_def)
qed (rule lwsys_inv_lock lwsys_inv_wait lwsys_inv_unlock; assumption)+

section \<open>Properties\<close>

text \<open>
  Claim C23. The lightweight mutex neither loses nor invents a wake-up. Starting from an object without
  token and waiters, with threads locking (with timeouts), trying, unlocking and forcing in any order
  and with stale loads: the mutex is passed on at most once per unlock, the token that is stored
  counting as one of them, and while a thread is queued no token is stored, so that the next unlock
  is sure to dequeue a waiter.
\<close>

theorem lwmutex_wakeups:
  assumes "lw_step\<^sup>*\<^sup>* s0 s" "lw_sq (ls_lw s0) = []" "lw_signaled (ls_lw s0) = 0" "ls_grants s0 \<le> ls_unlocks s0"
    and "\<forall>u. F_again \<notin> state (thr (ls_env s0) u)"
  shows "ls_grants s + of_bool (lw_signaled (ls_lw s) \<noteq> 0) \<le> ls_unlocks s \<and>
    set (lw_sq (ls_lw s)) \<subseteq> ls_waiting s \<and>
    (lw_sq (ls_lw s) \<noteq> [] \<longrightarrow> lw_signaled (ls_lw s) = 0 \<and>
      (\<forall>unlock2 t seen out e' x'. lwmutex_unlock unlock2 t seen (ls_env s) (ls_lw s) = (out, e', x') \<longrightarrow>
        (\<exists>c \<in> ls_waiting s. lw_sq x' = remove1 c (lw_sq (ls_lw s)) \<and> c \<in> set (lw_sq (ls_lw s)) \<and>
          pick (thr (ls_env s)) (lw_protocol (ls_lw s)) (lw_sq (ls_lw s)) = Some c)))"
proof -
  have "lwsys_inv s"
    using assms(1)
  proof (induction rule: rtranclp_induct)
    case base
    then show ?case using assms(2-5) by (simp add: lwsys_inv_def lw_inv_def)
  qed (blast intro: lwsys_inv_step)
  then have i: "lw_inv (ls_lw s)" "set (lw_sq (ls_lw s)) \<subseteq> ls_waiting s"
    "ls_grants s + of_bool (lw_signaled (ls_lw s) \<noteq> 0) \<le> ls_unlocks s"
    and ag: "\<And>u. F_again \<notin> state (thr (ls_env s) u)" by (simp_all add: lwsys_inv_def)
  have "\<exists>c \<in> ls_waiting s. lw_sq x' = remove1 c (lw_sq (ls_lw s)) \<and> c \<in> set (lw_sq (ls_lw s)) \<and>
          pick (thr (ls_env s)) (lw_protocol (ls_lw s)) (lw_sq (ls_lw s)) = Some c"
    if "lw_sq (ls_lw s) \<noteq> []" "lwmutex_unlock unlock2 t seen (ls_env s) (ls_lw s) = (out, e', x')"
    for unlock2 t seen out e' x'
    using that(2) ag
  proof (cases rule: lwmutex_unlock_cases)
    case stored
    with that(1) show ?thesis by simp
  next
    case (handed c)
    then have "c \<in> ls_waiting s" "lw_sq x' = remove1 c (lw_sq (ls_lw s))" using i(2) by auto
    with handed(2,3) show ?thesis by blast
  qed
  moreover have "lw_sq (ls_lw s) \<noteq> [] \<longrightarrow> lw_signaled (ls_lw s) = 0" using i(1) by (auto simp: lw_inv_def)
  ultimately show ?thesis using i by blast
qed

definition demo_lwmutex :: lv2_lwmutex where
  "demo_lwmutex = \<lparr>lw_exists = 0, lw_protocol = SYS_SYNC_FIFO, lw_control = 0x1000, lw_name = 0,
     lw_lwcond_waiters = 0, lw_signaled = 0, lw_sq = []\<rparr>"

theorem lwmutex_wakeups_witness:
  "\<exists>s s0. lw_step\<^sup>*\<^sup>* s0 s \<and> lw_sq (ls_lw s0) = [] \<and> 3 \<in> set (lw_sq (ls_lw s)) \<and> lw_signaled (ls_lw s) = 0"
proof -
  let ?e = "demo_lv2 [1, 3]"
  define s0 where "s0 = \<lparr>ls_env = ?e, ls_lw = demo_lwmutex, ls_waiting = {}, ls_grants = 0, ls_unlocks = 0\<rparr>"
  obtain out e' x' where run: "lwmutex_lock 3 0 False (ls_env s0) (ls_lw s0) = (out, e', x')"
    using prod_cases3 by blast
  then have x': "lw_sq x' = [3]" by (auto simp: s0_def lwmutex_lock_def lw_try_own_def Let_def demo_lwmutex_def
      split: prod.splits)
  let ?s = "s0\<lparr>ls_env := e', ls_lw := x',
     ls_waiting := (if out = Blocked then insert 3 (ls_waiting s0) else ls_waiting s0),
     ls_grants := (if out = Blocked then ls_grants s0 else ls_grants s0 + 1)\<rparr>"
  have "lw_step s0 ?s"
    by (rule lw_step.lock [OF _ _ _ _ run]) (simp_all add: s0_def demo_defs)
  then have r: "lw_step\<^sup>*\<^sup>* s0 ?s" by (rule r_into_rtranclp)
  have h: "lw_sq (ls_lw s0) = []" "lw_signaled (ls_lw s0) = 0" "ls_grants s0 \<le> ls_unlocks s0"
    "\<forall>u. F_again \<notin> state (thr (ls_env s0) u)" by (simp_all add: s0_def demo_lwmutex_def demo_defs)
  from lwmutex_wakeups [OF r h] have "lw_signaled (ls_lw ?s) = 0" by (simp add: x')
  with r h(1) x' show ?thesis by (intro exI [of _ ?s] exI [of _ s0]) simp
qed

end
