(* ===== verification/Sys_Lwcond.thy ===== *)
theory Sys_Lwcond
  imports Sys_Lwmutex
begin

text \<open>
  The kernel half of the lightweight condition variable, \<^verbatim>\<open>sys_lwcond.h\<close> and \<^verbatim>\<open>sys_lwcond.cpp\<close>. The
  calls are given on the condition variable and the lightweight mutex (\<^const>\<open>None\<close> when the mode does
  not look it up or the handle is unknown), the signalling calls one round of their loop at a time,
  with \<^const>\<open>Blocked\<close> for \<^verbatim>\<open>continue\<close>. \<open>seen\<close> is whether the unlocked load of \<^verbatim>\<open>cond.sq\<close> found a waiter.
\<close>

section \<open>Model: signalling\<close>

definition no_target :: u64 where
  "no_target = 0xffffffff"

text \<open>
  What happens in modes 1 and 3 to the thread \<open>r\<close> that was taken off the condition queue. Mode 1: the
  caller owns the lightweight mutex and \<open>r\<close> queues for it; mode 3: the caller took the mutex by force and
  passes it on, to \<open>r\<close> or to the thread that the queue prefers. (In mode 2 the caller does not own the
  mutex, and \<open>r\<close> is woken and told so.)
\<close>

definition signal_result ::
  "tid \<Rightarrow> u32 \<Rightarrow> tid \<Rightarrow> lv2 \<Rightarrow> lv2_lwmutex \<Rightarrow> bool \<times> lv2 \<times> lv2_lwmutex" where
  "signal_result t mode r e x =
     (if mode = 3 \<and> lw_sq x \<noteq> []
      then (case lw_try_own r True e x of
              (_, e1, x1) \<Rightarrow>
                (case lw_reown False (thr e1) x1 of
                   (None, x2) \<Rightarrow> (True, e1\<lparr>fatal := True\<rparr>, x2)
                 | (Some r2, x2) \<Rightarrow>
                     if F_again \<in> state (thr e1 r2) then (False, add_flag t F_again e1, x2)
                     else (True, awake1 r2 e1, x2)))
      else if mode = 1 then (case lw_try_own r True e x of (_, e1, x1) \<Rightarrow> (True, e1, x1))
      else (True, awake1 r e, x))"

text \<open>The integer that the lookup function returns, with \<^const>\<open>None\<close> when \<^verbatim>\<open>finished\<close> was reset.\<close>

definition lwcond_signal_raw ::
  "tid \<Rightarrow> u32 \<Rightarrow> u64 \<Rightarrow> bool \<Rightarrow> bool \<Rightarrow> lv2 \<Rightarrow> lv2_lwcond \<Rightarrow> lv2_lwmutex option
     \<Rightarrow> int option \<times> lv2 \<times> lv2_lwcond \<times> lv2_lwmutex option" where
  "lwcond_signal_raw t mode target alive seen e c mx =
     (if target \<noteq> no_target \<and> \<not> alive then (Some (-1), e, c, mx)
      else if mode \<noteq> 2 \<and> mx = None then (Some (-1), e, c, mx)
      else if F_suspend \<in> state (thr e t) then (None, e, c, mx)
      else if \<not> seen then (Some 0, e, c, mx)
      else if target \<noteq> no_target \<and> F_again \<in> state (thr e (ucast target))
      then (Some 0, add_flag t F_again e, c, mx)
      else
        (case (if target \<noteq> no_target
               then (if fst (unqueue (lc_sq c) (ucast target)) then Some (ucast target) else None,
                     snd (unqueue (lc_sq c) (ucast target)))
               else schedule (thr e) (lc_protocol c) (lc_sq c)) of
           (None, _) \<Rightarrow> (Some 0, e, c, mx)
         | (Some r, q) \<Rightarrow>
             if F_again \<in> state (thr e r) then (Some 0, add_flag t F_again e, c\<lparr>lc_sq := q\<rparr>, mx)
             else if mode = 2
             then (Some 1, awake1 r (set_gpr r 3 (ucast (CELL_EBUSY)) e), c\<lparr>lc_sq := q\<rparr>, mx)
             else
               (case mx of
                  None \<Rightarrow> (Some (-1), e, c, mx)
                | Some x \<Rightarrow>
                    (case signal_result t mode r e x of
                       (ok, e1, x1) \<Rightarrow> (if ok then Some 1 else Some 0, e1, c\<lparr>lc_sq := q\<rparr>, Some x1)))))"

definition signal_code :: "u32 \<Rightarrow> u64 \<Rightarrow> int option \<Rightarrow> outcome" where
  "signal_code mode target r =
     (case r of
        None \<Rightarrow> Blocked
      | Some v \<Rightarrow>
          if v = -1 then Ret CELL_ESRCH
          else if v = 0
          then (if target = no_target \<and> mode = 3 then Ret CELL_ENOENT
                else if target = no_target \<and> mode = 2 then Ret CELL_OK else Ret CELL_EPERM)
          else Ret CELL_OK)"

definition lwcond_signal ::
  "tid \<Rightarrow> u32 \<Rightarrow> u64 \<Rightarrow> bool \<Rightarrow> bool \<Rightarrow> lv2 \<Rightarrow> lv2_lwcond \<Rightarrow> lv2_lwmutex option
     \<Rightarrow> outcome \<times> lv2 \<times> lv2_lwcond \<times> lv2_lwmutex option" where
  "lwcond_signal t mode target alive seen e c mx =
     (case lwcond_signal_raw t mode target alive seen e c mx of
        (r, e1, c1, mx1) \<Rightarrow> (signal_code mode target r, e1, c1, mx1))"

text \<open>The body of the loop in \<^verbatim>\<open>_sys_lwcond_signal_all\<close>; the first component counts the threads.\<close>

definition signal_each :: "u32 \<Rightarrow> tid \<Rightarrow> nat \<times> lv2 \<times> lv2_lwmutex option \<Rightarrow> nat \<times> lv2 \<times> lv2_lwmutex option" where
  "signal_each mode r s =
     (case s of
        (n, e, mx) \<Rightarrow>
          (let e1 = (if mode = 2 then set_gpr r 3 (ucast (CELL_EBUSY)) e else e)
           in case (mode = 1, mx) of
                (True, Some x) \<Rightarrow> (case lw_try_own r True e1 x of (_, e2, x1) \<Rightarrow> (n + 1, e2, Some x1))
              | _ \<Rightarrow> (n + 1, append_awake r e1, mx)))"

definition lwcond_signal_all ::
  "tid \<Rightarrow> u32 \<Rightarrow> bool \<Rightarrow> lv2 \<Rightarrow> lv2_lwcond \<Rightarrow> lv2_lwmutex option
     \<Rightarrow> (outcome \<times> lv2 \<times> lv2_lwcond \<times> lv2_lwmutex option) option" where
  "lwcond_signal_all t mode seen e c mx =
     (if mode \<noteq> 2 \<and> mx = None then Some (Ret CELL_ESRCH, e, c, mx)
      else if F_suspend \<in> state (thr e t) then Some (Blocked, e, c, mx)
      else if \<not> seen then Some (Ret 0, e, c, mx)
      else if \<exists>w \<in> set (lc_sq c). F_again \<in> state (thr e w) then Some (Ret 0, add_flag t F_again e, c, mx)
      else
        (case drain (\<lambda>s. thr (fst (snd s))) (lc_protocol c) (signal_each mode) (lc_sq c) (0, e, mx) of
           None \<Rightarrow> None
         | Some (n, e1, mx1) \<Rightarrow>
             Some (Ret (if mode = 1 then of_nat n else CELL_OK),
                   if n \<noteq> 0 \<and> mode = 2 then awake_all e1 else e1, c\<lparr>lc_sq := []\<rparr>, mx1)))"

section \<open>Model: waiting\<close>

text \<open>
  The call up to its wait loop. The counters that the destroyers wait for are raised first; a thread
  that a save state stopped in the queue of the mutex queues there again.
\<close>

definition lwcond_queue_wait ::
  "tid \<Rightarrow> u64 \<Rightarrow> tid option \<times> u32 \<Rightarrow> lv2 \<Rightarrow> lv2_lwcond \<Rightarrow> lv2_lwmutex
     \<Rightarrow> outcome \<times> lv2 \<times> lv2_lwcond \<times> lv2_lwmutex" where
  "lwcond_queue_wait t timeout seen e0 c0 x0 =
     (let e = set_gpr t 3 0 e0;
          x = x0\<lparr>lw_lwcond_waiters := lw_lwcond_waiters x0 + 1\<rparr>;
          c = c0\<lparr>lc_lwmutex_waiters := lc_lwmutex_waiters c0 + 1\<rparr>;
          mutex_sleep = (sstate (thr e t) \<noteq> 0);
          e1 = upd_thr t (\<lambda>p. p\<lparr>sstate := 0\<rparr>) e
      in case (if mutex_sleep then (case lw_try_own t True e1 x of (_, e2, x1) \<Rightarrow> (e2, c, x1))
               else (case emplace t (lc_sq c) e1 of (q, e2) \<Rightarrow> (e2, c\<lparr>lc_sq := q\<rparr>, x))) of
           (e2, c1, x1) \<Rightarrow>
             (case (if loaded_from_savestate (thr e2 t) then (None, x1)
                    else (case lw_try_unlock False seen x1 of
                            (True, x2) \<Rightarrow> (None, x2)
                          | (False, x2) \<Rightarrow> lw_reown False (thr e2) x2)) of
                (r, x3) \<Rightarrow>
                  if (case r of None \<Rightarrow> False | Some w \<Rightarrow> F_again \<in> state (thr e2 w))
                  then (Again, (add_flag t F_again e2)\<lparr>fatal := fatal e2 \<or> t \<notin> set (lc_sq c1)\<rparr>,
                        c1\<lparr>lc_sq := snd (unqueue (lc_sq c1) t)\<rparr>, x3)
                  else
                    (let e3 = snd (sleep t timeout (case r of None \<Rightarrow> e2 | Some w \<Rightarrow> append_awake w e2))
                     in (if F_again \<in> state (thr e3 t) then Again else Blocked, e3, c1, x3))))"

text \<open>
  One round of the wait loop. A thread that is stopped while it is queued leaves the loop as well, with
  the flag \<^verbatim>\<open>again\<close> raised and the queue it was in recorded.
\<close>

definition lwcond_expire ::
  "tid \<Rightarrow> lv2 \<Rightarrow> lv2_lwcond \<Rightarrow> lv2_lwmutex \<Rightarrow> lv2 \<times> lv2_lwcond \<times> lv2_lwmutex" where
  "lwcond_expire t e c x =
     (let e1 = add_flag t F_wait e
      in if t \<in> set (lc_sq c)
         then (set_gpr t 3 (ucast (CELL_ETIMEDOUT)) e1, c\<lparr>lc_sq := snd (unqueue (lc_sq c) t)\<rparr>, x)
         else if t \<in> set (lw_sq x)
         then (set_gpr t 3 (ucast (CELL_ETIMEDOUT)) e1, c, x\<lparr>lw_sq := snd (unqueue (lw_sq x) t)\<rparr>)
         else (e1, c, x))"

definition lwcond_wait_round ::
  "tid \<Rightarrow> u64 \<Rightarrow> bool \<Rightarrow> lv2 \<Rightarrow> lv2_lwcond \<Rightarrow> lv2_lwmutex \<Rightarrow> verdict \<times> lv2 \<times> lv2_lwcond \<times> lv2_lwmutex" where
  "lwcond_wait_round t timeout fired e c x =
     (let st = state (thr e t)
      in if st = {} then (Leave, e, c, x)
         else if F_signal \<in> st then (Leave, del_flag t F_signal e, c, x)
         else if is_stopped st
         then if t \<in> set (lc_sq c) \<or> t \<in> set (lw_sq x)
              then (Stop_again, add_flag t F_again (upd_thr t (\<lambda>p. p\<lparr>sstate := of_bool (t \<in> set (lw_sq x))\<rparr>) e), c, x)
              else (Leave, e, c, x)
         else if timeout \<noteq> 0 \<and> fired then (Leave, lwcond_expire t e c x)
         else (Keep_waiting, e, c, x))"

text \<open>After the loop, however it ended.\<close>

definition lwcond_wait_end ::
  "tid \<Rightarrow> lv2 \<Rightarrow> lv2_lwcond \<Rightarrow> lv2_lwmutex \<Rightarrow> outcome \<times> lv2_lwcond \<times> lv2_lwmutex" where
  "lwcond_wait_end t e c x =
     (Ret (ret_gpr3 t e), c\<lparr>lc_lwmutex_waiters := lc_lwmutex_waiters c - 1\<rparr>,
      x\<lparr>lw_lwcond_waiters := lw_lwcond_waiters x - 1\<rparr>)"

section \<open>Model: the system calls\<close>

definition sys_lwcond_create ::
  "tid \<Rightarrow> u32 \<Rightarrow> u32 \<Rightarrow> u32 \<Rightarrow> u64 \<Rightarrow> kernel \<Rightarrow> error_code \<times> kernel" where
  "sys_lwcond_create t lwcond_id lwmutex_id control name k0 =
     (let k = enter t k0
      in case get_obj lwmutex_base lwmutex_id k of
           Some (a, O_lwmutex x) \<Rightarrow>
             lw_create lwcond_base lwcond_id
               (O_lwcond \<lparr>lc_exists = 0, lc_name = name, lc_lwid = lwmutex_id,
                  lc_protocol = (if lw_protocol x = SYS_SYNC_RETRY then SYS_SYNC_PRIORITY else lw_protocol x),
                  lc_control = control, lc_sq = [], lc_lwmutex_waiters = 0\<rparr>) k
         | _ \<Rightarrow> (CELL_ESRCH, k))"

definition lwcond_destroy_check ::
  "tid \<Rightarrow> nat option \<Rightarrow> nat \<Rightarrow> lv2_object \<Rightarrow> kernel \<Rightarrow> error_code \<times> kernel" where
  "lwcond_destroy_check t first a y k =
     (case y of
        O_lwcond c \<Rightarrow>
          if first \<noteq> None \<and> first \<noteq> Some a then (CELL_ESRCH, k)
          else if lc_sq c \<noteq> [] then (CELL_EBUSY, k)
          else
            (let v = lc_lwmutex_waiters c OR smin;
                 k1 = put_obj a (O_lwcond (c\<lparr>lc_lwmutex_waiters := v\<rparr>)) k
             in if v \<noteq> smin then (CELL_EAGAIN, k1\<lparr>env := snd (sleep t 0 (env k1))\<rparr>) else (CELL_OK, k1))
      | _ \<Rightarrow> (CELL_OK, k))"

definition sys_lwcond_destroy :: "tid \<Rightarrow> u32 \<Rightarrow> nat option \<Rightarrow> kernel \<Rightarrow> outcome \<times> kernel" where
  "sys_lwcond_destroy t idn first k0 =
     (case withdraw_if lwcond_base idn (lwcond_destroy_check t first) (enter t k0) of
        (None, k) \<Rightarrow> (Ret CELL_ESRCH, k)
      | (Some r, k) \<Rightarrow> (if r = CELL_EAGAIN then Blocked else Ret r, k))"

definition look_lwmutex :: "u32 \<Rightarrow> kernel \<Rightarrow> (nat \<times> lv2_lwmutex) option" where
  "look_lwmutex idn k = (case get_obj lwmutex_base idn k of Some (a, O_lwmutex x) \<Rightarrow> Some (a, x) | _ \<Rightarrow> None)"

definition on_lwcond ::
  "u32 \<Rightarrow> u32 \<Rightarrow> (lv2 \<Rightarrow> lv2_lwcond \<Rightarrow> lv2_lwmutex option \<Rightarrow> outcome \<times> lv2 \<times> lv2_lwcond \<times> lv2_lwmutex option)
     \<Rightarrow> kernel \<Rightarrow> outcome \<times> kernel" where
  "on_lwcond idn mutex_id f k =
     (case get_obj lwcond_base idn k of
        Some (a, O_lwcond c) \<Rightarrow>
          (case f (env k) c (map_option snd (look_lwmutex mutex_id k)) of
             (r, e, c', mx) \<Rightarrow>
               (let k1 = put_obj a (O_lwcond c') (k\<lparr>env := e\<rparr>)
                in (r, case (look_lwmutex mutex_id k, mx) of
                         (Some (b, _), Some x) \<Rightarrow> put_obj b (O_lwmutex x) k1 | _ \<Rightarrow> k1)))
      | _ \<Rightarrow> (Ret CELL_ESRCH, k))"

text \<open>\<open>stopped\<close> is the result of \<^verbatim>\<open>test_stopped\<close> at the start of a round.\<close>

definition sys_lwcond_signal ::
  "tid \<Rightarrow> u32 \<Rightarrow> u32 \<Rightarrow> u64 \<Rightarrow> u32 \<Rightarrow> bool \<Rightarrow> bool \<Rightarrow> bool \<Rightarrow> kernel \<Rightarrow> outcome \<times> kernel" where
  "sys_lwcond_signal t lwcond_id lwmutex_id target mode alive stopped seen k0 =
     (let k = enter t k0
      in if mode \<notin> {1, 2, 3} then (Fatal, crash k)
         else if stopped then (Again, k\<lparr>env := add_flag t F_again (env k)\<rparr>)
         else on_lwcond lwcond_id lwmutex_id (lwcond_signal t mode target alive seen) k)"

definition sys_lwcond_signal_all ::
  "tid \<Rightarrow> u32 \<Rightarrow> u32 \<Rightarrow> u32 \<Rightarrow> bool \<Rightarrow> bool \<Rightarrow> kernel \<Rightarrow> outcome \<times> kernel" where
  "sys_lwcond_signal_all t lwcond_id lwmutex_id mode stopped seen k0 =
     (let k = enter t k0
      in if mode \<notin> {1, 2} then (Fatal, crash k)
         else if stopped then (Again, k\<lparr>env := add_flag t F_again (env k)\<rparr>)
         else on_lwcond lwcond_id lwmutex_id
                (\<lambda>e c mx. case lwcond_signal_all t mode seen e c mx of
                            None \<Rightarrow> (Fatal, e\<lparr>fatal := True\<rparr>, c, mx) | Some r \<Rightarrow> r) k)"

definition sys_lwcond_queue_wait ::
  "tid \<Rightarrow> u32 \<Rightarrow> u32 \<Rightarrow> u64 \<Rightarrow> tid option \<times> u32 \<Rightarrow> kernel \<Rightarrow> outcome \<times> kernel" where
  "sys_lwcond_queue_wait t lwcond_id lwmutex_id timeout seen k0 =
     (let k = enter t k0
      in on_lwcond lwcond_id lwmutex_id
           (\<lambda>e c mx. case mx of
                       None \<Rightarrow> (Ret CELL_ESRCH, e, c, None)
                     | Some x \<Rightarrow> (case lwcond_queue_wait t timeout seen e c x of
                                    (r, e1, c1, x1) \<Rightarrow> (r, e1, c1, Some x1)))
           (k\<lparr>env := set_gpr t 3 0 (env k)\<rparr>))"

text \<open>Save states keep the name, the mutex handle, the protocol and the guest address.\<close>

definition lwcond_save :: "lv2_lwcond \<Rightarrow> u64 \<times> u32 \<times> u32 \<times> u32" where
  "lwcond_save c = (lc_name c, lc_lwid c, lc_protocol c, lc_control c)"

definition lwcond_load :: "u64 \<times> u32 \<times> u32 \<times> u32 \<Rightarrow> lv2_lwcond" where
  "lwcond_load im = (case im of (n, l, p, ct) \<Rightarrow>
     \<lparr>lc_exists = 0, lc_name = n, lc_lwid = l, lc_protocol = p, lc_control = ct, lc_sq = [], lc_lwmutex_waiters = 0\<rparr>)"

interpretation lwcond_del: destroy_call "lwcond_base" "lwcond_destroy_check t first" for t first
  by unfold_locales (simp add: lwcond_destroy_check_def Let_def split: lv2_object.splits)

section \<open>Lemmas: the counters\<close>

text \<open>Both counters are a number of threads below 2^31 and a mark in the top bit.\<close>

definition low31 :: "u32 \<Rightarrow> nat" where
  "low31 v = unat v mod 2 ^ 31"

lemma smin_bit: "bit (smin) n \<longleftrightarrow> n = 31"
proof -
  have "(smin :: u32) = 2 ^ 31" by simp
  then show ?thesis by (simp only: bit_2_iff bit_exp_iff) (auto simp: possible_bit_word)
qed

lemma take31_or: "take_bit 31 (v OR smin) = take_bit 31 (v :: u32)"
  by (rule bit_eqI) (simp only: bit_take_bit_iff bit_or_iff smin_bit, auto)

lemma low31_take: "low31 v = unat (take_bit 31 v)"
  by (simp add: low31_def take_bit_eq_mod unat_mod)

lemma low31_and: "low31 (v AND 0x7fffffff) = low31 v"
proof -
  have "(0x7fffffff :: u32) = mask 31" by (simp add: mask_eq_exp_minus_1)
  then have "v AND 0x7fffffff = take_bit 31 v" by (simp only: take_bit_eq_mask)
  then show ?thesis by (simp add: low31_take)
qed

lemma low31_unnotify [simp]: "low31 (lw_unnotify v) = low31 v"
  by (simp add: lw_unnotify_def low31_and)

lemma low31_mark [simp]: "low31 (v OR smin) = low31 v"
  by (simp add: low31_take take31_or)

lemma marked_zero: "v OR smin = smin \<longleftrightarrow> low31 v = 0"
proof -
  have "v OR smin = smin \<longleftrightarrow> (\<forall>n < 31. \<not> bit v n)"
  proof
    assume "v OR smin = smin"
    then have "bit (v OR smin) n = bit (smin :: u32) n" for n by simp
    then have "bit v n \<Longrightarrow> n = 31" for n unfolding bit_or_iff smin_bit by blast
    then show "\<forall>n < 31. \<not> bit v n" by auto
  next
    assume h: "\<forall>n < 31. \<not> bit v n"
    have "bit v n \<Longrightarrow> n = 31" for n
    proof -
      assume "bit v n"
      with h have "\<not> n < 31" by blast
      moreover have "n < 32" using bit_imp_le_length [OF \<open>bit v n\<close>] by simp
      ultimately show ?thesis by simp
    qed
    then have "bit (v OR smin) n = bit (smin :: u32) n" for n unfolding bit_or_iff smin_bit by blast
    then show "v OR smin = smin" by (rule bit_eqI)
  qed
  also have "\<dots> \<longleftrightarrow> take_bit 31 v = 0"
  proof
    assume "\<forall>n < 31. \<not> bit v n"
    then show "take_bit 31 v = 0" by (intro bit_eqI) (simp add: bit_take_bit_iff)
  next
    assume "take_bit 31 v = 0"
    then have "bit (take_bit 31 v) n = False" for n by simp
    then show "\<forall>n < 31. \<not> bit v n" by (auto simp: bit_take_bit_iff)
  qed
  finally show ?thesis by (simp only: low31_take unsigned_eq_0_iff)
qed

lemma low31_inc: "low31 v + 1 < 2 ^ 31 \<Longrightarrow> low31 (v + 1) = low31 v + 1"
proof -
  assume "low31 v + 1 < 2 ^ 31"
  moreover have "unat (v + 1) mod 2 ^ 31 = (unat v + 1) mod 2 ^ 31"
    by (simp add: unat_word_ariths mod_mod_cancel)
  moreover have "(unat v + 1) mod 2 ^ 31 = (unat v mod 2 ^ 31 + 1) mod 2 ^ 31" by (simp add: mod_Suc_eq)
  ultimately show ?thesis by (simp add: low31_def)
qed

lemma mod_pred: "0 < a mod m \<Longrightarrow> (a - 1) mod m = a mod m - (1 :: nat)"
proof -
  assume p: "0 < a mod m"
  then have "a - 1 = (a mod m - 1) + a div m * m" using div_mult_mod_eq [of a m] by linarith
  moreover have "a mod m - 1 < m \<or> m = 0" using mod_less_divisor [of m a] less_imp_diff_less by (cases "m = 0") auto
  ultimately show ?thesis using p by (metis mod_less mod_mult_self1 mod_by_0 mult_0_right add.right_neutral)
qed

lemma low31_dec: "0 < low31 v \<Longrightarrow> low31 (v - 1) = low31 v - 1"
proof -
  assume p: "0 < low31 v"
  then have "v \<noteq> 0" by (auto simp: low31_def)
  then have "unat (v - 1) = unat v - 1" by (simp add: unat_minus_one)
  with mod_pred [of "unat v" "2 ^ 31"] p show ?thesis by (simp add: low31_def)
qed

section \<open>Many threads on one condition variable\<close>

definition no_again :: "lv2 \<Rightarrow> bool" where
  "no_again e \<longleftrightarrow> (\<forall>u. F_again \<notin> state (thr e u))"

lemma no_again_simps [simp]:
  "no_again (set_gpr t i v e) = no_again e" "no_again (stamp_order t e) = no_again e"
  "no_again (awake1 t e) = no_again e" "no_again (append_awake t e) = no_again e"
  "no_again (awake_all e) = no_again e" "no_again (snd (sleep t timeout e)) = no_again e"
  "no_again (e\<lparr>fatal := b\<rparr>) = no_again e" "no_again (snd (emplace t q e)) = no_again e"
  "no_again (upd_thr t (\<lambda>p. p\<lparr>sstate := n\<rparr>) e) = no_again e"
  "no_again (add_flag t F_wait e) = no_again e" "no_again (del_flag t F_signal e) = no_again e"
  by (auto simp: no_again_def emplace_def Let_def thr_add_flag thr_del_flag split: if_splits)

lemma no_again_calm: "calm t e e' \<Longrightarrow> no_again e' = no_again e"
  by (simp add: no_again_def calm_def)

text \<open>
  The threads inside \<^verbatim>\<open>_sys_lwcond_queue_wait\<close>, one condition variable and its mutex. A wait changes the
  waiter counters of both objects on its way in and on its way out; each pair of atomic changes is one step
  here. Between the two changes of a pair the thread touches neither queue.
\<close>

record lcsys =
  cl_env :: lv2
  cl_cond :: lv2_lwcond
  cl_mutex :: lv2_lwmutex
  cl_inside :: "tid set"

inductive lc_step :: "lcsys \<Rightarrow> lcsys \<Rightarrow> bool" where
  enter: "\<lbrakk>t \<notin> I; \<not> loaded_from_savestate (thr e t); sstate (thr e t) = 0; card I + 1 < 2 ^ 31;
     lwcond_queue_wait t timeout seen e c x = (out, e', c', x')\<rbrakk> \<Longrightarrow>
   lc_step \<lparr>cl_env = e, cl_cond = c, cl_mutex = x, cl_inside = I\<rparr>
     \<lparr>cl_env = e', cl_cond = c', cl_mutex = x', cl_inside = insert t I\<rparr>"
| stay: "\<lbrakk>t \<in> I; state (thr e t) \<noteq> {}; \<not> is_stopped (state (thr e t));
     lwcond_wait_round t timeout fired e c x = (Keep_waiting, e', c', x')\<rbrakk> \<Longrightarrow>
   lc_step \<lparr>cl_env = e, cl_cond = c, cl_mutex = x, cl_inside = I\<rparr>
     \<lparr>cl_env = e', cl_cond = c', cl_mutex = x', cl_inside = I\<rparr>"
| leave: "\<lbrakk>t \<in> I; state (thr e t) \<noteq> {}; \<not> is_stopped (state (thr e t));
     F_signal \<in> state (thr e t) \<longrightarrow> t \<notin> set (lc_sq c);
     lwcond_wait_round t timeout fired e c x = (Leave, e', c1, x1); lwcond_wait_end t e' c1 x1 = (out, c', x')\<rbrakk> \<Longrightarrow>
   lc_step \<lparr>cl_env = e, cl_cond = c, cl_mutex = x, cl_inside = I\<rparr>
     \<lparr>cl_env = e', cl_cond = c', cl_mutex = x', cl_inside = I - {t}\<rparr>"
| signal: "\<lbrakk>mode \<in> {1, 2, 3}; lwcond_signal t mode target alive looked e c (Some x) = (out, e', c', Some x')\<rbrakk> \<Longrightarrow>
   lc_step \<lparr>cl_env = e, cl_cond = c, cl_mutex = x, cl_inside = I\<rparr>
     \<lparr>cl_env = e', cl_cond = c', cl_mutex = x', cl_inside = I\<rparr>"
| signal_all: "\<lbrakk>mode \<in> {1, 2}; lwcond_signal_all t mode looked e c (Some x) = Some (out, e', c', Some x')\<rbrakk> \<Longrightarrow>
   lc_step \<lparr>cl_env = e, cl_cond = c, cl_mutex = x, cl_inside = I\<rparr>
     \<lparr>cl_env = e', cl_cond = c', cl_mutex = x', cl_inside = I\<rparr>"
| lock: "\<lbrakk>t \<in> set (g_ppu e); F_signal \<notin> state (thr e t); lwmutex_lock t timeout late e x = (out, e', x')\<rbrakk> \<Longrightarrow>
   lc_step \<lparr>cl_env = e, cl_cond = c, cl_mutex = x, cl_inside = I\<rparr>
     \<lparr>cl_env = e', cl_cond = c, cl_mutex = x', cl_inside = I\<rparr>"
| unlock: "\<lbrakk>lwmutex_unlock unlock2 t seen e x = (out, e', x')\<rbrakk> \<Longrightarrow>
   lc_step \<lparr>cl_env = e, cl_cond = c, cl_mutex = x, cl_inside = I\<rparr>
     \<lparr>cl_env = e', cl_cond = c, cl_mutex = x', cl_inside = I\<rparr>"
| mark_cond: "lc_sq c = [] \<Longrightarrow>
   lc_step \<lparr>cl_env = e, cl_cond = c, cl_mutex = x, cl_inside = I\<rparr>
     \<lparr>cl_env = snd (sleep t 0 e), cl_cond = c\<lparr>lc_lwmutex_waiters := lc_lwmutex_waiters c OR smin\<rparr>,
      cl_mutex = x, cl_inside = I\<rparr>"
| mark_mutex: "lw_sq x = [] \<Longrightarrow>
   lc_step \<lparr>cl_env = e, cl_cond = c, cl_mutex = x, cl_inside = I\<rparr>
     \<lparr>cl_env = snd (sleep t 0 e), cl_cond = c,
      cl_mutex = x\<lparr>lw_lwcond_waiters := lw_lwcond_waiters x OR smin\<rparr>, cl_inside = I\<rparr>"
| environment: "no_again e' \<Longrightarrow>
   lc_step \<lparr>cl_env = e, cl_cond = c, cl_mutex = x, cl_inside = I\<rparr>
     \<lparr>cl_env = e', cl_cond = c, cl_mutex = x, cl_inside = I\<rparr>"

definition lc_ok :: "lv2 \<Rightarrow> lv2_lwcond \<Rightarrow> lv2_lwmutex \<Rightarrow> tid set \<Rightarrow> bool" where
  "lc_ok e c x I \<longleftrightarrow> finite I \<and> low31 (lc_lwmutex_waiters c) = card I \<and> low31 (lw_lwcond_waiters x) = card I \<and>
     distinct (lc_sq c) \<and> set (lc_sq c) \<subseteq> I \<and> no_again e"

lemma lw_try_own_sel:
  assumes "lw_try_own t w e x = (sg, e', x')"
  shows "low31 (lw_lwcond_waiters x') = low31 (lw_lwcond_waiters x)" "no_again e' = no_again e"
  using assms by (auto simp: lw_try_own_def split: if_splits)

lemma lw_reown_sel: "lw_reown u th x = (r, x') \<Longrightarrow> lw_lwcond_waiters x' = lw_lwcond_waiters x"
  by (auto simp: lw_reown_def split: prod.splits option.splits)

lemma lw_try_unlock_sel: "lw_try_unlock u seen x = (b, x') \<Longrightarrow> lw_lwcond_waiters x' = lw_lwcond_waiters x"
  by (auto simp: lw_try_unlock_def split: if_splits)

lemma lc_ok_step:
  assumes ok: "lc_ok e c x I" and c': "lc_lwmutex_waiters c' = lc_lwmutex_waiters c" "distinct (lc_sq c')"
      "set (lc_sq c') \<subseteq> set (lc_sq c)"
    and x': "low31 (lw_lwcond_waiters x') = low31 (lw_lwcond_waiters x)" and e': "no_again e'"
  shows "lc_ok e' c' x' I"
  using ok c' x' e' by (auto simp: lc_ok_def)

lemma lc_ok_enter:
  assumes ok: "lc_ok e c x I" and t: "t \<notin> I" "\<not> loaded_from_savestate (thr e t)" "sstate (thr e t) = 0"
      "card I + 1 < 2 ^ 31"
    and run: "lwcond_queue_wait t timeout seen e c x = (out, e', c', x')"
  shows "lc_ok e' c' x' (insert t I)" "out = Blocked"
proof -
  define e1 where "e1 = upd_thr t (\<lambda>p. p\<lparr>sstate := 0\<rparr>) (set_gpr t 3 0 e)"
  define e2 where "e2 = snd (emplace t (lc_sq c) e1)"
  have q: "emplace t (lc_sq c) e1 = (t # lc_sq c, e2)" by (simp add: e2_def emplace_def Let_def)
  have ag: "no_again e2" using ok by (simp add: e2_def e1_def lc_ok_def)
  have l: "\<not> loaded_from_savestate (thr e2 t)"
    using t(2) by (simp add: e2_def e1_def emplace_def Let_def thr_set_gpr)
  have s: "sstate (thr (set_gpr t 3 0 e) t) = 0" using t(3) by (simp add: thr_set_gpr)
  let ?x = "x\<lparr>lw_lwcond_waiters := lw_lwcond_waiters x + 1\<rparr>"
  define rx where "rx = (case lw_try_unlock False seen ?x of
      (True, x2) \<Rightarrow> (None, x2) | (False, x2) \<Rightarrow> lw_reown False (thr e2) x2)"
  obtain r x3 where rx: "rx = (r, x3)" by fastforce
  have na: "\<not> (case r of None \<Rightarrow> False | Some w \<Rightarrow> F_again \<in> state (thr e2 w))"
    using ag by (auto simp: no_again_def split: option.splits)
  define e3 where "e3 = snd (sleep t timeout (case r of None \<Rightarrow> e2 | Some w \<Rightarrow> append_awake w e2))"
  have a3: "no_again e3" using ag by (simp add: e3_def split: option.splits)
  have run': "lwcond_queue_wait t timeout seen e c x =
      (if F_again \<in> state (thr e3 t) then Again else Blocked, e3,
       c\<lparr>lc_lwmutex_waiters := lc_lwmutex_waiters c + 1, lc_sq := t # lc_sq c\<rparr>, x3)"
    using s l na
    by (simp add: lwcond_queue_wait_def Let_def e1_def [symmetric] q rx_def [symmetric] rx e3_def)
  have "lw_lwcond_waiters x3 = lw_lwcond_waiters x + 1"
    using rx lw_reown_sel lw_try_unlock_sel [of False seen ?x]
    by (fastforce simp: rx_def split: prod.splits bool.splits)
  with run run' a3 show "out = Blocked" "lc_ok e' c' x' (insert t I)"
    using ok t(1,4) low31_inc [of "lc_lwmutex_waiters c"] low31_inc [of "lw_lwcond_waiters x"]
    by (auto simp: lc_ok_def no_again_def)
qed

lemma lwcond_expire_sel:
  assumes "lwcond_expire t e c x = (e', c', x')" "distinct (lc_sq c)"
  shows "no_again e' = no_again e" "lc_lwmutex_waiters c' = lc_lwmutex_waiters c"
    "lw_lwcond_waiters x' = lw_lwcond_waiters x" "distinct (lc_sq c')" "set (lc_sq c') = set (lc_sq c) - {t}"
  using assms by (auto simp: lwcond_expire_def Let_def unqueue_def split: if_splits)

lemma lc_ok_leave:
  assumes ok: "lc_ok e c x I" and t: "t \<in> I" "state (thr e t) \<noteq> {}" "\<not> is_stopped (state (thr e t))"
      "F_signal \<in> state (thr e t) \<longrightarrow> t \<notin> set (lc_sq c)"
    and run: "lwcond_wait_round t timeout fired e c x = (Leave, e', c1, x1)"
      "lwcond_wait_end t e' c1 x1 = (out, c', x')"
  shows "lc_ok e' c' x' (I - {t})"
proof -
  have d: "distinct (lc_sq c)" using ok by (simp add: lc_ok_def)
  have "no_again e' \<and> lc_lwmutex_waiters c1 = lc_lwmutex_waiters c \<and> lw_lwcond_waiters x1 = lw_lwcond_waiters x \<and>
      distinct (lc_sq c1) \<and> set (lc_sq c1) = set (lc_sq c) - {t}"
  proof (cases "F_signal \<in> state (thr e t)")
    case True
    with run(1) t ok show ?thesis by (auto simp: lwcond_wait_round_def Let_def lc_ok_def)
  next
    case False
    then have "lwcond_expire t e c x = (e', c1, x1)"
      using run(1) t by (auto simp: lwcond_wait_round_def Let_def split: if_splits)
    from lwcond_expire_sel [OF this d] ok show ?thesis by (simp add: lc_ok_def)
  qed
  moreover have "0 < card I" using ok t(1) by (auto simp: lc_ok_def card_gt_0_iff)
  moreover have "card (I - {t}) = card I - 1" using t(1) by (rule card_Diff_singleton)
  ultimately show ?thesis using run(2) ok low31_dec [of "lc_lwmutex_waiters c"] low31_dec [of "lw_lwcond_waiters x"]
    by (auto simp: lwcond_wait_end_def lc_ok_def)
qed

lemma signal_result_sel:
  assumes "signal_result t mode r e x = (k, e', x')" "no_again e"
  shows "no_again e'" "low31 (lw_lwcond_waiters x') = low31 (lw_lwcond_waiters x)" "k"
proof -
  obtain sg e1 x1 where o: "lw_try_own r True e x = (sg, e1, x1)" using prod_cases3 by blast
  note os = lw_try_own_sel [OF o]
  obtain r2 x2 where w: "lw_reown False (thr e1) x1 = (r2, x2)" by fastforce
  have "F_again \<notin> state (thr e1 u)" for u using os(2) assms(2) by (simp add: no_again_def)
  with assms(1) o w os lw_reown_sel [OF w] assms(2)
  have "no_again e' \<and> low31 (lw_lwcond_waiters x') = low31 (lw_lwcond_waiters x) \<and> k"
    by (cases r2) (auto simp: signal_result_def split: if_splits)
  then show "no_again e'" "low31 (lw_lwcond_waiters x') = low31 (lw_lwcond_waiters x)" "k" by blast+
qed

text \<open>The thread that a call to signal takes off the queue.\<close>

definition chosen :: "lv2 \<Rightarrow> lv2_lwcond \<Rightarrow> u64 \<Rightarrow> tid option" where
  "chosen e c target =
     (if target = no_target then pick (thr e) (lc_protocol c) (lc_sq c)
      else if ucast target \<in> set (lc_sq c) then Some (ucast target) else None)"

lemma chosen_mem: "chosen e c target = Some r \<Longrightarrow> r \<in> set (lc_sq c)"
  by (auto simp: chosen_def pick_mem split: if_splits)

lemma chosen_select:
  "no_again e \<Longrightarrow>
   (case (if target \<noteq> no_target
          then (if fst (unqueue (lc_sq c) (ucast target)) then Some (ucast target) else None,
                snd (unqueue (lc_sq c) (ucast target)))
          else schedule (thr e) (lc_protocol c) (lc_sq c)) of
      (None, _) \<Rightarrow> f | (Some r, q) \<Rightarrow> g r q) =
   (case chosen e c target of None \<Rightarrow> f | Some r \<Rightarrow> g r (remove1 r (lc_sq c)))"
  by (auto simp: chosen_def unqueue_def schedule_def no_again_def split: option.splits)

lemma lwcond_signal_raw_eq:
  assumes "no_again e" "target = no_target \<or> alive" "mode = 2 \<or> mx \<noteq> None"
  shows "lwcond_signal_raw t mode target alive looked e c mx =
    (if F_suspend \<in> state (thr e t) then (None, e, c, mx)
     else if \<not> looked then (Some 0, e, c, mx)
     else case chosen e c target of
            None \<Rightarrow> (Some 0, e, c, mx)
          | Some r \<Rightarrow>
              if mode = 2
              then (Some 1, awake1 r (set_gpr r 3 (ucast (CELL_EBUSY)) e), c\<lparr>lc_sq := remove1 r (lc_sq c)\<rparr>, mx)
              else (case signal_result t mode r e (the mx) of
                      (k, e1, x1) \<Rightarrow> (Some 1, e1, c\<lparr>lc_sq := remove1 r (lc_sq c)\<rparr>, Some x1)))"
proof -
  have ag: "F_again \<notin> state (thr e u)" for u using assms(1) by (simp add: no_again_def)
  have p: "\<not> (target \<noteq> no_target \<and> \<not> alive)" "\<not> (mode \<noteq> 2 \<and> mx = None)" using assms(2,3) by auto
  show ?thesis
  proof (cases "chosen e c target")
    case None
    then show ?thesis
      unfolding lwcond_signal_raw_def chosen_select [OF assms(1)] using p ag by simp
  next
    case (Some r)
    show ?thesis
    proof (cases "mode = 2")
      case True
      with Some show ?thesis
        unfolding lwcond_signal_raw_def chosen_select [OF assms(1)] using p ag by simp
    next
      case False
      then obtain x where x: "mx = Some x" using assms(3) by auto
      obtain k e1 x1 where s: "signal_result t mode r e x = (k, e1, x1)" using prod_cases3 by blast
      with signal_result_sel(3) [OF s assms(1)] False Some x show ?thesis
        unfolding lwcond_signal_raw_def chosen_select [OF assms(1)] using p ag by simp
    qed
  qed
qed

lemma lc_ok_signal:
  assumes ok: "lc_ok e c x I"
    and run: "lwcond_signal t mode target alive looked e c (Some x) = (out, e', c', Some x')"
  shows "lc_ok e' c' x' I"
proof (cases "target = no_target \<or> alive")
  case False
  with run ok show ?thesis by (auto simp: lwcond_signal_def lwcond_signal_raw_def)
next
  case True
  have ag: "no_again e" and d: "distinct (lc_sq c)" using ok by (simp_all add: lc_ok_def)
  have m: "mode = 2 \<or> Some x \<noteq> None" by simp
  note eq = lwcond_signal_raw_eq [OF ag True m, of t looked c]
  show ?thesis
  proof (cases "F_suspend \<in> state (thr e t) \<or> \<not> looked \<or> chosen e c target = None")
    case True
    then have "\<exists>r. lwcond_signal_raw t mode target alive looked e c (Some x) = (r, e, c, Some x)"
      unfolding eq by auto
    with run ok show ?thesis by (auto simp: lwcond_signal_def)
  next
    case False
    then obtain r where r: "F_suspend \<notin> state (thr e t)" "looked" "chosen e c target = Some r" by auto
    obtain k e1 x1 where s: "signal_result t mode r e x = (k, e1, x1)" using prod_cases3 by blast
    have "c' = c\<lparr>lc_sq := remove1 r (lc_sq c)\<rparr>" "no_again e'"
      "low31 (lw_lwcond_waiters x') = low31 (lw_lwcond_waiters x)"
      using run eq r s signal_result_sel [OF s ag] ag by (auto simp: lwcond_signal_def split: if_splits)
    with d show ?thesis by (intro lc_ok_step [OF ok]) (auto dest: subsetD [OF set_remove1_subset])
  qed
qed

lemma signal_each_sel:
  assumes "signal_each mode r (n, e, Some x) = (n', e', mx)"
  shows "n' = n + 1" "no_again e' = no_again e"
    "\<exists>x'. mx = Some x' \<and> low31 (lw_lwcond_waiters x') = low31 (lw_lwcond_waiters x)"
proof -
  obtain sg e1 x1 where o: "lw_try_own r True e x = (sg, e1, x1)" using prod_cases3 by blast
  note os = lw_try_own_sel [OF o]
  show "n' = n + 1" "no_again e' = no_again e"
    "\<exists>x'. mx = Some x' \<and> low31 (lw_lwcond_waiters x') = low31 (lw_lwcond_waiters x)"
    using assms o os by (auto simp: signal_each_def Let_def split: bool.splits if_splits)
qed

lemma fold_signal_each:
  "\<exists>e' x'. fold (signal_each mode) ws (n, e, Some x) = (n + length ws, e', Some x') \<and>
     no_again e' = no_again e \<and> low31 (lw_lwcond_waiters x') = low31 (lw_lwcond_waiters x)"
proof (induction ws arbitrary: n e x)
  case (Cons w ws)
  obtain n1 e1 mx where s: "signal_each mode w (n, e, Some x) = (n1, e1, mx)" using prod_cases3 by blast
  from signal_each_sel [OF s] obtain x1 where "n1 = n + 1" "no_again e1 = no_again e" "mx = Some x1"
    "low31 (lw_lwcond_waiters x1) = low31 (lw_lwcond_waiters x)" by blast
  with s Cons.IH [of "n + 1" e1 x1] show ?case by auto
qed simp

lemma again_signal_each:
  "F_again \<in> state (thr (fst (snd (signal_each mode c s))) d) \<longleftrightarrow> F_again \<in> state (thr (fst (snd s)) d)"
  by (auto simp: signal_each_def lw_try_own_def Let_def split: prod.splits bool.splits option.splits)

lemma lwcond_signal_all_eq:
  assumes "no_again e" "distinct (lc_sq c)" "F_suspend \<notin> state (thr e t)"
  obtains e' x' where "low31 (lw_lwcond_waiters x') = low31 (lw_lwcond_waiters x)" "no_again e'"
    "lwcond_signal_all t mode True e c (Some x) =
       Some (Ret (if mode = 1 then of_nat (length (lc_sq c)) else CELL_OK), e', c\<lparr>lc_sq := []\<rparr>, Some x')"
proof -
  have ag: "F_again \<notin> state (thr e u)" for u using assms(1) by (simp add: no_again_def)
  then have "\<forall>w \<in> set (lc_sq c). F_again \<notin> state (thr (fst (snd (0, e, Some x))) w)" by simp
  from drain_all [OF assms(2), of "\<lambda>s. thr (fst (snd s))" "(0, e, Some x)" "signal_each mode" "lc_protocol c",
      OF this again_signal_each]
  obtain ws where ws: "distinct ws" "set ws = set (lc_sq c)"
    "drain (\<lambda>s. thr (fst (snd s))) (lc_protocol c) (signal_each mode) (lc_sq c) (0, e, Some x) =
       Some (fold (signal_each mode) ws (0, e, Some x))" by blast
  then have len: "length ws = length (lc_sq c)" using assms(2) by (metis distinct_card)
  from fold_signal_each [of mode ws 0 e x] obtain e1 x1 where
    f: "fold (signal_each mode) ws (0, e, Some x) = (length ws, e1, Some x1)" "no_again e1"
      "low31 (lw_lwcond_waiters x1) = low31 (lw_lwcond_waiters x)" using assms(1) by auto
  let ?e = "if length ws \<noteq> 0 \<and> mode = 2 then awake_all e1 else e1"
  have "lwcond_signal_all t mode True e c (Some x) =
      Some (Ret (if mode = 1 then of_nat (length (lc_sq c)) else CELL_OK), ?e, c\<lparr>lc_sq := []\<rparr>, Some x1)"
    using ws(3) f(1) ag assms(3) by (simp add: lwcond_signal_all_def len)
  with that [of x1 ?e] f show ?thesis by simp
qed

lemma lc_ok_signal_all:
  assumes ok: "lc_ok e c x I"
    and run: "lwcond_signal_all t mode looked e c (Some x) = Some (out, e', c', Some x')"
  shows "lc_ok e' c' x' I"
proof (cases "F_suspend \<in> state (thr e t) \<or> \<not> looked")
  case True
  with run ok show ?thesis by (auto simp: lwcond_signal_all_def split: if_splits)
next
  case False
  have ag: "no_again e" and d: "distinct (lc_sq c)" using ok by (simp_all add: lc_ok_def)
  from False have f: "F_suspend \<notin> state (thr e t)" and l: "looked = True" by auto
  obtain e1 x1 where "low31 (lw_lwcond_waiters x1) = low31 (lw_lwcond_waiters x)" "no_again e1"
    "lwcond_signal_all t mode True e c (Some x) =
       Some (Ret (if mode = 1 then of_nat (length (lc_sq c)) else CELL_OK), e1, c\<lparr>lc_sq := []\<rparr>, Some x1)"
    by (rule lwcond_signal_all_eq [OF ag d f])
  with run l show ?thesis by (intro lc_ok_step [OF ok]) auto
qed

lemma lc_ok_unlock:
  assumes ok: "lc_ok e c x I" and run: "lwmutex_unlock unlock2 t seen e x = (out, e', x')"
  shows "lc_ok e' c x' I"
proof -
  have ag: "no_again e" using ok by (simp add: lc_ok_def)
  then have q: "\<And>u. F_again \<notin> state (thr e u)" by (simp add: no_again_def)
  from run q have "no_again e' \<and> lw_lwcond_waiters x' = lw_lwcond_waiters x"
  proof (cases rule: lwmutex_unlock_cases)
    case stored
    with ag show ?thesis by simp
  next
    case (handed w)
    have "no_again e'" unfolding handed(5) using ag by simp
    then show ?thesis by (simp add: handed(4))
  qed
  with ok show ?thesis by (simp add: lc_ok_def)
qed

lemma lc_ok_lock:
  assumes ok: "lc_ok e c x I" and live: "t \<in> set (g_ppu e)" "F_signal \<notin> state (thr e t)"
    and run: "lwmutex_lock t timeout late e x = (out, e', x')"
  shows "lc_ok e' c x' I"
proof -
  from run live have "calm t e e' \<and> low31 (lw_lwcond_waiters x') = low31 (lw_lwcond_waiters x)"
    by (cases rule: lwmutex_lock_cases) simp_all
  with ok show ?thesis using no_again_calm [of t e e'] by (simp add: lc_ok_def)
qed

definition lcsys_inv :: "lcsys \<Rightarrow> bool" where
  "lcsys_inv s \<longleftrightarrow> lc_ok (cl_env s) (cl_cond s) (cl_mutex s) (cl_inside s)"

lemma lcsys_inv_step: "lc_step s s' \<Longrightarrow> lcsys_inv s \<Longrightarrow> lcsys_inv s'"
proof (induction rule: lc_step.induct)
  case (stay t I e timeout fired c x e' c' x')
  then have "e' = e" "c' = c" "x' = x" by (auto simp: lwcond_wait_round_def Let_def split: if_splits)
  with stay show ?case by simp
qed (unfold lcsys_inv_def lcsys.select_convs,
  (rule lc_ok_enter(1) lc_ok_leave lc_ok_signal lc_ok_signal_all lc_ok_unlock lc_ok_lock; assumption | simp add: lc_ok_def)+)

section \<open>Properties\<close>

text \<open>
  Claim C21. Destruction waits for the threads inside. Threads enter and leave \<^verbatim>\<open>_sys_lwcond_queue_wait\<close>,
  signal, lock, unlock and start to destroy either object in any order (fewer than 2^31 of them inside at
  a time). Below their top bit both counters are the number of threads inside; a round of
  \<^verbatim>\<open>_sys_lwcond_destroy\<close> or \<^verbatim>\<open>_sys_lwmutex_destroy\<close> that takes the object away finds nobody inside, so that
  no waiter touches a destroyed object; and once the last thread has left a marked object, its counter has
  the value that lets the waiting destroyer go on.
\<close>

theorem lwcond_destroy_waits:
  assumes "lc_step\<^sup>*\<^sup>* s0 s" "cl_inside s0 = {}" "lc_lwmutex_waiters (cl_cond s0) = 0"
    "lw_lwcond_waiters (cl_mutex s0) = 0" "lc_sq (cl_cond s0) = []" "no_again (cl_env s0)"
  shows "low31 (lc_lwmutex_waiters (cl_cond s)) = card (cl_inside s) \<and>
    low31 (lw_lwcond_waiters (cl_mutex s)) = card (cl_inside s) \<and> finite (cl_inside s) \<and>
    (fst (lwcond_destroy_check t first a (O_lwcond (cl_cond s)) k) = CELL_OK \<longrightarrow> cl_inside s = {}) \<and>
    (fst (lwmutex_destroy_check t first a (O_lwmutex (cl_mutex s)) k) = CELL_OK \<longrightarrow> cl_inside s = {}) \<and>
    (cl_inside s = {} \<longrightarrow> lw_drained (lc_lwmutex_waiters (cl_cond s)) \<and> lw_drained (lw_lwcond_waiters (cl_mutex s)))"
proof -
  have "lcsys_inv s"
    using assms(1)
  proof (induction rule: rtranclp_induct)
    case base
    then show ?case using assms(2-6) by (simp add: lcsys_inv_def lc_ok_def low31_def)
  qed (blast intro: lcsys_inv_step)
  then have i: "low31 (lc_lwmutex_waiters (cl_cond s)) = card (cl_inside s)"
    "low31 (lw_lwcond_waiters (cl_mutex s)) = card (cl_inside s)" "finite (cl_inside s)"
    by (simp_all add: lcsys_inv_def lc_ok_def)
  have zero: "low31 v = 0 \<Longrightarrow> lw_drained v" for v
  proof -
    assume "low31 v = 0"
    then have "2 ^ 31 dvd unat v" by (simp add: low31_def dvd_eq_mod_eq_0)
    then obtain n where n: "unat v = 2 ^ 31 * n" by (auto simp: dvd_def)
    moreover have "unat v < 2 ^ 32" using unsigned_less [of v] by simp
    ultimately have "n \<le> 1" by simp
    then show ?thesis using n by (simp add: lw_drained_def word_le_nat_alt)
  qed
  have "fst (lwcond_destroy_check t first a (O_lwcond (cl_cond s)) k) = CELL_OK \<longrightarrow>
      low31 (lc_lwmutex_waiters (cl_cond s)) = 0"
    by (auto simp: lwcond_destroy_check_def Let_def marked_zero)
  moreover have "fst (lwmutex_destroy_check t first a (O_lwmutex (cl_mutex s)) k) = CELL_OK \<longrightarrow>
      low31 (lw_lwcond_waiters (cl_mutex s)) = 0"
    by (auto simp: lwmutex_destroy_check_def Let_def marked_zero)
  ultimately show ?thesis using i zero by auto
qed

definition demo_lwcond :: lv2_lwcond where
  "demo_lwcond = \<lparr>lc_exists = 0, lc_name = 0, lc_lwid = 0x95000000, lc_protocol = SYS_SYNC_FIFO,
     lc_control = 0x2000, lc_sq = [], lc_lwmutex_waiters = 0\<rparr>"

text \<open>One thread waits, and the condition variable cannot be taken away.\<close>

theorem lwcond_destroy_waits_witness:
  "\<exists>s s0. lc_step\<^sup>*\<^sup>* s0 s \<and> cl_inside s = {3} \<and>
     fst (lwcond_destroy_check 1 None 0 (O_lwcond (cl_cond s)) (demo_kernel (O_lwcond demo_lwcond) [1])) \<noteq> CELL_OK"
proof -
  let ?e = "demo_lv2 [1, 3]"
  define s0 where "s0 = \<lparr>cl_env = ?e, cl_cond = demo_lwcond, cl_mutex = demo_lwmutex, cl_inside = {}\<rparr>"
  obtain out e' c' x' where run: "lwcond_queue_wait 3 0 (None, 0) ?e demo_lwcond demo_lwmutex = (out, e', c', x')"
    using prod_cases4 by blast
  let ?s = "\<lparr>cl_env = e', cl_cond = c', cl_mutex = x', cl_inside = insert 3 {}\<rparr>"
  have "lc_step s0 ?s" unfolding s0_def
    by (rule lc_step.enter [OF _ _ _ _ run]) (simp_all add: demo_defs)
  then have r: "lc_step\<^sup>*\<^sup>* s0 ?s" by (rule r_into_rtranclp)
  have h: "cl_inside s0 = {}" "lc_lwmutex_waiters (cl_cond s0) = 0" "lw_lwcond_waiters (cl_mutex s0) = 0"
    "lc_sq (cl_cond s0) = []" "no_again (cl_env s0)"
    by (simp_all add: s0_def demo_lwcond_def demo_lwmutex_def demo_defs no_again_def)
  from lwcond_destroy_waits [OF r h, of 1 None 0 "demo_kernel (O_lwcond demo_lwcond) [1]"] r
  show ?thesis by (intro exI [of _ ?s] exI [of _ s0]) auto
qed

text \<open>
  What a signal does, by mode. The thread is the named one if it waits (an unknown thread gives
  \<^verbatim>\<open>CELL_ESRCH\<close>), else the one the protocol picks. Mode 1 queues it at the lightweight mutex; mode 2 wakes
  it with \<^verbatim>\<open>CELL_EBUSY\<close> as its result; mode 3 wakes it as the new owner, unless the mutex has waiters, in
  which case it joins them and exactly one of all of them, the one the mutex's protocol picks, is woken.
  Without a waiter the result is \<^verbatim>\<open>CELL_ENOENT\<close>, \<^verbatim>\<open>CELL_OK\<close> or \<^verbatim>\<open>CELL_EPERM\<close>.
\<close>

theorem lwcond_signal_behaviour:
  assumes "no_again e" "F_suspend \<notin> state (thr e t)" "lw_inv x" "target = no_target \<or> alive" "mode \<in> {1, 2, 3}"
  shows "lwcond_signal t mode target alive (lc_sq c \<noteq> []) e c (Some x) =
    (case chosen e c target of
       None \<Rightarrow> (Ret (if target = no_target \<and> mode = 3 then CELL_ENOENT
                 else if target = no_target \<and> mode = 2 then CELL_OK else CELL_EPERM), e, c, Some x)
     | Some r \<Rightarrow>
         (let c' = c\<lparr>lc_sq := remove1 r (lc_sq c)\<rparr>;
              x1 = x\<lparr>lw_sq := r # lw_sq x, lw_lwcond_waiters := lw_unnotify (lw_lwcond_waiters x)\<rparr>;
              e1 = stamp_order r e
          in if mode = 2 then (Ret CELL_OK, awake1 r (set_gpr r 3 (ucast (CELL_EBUSY)) e), c', Some x)
             else if mode = 3 \<and> lw_sq x = [] then (Ret CELL_OK, awake1 r e, c', Some x)
             else if mode = 3
             then (let w = the (pick (thr e1) (lw_protocol x) (r # lw_sq x))
                   in (Ret CELL_OK, awake1 w e1, c', Some (x1\<lparr>lw_sq := remove1 w (r # lw_sq x)\<rparr>)))
             else if lw_signaled x = 0 then (Ret CELL_OK, e1, c', Some x1)
             else (Ret CELL_OK, e\<lparr>fatal := True\<rparr>, c', Some (x\<lparr>lw_signaled := 0\<rparr>))))"
proof (cases "chosen e c target")
  case None
  then show ?thesis using lwcond_signal_raw_eq [OF assms(1,4), of mode "Some x" t "lc_sq c \<noteq> []" c] assms(2)
    by (simp add: lwcond_signal_def signal_code_def)
next
  case (Some r)
  have n: "(lc_sq c \<noteq> []) = True" using chosen_mem [OF Some] by auto
  have raw: "lwcond_signal_raw t mode target alive True e c (Some x) =
      (if mode = 2
       then (Some 1, awake1 r (set_gpr r 3 (ucast (CELL_EBUSY)) e), c\<lparr>lc_sq := remove1 r (lc_sq c)\<rparr>, Some x)
       else (case signal_result t mode r e x of
               (k, e1, x1) \<Rightarrow> (Some 1, e1, c\<lparr>lc_sq := remove1 r (lc_sq c)\<rparr>, Some x1)))"
    using lwcond_signal_raw_eq [OF assms(1,4), of mode "Some x" t True c] assms(2) Some by simp
  have sig: "lw_sq x \<noteq> [] \<Longrightarrow> lw_signaled x = 0" using assms(3) by (auto simp: lw_inv_def)
  have ag: "F_again \<notin> state (thr (stamp_order r e) u)" for u using assms(1) by (simp add: no_again_def)
  obtain w where w: "pick (thr (stamp_order r e)) (lw_protocol x) (r # lw_sq x) = Some w"
    by (auto simp: pick_def)
  show ?thesis unfolding n lwcond_signal_def raw using assms(5) Some sig ag w
    by (cases "lw_sq x = []")
       (auto simp: signal_code_def signal_result_def lw_try_own_def lw_reown_def schedule_def Let_def)
qed

theorem lwcond_signal_behaviour_witness:
  "fst (lwcond_signal 1 3 no_target True True (demo_lv2 [1]) (demo_lwcond\<lparr>lc_sq := [7, 5]\<rparr>) (Some demo_lwmutex)) = Ret CELL_OK"
proof -
  let ?c = "demo_lwcond\<lparr>lc_sq := [7, 5]\<rparr>" and ?e = "demo_lv2 [1]"
  have "no_again ?e" "F_suspend \<notin> state (thr ?e 1)" "lw_inv demo_lwmutex" "no_target = no_target \<or> True"
    "(3 :: u32) \<in> {1, 2, 3}" by (simp_all add: no_again_def lw_inv_def demo_lwmutex_def demo_defs)
  from lwcond_signal_behaviour [OF this, of ?c] show ?thesis
    by (simp add: chosen_def pick_def demo_lwcond_def demo_lwmutex_def Let_def)
qed

end
