(* ===== verification/Lv2_Create.thy ===== *)
theory Lv2_Create
  imports Lv2_Objects
begin

text \<open>
  What \<^verbatim>\<open>lv2_obj::create\<close> does for a process-shared object, on the three flag values: the handle store,
  the key table of the type and the reference count of the object after the call. The model is in
  \<^verbatim>\<open>Lv2_Objects\<close>. Condition variables are left out of the statement, because their \<^verbatim>\<open>on_id_create\<close> can
  fail; \<open>create_cond_dead_mutex\<close> is what happens then.
\<close>

section \<open>Creation in the handle store\<close>

lemma create_id_lv2:
  fixes m :: "'a id_map"
  assumes inv: "idm_inv m" and b: "lv2_base b" and free: "i0 < 8192" "vec_data m i0 = None"
  obtains j m0 where "idm_inv m0" "\<And>c n. lv2_look c n m0 = lv2_look c n m"
    "\<And>a. fst (lv2_insert b a m) = Some j" "\<And>a. g_id (snd (lv2_insert b a m)) = j"
    "\<And>pr (s :: 's). create_id b (lv2_traits b) 0 pr m s =
       (case pr j s of (Some a, s1) \<Rightarrow> (Some a, snd (lv2_insert b a m), s1) | (None, s1) \<Rightarrow> (None, m0, s1))"
proof (rule allocate_lv2 [OF inv b])
  assume "\<And>i. i < 8192 \<Longrightarrow> vec_data m i \<noteq> None"
  with free show ?thesis by blast
next
  fix i g h
  assume a: "allocate_id b 0 (lv2_traits b) m = (Slot i, put_key i (mk_id b i g) b (m\<lparr>highest_index := h\<rparr>))"
    and s: "i < 8192" "i < unat h" "g AND NOT 0xFF = 0" "vec_data m i = None" "highest_index m \<le> h" "h \<le> 8192"
  let ?m = "put_key i (mk_id b i g) b (m\<lparr>highest_index := h\<rparr>)"
  define m0 where "m0 = ?m\<lparr>vec_keys := (vec_keys ?m)(i := key_none)\<rparr>"
  have i0: "idm_inv m0" unfolding m0_def by (rule idm_inv_fill(2) [OF inv b s(2-6)])
  have v: "vec_data m0 = vec_data m" "n \<noteq> i \<Longrightarrow> vec_keys m0 n = vec_keys m n" for n
    by (simp_all add: m0_def put_key_def)
  have "lv2_look c n m0 = Some z \<longleftrightarrow> lv2_look c n m = Some z" for c n z
    unfolding lv2_look_iff [OF inv] lv2_look_iff [OF i0] v(1) using s(4) v(2) by (metis option.distinct(1))
  then have l: "lv2_look c n m0 = lv2_look c n m" for c n by (metis not_None_eq)
  have ins: "lv2_insert b x m = (Some (mk_id b i g), ?m\<lparr>vec_data := (vec_data ?m)(i := Some x)\<rparr>)" for x
    using a by (simp add: lv2_insert_def create_id_def put_key_def)
  have g: "g_id ?m = mk_id b i g" by (simp add: put_key_def)
  show ?thesis
  proof (rule that [OF i0 l, of "mk_id b i g"])
    fix pr and s :: 's
    show "create_id b (lv2_traits b) 0 pr m s = (case pr (mk_id b i g) s of
        (Some a, s1) \<Rightarrow> (Some a, snd (lv2_insert b a m), s1) | (None, s1) \<Rightarrow> (None, m0, s1))"
      by (auto simp: create_id_def a g ins m0_def split: prod.splits option.splits)
  qed (simp_all add: ins g)
qed

lemma on_id_create_plain:
  assumes "heap k a = Some x" "base_of x \<noteq> cond_base"
  shows "on_id_create a k = (CELL_OK, put_obj a (map_exists (\<lambda>n. n + 1) x) k)"
  using assms by (cases x) (simp_all add: on_id_create_def Let_def)

text \<open>
  A condition variable whose mutex was destroyed after it was looked up: the first attempt fails and is
  not entered as an object of the key, and a call that does not care whether the object exists then runs
  the constructor's last step on a null pointer; a call for a new object reports \<^verbatim>\<open>CELL_EEXIST\<close>.
\<close>

lemma create_cond_dead_mutex:
  assumes "\<forall>j. \<exists>c. mk j = O_cond c \<and> cv_mutex c = am" "heap k am = Some (O_mutex m)" "mx_exists m = 0"
    and "am \<noteq> next_addr k" "ipc_get key (ipc k cond_base) = None"
  shows "\<exists>k'. create_provider cond_base SYS_SYNC_PROCESS_SHARED key SYS_SYNC_NOT_CARE mk j (CELL_EAGAIN, k) =
      (None, CELL_ESRCH, crash k')"
    "\<exists>k'. create_provider cond_base SYS_SYNC_PROCESS_SHARED key SYS_SYNC_NEWLY_CREATED mk j (CELL_EAGAIN, k) =
      (None, CELL_EEXIST, k')"
proof -
  obtain c where c: "mk j = O_cond c" "cv_mutex c = am" using assms(1) by blast
  let ?a = "next_addr k"
  define k1 where "k1 = snd (alloc_obj (mk j) k)"
  have k1: "alloc_obj (mk j) k = (?a, k1)" "heap k1 = (heap k)(?a \<mapsto> mk j)" "ipc k1 = ipc k"
    by (simp_all add: k1_def alloc_obj_def)
  have "on_id_create ?a k1 = (CELL_ESRCH, put_obj ?a (map_exists (\<lambda>n. n + 1) (mk j)) k1)"
    using assms(2-4) c by (simp add: on_id_create_def k1(2) Let_def)
  then have f: "finalize_construct (Some ?a) (CELL_EAGAIN, k1) =
      (None, CELL_ESRCH, put_obj ?a (map_exists (\<lambda>n. n + 1) (mk j)) k1)"
    by (simp add: finalize_construct_def)
  have n: "finalize_construct None s = (None, fst s, crash (snd s))" for s by (simp add: finalize_construct_def)
  show "\<exists>k'. create_provider cond_base SYS_SYNC_PROCESS_SHARED key SYS_SYNC_NOT_CARE mk j (CELL_EAGAIN, k) =
      (None, CELL_ESRCH, crash k')"
    using assms(5) by (auto simp: create_provider_def k1 ipc_add_def f n Let_def)
  show "\<exists>k'. create_provider cond_base SYS_SYNC_PROCESS_SHARED key SYS_SYNC_NEWLY_CREATED mk j (CELL_EAGAIN, k) =
      (None, CELL_EEXIST, k')"
    using assms(5) by (auto simp: create_provider_def k1 ipc_add_def f Let_def)
qed

section \<open>Properties\<close>

text \<open>
  Creating a process-shared object. With a free handle slot and a valid key, the call returns
  \<^verbatim>\<open>CELL_EEXIST\<close> if the key is taken and a new object was asked for, \<^verbatim>\<open>CELL_ESRCH\<close> if the key is free and
  an existing one was asked for, and leaves every handle as it was. Otherwise it returns a handle that
  resolved to nothing before and now names the object of the key, whose reference count is one higher: the
  one the key was bound to, or a new one that the key is bound to from then on.
\<close>

theorem lv2_create_shared:
  assumes "idm_inv (ids k)" "lv2_base b" "i0 < 8192" "vec_data (ids k) i0 = None"
    and "\<forall>j. base_of (mk j) = b" "b \<noteq> cond_base" "key \<noteq> 0"
    and "flags \<in> {SYS_SYNC_NEWLY_CREATED, SYS_SYNC_NOT_CREATE, SYS_SYNC_NOT_CARE}"
    and "\<forall>a. ipc_get key (ipc k b) = Some a \<longrightarrow> a \<noteq> next_addr k \<and> (\<exists>x. heap k a = Some x \<and> base_of x = b)"
    and "lv2_create b SYS_SYNC_PROCESS_SHARED key flags mk key_not_zero k = (r, k')"
  shows "let j = g_id (ids k') in
    case ipc_get key (ipc k b) of
      Some a \<Rightarrow>
        if flags = SYS_SYNC_NEWLY_CREATED
        then r = CELL_EEXIST \<and> ipc_get key (ipc k' b) = Some a \<and>
          (\<forall>c n. lv2_look c n (ids k') = lv2_look c n (ids k))
        else r = CELL_OK \<and> lv2_look b j (ids k) = None \<and> ipc_get key (ipc k' b) = Some a \<and>
          get_obj b j k' = Some (a, map_exists (\<lambda>n. n + 1) (the (heap k a)))
    | None \<Rightarrow>
        if flags = SYS_SYNC_NOT_CREATE
        then r = CELL_ESRCH \<and> ipc_get key (ipc k' b) = None \<and>
          (\<forall>c n. lv2_look c n (ids k') = lv2_look c n (ids k))
        else r = CELL_OK \<and> lv2_look b j (ids k) = None \<and> ipc_get key (ipc k' b) = Some (next_addr k) \<and>
          get_obj b j k' = Some (next_addr k, map_exists (\<lambda>n. n + 1) (mk j))"
proof -
  let ?sh = "SYS_SYNC_PROCESS_SHARED :: u32"
  obtain j m0 where m0: "idm_inv m0" "\<And>c n. lv2_look c n m0 = lv2_look c n (ids k)"
    and ins: "\<And>a. fst (lv2_insert b a (ids k)) = Some j" "\<And>a. g_id (snd (lv2_insert b a (ids k))) = j"
    and cr: "\<And>pr (s :: error_code \<times> kernel). create_id b (lv2_traits b) 0 pr (ids k) s =
       (case pr j s of (Some a, s1) \<Rightarrow> (Some a, snd (lv2_insert b a (ids k)), s1) | (None, s1) \<Rightarrow> (None, m0, s1))"
    by (rule create_id_lv2 [OF assms(1-4)]) (rule that; assumption)
  define k1 where "k1 = snd (alloc_obj (mk j) k)"
  have k1: "alloc_obj (mk j) k = (next_addr k, k1)" "heap k1 = (heap k)(next_addr k \<mapsto> mk j)" "ipc k1 = ipc k"
    by (simp_all add: k1_def alloc_obj_def)
  have look: "fst (lv2_insert b a (ids k)) = Some j \<Longrightarrow>
      lv2_look b j (ids k) = None \<and> lv2_look b j (snd (lv2_insert b a (ids k))) = Some a \<and>
      idm_inv (snd (lv2_insert b a (ids k)))" for a
    using idm.ins_fresh [OF assms(1,2)] idm.ins_look [OF assms(1,2)] idm.ins_inv [OF assms(1,2)]
    by (metis prod.collapse)
  have res: "get_obj b j (k2\<lparr>ids := snd (lv2_insert b a (ids k))\<rparr>) = Some (a, x)" if "heap k2 a = Some x" for k2 a x
    using look [OF ins(1), of a] that by (simp add: get_obj_def idm_get_lv2_look)
  have run: "lv2_create b ?sh key flags mk key_not_zero k =
      (case create_provider b ?sh key flags mk j (CELL_EAGAIN, k) of
         (Some a, err, k2) \<Rightarrow> (CELL_OK, k2\<lparr>ids := snd (lv2_insert b a (ids k))\<rparr>)
       | (None, err, k2) \<Rightarrow> (err, k2\<lparr>ids := m0\<rparr>))"
    using assms(7,8) by (auto simp: lv2_create_def cr split: prod.splits option.splits)
  show ?thesis
  proof (cases "ipc_get key (ipc k b)")
    case None
    have new: "on_id_create (next_addr k) k1 = (CELL_OK, put_obj (next_addr k) (map_exists (\<lambda>n. n + 1) (mk j)) k1)"
      by (rule on_id_create_plain) (use assms(5,6) k1(2) in simp_all)
    have p: "create_provider b ?sh key flags mk j (CELL_EAGAIN, k) =
        (if flags = SYS_SYNC_NOT_CREATE then (None, CELL_ESRCH, k1)
         else (Some (next_addr k), CELL_OK, (put_obj (next_addr k) (map_exists (\<lambda>n. n + 1) (mk j)) k1)
           \<lparr>ipc := (ipc k)(b := (ipc k b)(key \<mapsto> Some (next_addr k)))\<rparr>))"
      using None assms(8) by (auto simp: create_provider_def k1 ipc_add_def finalize_construct_def new Let_def)
    show ?thesis
    proof (cases "flags = SYS_SYNC_NOT_CREATE")
      case True
      with p run assms(10) have "r = CELL_ESRCH" "k' = k1\<lparr>ids := m0\<rparr>" by auto
      with None True m0(2) k1(3) show ?thesis by simp
    next
      case False
      define k2 where "k2 = (put_obj (next_addr k) (map_exists (\<lambda>n. n + 1) (mk j)) k1)
           \<lparr>ipc := (ipc k)(b := (ipc k b)(key \<mapsto> Some (next_addr k)))\<rparr>"
      have "r = CELL_OK" "k' = k2\<lparr>ids := snd (lv2_insert b (next_addr k) (ids k))\<rparr>"
        using p run assms(10) False by (auto simp: k2_def)
      moreover have "heap k2 (next_addr k) = Some (map_exists (\<lambda>n. n + 1) (mk j))" by (simp add: k2_def)
      moreover have "ipc_get key (ipc k2 b) = Some (next_addr k)" by (simp add: k2_def ipc_get_def)
      ultimately show ?thesis using None False res look [OF ins(1)] ins(2) by (simp add: Let_def)
    qed
  next
    case (Some a)
    with assms(9) obtain x where x: "heap k a = Some x" "base_of x = b" "a \<noteq> next_addr k" by blast
    then have "heap k1 a = Some x" by (simp add: k1(2))
    then have old: "on_id_create a k1 = (CELL_OK, put_obj a (map_exists (\<lambda>n. n + 1) x) k1)"
      by (rule on_id_create_plain) (use assms(6) x(2) in simp)
    have same: "k1\<lparr>ipc := ipc k\<rparr> = k1" by (rule kernel.equality) (simp_all add: k1(3))
    have p: "create_provider b ?sh key flags mk j (CELL_EAGAIN, k) =
        (if flags = SYS_SYNC_NEWLY_CREATED then (None, CELL_EEXIST, k1)
         else (Some a, CELL_OK, put_obj a (map_exists (\<lambda>n. n + 1) x) k1))"
      using Some assms(8) k1(3)
      by (auto simp: create_provider_def k1(1) ipc_add_def finalize_construct_def old Let_def put_obj_def same)
    show ?thesis
    proof (cases "flags = SYS_SYNC_NEWLY_CREATED")
      case True
      with p run assms(10) have "r = CELL_EEXIST" "k' = k1\<lparr>ids := m0\<rparr>" by auto
      with Some True m0(2) k1(3) show ?thesis by simp
    next
      case False
      define k2 where "k2 = put_obj a (map_exists (\<lambda>n. n + 1) x) k1"
      have "r = CELL_OK" "k' = k2\<lparr>ids := snd (lv2_insert b a (ids k))\<rparr>"
        using p run assms(10) False by (auto simp: k2_def)
      moreover have "heap k2 a = Some (map_exists (\<lambda>n. n + 1) x)" "ipc k2 = ipc k" by (simp_all add: k2_def k1(3))
      ultimately show ?thesis using Some False res look [OF ins(1)] ins(2) x(1) by (simp add: Let_def)
    qed
  qed
qed

definition demo_shared :: kernel where
  "demo_shared = (demo_kernel (O_sema \<lparr>sm_exists = 1, sm_protocol = SYS_SYNC_FIFO, sm_key = 7, sm_name = 0,
     sm_max = 1, sm_val = 1, sm_sq = []\<rparr>) [3])\<lparr>ipc := (\<lambda>_ _. None)(sema_base := [7 \<mapsto> Some 0])\<rparr>"

text \<open>A second process asks for the semaphore under key 7 and gets a handle of the object at address 0.\<close>

theorem lv2_create_shared_witness:
  "\<exists>k'. lv2_create sema_base SYS_SYNC_PROCESS_SHARED 7 SYS_SYNC_NOT_CREATE (\<lambda>_. the (heap demo_shared 0)) True demo_shared
       = (CELL_OK, k') \<and> fst (the (get_obj sema_base (g_id (ids k')) k')) = 0"
proof -
  let ?x = "O_sema \<lparr>sm_exists = 1, sm_protocol = SYS_SYNC_FIFO, sm_key = 7, sm_name = 0,
     sm_max = 1, sm_val = 1, sm_sq = []\<rparr>"
  let ?k = "demo_kernel ?x [3]"
  obtain r k' where run: "lv2_create sema_base SYS_SYNC_PROCESS_SHARED 7 SYS_SYNC_NOT_CREATE
      (\<lambda>_. the (heap demo_shared 0)) True demo_shared = (r, k')" by fastforce
  have h: "heap demo_shared 0 = Some ?x" "next_addr demo_shared = 1" "ipc demo_shared sema_base = [7 \<mapsto> Some 0]"
    "ids demo_shared = ids ?k" by (simp_all add: demo_shared_def demo_kernel_def)
  have i: "idm_inv (ids demo_shared)" unfolding h(4) by (rule demo_kernel_idm)
  have b: "lv2_base sema_base" by (simp add: lv2_base_def)
  have f: "vec_data (ids demo_shared) 1 = None"
    by (simp add: h(4) demo_kernel_def lv2_insert_def create_id_def allocate_id_def id_map_empty_def put_key_def
        lv2_base_def)
  have "\<forall>j. base_of ((\<lambda>_. the (heap demo_shared 0)) j) = sema_base" "sema_base \<noteq> cond_base" "(7 :: u64) \<noteq> 0"
    "SYS_SYNC_NOT_CREATE \<in> {SYS_SYNC_NEWLY_CREATED, SYS_SYNC_NOT_CREATE, SYS_SYNC_NOT_CARE}"
    "\<forall>a. ipc_get 7 (ipc demo_shared sema_base) = Some a \<longrightarrow>
       a \<noteq> next_addr demo_shared \<and> (\<exists>x. heap demo_shared a = Some x \<and> base_of x = sema_base)"
    by (simp_all add: h ipc_get_def)
  from lv2_create_shared [OF i b _ f this run] show ?thesis using run by (simp add: h ipc_get_def Let_def)
qed

end
