(* ===== verification/Ppu_Opcode.thy ===== *)
theory Ppu_Opcode
  imports Prelude
begin

text \<open>
  PPU instruction words: the bit fields of \<^verbatim>\<open>ppu_opcode_t\<close> (\<^verbatim>\<open>rpcs3/Emu/Cell/PPUOpcodes.h\<close>, built
  on \<^verbatim>\<open>bf_t\<close> and \<^verbatim>\<open>cf_t\<close> of \<^verbatim>\<open>rpcs3/util/BitField.h\<close>), the rotate mask, and the encoders of the
  namespace \<^verbatim>\<open>ppu_instructions\<close>. A field is a function of the 32-bit instruction word; register and
  condition-register numbers are read as \<^typ>\<open>nat\<close>, immediates stay words.
\<close>

section \<open>Bit fields\<close>

text \<open>
  \<^verbatim>\<open>bf_t<u32, I, N>\<close> (N bits from position I, 0 is the least significant bit): the unsigned and the
  sign-extending load, and the store, which masks the value.
\<close>

definition bf_extract :: "nat \<Rightarrow> nat \<Rightarrow> u32 \<Rightarrow> u32" where
  "bf_extract i n data = drop_bit i data AND mask n"

definition bf_extract_s :: "nat \<Rightarrow> nat \<Rightarrow> u32 \<Rightarrow> u32" where
  "bf_extract_s i n data = signed_drop_bit (32 - n) (push_bit (32 - i - n) data)"

definition bf_store :: "nat \<Rightarrow> nat \<Rightarrow> u32 \<Rightarrow> u32 \<Rightarrow> u32" where
  "bf_store i n v data = (data AND NOT (push_bit i (mask n))) OR push_bit i (v AND mask n)"

text \<open>\<^verbatim>\<open>ppu_bf_t<T, I, N>\<close> counts from the most significant bit.\<close>

definition ppu_bf :: "nat \<Rightarrow> nat \<Rightarrow> u32 \<Rightarrow> u32" where
  "ppu_bf i n op = bf_extract (32 - n - i) n op"

definition ppu_bf_s :: "nat \<Rightarrow> nat \<Rightarrow> u32 \<Rightarrow> u32" where
  "ppu_bf_s i n op = bf_extract_s (32 - n - i) n op"

definition ppu_bf_store :: "nat \<Rightarrow> nat \<Rightarrow> u32 \<Rightarrow> u32 \<Rightarrow> u32" where
  "ppu_bf_store i n v op = bf_store (32 - n - i) n v op"

text \<open>
  \<^verbatim>\<open>cf_t<F, G>\<close> concatenates fields from left to right; \<open>sh64\<close> and \<open>mbe64\<close> have their high bit apart
  from the five low ones, \<open>bt14\<close> and \<open>bt24\<close> append two zero bits to a signed field.
\<close>

definition cf_extract :: "nat \<Rightarrow> u32 \<Rightarrow> u32 \<Rightarrow> u32" where
  "cf_extract low_size hi lo = push_bit low_size hi OR lo"

section \<open>The fields of an instruction word\<close>

definition op_main :: "u32 \<Rightarrow> nat" where "op_main op = unat (ppu_bf 0 6 op)"
definition op_sh64 :: "u32 \<Rightarrow> nat" where
  "op_sh64 op = unat (cf_extract 5 (ppu_bf 30 1 op) (ppu_bf 16 5 op))"
definition op_mbe64 :: "u32 \<Rightarrow> nat" where
  "op_mbe64 op = unat (cf_extract 5 (ppu_bf 26 1 op) (ppu_bf 21 5 op))"
definition op_oe :: "u32 \<Rightarrow> bool" where "op_oe op = (ppu_bf 21 1 op \<noteq> 0)"
definition op_spr :: "u32 \<Rightarrow> u32" where "op_spr op = ppu_bf 11 10 op"
definition op_lk :: "u32 \<Rightarrow> bool" where "op_lk op = (ppu_bf 31 1 op \<noteq> 0)"
definition op_aa :: "u32 \<Rightarrow> bool" where "op_aa op = (ppu_bf 30 1 op \<noteq> 0)"
definition op_rb :: "u32 \<Rightarrow> nat" where "op_rb op = unat (ppu_bf 16 5 op)"
definition op_ra :: "u32 \<Rightarrow> nat" where "op_ra op = unat (ppu_bf 11 5 op)"
definition op_rd :: "u32 \<Rightarrow> nat" where "op_rd op = unat (ppu_bf 6 5 op)"
definition op_uimm16 :: "u32 \<Rightarrow> u32" where "op_uimm16 op = ppu_bf 16 16 op"
definition op_l11 :: "u32 \<Rightarrow> bool" where "op_l11 op = (ppu_bf 11 1 op \<noteq> 0)"
definition op_rs :: "u32 \<Rightarrow> nat" where "op_rs op = unat (ppu_bf 6 5 op)"
definition op_simm16 :: "u32 \<Rightarrow> u32" where "op_simm16 op = ppu_bf_s 16 16 op"
definition op_ds :: "u32 \<Rightarrow> u32" where "op_ds op = ppu_bf_s 16 14 op"
definition op_crfs :: "u32 \<Rightarrow> nat" where "op_crfs op = unat (ppu_bf 11 3 op)"
definition op_l10 :: "u32 \<Rightarrow> bool" where "op_l10 op = (ppu_bf 10 1 op \<noteq> 0)"
definition op_crfd :: "u32 \<Rightarrow> nat" where "op_crfd op = unat (ppu_bf 6 3 op)"
definition op_crbb :: "u32 \<Rightarrow> nat" where "op_crbb op = unat (ppu_bf 16 5 op)"
definition op_crba :: "u32 \<Rightarrow> nat" where "op_crba op = unat (ppu_bf 11 5 op)"
definition op_crbd :: "u32 \<Rightarrow> nat" where "op_crbd op = unat (ppu_bf 6 5 op)"
definition op_rc :: "u32 \<Rightarrow> bool" where "op_rc op = (ppu_bf 31 1 op \<noteq> 0)"
definition op_me32 :: "u32 \<Rightarrow> nat" where "op_me32 op = unat (ppu_bf 26 5 op)"
definition op_mb32 :: "u32 \<Rightarrow> nat" where "op_mb32 op = unat (ppu_bf 21 5 op)"
definition op_sh32 :: "u32 \<Rightarrow> nat" where "op_sh32 op = unat (ppu_bf 16 5 op)"
definition op_bi :: "u32 \<Rightarrow> nat" where "op_bi op = unat (ppu_bf 11 5 op)"
definition op_bo :: "u32 \<Rightarrow> u32" where "op_bo op = ppu_bf 6 5 op"
definition op_crm :: "u32 \<Rightarrow> u32" where "op_crm op = ppu_bf 12 8 op"
definition op_bt14 :: "u32 \<Rightarrow> u32" where "op_bt14 op = cf_extract 2 (ppu_bf_s 16 14 op) 0"
definition op_bt24 :: "u32 \<Rightarrow> u32" where "op_bt24 op = cf_extract 2 (ppu_bf_s 6 24 op) 0"

lemmas op_field_defs =
  op_main_def op_sh64_def op_mbe64_def op_oe_def op_spr_def op_lk_def op_aa_def op_rb_def op_ra_def
  op_rd_def op_uimm16_def op_l11_def op_rs_def op_simm16_def op_ds_def op_crfs_def op_l10_def
  op_crfd_def op_crbb_def op_crba_def op_crbd_def op_rc_def op_me32_def op_mb32_def op_sh32_def
  op_bi_def op_bo_def op_crm_def op_bt14_def op_bt24_def

lemmas bf_defs = ppu_bf_def ppu_bf_s_def bf_extract_def bf_extract_s_def cf_extract_def
  ppu_bf_store_def bf_store_def

section \<open>The rotate mask\<close>

text \<open>
  \<^verbatim>\<open>ppu_rotate_mask(mb, me)\<close>: ones from bit \<open>mb\<close> through bit \<open>me\<close>, counted from the most significant
  bit and wrapping round. The 32-bit rotates call it with \<open>32 + mb32\<close> and \<open>32 + me32\<close>.
\<close>

definition ppu_rotate_mask :: "u32 \<Rightarrow> u32 \<Rightarrow> u64" where
  "ppu_rotate_mask mb me =
     (let m = push_bit (unat (NOT (me - mb) AND 63)) (- 1) :: u64
      in drop_bit (unat (mb AND 63)) m OR push_bit (unat ((64 - mb) AND 63)) m)"

definition in_rotate_mask :: "nat \<Rightarrow> nat \<Rightarrow> nat \<Rightarrow> bool" where
  "in_rotate_mask mb me i =
     (if mb \<le> me then mb \<le> i \<and> i \<le> me else mb \<le> i \<or> i \<le> me)"

section \<open>Encoders\<close>

text \<open>\<^verbatim>\<open>namespace ppu_instructions\<close>: fields are stored one after the other into a base word.\<close>

definition d_form :: "u32 \<Rightarrow> u32 \<Rightarrow> u32 \<Rightarrow> u32 \<Rightarrow> u32" where
  "d_form main rt ra si =
     ppu_bf_store 16 16 si (ppu_bf_store 11 5 ra (ppu_bf_store 6 5 rt (push_bit 26 main)))"

definition enc_ADDI :: "u32 \<Rightarrow> u32 \<Rightarrow> u32 \<Rightarrow> u32" where "enc_ADDI rt ra si = d_form 0x0e rt ra si"
definition enc_ADDIS :: "u32 \<Rightarrow> u32 \<Rightarrow> u32 \<Rightarrow> u32" where "enc_ADDIS rt ra si = d_form 0x0f rt ra si"
definition enc_XORIS :: "u32 \<Rightarrow> u32 \<Rightarrow> u32 \<Rightarrow> u32" where "enc_XORIS rt ra si = d_form 0x1b rt ra si"
definition enc_ORI :: "u32 \<Rightarrow> u32 \<Rightarrow> u32 \<Rightarrow> u32" where "enc_ORI rt ra ui = d_form 0x18 rt ra ui"
definition enc_ORIS :: "u32 \<Rightarrow> u32 \<Rightarrow> u32 \<Rightarrow> u32" where "enc_ORIS rt ra ui = d_form 0x19 rt ra ui"
definition enc_LWZ :: "u32 \<Rightarrow> u32 \<Rightarrow> u32 \<Rightarrow> u32" where "enc_LWZ rt ra si = d_form 0x20 rt ra si"
definition enc_STW :: "u32 \<Rightarrow> u32 \<Rightarrow> u32 \<Rightarrow> u32" where "enc_STW rt ra si = d_form 0x24 rt ra si"

definition enc_OR :: "u32 \<Rightarrow> u32 \<Rightarrow> u32 \<Rightarrow> bool \<Rightarrow> u32" where
  "enc_OR ra rs rb rc =
     ppu_bf_store 31 1 (of_bool rc) (ppu_bf_store 16 5 rb (ppu_bf_store 11 5 ra (ppu_bf_store 6 5 rs
       (push_bit 26 0x1f OR push_bit 1 0x1bc))))"

definition enc_B :: "u32 \<Rightarrow> bool \<Rightarrow> bool \<Rightarrow> u32" where
  "enc_B li aa lk =
     ppu_bf_store 31 1 (of_bool lk) (ppu_bf_store 30 1 (of_bool aa) (ppu_bf_store 6 26 li (push_bit 26 0x12)))"

text \<open>\<^verbatim>\<open>bd / 4\<close> is the signed division of C++, which truncates towards zero.\<close>

definition sdiv4 :: "u32 \<Rightarrow> u32" where
  "sdiv4 x = word_of_int (sgn (sint x) * (\<bar>sint x\<bar> div 4))"

definition enc_BC :: "u32 \<Rightarrow> u32 \<Rightarrow> u32 \<Rightarrow> bool \<Rightarrow> bool \<Rightarrow> u32" where
  "enc_BC bo bi bd aa lk =
     ppu_bf_store 31 1 (of_bool lk) (ppu_bf_store 30 1 (of_bool aa) (ppu_bf_store 16 14 (sdiv4 bd)
       (ppu_bf_store 11 5 bi (ppu_bf_store 6 5 bo (push_bit 26 0x10)))))"

definition ds_form :: "u32 \<Rightarrow> u32 \<Rightarrow> u32 \<Rightarrow> u32 \<Rightarrow> u32" where
  "ds_form base rs ra si =
     ppu_bf_store 16 14 (sdiv4 si) (ppu_bf_store 11 5 ra (ppu_bf_store 6 5 rs base))"

definition enc_STD :: "u32 \<Rightarrow> u32 \<Rightarrow> u32 \<Rightarrow> u32" where "enc_STD rs ra si = ds_form (push_bit 26 0x3e) rs ra si"
definition enc_STDU :: "u32 \<Rightarrow> u32 \<Rightarrow> u32 \<Rightarrow> u32" where "enc_STDU rs ra si = ds_form (push_bit 26 0x3e OR 1) rs ra si"
definition enc_LD :: "u32 \<Rightarrow> u32 \<Rightarrow> u32 \<Rightarrow> u32" where "enc_LD rt ra si = ds_form (push_bit 26 0x3a) rt ra si"
definition enc_LDU :: "u32 \<Rightarrow> u32 \<Rightarrow> u32 \<Rightarrow> u32" where "enc_LDU rt ra si = ds_form (push_bit 26 0x3a OR 1) rt ra si"

text \<open>
  \<^verbatim>\<open>op.sh64 = sh\<close> stores through \<^verbatim>\<open>cf_t\<close>, which splits the value: the sixth bit goes to the first
  field, the five low bits to the second.
\<close>

definition enc_RLDICL :: "u32 \<Rightarrow> u32 \<Rightarrow> u32 \<Rightarrow> u32 \<Rightarrow> bool \<Rightarrow> u32" where
  "enc_RLDICL ra rs sh mb rc =
     ppu_bf_store 31 1 (of_bool rc)
       (ppu_bf_store 26 1 (drop_bit 5 mb) (ppu_bf_store 21 5 mb
       (ppu_bf_store 30 1 (drop_bit 5 sh) (ppu_bf_store 16 5 sh
       (ppu_bf_store 6 5 rs (ppu_bf_store 11 5 ra (push_bit 26 30)))))))"

definition enc_RLDICR :: "u32 \<Rightarrow> u32 \<Rightarrow> u32 \<Rightarrow> u32 \<Rightarrow> bool \<Rightarrow> u32" where
  "enc_RLDICR ra rs sh mb rc = enc_RLDICL ra rs sh mb rc OR push_bit 2 1"

definition enc_EXTRDI :: "u32 \<Rightarrow> u32 \<Rightarrow> u32 \<Rightarrow> u32 \<Rightarrow> u32" where
  "enc_EXTRDI x y n b = enc_RLDICL x y (b + n) (64 - b) False"
definition enc_SRDI :: "u32 \<Rightarrow> u32 \<Rightarrow> u32 \<Rightarrow> u32" where
  "enc_SRDI x y n = enc_RLDICL x y (64 - n) n False"
definition enc_CLRLDI :: "u32 \<Rightarrow> u32 \<Rightarrow> u32 \<Rightarrow> u32" where
  "enc_CLRLDI x y n = enc_RLDICL x y 0 n False"
definition enc_CLRRDI :: "u32 \<Rightarrow> u32 \<Rightarrow> u32 \<Rightarrow> u32" where
  "enc_CLRRDI x y n = enc_RLDICR x y 0 (63 - n) False"

lemmas enc_defs = d_form_def ds_form_def enc_ADDI_def enc_ADDIS_def enc_XORIS_def enc_ORI_def enc_ORIS_def
  enc_LWZ_def enc_STW_def enc_OR_def enc_B_def enc_BC_def enc_STD_def enc_STDU_def enc_LD_def
  enc_LDU_def enc_RLDICL_def enc_RLDICR_def enc_EXTRDI_def enc_SRDI_def enc_CLRLDI_def enc_CLRRDI_def

section \<open>The mask covers the bits it names\<close>

lemma unat_and_63: "unat (word_of_int k AND (63::u32)) = nat (k mod 64)"
proof -
  have "word_of_int k AND (63::u32) = take_bit 6 (word_of_int k)"
    by (simp add: take_bit_eq_mask mask_eq_exp_minus_1)
  moreover have "uint (take_bit 6 (word_of_int k :: u32)) = take_bit 6 k"
    by (simp add: unsigned_take_bit_eq uint_word_of_int) (simp add: take_bit_eq_mod mod_mod_cancel)
  ultimately have "uint (word_of_int k AND (63::u32)) = k mod 64"
    by (simp only: take_bit_eq_mod) simp
  then show ?thesis by (metis unat_eq_nat_uint)
qed

lemma rotate_shift:
  "unat (NOT (of_nat me - of_nat mb :: u32) AND 63) = nat ((int mb - int me - 1) mod 64)"
proof -
  have "NOT (of_nat me - of_nat mb :: u32) = word_of_int (int mb - int me - 1)"
    by (simp add: not_eq_complement)
  then show ?thesis using unat_and_63 by metis
qed

lemma rotate_right: "mb < 64 \<Longrightarrow> unat (of_nat mb AND 63 :: u32) = mb"
  using unat_and_63 [of "int mb"] by simp

lemma rotate_left: "mb < 64 \<Longrightarrow> unat ((64 - of_nat mb) AND 63 :: u32) = (if mb = 0 then 0 else 64 - mb)"
proof -
  assume "mb < 64"
  have "64 - of_nat mb = (word_of_int (64 - int mb) :: u32)" by simp
  then have "unat ((64 - of_nat mb) AND 63 :: u32) = nat ((64 - int mb) mod 64)"
    using unat_and_63 by metis
  moreover have "(64 - int mb) mod 64 = (if mb = 0 then 0 else 64 - int mb)"
    using \<open>mb < 64\<close> mod_pos_pos_trivial [of "64 - int mb" 64] by auto
  ultimately show ?thesis using \<open>mb < 64\<close> by auto
qed

lemma rotate_mod: "mb < 64 \<Longrightarrow> me < 64 \<Longrightarrow>
  nat ((int mb - int me - 1) mod 64) = (if mb \<le> me then 63 + mb - me else mb - me - 1)"
proof -
  assume *: "mb < 64" "me < 64"
  have "(int mb - int me - 1) mod 64 = (int mb - int me + 63) mod 64"
    using mod_add_self2 [of "int mb - int me - 1" 64] by (simp add: algebra_simps)
  also have "mb \<le> me \<Longrightarrow> (int mb - int me + 63) mod 64 = int mb - int me + 63"
    using * by (simp add: mod_pos_pos_trivial)
  finally have "mb \<le> me \<Longrightarrow> (int mb - int me - 1) mod 64 = int mb - int me + 63" .
  moreover have "\<not> mb \<le> me \<Longrightarrow> (int mb - int me - 1) mod 64 = int mb - int me - 1"
    using * by (simp add: mod_pos_pos_trivial)
  ultimately show ?thesis by auto
qed

lemma bit_ones: "bit (push_bit s (- 1) :: u64) n = (s \<le> n \<and> n < 64)"
  by (auto simp add: bit_not_iff bit_mask_iff)

lemma bit_rotate_mask:
  assumes "mb < 64" "me < 64" "i < 64"
  shows "bit (ppu_rotate_mask (of_nat mb) (of_nat me)) (63 - i) = in_rotate_mask mb me i"
proof -
  define s where "s = (if mb \<le> me then 63 + mb - me else mb - me - 1)"
  define l where "l = (if mb = 0 then 0 else 64 - mb)"
  have "ppu_rotate_mask (of_nat mb) (of_nat me) =
      drop_bit mb (push_bit s (- 1)) OR push_bit l (push_bit s (- 1))"
    using assms by (simp only: ppu_rotate_mask_def Let_def rotate_shift rotate_mod rotate_right
      rotate_left s_def l_def)
  then have "bit (ppu_rotate_mask (of_nat mb) (of_nat me)) (63 - i) =
      ((s \<le> mb + (63 - i) \<and> mb + (63 - i) < 64) \<or> (l + s \<le> 63 - i))"
    by (simp only: bit_or_iff bit_drop_bit_eq o_def bit_ones push_bit_push_bit) linarith
  then show ?thesis
    using assms unfolding s_def l_def in_rotate_mask_def by (auto split: if_splits)
qed

section \<open>Fields are in range\<close>

lemma unat_bound_bits: "(\<And>n. bit w n \<Longrightarrow> n < k) \<Longrightarrow> unat (w::'a::len word) < 2 ^ k"
proof -
  assume "\<And>n. bit w n \<Longrightarrow> n < k"
  then have "w = take_bit k w" by (intro bit_word_eqI) (auto simp: bit_simps)
  then show ?thesis by (metis unsigned_take_bit_eq take_bit_nat_less_exp)
qed

lemma bit_ppu_bf: "bit (ppu_bf i n op) k = (k < n \<and> bit op (32 - n - i + k))"
  by (auto simp: ppu_bf_def bf_extract_def bit_simps dest: bit_imp_le_length)

lemma ppu_bf_bound: "unat (ppu_bf i n op) < 2 ^ n"
  by (rule unat_bound_bits) (simp add: bit_ppu_bf)

lemma field5 [simp]:
  "op_ra op < 32" "op_rb op < 32" "op_rd op < 32" "op_rs op < 32" "op_mb32 op < 32" "op_me32 op < 32"
  "op_sh32 op < 32" "op_crba op < 32" "op_crbb op < 32" "op_crbd op < 32" "op_bi op < 32"
  unfolding op_field_defs using ppu_bf_bound [of _ 5 op] by simp_all

lemma field3 [simp]: "op_crfd op < 8" "op_crfs op < 8"
  unfolding op_field_defs using ppu_bf_bound [of _ 3 op] by simp_all

lemma field6 [simp]: "op_sh64 op < 64" "op_mbe64 op < 64"
  unfolding op_field_defs cf_extract_def
  by (rule unat_bound_bits [where k = 6, simplified], auto simp: bit_ppu_bf bit_simps)+

end
