(* ===== verification/Ppu_Decoder.thy ===== *)
theory Ppu_Decoder
  imports Ppu_Opcode
begin

text \<open>
  The two instruction decoders of the PPU. \<^verbatim>\<open>class ppu_decoder\<close> (\<^verbatim>\<open>rpcs3/Emu/Cell/PPUOpcodes.h\<close>)
  fills a table of \<open>0x20000\<close> entries indexed by the rotated and masked instruction word; the same
  table is built again by \<^verbatim>\<open>buildOpcodeTable\<close> of \<^verbatim>\<open>rpcsx/cpu/cell/ppu/src/Decoder.cpp\<close>, whose
  \<^verbatim>\<open>fixOpcode\<close> then picks simplified mnemonics. The element type of the table is a template
  parameter of the source; here entries are named by the strings the macros GET and GETRC expand.
\<close>

section \<open>Filling the table\<close>

datatype 't instruction_info = Instruction_Info (op_value: nat) (ptr0: 't) (ptr_rc: 't) (magn: nat)

abbreviation GET :: "nat \<Rightarrow> string \<Rightarrow> nat \<Rightarrow> string instruction_info" where
  "GET v n m \<equiv> Instruction_Info v n n m"

abbreviation GETRC :: "nat \<Rightarrow> string \<Rightarrow> nat \<Rightarrow> string instruction_info" where
  "GETRC v n m \<equiv> Instruction_Info v n (n @ ''_'') m"

text \<open>
  \<^verbatim>\<open>fill_table(main_op, count, sh, entries)\<close>. The main table is requested with \<^verbatim>\<open>sh = -1\<close>, which is
  \<open>2 ^ 32 - 1\<close> in the unsigned parameter. The two decoders differ in the bit that selects the record
  form: the lowest bit of \<open>k\<close> (bit 31 of the instruction) in the first, the lowest bit of the loop
  variable \<open>i\<close> in the second.
\<close>

definition fill_table ::
  "nat \<Rightarrow> nat \<Rightarrow> nat \<Rightarrow> 't instruction_info list \<Rightarrow> (nat \<Rightarrow> 't) \<Rightarrow> nat \<Rightarrow> 't" where
  "fill_table main_op count sh entries table =
     (if sh < 11 then
        fold (\<lambda>v t. fold (\<lambda>i t. fold (\<lambda>j t.
            let k = push_bit sh (push_bit (count - magn v) i OR op_value v) OR j
            in t(push_bit 6 k OR main_op := if odd k then ptr_rc v else ptr0 v))
          [0 ..< 2 ^ sh] t) [0 ..< 2 ^ (magn v + (11 - sh - count))] t) entries table
      else
        fold (\<lambda>v t. fold (\<lambda>i t. t(push_bit 6 i OR op_value v := if odd i then ptr_rc v else ptr0 v))
          [0 ..< 2 ^ 11] t) entries table)"

definition rx_fill_table ::
  "nat \<Rightarrow> nat \<Rightarrow> nat \<Rightarrow> 't instruction_info list \<Rightarrow> (nat \<Rightarrow> 't) \<Rightarrow> nat \<Rightarrow> 't" where
  "rx_fill_table main_op count sh entries table =
     (if sh < 11 then
        fold (\<lambda>v t. fold (\<lambda>i t. fold (\<lambda>j t.
            let k = push_bit sh (push_bit (count - magn v) i OR op_value v) OR j
            in t(push_bit 6 k OR main_op := if odd i then ptr_rc v else ptr0 v))
          [0 ..< 2 ^ sh] t) [0 ..< 2 ^ (magn v + (11 - sh - count))] t) entries table
      else
        fold (\<lambda>v t. fold (\<lambda>i t. t(push_bit 6 i OR op_value v := if odd i then ptr_rc v else ptr0 v))
          [0 ..< 2 ^ 11] t) entries table)"

section \<open>The tables\<close>

definition main_entries :: "string instruction_info list" where
  "main_entries =
    [GET 0x2 ''TDI'' 0, GET 0x3 ''TWI'' 0, GET 0x7 ''MULLI'' 0, GET 0x8 ''SUBFIC'' 0,
     GET 0xa ''CMPLI'' 0, GET 0xb ''CMPI'' 0, GET 0xc ''ADDIC'' 0, GET 0xd ''ADDIC'' 0,
     GET 0xe ''ADDI'' 0, GET 0xf ''ADDIS'' 0, GET 0x10 ''BC'' 0, GET 0x11 ''SC'' 0, GET 0x12 ''B'' 0,
     GETRC 0x14 ''RLWIMI'' 0, GETRC 0x15 ''RLWINM'' 0, GETRC 0x17 ''RLWNM'' 0, GET 0x18 ''ORI'' 0,
     GET 0x19 ''ORIS'' 0, GET 0x1a ''XORI'' 0, GET 0x1b ''XORIS'' 0, GET 0x1c ''ANDI'' 0,
     GET 0x1d ''ANDIS'' 0, GET 0x20 ''LWZ'' 0, GET 0x21 ''LWZU'' 0, GET 0x22 ''LBZ'' 0,
     GET 0x23 ''LBZU'' 0, GET 0x24 ''STW'' 0, GET 0x25 ''STWU'' 0, GET 0x26 ''STB'' 0,
     GET 0x27 ''STBU'' 0, GET 0x28 ''LHZ'' 0, GET 0x29 ''LHZU'' 0, GET 0x2a ''LHA'' 0,
     GET 0x2b ''LHAU'' 0, GET 0x2c ''STH'' 0, GET 0x2d ''STHU'' 0, GET 0x2e ''LMW'' 0,
     GET 0x2f ''STMW'' 0, GET 0x30 ''LFS'' 0, GET 0x31 ''LFSU'' 0, GET 0x32 ''LFD'' 0,
     GET 0x33 ''LFDU'' 0, GET 0x34 ''STFS'' 0, GET 0x35 ''STFSU'' 0, GET 0x36 ''STFD'' 0,
     GET 0x37 ''STFDU'' 0]"

definition group_04 :: "string instruction_info list" where
  "group_04 =
    [GET 0x0 ''VADDUBM'' 0, GET 0x2 ''VMAXUB'' 0, GET 0x4 ''VRLB'' 0, GET 0x6 ''VCMPEQUB'' 0,
     GET 0x406 ''VCMPEQUB_'' 0, GET 0x8 ''VMULOUB'' 0, GET 0xa ''VADDFP'' 0, GET 0xc ''VMRGHB'' 0,
     GET 0xe ''VPKUHUM'' 0, GET 0x20 ''VMHADDSHS'' 5, GET 0x21 ''VMHRADDSHS'' 5,
     GET 0x22 ''VMLADDUHM'' 5, GET 0x24 ''VMSUMUBM'' 5, GET 0x25 ''VMSUMMBM'' 5,
     GET 0x26 ''VMSUMUHM'' 5, GET 0x27 ''VMSUMUHS'' 5, GET 0x28 ''VMSUMSHM'' 5,
     GET 0x29 ''VMSUMSHS'' 5, GET 0x2a ''VSEL'' 5, GET 0x2b ''VPERM'' 5, GET 0x2c ''VSLDOI'' 5,
     GET 0x2e ''VMADDFP'' 5, GET 0x2f ''VNMSUBFP'' 5, GET 0x40 ''VADDUHM'' 0, GET 0x42 ''VMAXUH'' 0,
     GET 0x44 ''VRLH'' 0, GET 0x46 ''VCMPEQUH'' 0, GET 0x446 ''VCMPEQUH_'' 0, GET 0x48 ''VMULOUH'' 0,
     GET 0x4a ''VSUBFP'' 0, GET 0x4c ''VMRGHH'' 0, GET 0x4e ''VPKUWUM'' 0, GET 0x80 ''VADDUWM'' 0,
     GET 0x82 ''VMAXUW'' 0, GET 0x84 ''VRLW'' 0, GET 0x86 ''VCMPEQUW'' 0, GET 0x486 ''VCMPEQUW_'' 0,
     GET 0x8c ''VMRGHW'' 0, GET 0x8e ''VPKUHUS'' 0, GET 0xc6 ''VCMPEQFP'' 0, GET 0x4c6 ''VCMPEQFP_'' 0,
     GET 0xce ''VPKUWUS'' 0, GET 0x102 ''VMAXSB'' 0, GET 0x104 ''VSLB'' 0, GET 0x108 ''VMULOSB'' 0,
     GET 0x10a ''VREFP'' 0, GET 0x10c ''VMRGLB'' 0, GET 0x10e ''VPKSHUS'' 0, GET 0x142 ''VMAXSH'' 0,
     GET 0x144 ''VSLH'' 0, GET 0x148 ''VMULOSH'' 0, GET 0x14a ''VRSQRTEFP'' 0, GET 0x14c ''VMRGLH'' 0,
     GET 0x14e ''VPKSWUS'' 0, GET 0x180 ''VADDCUW'' 0, GET 0x182 ''VMAXSW'' 0, GET 0x184 ''VSLW'' 0,
     GET 0x18a ''VEXPTEFP'' 0, GET 0x18c ''VMRGLW'' 0, GET 0x18e ''VPKSHSS'' 0, GET 0x1c4 ''VSL'' 0,
     GET 0x1c6 ''VCMPGEFP'' 0, GET 0x5c6 ''VCMPGEFP_'' 0, GET 0x1ca ''VLOGEFP'' 0,
     GET 0x1ce ''VPKSWSS'' 0, GET 0x200 ''VADDUBS'' 0, GET 0x202 ''VMINUB'' 0, GET 0x204 ''VSRB'' 0,
     GET 0x206 ''VCMPGTUB'' 0, GET 0x606 ''VCMPGTUB_'' 0, GET 0x208 ''VMULEUB'' 0,
     GET 0x20a ''VRFIN'' 0, GET 0x20c ''VSPLTB'' 0, GET 0x20e ''VUPKHSB'' 0, GET 0x240 ''VADDUHS'' 0,
     GET 0x242 ''VMINUH'' 0, GET 0x244 ''VSRH'' 0, GET 0x246 ''VCMPGTUH'' 0, GET 0x646 ''VCMPGTUH_'' 0,
     GET 0x248 ''VMULEUH'' 0, GET 0x24a ''VRFIZ'' 0, GET 0x24c ''VSPLTH'' 0, GET 0x24e ''VUPKHSH'' 0,
     GET 0x280 ''VADDUWS'' 0, GET 0x282 ''VMINUW'' 0, GET 0x284 ''VSRW'' 0, GET 0x286 ''VCMPGTUW'' 0,
     GET 0x686 ''VCMPGTUW_'' 0, GET 0x28a ''VRFIP'' 0, GET 0x28c ''VSPLTW'' 0, GET 0x28e ''VUPKLSB'' 0,
     GET 0x2c4 ''VSR'' 0, GET 0x2c6 ''VCMPGTFP'' 0, GET 0x6c6 ''VCMPGTFP_'' 0, GET 0x2ca ''VRFIM'' 0,
     GET 0x2ce ''VUPKLSH'' 0, GET 0x300 ''VADDSBS'' 0, GET 0x302 ''VMINSB'' 0, GET 0x304 ''VSRAB'' 0,
     GET 0x306 ''VCMPGTSB'' 0, GET 0x706 ''VCMPGTSB_'' 0, GET 0x308 ''VMULESB'' 0,
     GET 0x30a ''VCFUX'' 0, GET 0x30c ''VSPLTISB'' 0, GET 0x30e ''VPKPX'' 0, GET 0x340 ''VADDSHS'' 0,
     GET 0x342 ''VMINSH'' 0, GET 0x344 ''VSRAH'' 0, GET 0x346 ''VCMPGTSH'' 0,
     GET 0x746 ''VCMPGTSH_'' 0, GET 0x348 ''VMULESH'' 0, GET 0x34a ''VCFSX'' 0,
     GET 0x34c ''VSPLTISH'' 0, GET 0x34e ''VUPKHPX'' 0, GET 0x380 ''VADDSWS'' 0,
     GET 0x382 ''VMINSW'' 0, GET 0x384 ''VSRAW'' 0, GET 0x386 ''VCMPGTSW'' 0,
     GET 0x786 ''VCMPGTSW_'' 0, GET 0x38a ''VCTUXS'' 0, GET 0x38c ''VSPLTISW'' 0,
     GET 0x3c6 ''VCMPBFP'' 0, GET 0x7c6 ''VCMPBFP_'' 0, GET 0x3ca ''VCTSXS'' 0,
     GET 0x3ce ''VUPKLPX'' 0, GET 0x400 ''VSUBUBM'' 0, GET 0x402 ''VAVGUB'' 0, GET 0x404 ''VAND'' 0,
     GET 0x40a ''VMAXFP'' 0, GET 0x40c ''VSLO'' 0, GET 0x440 ''VSUBUHM'' 0, GET 0x442 ''VAVGUH'' 0,
     GET 0x444 ''VANDC'' 0, GET 0x44a ''VMINFP'' 0, GET 0x44c ''VSRO'' 0, GET 0x480 ''VSUBUWM'' 0,
     GET 0x482 ''VAVGUW'' 0, GET 0x484 ''VOR'' 0, GET 0x4c4 ''VXOR'' 0, GET 0x502 ''VAVGSB'' 0,
     GET 0x504 ''VNOR'' 0, GET 0x542 ''VAVGSH'' 0, GET 0x580 ''VSUBCUW'' 0, GET 0x582 ''VAVGSW'' 0,
     GET 0x600 ''VSUBUBS'' 0, GET 0x604 ''MFVSCR'' 0, GET 0x608 ''VSUM4UBS'' 0,
     GET 0x640 ''VSUBUHS'' 0, GET 0x644 ''MTVSCR'' 0, GET 0x648 ''VSUM4SHS'' 0,
     GET 0x680 ''VSUBUWS'' 0, GET 0x688 ''VSUM2SWS'' 0, GET 0x700 ''VSUBSBS'' 0,
     GET 0x708 ''VSUM4SBS'' 0, GET 0x740 ''VSUBSHS'' 0, GET 0x780 ''VSUBSWS'' 0,
     GET 0x788 ''VSUMSWS'' 0]"

definition group_13 :: "string instruction_info list" where
  "group_13 =
    [GET 0x0 ''MCRF'' 0, GET 0x10 ''BCLR'' 0, GET 0x21 ''CRNOR'' 0, GET 0x81 ''CRANDC'' 0,
     GET 0x96 ''ISYNC'' 0, GET 0xc1 ''CRXOR'' 0, GET 0xe1 ''CRNAND'' 0, GET 0x101 ''CRAND'' 0,
     GET 0x121 ''CREQV'' 0, GET 0x1a1 ''CRORC'' 0, GET 0x1c1 ''CROR'' 0, GET 0x210 ''BCCTR'' 0]"

definition group_1e :: "string instruction_info list" where
  "group_1e =
    [GETRC 0x0 ''RLDICL'' 0, GETRC 0x1 ''RLDICL'' 0, GETRC 0x2 ''RLDICR'' 0, GETRC 0x3 ''RLDICR'' 0,
     GETRC 0x4 ''RLDIC'' 0, GETRC 0x5 ''RLDIC'' 0, GETRC 0x6 ''RLDIMI'' 0, GETRC 0x7 ''RLDIMI'' 0,
     GETRC 0x8 ''RLDCL'' 0, GETRC 0x9 ''RLDCR'' 0]"

definition group_1f :: "string instruction_info list" where
  "group_1f =
    [GET 0x0 ''CMP'' 0, GET 0x4 ''TW'' 0, GET 0x6 ''LVSL'' 0, GET 0x7 ''LVEBX'' 0,
     GETRC 0x8 ''SUBFC'' 0, GETRC 0x208 ''SUBFCO'' 0, GETRC 0x9 ''MULHDU'' 0, GETRC 0xa ''ADDC'' 0,
     GETRC 0x20a ''ADDCO'' 0, GETRC 0xb ''MULHWU'' 0, GET 0x13 ''MFOCRF'' 0, GET 0x14 ''LWARX'' 0,
     GET 0x15 ''LDX'' 0, GET 0x17 ''LWZX'' 0, GETRC 0x18 ''SLW'' 0, GETRC 0x1a ''CNTLZW'' 0,
     GETRC 0x1b ''SLD'' 0, GETRC 0x1c ''AND'' 0, GET 0x20 ''CMPL'' 0, GET 0x26 ''LVSR'' 0,
     GET 0x27 ''LVEHX'' 0, GETRC 0x28 ''SUBF'' 0, GETRC 0x228 ''SUBFO'' 0, GET 0x35 ''LDUX'' 0,
     GET 0x36 ''DCBST'' 0, GET 0x37 ''LWZUX'' 0, GETRC 0x3a ''CNTLZD'' 0, GETRC 0x3c ''ANDC'' 0,
     GET 0x44 ''TD'' 0, GET 0x47 ''LVEWX'' 0, GETRC 0x49 ''MULHD'' 0, GETRC 0x4b ''MULHW'' 0,
     GET 0x54 ''LDARX'' 0, GET 0x56 ''DCBF'' 0, GET 0x57 ''LBZX'' 0, GET 0x67 ''LVX'' 0,
     GETRC 0x68 ''NEG'' 0, GETRC 0x268 ''NEGO'' 0, GET 0x77 ''LBZUX'' 0, GETRC 0x7c ''NOR'' 0,
     GET 0x87 ''STVEBX'' 0, GETRC 0x88 ''SUBFE'' 0, GETRC 0x288 ''SUBFEO'' 0, GETRC 0x8a ''ADDE'' 0,
     GETRC 0x28a ''ADDEO'' 0, GET 0x90 ''MTOCRF'' 0, GET 0x95 ''STDX'' 0, GET 0x96 ''STWCX'' 0,
     GET 0x97 ''STWX'' 0, GET 0xa7 ''STVEHX'' 0, GET 0xb5 ''STDUX'' 0, GET 0xb7 ''STWUX'' 0,
     GET 0xc7 ''STVEWX'' 0, GETRC 0xc8 ''SUBFZE'' 0, GETRC 0x2c8 ''SUBFZEO'' 0, GETRC 0xca ''ADDZE'' 0,
     GETRC 0x2ca ''ADDZEO'' 0, GET 0xd6 ''STDCX'' 0, GET 0xd7 ''STBX'' 0, GET 0xe7 ''STVX'' 0,
     GETRC 0xe8 ''SUBFME'' 0, GETRC 0x2e8 ''SUBFMEO'' 0, GETRC 0xe9 ''MULLD'' 0,
     GETRC 0x2e9 ''MULLDO'' 0, GETRC 0xea ''ADDME'' 0, GETRC 0x2ea ''ADDMEO'' 0,
     GETRC 0xeb ''MULLW'' 0, GETRC 0x2eb ''MULLWO'' 0, GET 0xf6 ''DCBTST'' 0, GET 0xf7 ''STBUX'' 0,
     GETRC 0x10a ''ADD'' 0, GETRC 0x30a ''ADDO'' 0, GET 0x116 ''DCBT'' 0, GET 0x117 ''LHZX'' 0,
     GETRC 0x11c ''EQV'' 0, GET 0x136 ''ECIWX'' 0, GET 0x137 ''LHZUX'' 0, GETRC 0x13c ''XOR'' 0,
     GET 0x153 ''MFSPR'' 0, GET 0x155 ''LWAX'' 0, GET 0x156 ''DST'' 0, GET 0x157 ''LHAX'' 0,
     GET 0x167 ''LVXL'' 0, GET 0x173 ''MFTB'' 0, GET 0x175 ''LWAUX'' 0, GET 0x176 ''DSTST'' 0,
     GET 0x177 ''LHAUX'' 0, GET 0x197 ''STHX'' 0, GETRC 0x19c ''ORC'' 0, GET 0x1b6 ''ECOWX'' 0,
     GET 0x1b7 ''STHUX'' 0, GETRC 0x1bc ''OR'' 0, GETRC 0x1c9 ''DIVDU'' 0, GETRC 0x3c9 ''DIVDUO'' 0,
     GETRC 0x1cb ''DIVWU'' 0, GETRC 0x3cb ''DIVWUO'' 0, GET 0x1d3 ''MTSPR'' 0, GET 0x1d6 ''DCBI'' 0,
     GETRC 0x1dc ''NAND'' 0, GET 0x1e7 ''STVXL'' 0, GETRC 0x1e9 ''DIVD'' 0, GETRC 0x3e9 ''DIVDO'' 0,
     GETRC 0x1eb ''DIVW'' 0, GETRC 0x3eb ''DIVWO'' 0, GET 0x207 ''LVLX'' 0, GET 0x214 ''LDBRX'' 0,
     GET 0x215 ''LSWX'' 0, GET 0x216 ''LWBRX'' 0, GET 0x217 ''LFSX'' 0, GETRC 0x218 ''SRW'' 0,
     GETRC 0x21b ''SRD'' 0, GET 0x227 ''LVRX'' 0, GET 0x237 ''LFSUX'' 0, GET 0x255 ''LSWI'' 0,
     GET 0x256 ''SYNC'' 0, GET 0x257 ''LFDX'' 0, GET 0x277 ''LFDUX'' 0, GET 0x287 ''STVLX'' 0,
     GET 0x294 ''STDBRX'' 0, GET 0x295 ''STSWX'' 0, GET 0x296 ''STWBRX'' 0, GET 0x297 ''STFSX'' 0,
     GET 0x2a7 ''STVRX'' 0, GET 0x2b7 ''STFSUX'' 0, GET 0x2d5 ''STSWI'' 0, GET 0x2d7 ''STFDX'' 0,
     GET 0x2f7 ''STFDUX'' 0, GET 0x307 ''LVLXL'' 0, GET 0x316 ''LHBRX'' 0, GETRC 0x318 ''SRAW'' 0,
     GETRC 0x31a ''SRAD'' 0, GET 0x327 ''LVRXL'' 0, GET 0x336 ''DSS'' 0, GETRC 0x338 ''SRAWI'' 0,
     GETRC 0x33a ''SRADI'' 0, GETRC 0x33b ''SRADI'' 0, GET 0x356 ''EIEIO'' 0, GET 0x387 ''STVLXL'' 0,
     GET 0x396 ''STHBRX'' 0, GETRC 0x39a ''EXTSH'' 0, GET 0x3a7 ''STVRXL'' 0, GETRC 0x3ba ''EXTSB'' 0,
     GET 0x3d7 ''STFIWX'' 0, GETRC 0x3da ''EXTSW'' 0, GET 0x3d6 ''ICBI'' 0, GET 0x3f6 ''DCBZ'' 0]"

definition group_3a :: "string instruction_info list" where
  "group_3a =
    [GET 0x0 ''LD'' 0, GET 0x1 ''LDU'' 0, GET 0x2 ''LWA'' 0]"

definition group_3b :: "string instruction_info list" where
  "group_3b =
    [GETRC 0x12 ''FDIVS'' 5, GETRC 0x14 ''FSUBS'' 5, GETRC 0x15 ''FADDS'' 5, GETRC 0x16 ''FSQRTS'' 5,
     GETRC 0x18 ''FRES'' 5, GETRC 0x19 ''FMULS'' 5, GETRC 0x1c ''FMSUBS'' 5, GETRC 0x1d ''FMADDS'' 5,
     GETRC 0x1e ''FNMSUBS'' 5, GETRC 0x1f ''FNMADDS'' 5]"

definition group_3e :: "string instruction_info list" where
  "group_3e =
    [GET 0x0 ''STD'' 0, GET 0x1 ''STDU'' 0]"

definition group_3f :: "string instruction_info list" where
  "group_3f =
    [GETRC 0x26 ''MTFSB1'' 0, GET 0x40 ''MCRFS'' 0, GETRC 0x46 ''MTFSB0'' 0, GETRC 0x86 ''MTFSFI'' 0,
     GETRC 0x247 ''MFFS'' 0, GETRC 0x2c7 ''MTFSF'' 0, GET 0x0 ''FCMPU'' 0, GETRC 0xc ''FRSP'' 0,
     GETRC 0xe ''FCTIW'' 0, GETRC 0xf ''FCTIWZ'' 0, GETRC 0x12 ''FDIV'' 5, GETRC 0x14 ''FSUB'' 5,
     GETRC 0x15 ''FADD'' 5, GETRC 0x16 ''FSQRT'' 5, GETRC 0x17 ''FSEL'' 5, GETRC 0x19 ''FMUL'' 5,
     GETRC 0x1a ''FRSQRTE'' 5, GETRC 0x1c ''FMSUB'' 5, GETRC 0x1d ''FMADD'' 5, GETRC 0x1e ''FNMSUB'' 5,
     GETRC 0x1f ''FNMADD'' 5, GET 0x20 ''FCMPO'' 0, GETRC 0x28 ''FNEG'' 0, GETRC 0x48 ''FMR'' 0,
     GETRC 0x88 ''FNABS'' 0, GETRC 0x108 ''FABS'' 0, GETRC 0x32e ''FCTID'' 0, GETRC 0x32f ''FCTIDZ'' 0,
     GETRC 0x34e ''FCFID'' 0]"

text \<open>The constructor of \<^verbatim>\<open>ppu_decoder\<close>: every entry starts as UNK, then the nine groups follow.\<close>

definition ppu_table :: "nat \<Rightarrow> string" where
  "ppu_table =
     fill_table 0x3f 10 1 group_3f (fill_table 0x3e 2 0 group_3e (fill_table 0x3b 10 1 group_3b
     (fill_table 0x3a 2 0 group_3a (fill_table 0x1f 10 1 group_1f (fill_table 0x1e 4 1 group_1e
     (fill_table 0x13 10 1 group_13 (fill_table 0x04 11 0 group_04
     (fill_table 0x00 6 (2 ^ 32 - 1) main_entries (\<lambda>_. ''UNK'')))))))))"

definition ppu_decode :: "u32 \<Rightarrow> u32" where
  "ppu_decode inst = (drop_bit 26 inst OR push_bit 6 inst) AND 0x1ffff"

definition decode :: "u32 \<Rightarrow> string" where
  "decode inst = ppu_table (unat (ppu_decode inst))"

text \<open>
  The second table: the same entries, except that group \<open>0x13\<close> also has the instructions that
  return from interrupts.
\<close>

definition rx_group_13 :: "string instruction_info list" where
  "rx_group_13 =
    [GET 0x0 ''MCRF'' 0, GET 0x10 ''BCLR'' 0, GET 0x12 ''RFID'' 0, GET 0x21 ''CRNOR'' 0,
     GET 0x52 ''RFSCV'' 0, GET 0x81 ''CRANDC'' 0, GET 0x96 ''ISYNC'' 0, GET 0xc1 ''CRXOR'' 0,
     GET 0xe1 ''CRNAND'' 0, GET 0x101 ''CRAND'' 0, GET 0x112 ''HRFID'' 0, GET 0x121 ''CREQV'' 0,
     GET 0x132 ''URFID'' 0, GET 0x172 ''STOP'' 0, GET 0x1a1 ''CRORC'' 0, GET 0x1c1 ''CROR'' 0,
     GET 0x210 ''BCCTR'' 0]"

definition rx_table :: "nat \<Rightarrow> string" where
  "rx_table =
     rx_fill_table 0x3f 10 1 group_3f (rx_fill_table 0x3e 2 0 group_3e (rx_fill_table 0x3b 10 1 group_3b
     (rx_fill_table 0x3a 2 0 group_3a (rx_fill_table 0x1f 10 1 group_1f (rx_fill_table 0x1e 4 1 group_1e
     (rx_fill_table 0x13 10 1 rx_group_13 (rx_fill_table 0x04 11 0 group_04
     (rx_fill_table 0x00 6 (2 ^ 32 - 1) main_entries (\<lambda>_. ''Invalid'')))))))))"

definition rx_decode :: "u32 \<Rightarrow> string" where
  "rx_decode inst = rx_table (unat (ppu_decode inst))"

text \<open>\<^verbatim>\<open>fixOpcode\<close>: simplified mnemonics of a decoded instruction.\<close>

definition spr_number :: "u32 \<Rightarrow> u32" where
  "spr_number inst = drop_bit 5 (op_spr inst) OR push_bit 5 (op_spr inst AND 0x1f)"

definition fixOpcode :: "string \<Rightarrow> u32 \<Rightarrow> string" where
  "fixOpcode opcode inst =
     (if opcode = ''ADDI'' then (if op_ra inst = 0 then ''LI'' else opcode)
      else if opcode = ''ADDIS'' then (if op_ra inst = 0 then ''LIS'' else opcode)
      else if opcode = ''CRNOR'' then (if op_crba inst = op_crbb inst then ''CRNOT'' else opcode)
      else if opcode = ''B'' then
        (if op_aa inst \<and> op_lk inst then ''BLA'' else if op_lk inst then ''BL''
         else if op_aa inst then ''BA'' else opcode)
      else if opcode = ''ORI'' then
        (if op_rs inst = 0 \<and> op_ra inst = 0 \<and> op_uimm16 inst = 0 then ''NOP''
         else if op_uimm16 inst = 0 then ''MR'' else opcode)
      else if opcode = ''ORIS'' then
        (if op_rs inst = 0 \<and> op_ra inst = 0 \<and> op_uimm16 inst = 0 then ''NOP'' else opcode)
      else if opcode = ''RLDICL'' then
        (if op_sh64 inst = 0 then ''CLRLDI'' else if op_mbe64 inst = 0 then ''ROTLDI''
         else if op_mbe64 inst = 64 - op_sh64 inst then ''SRDI'' else opcode)
      else if opcode = ''CMP'' then (if op_l10 inst then ''CMPD'' else ''CMPW'')
      else if opcode = ''CMPL'' then (if op_l10 inst then ''CMPLD'' else ''CMPLW'')
      else if opcode = ''NOR'' then (if op_rs inst = op_rb inst then ''NOT'' else opcode)
      else if opcode = ''MTOCRF'' then (if \<not> op_l10 inst then ''MTCRF'' else opcode)
      else if opcode = ''MFSPR'' then
        (if spr_number inst = 1 then ''MFXER'' else if spr_number inst = 8 then ''MFLR''
         else if spr_number inst = 9 then ''MFCTR'' else opcode)
      else if opcode = ''MFTB'' then
        (if spr_number inst = 268 then ''MFTB'' else if spr_number inst = 269 then ''MFTBU'' else opcode)
      else if opcode = ''OR'' then
        (if op_rs inst = op_rb inst then
           (if inst = 0x7c210b78 then ''CCTPL'' else if inst = 0x7c421378 then ''CCTPM''
            else if inst = 0x7c631b78 then ''CCTPH'' else if inst = 0x7f9ce378 then ''DB8CYC''
            else if inst = 0x7fbdeb78 then ''DB10CYC'' else if inst = 0x7fdef378 then ''DB12CYC''
            else if inst = 0x7ffffb78 then ''DB16CYC'' else ''MR'')
         else opcode)
      else opcode)"

section \<open>Cells and entries\<close>

lemma push_or_add: "a < 2 ^ n \<Longrightarrow> push_bit n b OR a = b * 2 ^ n + (a::nat)"
proof -
  assume "a < 2 ^ n"
  then have a: "take_bit n a = a" by (simp add: take_bit_nat_eq_self_iff)
  have "push_bit n b AND take_bit n a = 0"
    by (rule bit_eqI) (auto simp: bit_simps)
  then have "push_bit n b AND a = 0" by (simp only: a)
  then have "push_bit n b OR a = push_bit n b + a"
    by (simp add: disjunctive_add_eq_or)
  then show ?thesis by (simp add: push_bit_eq_mult)
qed

lemma mult_add_less: "i < u \<Longrightarrow> a < w \<Longrightarrow> i * w + a < u * (w::nat)"
  using mult_le_mono1 [of "Suc i" u w] by simp

lemma fold_table_update:
  "fold (\<lambda>j t. t(f j := h (f j))) js t = (\<lambda>x. if x \<in> f ` set js then h x else t x)"
  by (induction js arbitrary: t) (auto simp: fun_eq_iff)

lemma fold_table_update_sets:
  "fold (\<lambda>i t x. if x \<in> S i then h x else t x) js t = (\<lambda>x. if x \<in> (\<Union>i\<in>set js. S i) then h x else t x)"
  by (induction js arbitrary: t) (auto simp: fun_eq_iff)

text \<open>The table cells an entry of a group fills.\<close>

definition cells :: "nat \<Rightarrow> nat \<Rightarrow> nat \<Rightarrow> 't instruction_info \<Rightarrow> nat set" where
  "cells main_op count sh v =
     {x. x mod 64 = main_op \<and> x div 64 < 2 ^ 11 \<and> x div 64 div 2 ^ sh mod 2 ^ (count - magn v) = op_value v}"

definition entry_ok :: "nat \<Rightarrow> nat \<Rightarrow> nat \<Rightarrow> 't instruction_info \<Rightarrow> bool" where
  "entry_ok main_op count sh v \<longleftrightarrow> main_op < 64 \<and> sh + count \<le> 11 \<and> magn v \<le> count \<and>
     op_value v < 2 ^ (count - magn v)"

lemma entry_cells:
  assumes "entry_ok main_op count sh v"
  shows "(\<Union>i \<in> {0 ..< 2 ^ (magn v + (11 - sh - count))}. (\<lambda>j. push_bit 6 (push_bit sh
      (push_bit (count - magn v) i OR op_value v) OR j) OR main_op) ` {0 ..< 2 ^ sh}) =
    cells main_op count sh v" (is "?L = _")
proof -
  let ?w = "count - magn v" and ?u = "magn v + (11 - sh - count)"
  have ok: "main_op < 2 ^ 6" "op_value v < 2 ^ ?w" "sh + ?w + ?u = 11"
    using assms by (auto simp: entry_ok_def)
  have pow: "2 ^ ?u * 2 ^ ?w * 2 ^ sh = (2 ^ 11 :: nat)"
    unfolding power_add [symmetric] using ok(3) by (simp only: ac_simps)
  have split64: "(K * 64 + main_op) div 64 = K" "(K * 64 + main_op) mod 64 = main_op" for K
    using ok(1) by auto
  have idx: "push_bit 6 (push_bit sh (push_bit ?w i OR op_value v) OR j) OR main_op =
      ((i * 2 ^ ?w + op_value v) * 2 ^ sh + j) * 64 + main_op" if "j < 2 ^ sh" for i j
    using push_or_add [OF ok(1)] push_or_add [OF ok(2)] push_or_add [OF that] by simp
  show ?thesis
  proof (rule set_eqI, rule iffI)
    fix x assume "x \<in> ?L"
    then obtain i j where ij: "i < 2 ^ ?u" "j < 2 ^ sh"
        "x = ((i * 2 ^ ?w + op_value v) * 2 ^ sh + j) * 64 + main_op"
      using idx by auto
    then have k: "x div 64 = (i * 2 ^ ?w + op_value v) * 2 ^ sh + j" "x mod 64 = main_op"
      using split64 by (simp_all only: ij(3))
    have "i * 2 ^ ?w + op_value v < 2 ^ ?u * 2 ^ ?w"
      using ij(1) ok(2) by (rule mult_add_less)
    then have "(i * 2 ^ ?w + op_value v) * 2 ^ sh + j < 2 ^ ?u * 2 ^ ?w * 2 ^ sh"
      using ij(2) by (rule mult_add_less)
    also have "\<dots> = 2 ^ 11" by (rule pow)
    finally have "x div 64 < 2 ^ 11" using k by simp
    moreover have "x div 64 div 2 ^ sh mod 2 ^ ?w = op_value v"
      using k ij(2) ok(2) by simp
    ultimately show "x \<in> cells main_op count sh v" using k by (simp add: cells_def)
  next
    fix x assume x: "x \<in> cells main_op count sh v"
    define k where "k = x div 64"
    define i where "i = k div 2 ^ sh div 2 ^ ?w"
    have "x = k * 64 + main_op" "k < 2 ^ 11" "k div 2 ^ sh mod 2 ^ ?w = op_value v"
      using x unfolding cells_def k_def by auto
    moreover from this have "k = (i * 2 ^ ?w + op_value v) * 2 ^ sh + k mod 2 ^ sh"
      unfolding i_def by (metis div_mult_mod_eq)
    moreover have "i < 2 ^ ?u"
    proof -
      have "k < 2 ^ ?u * 2 ^ ?w * 2 ^ sh"
        using \<open>k < 2 ^ 11\<close> by (simp only: pow)
      then show ?thesis unfolding i_def by (simp add: less_mult_imp_div_less)
    qed
    ultimately have "x = push_bit 6 (push_bit sh (push_bit ?w i OR op_value v) OR (k mod 2 ^ sh)) OR main_op"
        "i < 2 ^ ?u" "k mod 2 ^ sh < 2 ^ sh"
      using idx [of "k mod 2 ^ sh" i] by auto
    then show "x \<in> ?L" by force
  qed
qed

lemma cell_div: "main_op < 64 \<Longrightarrow> (push_bit 6 k OR main_op) div 64 = (k::nat)"
  using push_or_add [of main_op 6 k] by simp

lemma fold_group:
  assumes ok: "entry_ok main_op count sh v"
    and sel: "\<And>i j. j < 2 ^ sh \<Longrightarrow> P i (push_bit sh (push_bit (count - magn v) i OR op_value v) OR j) =
      Q (push_bit sh (push_bit (count - magn v) i OR op_value v) OR j)"
  shows "fold (\<lambda>i t. fold (\<lambda>j t.
            let k = push_bit sh (push_bit (count - magn v) i OR op_value v) OR j
            in t(push_bit 6 k OR main_op := if P i k then ptr_rc v else ptr0 v))
          [0 ..< 2 ^ sh] t) [0 ..< 2 ^ (magn v + (11 - sh - count))] t =
    (\<lambda>x. if x \<in> cells main_op count sh v then (if Q (x div 64) then ptr_rc v else ptr0 v) else t x)"
proof -
  let ?k = "\<lambda>i j. push_bit sh (push_bit (count - magn v) i OR op_value v) OR j"
  let ?h = "\<lambda>x. if Q (x div 64) then ptr_rc v else ptr0 v"
  have m: "main_op < 64" using ok by (simp add: entry_ok_def)
  have "fold (\<lambda>j t. let k = ?k i j in t(push_bit 6 k OR main_op := if P i k then ptr_rc v else ptr0 v))
      [0 ..< 2 ^ sh] t = (\<lambda>x. if x \<in> (\<lambda>j. push_bit 6 (?k i j) OR main_op) ` {0 ..< 2 ^ sh} then ?h x else t x)"
    for i t
  proof -
    have "fold (\<lambda>j t. let k = ?k i j in t(push_bit 6 k OR main_op := if P i k then ptr_rc v else ptr0 v))
        [0 ..< 2 ^ sh] t = fold (\<lambda>j t. t(push_bit 6 (?k i j) OR main_op := ?h (push_bit 6 (?k i j) OR main_op)))
        [0 ..< 2 ^ sh] t"
      by (rule fold_cong) (simp_all only: Let_def cell_div [OF m] sel set_upt atLeastLessThan_iff)
    then show ?thesis
      using fold_table_update [of "\<lambda>j. push_bit 6 (?k i j) OR main_op" ?h "[0 ..< 2 ^ sh]" t]
      by (simp only: set_upt)
  qed
  then have "fold (\<lambda>i t. fold (\<lambda>j t. let k = ?k i j in t(push_bit 6 k OR main_op := if P i k then ptr_rc v else ptr0 v))
      [0 ..< 2 ^ sh] t) [0 ..< 2 ^ (magn v + (11 - sh - count))] t =
    fold (\<lambda>i t x. if x \<in> (\<lambda>j. push_bit 6 (?k i j) OR main_op) ` {0 ..< 2 ^ sh} then ?h x else t x)
      [0 ..< 2 ^ (magn v + (11 - sh - count))] t"
    by (intro fold_cong ext) (simp_all only:)
  also have "\<dots> = (\<lambda>x. if x \<in> cells main_op count sh v then ?h x else t x)"
    by (simp only: fold_table_update_sets entry_cells [OF ok, symmetric] set_upt)
  finally show ?thesis .
qed

lemma fold_entries:
  "fold (\<lambda>v t x. if x \<in> S v then h v x else t x) vs t x =
     (case find (\<lambda>v. x \<in> S v) (rev vs) of None \<Rightarrow> t x | Some v \<Rightarrow> h v x)"
  by (induction vs rule: rev_induct) auto

lemma fill_table_group:
  assumes "sh < 11" "\<forall>v \<in> set vs. entry_ok main_op count sh v"
  shows "fill_table main_op count sh vs t x =
    (case find (\<lambda>v. x \<in> cells main_op count sh v) (rev vs) of None \<Rightarrow> t x
     | Some v \<Rightarrow> if odd (x div 64) then ptr_rc v else ptr0 v)"
proof -
  have "fill_table main_op count sh vs t = fold (\<lambda>v t x. if x \<in> cells main_op count sh v
      then (if odd (x div 64) then ptr_rc v else ptr0 v) else t x) vs t"
    unfolding fill_table_def using assms
    by (simp only: if_True, intro fold_cong refl ext)
      (rule fun_cong [OF fold_group [where P = "\<lambda>i. odd" and Q = odd]], simp_all only:)
  then show ?thesis by (simp add: fold_entries)
qed

lemma cell_i:
  assumes "entry_ok main_op count sh v" "j < 2 ^ sh"
  shows "(push_bit sh (push_bit (count - magn v) i OR op_value v) OR j) div 2 ^ (sh + (count - magn v)) = i"
proof -
  have "op_value v < 2 ^ (count - magn v)" using assms(1) by (simp add: entry_ok_def)
  then show ?thesis
    using push_or_add [OF assms(2)] push_or_add [of "op_value v"] assms(2)
    by (simp add: power_add div_mult2_eq)
qed

lemma rx_fill_table_group:
  assumes "sh < 11" "\<forall>v \<in> set vs. entry_ok main_op count sh v"
  shows "rx_fill_table main_op count sh vs t x =
    (case find (\<lambda>v. x \<in> cells main_op count sh v) (rev vs) of None \<Rightarrow> t x
     | Some v \<Rightarrow> if odd (x div 64 div 2 ^ (sh + (count - magn v))) then ptr_rc v else ptr0 v)"
proof -
  have "rx_fill_table main_op count sh vs t = fold (\<lambda>v t x. if x \<in> cells main_op count sh v
      then (if odd (x div 64 div 2 ^ (sh + (count - magn v))) then ptr_rc v else ptr0 v) else t x) vs t"
    unfolding rx_fill_table_def using assms
    by (simp only: if_True, intro fold_cong refl ext)
      (rule fun_cong [OF fold_group [where P = "\<lambda>i k. odd i"]], blast, subst cell_i, auto)
  then show ?thesis by (simp add: fold_entries)
qed

lemma fold_main:
  assumes "op_value v < 64"
  shows "fold (\<lambda>i t. t(push_bit 6 i OR op_value v := if odd i then ptr_rc v else ptr0 v)) [0 ..< 2 ^ 11] t =
    (\<lambda>x. if x mod 64 = op_value v \<and> x div 64 < 2 ^ 11
          then (if odd (x div 64) then ptr_rc v else ptr0 v) else t x)"
proof -
  let ?f = "\<lambda>i. push_bit 6 i OR op_value v" and ?h = "\<lambda>x. if odd (x div 64) then ptr_rc v else ptr0 v"
  have "fold (\<lambda>i t. t(?f i := if odd i then ptr_rc v else ptr0 v)) [0 ..< 2 ^ 11] t =
      fold (\<lambda>i t. t(?f i := ?h (?f i))) [0 ..< 2 ^ 11] t"
    by (rule fold_cong) (simp_all only: cell_div [OF assms])
  also have "\<dots> = (\<lambda>x. if x \<in> ?f ` {0 ..< 2 ^ 11} then ?h x else t x)"
    using fold_table_update [of ?f ?h "[0 ..< 2 ^ 11]" t] by (simp only: set_upt)
  also have "?f ` {0 ..< 2 ^ 11} = {x. x mod 64 = op_value v \<and> x div 64 < 2 ^ 11}"
  proof -
    have f: "?f i = i * 64 + op_value v" for i
      using push_or_add [of "op_value v" 6 i] assms by simp
    have "x \<in> (\<lambda>i. i * 64 + op_value v) ` {0 ..< 2 ^ 11}"
      if "x mod 64 = op_value v" "x div 64 < 2 ^ 11" for x
      using that div_mult_mod_eq [of x 64] by (intro image_eqI [of _ _ "x div 64"]) simp_all
    then show ?thesis using assms by (auto simp: f)
  qed
  finally show ?thesis by (simp only: mem_Collect_eq)
qed

lemma fill_table_main:
  assumes "\<not> sh < 11" "\<forall>v \<in> set vs. op_value v < 64"
  shows "fill_table m c sh vs t x =
    (case find (\<lambda>v. x mod 64 = op_value v \<and> x div 64 < 2 ^ 11) (rev vs) of None \<Rightarrow> t x
     | Some v \<Rightarrow> if odd (x div 64) then ptr_rc v else ptr0 v)"
    and "rx_fill_table m c sh vs t x = fill_table m c sh vs t x"
proof -
  have "fill_table m c sh vs t = fold (\<lambda>v t x. if x \<in> {x. x mod 64 = op_value v \<and> x div 64 < 2 ^ 11}
      then (if odd (x div 64) then ptr_rc v else ptr0 v) else t x) vs t"
    unfolding fill_table_def using assms
    by (simp only: if_False, intro fold_cong refl ext) (simp only: fold_main mem_Collect_eq)
  then show "fill_table m c sh vs t x =
    (case find (\<lambda>v. x mod 64 = op_value v \<and> x div 64 < 2 ^ 11) (rev vs) of None \<Rightarrow> t x
     | Some v \<Rightarrow> if odd (x div 64) then ptr_rc v else ptr0 v)"
    using fold_entries [of "\<lambda>v. {x. x mod 64 = op_value v \<and> x div 64 < 2 ^ 11}"
      "\<lambda>v x. if odd (x div 64) then ptr_rc v else ptr0 v" vs t x] by (simp only: mem_Collect_eq)
  show "rx_fill_table m c sh vs t x = fill_table m c sh vs t x"
    using assms by (simp only: rx_fill_table_def fill_table_def if_False)
qed

lemma index_main: "unat (ppu_decode inst) mod 64 = op_main inst"
  and index_low: "unat (ppu_decode inst) div 64 = unat inst mod 2 ^ 11"
proof -
  have d: "ppu_decode inst = take_bit 17 (drop_bit 26 inst OR push_bit 6 inst)"
    by (simp add: ppu_decode_def take_bit_eq_mask mask_eq_exp_minus_1)
  have "take_bit 6 (ppu_decode inst) = drop_bit 26 inst AND mask 6"
    unfolding d by (rule bit_eqI) (auto simp: bit_simps)
  moreover have "unat (take_bit 6 (ppu_decode inst)) = unat (ppu_decode inst) mod 64"
    by (simp add: take_bit_eq_mod unat_mod_distrib)
  ultimately show "unat (ppu_decode inst) mod 64 = op_main inst"
    by (simp only: op_main_def bf_defs) simp
  have "drop_bit 6 (ppu_decode inst) = take_bit 11 inst"
    unfolding d by (rule bit_eqI) (auto simp: bit_simps dest: bit_imp_le_length)
  moreover have "unat (drop_bit 6 (ppu_decode inst)) = unat (ppu_decode inst) div 64"
    by (simp add: drop_bit_eq_div unat_div_distrib)
  moreover have "unat (take_bit 11 inst) = unat inst mod 2 ^ 11"
    by (simp add: take_bit_eq_mod unat_mod_distrib)
  ultimately show "unat (ppu_decode inst) div 64 = unat inst mod 2 ^ 11" by simp
qed

lemma op_rc_odd: "op_rc inst = odd (unat inst)"
proof -
  have "ppu_bf 31 1 inst = inst AND 1" by (simp add: bf_defs)
  then have "op_rc inst = odd inst" by (simp add: op_rc_def and_one_eq odd_iff_mod_2_eq_one)
  moreover have "even inst = even (unat inst)"
    by transfer (simp add: even_nat_iff)
  ultimately show ?thesis by simp
qed

definition groups :: "(nat \<times> nat \<times> nat \<times> string instruction_info list) list" where
  "groups = [(0x04, 11, 0, group_04), (0x13, 10, 1, group_13), (0x1e, 4, 1, group_1e), (0x1f, 10, 1, group_1f),
     (0x3a, 2, 0, group_3a), (0x3b, 10, 1, group_3b), (0x3e, 2, 0, group_3e), (0x3f, 10, 1, group_3f)]"

lemma ppu_table_groups:
  "ppu_table = fold (\<lambda>(m, c, sh, vs). fill_table m c sh vs) groups
     (fill_table 0x00 6 (2 ^ 32 - 1) main_entries (\<lambda>_. ''UNK''))"
  by (simp add: ppu_table_def groups_def)

definition group_ok :: "nat \<times> nat \<times> nat \<times> string instruction_info list \<Rightarrow> bool" where
  "group_ok = (\<lambda>(m, c, sh, vs). sh < 11 \<and> list_all (entry_ok m c sh) vs)"

subsection \<open>The entries of a group do not overlap\<close>

fun ascending :: "nat list \<Rightarrow> bool" where
  "ascending (x # y # ys) \<longleftrightarrow> x < y \<and> ascending (y # ys)"
| "ascending _ \<longleftrightarrow> True"

lemma ascending_sorted_wrt: "ascending xs \<Longrightarrow> sorted_wrt (<) xs"
  by (induction xs rule: ascending.induct) auto

lemma ascending_distinct: "ascending (sort xs) \<Longrightarrow> distinct xs"
  using ascending_sorted_wrt [of "sort xs"] strict_sorted_iff [of "sort xs"] by simp

definition keys :: "'t instruction_info list \<Rightarrow> (nat \<times> nat) list" where
  "keys = map (\<lambda>v. (op_value v, magn v))"

definition clash_free :: "nat \<Rightarrow> (nat \<times> nat) list \<Rightarrow> bool" where
  "clash_free count ks \<longleftrightarrow>
     (let narrow = map fst (filter (\<lambda>k. snd k = 0) ks); wide = map fst (filter (\<lambda>k. snd k \<noteq> 0) ks)
      in ascending (sort narrow) \<and> ascending (sort wide) \<and>
         list_all (\<lambda>k. (snd k = 0 \<or> snd k = 5) \<and> fst k < 2 ^ (count - snd k) \<and> snd k \<le> count) ks \<and>
         list_all (\<lambda>v. v mod 2 ^ (count - 5) \<notin> set wide) narrow)"

lemma clash_free_unique:
  assumes cf: "clash_free c (keys vs)" and v: "v \<in> set vs" "x \<in> cells m c sh v" and w: "w \<in> set vs" "x \<in> cells m c sh w"
  shows "w = v"
proof -
  define k where "k = x div 64 div 2 ^ sh"
  let ?N = "filter (\<lambda>v. magn v = 0) vs" and ?W = "filter (\<lambda>v. magn v \<noteq> 0) vs"
  have d: "distinct (map op_value ?N)" "distinct (map op_value ?W)"
      "\<And>u. u \<in> set vs \<Longrightarrow> magn u = 0 \<or> magn u = 5"
      "\<And>u. u \<in> set ?N \<Longrightarrow> op_value u mod 2 ^ (c - 5) \<notin> op_value ` set ?W"
  proof -
    have nw: "map fst (filter (\<lambda>k. snd k = 0) (keys vs)) = map op_value ?N"
        "map fst (filter (\<lambda>k. snd k \<noteq> 0) (keys vs)) = map op_value ?W"
      by (simp_all add: keys_def filter_map comp_def)
    note cf' = cf [unfolded clash_free_def Let_def nw]
    show "distinct (map op_value ?N)" "distinct (map op_value ?W)"
      using cf' ascending_distinct by blast+
    show "magn u = 0 \<or> magn u = 5" if "u \<in> set vs" for u
      using cf' that by (simp add: list_all_iff keys_def)
    show "op_value u mod 2 ^ (c - 5) \<notin> op_value ` set ?W" if "u \<in> set ?N" for u
      using cf' that by (simp add: list_all_iff)
  qed
  have cell: "op_value v = k mod 2 ^ (c - magn v)" "op_value w = k mod 2 ^ (c - magn w)"
    using v(2) w(2) unfolding cells_def k_def mem_Collect_eq by argo+
  have cut: "k mod 2 ^ c mod 2 ^ (c - 5) = k mod (2 ^ (c - 5) :: nat)"
    by (rule mod_mod_cancel) (simp add: le_imp_power_dvd)
  consider "magn v = 0" "magn w = 0" | "magn v = 5" "magn w = 5" | "magn v = 0" "magn w = 5" | "magn v = 5" "magn w = 0"
    using d(3) [OF v(1)] d(3) [OF w(1)] by argo
  then show ?thesis
  proof cases
    case 1
    then have "op_value v = op_value w" "v \<in> set ?N" "w \<in> set ?N" using cell v(1) w(1) by simp_all
    then show ?thesis using d(1) unfolding distinct_map by (metis inj_onD)
  next
    case 2
    then have "op_value v = op_value w" "v \<in> set ?W" "w \<in> set ?W" using cell v(1) w(1) by simp_all
    then show ?thesis using d(2) unfolding distinct_map by (metis inj_onD)
  next
    case 3
    then have "op_value v mod 2 ^ (c - 5) = op_value w" "v \<in> set ?N" "w \<in> set ?W"
      using cell cut v(1) w(1) by simp_all
    then show ?thesis using d(4) [of v] by (metis imageI)
  next
    case 4
    then have "op_value w mod 2 ^ (c - 5) = op_value v" "w \<in> set ?N" "v \<in> set ?W"
      using cell cut v(1) w(1) by simp_all
    then show ?thesis using d(4) [of w] by (metis imageI)
  qed
qed

lemma find_unique: "v \<in> set vs \<Longrightarrow> P v \<Longrightarrow> (\<And>w. w \<in> set vs \<Longrightarrow> P w \<Longrightarrow> w = v) \<Longrightarrow> find P (rev vs) = Some v"
proof (cases "find P (rev vs)")
  case None
  assume "v \<in> set vs" "P v"
  with None show ?thesis by (auto simp: find_None_iff)
next
  case (Some w)
  assume u: "\<And>w. w \<in> set vs \<Longrightarrow> P w \<Longrightarrow> w = v"
  from Some obtain i where "i < length (rev vs)" "P w" "w = rev vs ! i" by (auto simp: find_Some_iff)
  then have "w \<in> set vs" using nth_mem [of i "rev vs"] by simp
  with u \<open>P w\<close> Some show ?thesis by simp
qed

lemma keys_04: "keys group_04 =
     [(0x0, 0), (0x2, 0), (0x4, 0), (0x6, 0), (0x406, 0), (0x8, 0), (0xa, 0), (0xc, 0), (0xe, 0),
     (0x20, 5), (0x21, 5), (0x22, 5), (0x24, 5), (0x25, 5), (0x26, 5), (0x27, 5), (0x28, 5), (0x29,
     5), (0x2a, 5), (0x2b, 5), (0x2c, 5), (0x2e, 5), (0x2f, 5), (0x40, 0), (0x42, 0), (0x44, 0),
     (0x46, 0), (0x446, 0), (0x48, 0), (0x4a, 0), (0x4c, 0), (0x4e, 0), (0x80, 0), (0x82, 0), (0x84,
     0), (0x86, 0), (0x486, 0), (0x8c, 0), (0x8e, 0), (0xc6, 0), (0x4c6, 0), (0xce, 0), (0x102, 0),
     (0x104, 0), (0x108, 0), (0x10a, 0), (0x10c, 0), (0x10e, 0), (0x142, 0), (0x144, 0), (0x148, 0),
     (0x14a, 0), (0x14c, 0), (0x14e, 0), (0x180, 0), (0x182, 0), (0x184, 0), (0x18a, 0), (0x18c, 0),
     (0x18e, 0), (0x1c4, 0), (0x1c6, 0), (0x5c6, 0), (0x1ca, 0), (0x1ce, 0), (0x200, 0), (0x202, 0),
     (0x204, 0), (0x206, 0), (0x606, 0), (0x208, 0), (0x20a, 0), (0x20c, 0), (0x20e, 0), (0x240, 0),
     (0x242, 0), (0x244, 0), (0x246, 0), (0x646, 0), (0x248, 0), (0x24a, 0), (0x24c, 0), (0x24e, 0),
     (0x280, 0), (0x282, 0), (0x284, 0), (0x286, 0), (0x686, 0), (0x28a, 0), (0x28c, 0), (0x28e, 0),
     (0x2c4, 0), (0x2c6, 0), (0x6c6, 0), (0x2ca, 0), (0x2ce, 0), (0x300, 0), (0x302, 0), (0x304, 0),
     (0x306, 0), (0x706, 0), (0x308, 0), (0x30a, 0), (0x30c, 0), (0x30e, 0), (0x340, 0), (0x342, 0),
     (0x344, 0), (0x346, 0), (0x746, 0), (0x348, 0), (0x34a, 0), (0x34c, 0), (0x34e, 0), (0x380, 0),
     (0x382, 0), (0x384, 0), (0x386, 0), (0x786, 0), (0x38a, 0), (0x38c, 0), (0x3c6, 0), (0x7c6, 0),
     (0x3ca, 0), (0x3ce, 0), (0x400, 0), (0x402, 0), (0x404, 0), (0x40a, 0), (0x40c, 0), (0x440, 0),
     (0x442, 0), (0x444, 0), (0x44a, 0), (0x44c, 0), (0x480, 0), (0x482, 0), (0x484, 0), (0x4c4, 0),
     (0x502, 0), (0x504, 0), (0x542, 0), (0x580, 0), (0x582, 0), (0x600, 0), (0x604, 0), (0x608, 0),
     (0x640, 0), (0x644, 0), (0x648, 0), (0x680, 0), (0x688, 0), (0x700, 0), (0x708, 0), (0x740, 0),
     (0x780, 0), (0x788, 0)]"
  by (simp add: group_04_def keys_def)

lemma keys_13: "keys group_13 =
     [(0x0, 0), (0x10, 0), (0x21, 0), (0x81, 0), (0x96, 0), (0xc1, 0), (0xe1, 0), (0x101, 0),
     (0x121, 0), (0x1a1, 0), (0x1c1, 0), (0x210, 0)]"
  by (simp add: group_13_def keys_def)

lemma keys_1e: "keys group_1e =
     [(0x0, 0), (0x1, 0), (0x2, 0), (0x3, 0), (0x4, 0), (0x5, 0), (0x6, 0), (0x7, 0), (0x8, 0),
     (0x9, 0)]"
  by (simp add: group_1e_def keys_def)

lemma keys_1f: "keys group_1f =
     [(0x0, 0), (0x4, 0), (0x6, 0), (0x7, 0), (0x8, 0), (0x208, 0), (0x9, 0), (0xa, 0), (0x20a, 0),
     (0xb, 0), (0x13, 0), (0x14, 0), (0x15, 0), (0x17, 0), (0x18, 0), (0x1a, 0), (0x1b, 0), (0x1c,
     0), (0x20, 0), (0x26, 0), (0x27, 0), (0x28, 0), (0x228, 0), (0x35, 0), (0x36, 0), (0x37, 0),
     (0x3a, 0), (0x3c, 0), (0x44, 0), (0x47, 0), (0x49, 0), (0x4b, 0), (0x54, 0), (0x56, 0), (0x57,
     0), (0x67, 0), (0x68, 0), (0x268, 0), (0x77, 0), (0x7c, 0), (0x87, 0), (0x88, 0), (0x288, 0),
     (0x8a, 0), (0x28a, 0), (0x90, 0), (0x95, 0), (0x96, 0), (0x97, 0), (0xa7, 0), (0xb5, 0), (0xb7,
     0), (0xc7, 0), (0xc8, 0), (0x2c8, 0), (0xca, 0), (0x2ca, 0), (0xd6, 0), (0xd7, 0), (0xe7, 0),
     (0xe8, 0), (0x2e8, 0), (0xe9, 0), (0x2e9, 0), (0xea, 0), (0x2ea, 0), (0xeb, 0), (0x2eb, 0),
     (0xf6, 0), (0xf7, 0), (0x10a, 0), (0x30a, 0), (0x116, 0), (0x117, 0), (0x11c, 0), (0x136, 0),
     (0x137, 0), (0x13c, 0), (0x153, 0), (0x155, 0), (0x156, 0), (0x157, 0), (0x167, 0), (0x173, 0),
     (0x175, 0), (0x176, 0), (0x177, 0), (0x197, 0), (0x19c, 0), (0x1b6, 0), (0x1b7, 0), (0x1bc, 0),
     (0x1c9, 0), (0x3c9, 0), (0x1cb, 0), (0x3cb, 0), (0x1d3, 0), (0x1d6, 0), (0x1dc, 0), (0x1e7, 0),
     (0x1e9, 0), (0x3e9, 0), (0x1eb, 0), (0x3eb, 0), (0x207, 0), (0x214, 0), (0x215, 0), (0x216, 0),
     (0x217, 0), (0x218, 0), (0x21b, 0), (0x227, 0), (0x237, 0), (0x255, 0), (0x256, 0), (0x257, 0),
     (0x277, 0), (0x287, 0), (0x294, 0), (0x295, 0), (0x296, 0), (0x297, 0), (0x2a7, 0), (0x2b7, 0),
     (0x2d5, 0), (0x2d7, 0), (0x2f7, 0), (0x307, 0), (0x316, 0), (0x318, 0), (0x31a, 0), (0x327, 0),
     (0x336, 0), (0x338, 0), (0x33a, 0), (0x33b, 0), (0x356, 0), (0x387, 0), (0x396, 0), (0x39a, 0),
     (0x3a7, 0), (0x3ba, 0), (0x3d7, 0), (0x3da, 0), (0x3d6, 0), (0x3f6, 0)]"
  by (simp add: group_1f_def keys_def)

lemma keys_3a: "keys group_3a =
     [(0x0, 0), (0x1, 0), (0x2, 0)]"
  by (simp add: group_3a_def keys_def)

lemma keys_3b: "keys group_3b =
     [(0x12, 5), (0x14, 5), (0x15, 5), (0x16, 5), (0x18, 5), (0x19, 5), (0x1c, 5), (0x1d, 5), (0x1e,
     5), (0x1f, 5)]"
  by (simp add: group_3b_def keys_def)

lemma keys_3e: "keys group_3e =
     [(0x0, 0), (0x1, 0)]"
  by (simp add: group_3e_def keys_def)

lemma keys_3f: "keys group_3f =
     [(0x26, 0), (0x40, 0), (0x46, 0), (0x86, 0), (0x247, 0), (0x2c7, 0), (0x0, 0), (0xc, 0), (0xe,
     0), (0xf, 0), (0x12, 5), (0x14, 5), (0x15, 5), (0x16, 5), (0x17, 5), (0x19, 5), (0x1a, 5),
     (0x1c, 5), (0x1d, 5), (0x1e, 5), (0x1f, 5), (0x20, 0), (0x28, 0), (0x48, 0), (0x88, 0), (0x108,
     0), (0x32e, 0), (0x32f, 0), (0x34e, 0)]"
  by (simp add: group_3f_def keys_def)

lemma clash_free_groups:
  "clash_free 11 (keys group_04)" "clash_free 10 (keys group_13)" "clash_free 4 (keys group_1e)"
  "clash_free 10 (keys group_1f)" "clash_free 2 (keys group_3a)" "clash_free 10 (keys group_3b)"
  "clash_free 2 (keys group_3e)" "clash_free 10 (keys group_3f)"
  by (simp_all add: keys_04 keys_13 keys_1e keys_1f keys_3a keys_3b keys_3e keys_3f clash_free_def Let_def sort_key_def)

lemma clash_free_ok: "clash_free c (keys vs) \<Longrightarrow> m < 64 \<Longrightarrow> sh + c \<le> 11 \<Longrightarrow> list_all (entry_ok m c sh) vs"
  by (auto simp: clash_free_def Let_def keys_def list_all_iff entry_ok_def)

lemma groups_facts:
  assumes "(m, c, sh, vs) \<in> set groups"
  shows "clash_free c (keys vs)" "group_ok (m, c, sh, vs)"
  using assms clash_free_groups
  by (auto simp: groups_def group_ok_def intro!: clash_free_ok)

section \<open>What a filled table answers\<close>

text \<open>
  Both decoders fill cells group by group; all that a lookup needs to know of the filling is which
  cells an entry covers and which form it stores there.
\<close>

locale table_filler =
  fixes fill :: "nat \<Rightarrow> nat \<Rightarrow> nat \<Rightarrow> string instruction_info list \<Rightarrow> (nat \<Rightarrow> string) \<Rightarrow> nat \<Rightarrow> string"
    and record_form :: "nat \<Rightarrow> nat \<Rightarrow> string instruction_info \<Rightarrow> nat \<Rightarrow> bool"
  assumes fill_group: "group_ok (m, c, sh, vs) \<Longrightarrow> fill m c sh vs t x =
      (case find (\<lambda>v. x \<in> cells m c sh v) (rev vs) of None \<Rightarrow> t x
       | Some v \<Rightarrow> if record_form c sh v x then ptr_rc v else ptr0 v)"
    and fill_main: "\<forall>v \<in> set vs. op_value v < 64 \<Longrightarrow> fill 0 6 (2 ^ 32 - 1) vs t x =
      (case find (\<lambda>v. x mod 64 = op_value v \<and> x div 64 < 2 ^ 11) (rev vs) of None \<Rightarrow> t x
       | Some v \<Rightarrow> if odd (x div 64) then ptr_rc v else ptr0 v)"
begin

lemma fill_other: "group_ok (m, c, sh, vs) \<Longrightarrow> x mod 64 \<noteq> m \<Longrightarrow> fill m c sh vs t x = t x"
  by (auto simp: fill_group cells_def find_Some_iff split: option.split)

lemma fold_other:
  "\<forall>g \<in> set gs. group_ok g \<and> fst g \<noteq> x mod 64 \<Longrightarrow>
     fold (\<lambda>(m, c, sh, vs). fill m c sh vs) gs t x = t x"
  by (induction gs arbitrary: t) (auto simp: fill_other)

lemma fold_own:
  assumes "(m, c, sh, vs) \<in> set gs" "x mod 64 = m" "distinct (map fst gs)" "\<forall>g \<in> set gs. group_ok g"
  shows "fold (\<lambda>(m, c, sh, vs). fill m c sh vs) gs t x = fill m c sh vs t x"
proof -
  obtain as bs where gs: "gs = as @ (m, c, sh, vs) # bs" using assms(1) by (meson split_list)
  let ?F = "\<lambda>gs. fold (\<lambda>(m, c, sh, vs). fill m c sh vs) gs"
  have "?F gs t x = fill m c sh vs (?F as t) x"
    using assms unfolding gs by (subst fold_append, simp, subst fold_other) (auto simp: image_iff)
  moreover have "?F as t x = t x"
    using assms unfolding gs by (intro fold_other) (auto simp: image_iff)
  ultimately show ?thesis
    using assms unfolding gs by (simp add: fill_group split: option.split)
qed

lemma lookup_group:
  assumes "(m, c, sh, vs) \<in> set gs" "distinct (map fst gs)" "\<forall>g \<in> set gs. group_ok g"
    and "clash_free c (keys vs)" "v \<in> set vs" "x \<in> cells m c sh v"
  shows "fold (\<lambda>(m, c, sh, vs). fill m c sh vs) gs t x = (if record_form c sh v x then ptr_rc v else ptr0 v)"
proof -
  have "find (\<lambda>v. x \<in> cells m c sh v) (rev vs) = Some v"
    using assms(5,6) clash_free_unique [OF assms(4)] by (intro find_unique) auto
  moreover have "x mod 64 = m" using assms(6) by (simp add: cells_def)
  ultimately show ?thesis
    using assms(3) fold_own [OF assms(1) _ assms(2,3)] fill_group [of m c sh vs] assms(1)
    by (simp add: Ball_def)
qed

lemma lookup_none:
  assumes "distinct (map fst gs)" "\<forall>g \<in> set gs. group_ok g"
    and none: "\<forall>(m, c, sh, vs) \<in> set gs. \<forall>v \<in> set vs. x \<notin> cells m c sh v"
  shows "fold (\<lambda>(m, c, sh, vs). fill m c sh vs) gs t x = t x"
proof (cases "x mod 64 \<in> fst ` set gs")
  case True
  then obtain c sh vs where g: "(x mod 64, c, sh, vs) \<in> set gs" by force
  with none have "find (\<lambda>v. x \<in> cells (x mod 64) c sh v) (rev vs) = None"
    by (auto simp: find_None_iff)
  with g assms(2) show ?thesis
    using fold_own [OF g refl assms(1,2)] fill_group [of "x mod 64" c sh vs] by (auto simp: Ball_def)
next
  case False
  with assms(2) show ?thesis by (intro fold_other) (force simp: image_iff)
qed

lemma lookup_main:
  assumes "\<forall>v \<in> set vs. op_value v < 64" "distinct (map op_value vs)" "v \<in> set vs"
    and "x mod 64 = op_value v" "x div 64 < 2 ^ 11"
  shows "fill 0 6 (2 ^ 32 - 1) vs t x = (if odd (x div 64) then ptr_rc v else ptr0 v)"
proof -
  have "find (\<lambda>v. x mod 64 = op_value v \<and> x div 64 < 2 ^ 11) (rev vs) = Some v"
    using assms(2-5) by (intro find_unique) (auto simp: distinct_map inj_on_def)
  then show ?thesis using fill_main [OF assms(1), of t x] by (simp only: option.case)
qed

end

interpretation rpcs3_table: table_filler fill_table "\<lambda>c sh v x. odd (x div 64)"
proof unfold_locales
  fix m c sh t x and vs :: "string instruction_info list"
  show "fill_table m c sh vs t x = (case find (\<lambda>v. x \<in> cells m c sh v) (rev vs) of None \<Rightarrow> t x
       | Some v \<Rightarrow> if odd (x div 64) then ptr_rc v else ptr0 v)" if "group_ok (m, c, sh, vs)"
    using that by (simp add: group_ok_def fill_table_group list_all_iff)
qed (rule fill_table_main, simp_all)

interpretation rx_table: table_filler rx_fill_table "\<lambda>c sh v x. odd (x div 64 div 2 ^ (sh + (c - magn v)))"
proof unfold_locales
  fix m c sh t x and vs :: "string instruction_info list"
  show "rx_fill_table m c sh vs t x = (case find (\<lambda>v. x \<in> cells m c sh v) (rev vs) of None \<Rightarrow> t x
       | Some v \<Rightarrow> if odd (x div 64 div 2 ^ (sh + (c - magn v))) then ptr_rc v else ptr0 v)"
    if "group_ok (m, c, sh, vs)"
    using that by (simp add: group_ok_def rx_fill_table_group list_all_iff)
next
  fix t x and vs :: "string instruction_info list"
  assume vs: "\<forall>v \<in> set vs. op_value v < 64"
  have "rx_fill_table 0 6 (2 ^ 32 - 1) vs t x = fill_table 0 6 (2 ^ 32 - 1) vs t x"
    using vs by (intro fill_table_main(2)) simp_all
  then show "rx_fill_table 0 6 (2 ^ 32 - 1) vs t x =
      (case find (\<lambda>v. x mod 64 = op_value v \<and> x div 64 < 2 ^ 11) (rev vs) of None \<Rightarrow> t x
       | Some v \<Rightarrow> if odd (x div 64) then ptr_rc v else ptr0 v)"
    using fill_table_main(1) [OF _ vs] by simp
qed


section \<open>What the decoders answer\<close>

text \<open>The extended opcode: \<open>n\<close> bits of the instruction word above its \<open>sh\<close> lowest ones.\<close>

definition xo :: "nat \<Rightarrow> nat \<Rightarrow> u32 \<Rightarrow> nat" where
  "xo sh n inst = unat inst div 2 ^ sh mod 2 ^ n"

definition rx_groups :: "(nat \<times> nat \<times> nat \<times> string instruction_info list) list" where
  "rx_groups = [(0x04, 11, 0, group_04), (0x13, 10, 1, rx_group_13), (0x1e, 4, 1, group_1e), (0x1f, 10, 1, group_1f),
     (0x3a, 2, 0, group_3a), (0x3b, 10, 1, group_3b), (0x3e, 2, 0, group_3e), (0x3f, 10, 1, group_3f)]"

lemma rx_table_groups:
  "rx_table = fold (\<lambda>(m, c, sh, vs). rx_fill_table m c sh vs) rx_groups
     (rx_fill_table 0x00 6 (2 ^ 32 - 1) main_entries (\<lambda>_. ''Invalid''))"
  by (simp add: rx_table_def rx_groups_def)

lemma clash_free_rx_13: "clash_free 10 (keys rx_group_13)"
  by (simp add: rx_group_13_def keys_def clash_free_def Let_def sort_key_def)

lemma rx_groups_facts:
  assumes "(m, c, sh, vs) \<in> set rx_groups"
  shows "clash_free c (keys vs)" "group_ok (m, c, sh, vs)"
  using assms clash_free_groups clash_free_rx_13
  by (auto simp: rx_groups_def group_ok_def intro!: clash_free_ok)

lemma groups_distinct: "distinct (map fst groups)" "distinct (map fst rx_groups)"
  by (simp_all add: groups_def rx_groups_def)

lemma main_facts: "\<forall>v \<in> set main_entries. op_value v < 64" "distinct (map op_value main_entries)"
    "\<forall>v \<in> set main_entries. \<forall>g \<in> set groups. fst g \<noteq> op_value v"
  by (simp_all add: main_entries_def groups_def)

lemma groups_width: "(m, c, sh, vs) \<in> set groups \<union> set rx_groups \<Longrightarrow> sh + c \<le> 11"
  by (auto simp: groups_def rx_groups_def)

lemma decode_cell:
  assumes "sh + c \<le> 11"
  shows "unat (ppu_decode inst) \<in> cells m c sh v \<longleftrightarrow> op_main inst = m \<and> xo sh (c - magn v) inst = op_value v"
proof -
  have "unat inst mod 2 ^ 11 div 2 ^ sh mod 2 ^ (c - magn v) = unat inst div 2 ^ sh mod 2 ^ (c - magn v)"
  proof -
    have "unat inst mod 2 ^ 11 div 2 ^ sh = unat inst div 2 ^ sh mod 2 ^ (11 - sh)"
      unfolding drop_bit_eq_div [symmetric] take_bit_eq_mod [symmetric] by (rule drop_bit_take_bit)
    then show ?thesis using assms by (simp add: mod_mod_cancel le_imp_power_dvd)
  qed
  then show ?thesis by (simp add: cells_def xo_def index_main index_low)
qed

lemma index_odd: "odd (unat (ppu_decode inst) div 64) = op_rc inst"
  by (simp add: index_low op_rc_odd dvd_mod_iff)

lemma decode_group:
  assumes "(m, c, sh, vs) \<in> set groups" "v \<in> set vs" "op_main inst = m" "xo sh (c - magn v) inst = op_value v"
  shows "decode inst = (if op_rc inst then ptr_rc v else ptr0 v)"
proof -
  have "unat (ppu_decode inst) \<in> cells m c sh v"
    using assms decode_cell groups_width by blast
  then show ?thesis
    unfolding decode_def ppu_table_groups
    using assms(1,2) groups_distinct(1) groups_facts
    by (subst rpcs3_table.lookup_group [where m = m and c = c and sh = sh and vs = vs and v = v])
      (auto simp: index_odd)
qed

lemma rx_decode_group:
  assumes "(m, c, sh, vs) \<in> set rx_groups" "v \<in> set vs" "op_main inst = m" "xo sh (c - magn v) inst = op_value v"
  shows "rx_decode inst =
    (if odd (unat inst mod 2 ^ 11 div 2 ^ (sh + (c - magn v))) then ptr_rc v else ptr0 v)"
proof -
  have "unat (ppu_decode inst) \<in> cells m c sh v"
    using assms decode_cell groups_width by blast
  then show ?thesis
    unfolding rx_decode_def rx_table_groups
    using assms(1,2) groups_distinct(2) rx_groups_facts
    by (subst rx_table.lookup_group [where m = m and c = c and sh = sh and vs = vs and v = v])
      (auto simp: index_low)
qed

lemma index_bound: "unat (ppu_decode inst) div 64 < 2 ^ 11"
  by (simp add: index_low)

lemma decode_main:
  assumes "v \<in> set main_entries" "op_main inst = op_value v"
  shows "decode inst = (if op_rc inst then ptr_rc v else ptr0 v)"
proof -
  have "decode inst = fill_table 0 6 (2 ^ 32 - 1) main_entries (\<lambda>_. ''UNK'') (unat (ppu_decode inst))"
    unfolding decode_def ppu_table_groups
    using assms main_facts(3) groups_facts by (intro rpcs3_table.fold_other) (auto simp: index_main)
  also have "\<dots> = (if op_rc inst then ptr_rc v else ptr0 v)"
    using assms main_facts(1,2) index_bound
    by (subst rpcs3_table.lookup_main [where v = v]) (simp_all add: index_main index_odd)
  finally show ?thesis .
qed

lemma decode_unknown:
  assumes "\<forall>v \<in> set main_entries. op_main inst \<noteq> op_value v"
    and "\<forall>(m, c, sh, vs) \<in> set groups. \<forall>v \<in> set vs. \<not> (op_main inst = m \<and> xo sh (c - magn v) inst = op_value v)"
  shows "decode inst = ''UNK''"
proof -
  have "decode inst = fill_table 0 6 (2 ^ 32 - 1) main_entries (\<lambda>_. ''UNK'') (unat (ppu_decode inst))"
    unfolding decode_def ppu_table_groups
  proof (rule rpcs3_table.lookup_none)
    show "\<forall>(m, c, sh, vs) \<in> set groups. \<forall>v \<in> set vs. unat (ppu_decode inst) \<notin> cells m c sh v"
      using assms(2) groups_width decode_cell by fastforce
  qed (use groups_distinct groups_facts in auto)
  also have "\<dots> = ''UNK''"
    using assms(1) main_facts(1) fill_table_main(1) [of "2 ^ 32 - 1" main_entries 0 6]
    by (auto simp: index_main find_Some_iff split: option.split) (metis length_rev nth_mem set_rev)+
  finally show ?thesis .
qed

text \<open>
  Claim C7. The decoder of the interpreter recognises exactly the instructions of its tables: an
  instruction whose primary opcode and extended opcode match an entry decodes to that entry, in its
  record form exactly when bit 31 is set; no two entries compete for an instruction; everything else
  decodes to UNK.
\<close>

theorem decode_instruction:
  "(\<forall>v \<in> set main_entries. op_main inst = op_value v \<longrightarrow>
      decode inst = (if op_rc inst then ptr_rc v else ptr0 v)) \<and>
   (\<forall>(m, c, sh, vs) \<in> set groups. \<forall>v \<in> set vs. op_main inst = m \<and> xo sh (c - magn v) inst = op_value v \<longrightarrow>
      decode inst = (if op_rc inst then ptr_rc v else ptr0 v)) \<and>
   ((\<forall>v \<in> set main_entries. op_main inst \<noteq> op_value v) \<and>
    (\<forall>(m, c, sh, vs) \<in> set groups. \<forall>v \<in> set vs. \<not> (op_main inst = m \<and> xo sh (c - magn v) inst = op_value v)) \<longrightarrow>
      decode inst = ''UNK'')"
  using decode_main decode_group decode_unknown by (auto simp: split_beta)

theorem decode_instruction_witness:
  "decode 0x7c642a15 = ''ADD_'' \<and> decode 0x38600005 = ''ADDI'' \<and> decode 0 = ''UNK''"
proof (intro conjI)
  have e: "(0x1f, 10, 1, group_1f) \<in> set groups" "GETRC 0x10a ''ADD'' 0 \<in> set group_1f"
      "GET 0xe ''ADDI'' 0 \<in> set main_entries"
    by (simp_all add: groups_def group_1f_def main_entries_def)
  have f: "op_main 0x7c642a15 = 0x1f" "xo 1 10 0x7c642a15 = 0x10a" "op_rc 0x7c642a15"
      "op_main 0x38600005 = 0xe" "op_main 0 = 0"
    by (simp_all add: op_field_defs bf_defs xo_def mask_eq_exp_minus_1)
  have z: "\<forall>v \<in> set main_entries. op_main 0 \<noteq> op_value v"
      "\<forall>(m, c, sh, vs) \<in> set groups. \<forall>v \<in> set vs. \<not> (op_main 0 = m \<and> xo sh (c - magn v) 0 = op_value v)"
    by (simp_all add: f main_entries_def groups_def)
  show "decode 0x7c642a15 = ''ADD_''"
    using bspec [OF conjunct1 [OF conjunct2 [OF decode_instruction [of "0x7c642a15"]]] e(1)]
    unfolding prod.case by (drule_tac bspec [OF _ e(2)]) (use f in simp)
  show "decode 0x38600005 = ''ADDI''"
    using bspec [OF conjunct1 [OF decode_instruction [of "0x38600005"]] e(3)] by (simp add: f)
  show "decode 0 = ''UNK''"
    using conjunct2 [OF conjunct2 [OF decode_instruction [of 0]]] z by blast
qed

text \<open>
  Claim C40. The table of the second decoder chooses the record form by the wrong bit: all register
  instructions of group \<open>0x1f\<close> lose their record form, and an instruction of group \<open>0x1e\<close> takes it when
  bit 26 of the instruction (the high bit of the mask operand) is set, whatever its record bit is.
\<close>

theorem rx_decode_record_forms:
  "(\<forall>v \<in> set group_1f. op_main inst = 0x1f \<and> xo 1 10 inst = op_value v \<longrightarrow> rx_decode inst = ptr0 v) \<and>
   (\<forall>v \<in> set group_1e. op_main inst = 0x1e \<and> xo 1 4 inst = op_value v \<longrightarrow>
      rx_decode inst = (if odd (unat inst div 2 ^ 5) then ptr_rc v else ptr0 v))"
proof (intro conjI ballI impI)
  fix v assume v: "v \<in> set group_1f" "op_main inst = 0x1f \<and> xo 1 10 inst = op_value v"
  have "magn v = 0" using v(1) by (auto simp: group_1f_def)
  then show "rx_decode inst = ptr0 v"
    using rx_decode_group [of "0x1f" 10 1 group_1f v inst] v by (simp add: rx_groups_def)
next
  fix v assume v: "v \<in> set group_1e" "op_main inst = 0x1e \<and> xo 1 4 inst = op_value v"
  have "magn v = 0" using v(1) by (auto simp: group_1e_def)
  moreover have "odd (unat inst mod 2 ^ 11 div 2 ^ 5) = odd (unat inst div 2 ^ 5)"
  proof -
    have "unat inst mod 2 ^ 11 div 2 ^ 5 = unat inst div 2 ^ 5 mod 2 ^ 6"
      unfolding drop_bit_eq_div [symmetric] take_bit_eq_mod [symmetric]
      by (subst drop_bit_take_bit) simp
    then show ?thesis by (simp add: dvd_mod_iff)
  qed
  ultimately show "rx_decode inst = (if odd (unat inst div 2 ^ 5) then ptr_rc v else ptr0 v)"
    using rx_decode_group [of "0x1e" 4 1 group_1e v inst] v by (simp add: rx_groups_def)
qed

theorem rx_decode_record_forms_witness:
  "rx_decode 0x7c642a15 = ''ADD'' \<and> op_rc 0x7c642a15 \<and> rx_decode 0x78630020 = ''RLDICL_'' \<and> \<not> op_rc 0x78630020"
proof (intro conjI)
  have e: "GETRC 0x10a ''ADD'' 0 \<in> set group_1f" "GETRC 0 ''RLDICL'' 0 \<in> set group_1e"
    by (simp_all add: group_1f_def group_1e_def)
  have f: "op_main 0x7c642a15 = 0x1f" "xo 1 10 0x7c642a15 = 0x10a" "op_main 0x78630020 = 0x1e"
      "xo 1 4 0x78630020 = 0" "odd (unat (0x78630020 :: u32) div 2 ^ 5)"
    by (simp_all add: op_field_defs bf_defs xo_def mask_eq_exp_minus_1)
  show "rx_decode 0x7c642a15 = ''ADD''"
    using bspec [OF conjunct1 [OF rx_decode_record_forms [of "0x7c642a15"]] e(1)] f by simp
  show "rx_decode 0x78630020 = ''RLDICL_''"
    using bspec [OF conjunct2 [OF rx_decode_record_forms [of "0x78630020"]] e(2)] f by simp
qed (simp_all add: op_field_defs bf_defs mask_eq_exp_minus_1)

text \<open>
  Two consequences for \<^verbatim>\<open>fixOpcode\<close>: \<^verbatim>\<open>or.\<close> with equal sources is reported as a plain register move,
  and the test that separates MTCRF from MTOCRF reads bit 10, the lowest bit of the source register, instead of bit
  11 (which the interpreters test as \<open>l11\<close>).
\<close>

lemma fix_opcode_or_record:
  "fixOpcode (rx_decode 0x7c832379) 0x7c832379 = ''MR'' \<and> op_rc 0x7c832379"
proof -
  have e: "GETRC 0x1bc ''OR'' 0 \<in> set group_1f" by (simp add: group_1f_def)
  have f: "op_main 0x7c832379 = 0x1f" "xo 1 10 0x7c832379 = 0x1bc"
    by (simp_all add: op_field_defs bf_defs xo_def mask_eq_exp_minus_1)
  have "rx_decode 0x7c832379 = ''OR''"
    using rx_decode_group [of "0x1f" 10 1 group_1f "GETRC 0x1bc ''OR'' 0" "0x7c832379"] e f
    by (simp add: rx_groups_def)
  then show ?thesis by (simp add: fixOpcode_def op_field_defs bf_defs mask_eq_exp_minus_1)
qed

lemma fix_opcode_mtocrf:
  "fixOpcode ''MTOCRF'' inst = (if op_l10 inst then ''MTOCRF'' else ''MTCRF'')"
  "op_l11 0x7c980120 \<and> fixOpcode ''MTOCRF'' 0x7c980120 = ''MTCRF''"
  by (simp_all add: fixOpcode_def op_field_defs bf_defs mask_eq_exp_minus_1)

end
