(* ===== verification/Ppu_Integer.thy ===== *)
theory Ppu_Integer
  imports Ppu_Opcode
begin

text \<open>
  The register state of a PPU thread (\<^verbatim>\<open>PPUContext\<close>, \<^verbatim>\<open>rpcsx/cpu/cell/ppu/.../PPUContext.hpp\<close>) and
  the fixed-point instructions of \<^verbatim>\<open>rpcs3/Emu/Cell/PPUInterpreter.cpp\<close>, one definition per
  instruction. The template flags \<^verbatim>\<open>has_oe\<close> and \<^verbatim>\<open>has_rc\<close>, which select the forms that record overflow
  and the condition register, are the first arguments of an instruction. Signed products wrap
  around. The statistics that \<^verbatim>\<open>ppu_cr_set\<close> collects under the debug option \<^verbatim>\<open>ppu_debug\<close> are left out.
\<close>

section \<open>Registers\<close>

type_synonym u128 = "128 word"

record ppu =
  gpr :: "nat \<Rightarrow> u64"
  fpr :: "nat \<Rightarrow> u64"
  vr :: "nat \<Rightarrow> u128"
  cr :: "nat \<Rightarrow> u8"
  lr :: u64
  ctr :: u64
  vrsave :: u32
  cia :: u32
  xer_so :: bool
  xer_ov :: bool
  xer_ca :: bool
  xer_cnt :: u8
  raddr :: u32
  rdata :: "nat \<Rightarrow> u8"
  use_full_rdata :: bool
  res_cached :: u32
  cpu_state :: bool
  exec_bytes :: u64
  mem :: "nat \<Rightarrow> u8"

text \<open>
  A floating-point register is the bit pattern of its double, a vector register the number whose
  most significant byte comes first in memory, \<open>cr\<close> one byte per condition bit, \<open>cpu_state\<close> says whether
  the thread has a pending state flag. Memory is addressed by the offset from \<^verbatim>\<open>vm::g_base_addr\<close>.
\<close>

text \<open>The default member initialisers of the context; memory is empty.\<close>

definition ppu_default :: ppu where
  "ppu_default = \<lparr>gpr = (\<lambda>_. 0), fpr = (\<lambda>_. 0), vr = (\<lambda>_. 0), cr = (\<lambda>_. 0), lr = 0, ctr = 0, vrsave = - 1, cia = 0,
     xer_so = False, xer_ov = False, xer_ca = False, xer_cnt = 0, raddr = 0, rdata = (\<lambda>_. 0),
     use_full_rdata = False, res_cached = 0, cpu_state = False, exec_bytes = 0, mem = (\<lambda>_. 0)\<rparr>"

definition set_gpr :: "nat \<Rightarrow> u64 \<Rightarrow> ppu \<Rightarrow> ppu" where
  "set_gpr i v s = s\<lparr>gpr := (gpr s)(i := v)\<rparr>"

section \<open>Flags\<close>

definition ppu_cr_set :: "nat \<Rightarrow> bool \<Rightarrow> bool \<Rightarrow> bool \<Rightarrow> bool \<Rightarrow> ppu \<Rightarrow> ppu" where
  "ppu_cr_set field le gt eq so s =
     s\<lparr>cr := (cr s)(field * 4 + 0 := of_bool le, field * 4 + 1 := of_bool gt,
                    field * 4 + 2 := of_bool eq, field * 4 + 3 := of_bool so)\<rparr>"

text \<open>\<^verbatim>\<open>ppu_cr_set<T>(ppu, field, a, b)\<close> for an unsigned and for a signed \<^verbatim>\<open>T\<close>.\<close>

definition cr_set_u :: "nat \<Rightarrow> 'a::len word \<Rightarrow> 'a word \<Rightarrow> ppu \<Rightarrow> ppu" where
  "cr_set_u field a b s = ppu_cr_set field (a < b) (a > b) (a = b) (xer_so s) s"

definition cr_set_s :: "nat \<Rightarrow> 'a::len word \<Rightarrow> 'a word \<Rightarrow> ppu \<Rightarrow> ppu" where
  "cr_set_s field a b s = ppu_cr_set field (sint a < sint b) (sint a > sint b) (a = b) (xer_so s) s"

definition ppu_ov_set :: "bool \<Rightarrow> ppu \<Rightarrow> ppu" where
  "ppu_ov_set b s = s\<lparr>xer_ov := b, xer_so := (xer_so s \<or> b)\<rparr>"

definition set_ca :: "bool \<Rightarrow> ppu \<Rightarrow> ppu" where
  "set_ca b s = s\<lparr>xer_ca := b\<rparr>"

definition ov_if :: "bool \<Rightarrow> bool \<Rightarrow> ppu \<Rightarrow> ppu" where
  "ov_if oe b s = (if oe then ppu_ov_set b s else s)"

definition rc_if :: "bool \<Rightarrow> u64 \<Rightarrow> ppu \<Rightarrow> ppu" where
  "rc_if rc r s = (if rc then cr_set_s 0 r 0 s else s)"

text \<open>\<^verbatim>\<open>add_flags_result_t\<close>: a sum and its carry, without and with carry in.\<close>

definition add_flags :: "u64 \<Rightarrow> u64 \<Rightarrow> u64 \<times> bool" where
  "add_flags a b = (a + b, a + b < a)"

definition add_flags_c :: "u64 \<Rightarrow> u64 \<Rightarrow> bool \<Rightarrow> u64 \<times> bool" where
  "add_flags_c a b c =
     (let (r1, c1) = add_flags a b; (r2, c2) = add_flags r1 (of_bool c) in (r2, c1 \<or> c2))"

section \<open>Helpers of \<^verbatim>\<open>rx/asm.hpp\<close> and the standard library\<close>

definition rol32 :: "u32 \<Rightarrow> u32 \<Rightarrow> u32" where
  "rol32 x n = push_bit (unat (n AND 31)) x OR drop_bit (unat ((0 - n) AND 31)) x"

definition rol64 :: "u64 \<Rightarrow> u64 \<Rightarrow> u64" where
  "rol64 x n = push_bit (unat (n AND 63)) x OR drop_bit (unat ((0 - n) AND 63)) x"

definition dup32 :: "u32 \<Rightarrow> u64" where
  "dup32 x = ucast x OR push_bit 32 (ucast x)"

definition umulh64 :: "u64 \<Rightarrow> u64 \<Rightarrow> u64" where
  "umulh64 x y = ucast (drop_bit 64 (ucast x * ucast y :: u128))"

definition mulh64 :: "u64 \<Rightarrow> u64 \<Rightarrow> u64" where
  "mulh64 x y = ucast (signed_drop_bit 64 (scast x * scast y :: u128))"

definition countl_zero :: "'a::len word \<Rightarrow> nat" where
  "countl_zero w = length (takeWhile (\<lambda>i. \<not> bit w i) (rev [0 ..< LENGTH('a)]))"

text \<open>Signed division of C++: truncation towards zero.\<close>

definition sdiv :: "'a::len word \<Rightarrow> 'a word \<Rightarrow> 'a word" where
  "sdiv a b = word_of_int (sgn (sint a) * sgn (sint b) * (\<bar>sint a\<bar> div \<bar>sint b\<bar>))"

section \<open>Immediate instructions\<close>

definition ppu_MULLI :: "u32 \<Rightarrow> ppu \<Rightarrow> ppu" where
  "ppu_MULLI op s = set_gpr (op_rd op) (gpr s (op_ra op) * scast (op_simm16 op)) s"

definition ppu_SUBFIC :: "u32 \<Rightarrow> ppu \<Rightarrow> ppu" where
  "ppu_SUBFIC op s =
     (let a = gpr s (op_ra op); (r, c) = add_flags_c (NOT a) (scast (op_simm16 op)) True
      in set_ca c (set_gpr (op_rd op) r s))"

definition ppu_CMPLI :: "u32 \<Rightarrow> ppu \<Rightarrow> ppu" where
  "ppu_CMPLI op s =
     (if op_l10 op then cr_set_u (op_crfd op) (gpr s (op_ra op)) (ucast (op_uimm16 op)) s
      else cr_set_u (op_crfd op) (ucast (gpr s (op_ra op)) :: u32) (op_uimm16 op) s)"

definition ppu_CMPI :: "u32 \<Rightarrow> ppu \<Rightarrow> ppu" where
  "ppu_CMPI op s =
     (if op_l10 op then cr_set_s (op_crfd op) (gpr s (op_ra op)) (scast (op_simm16 op)) s
      else cr_set_s (op_crfd op) (ucast (gpr s (op_ra op)) :: u32) (op_simm16 op) s)"

definition ppu_ADDIC :: "u32 \<Rightarrow> ppu \<Rightarrow> ppu" where
  "ppu_ADDIC op s =
     (let (r, c) = add_flags (gpr s (op_ra op)) (scast (op_simm16 op))
      in rc_if (odd (op_main op)) r (set_ca c (set_gpr (op_rd op) r s)))"

definition ppu_ADDI :: "u32 \<Rightarrow> ppu \<Rightarrow> ppu" where
  "ppu_ADDI op s =
     set_gpr (op_rd op)
       (if op_ra op \<noteq> 0 then gpr s (op_ra op) + scast (op_simm16 op) else scast (op_simm16 op)) s"

definition ppu_ADDIS :: "u32 \<Rightarrow> ppu \<Rightarrow> ppu" where
  "ppu_ADDIS op s =
     set_gpr (op_rd op)
       (if op_ra op \<noteq> 0 then gpr s (op_ra op) + scast (op_simm16 op * 65536)
        else scast (op_simm16 op * 65536)) s"

definition ppu_ORI :: "u32 \<Rightarrow> ppu \<Rightarrow> ppu" where
  "ppu_ORI op s = set_gpr (op_ra op) (gpr s (op_rs op) OR ucast (op_uimm16 op)) s"

definition ppu_ORIS :: "u32 \<Rightarrow> ppu \<Rightarrow> ppu" where
  "ppu_ORIS op s = set_gpr (op_ra op) (gpr s (op_rs op) OR push_bit 16 (ucast (op_uimm16 op))) s"

definition ppu_XORI :: "u32 \<Rightarrow> ppu \<Rightarrow> ppu" where
  "ppu_XORI op s = set_gpr (op_ra op) (gpr s (op_rs op) XOR ucast (op_uimm16 op)) s"

definition ppu_XORIS :: "u32 \<Rightarrow> ppu \<Rightarrow> ppu" where
  "ppu_XORIS op s = set_gpr (op_ra op) (gpr s (op_rs op) XOR push_bit 16 (ucast (op_uimm16 op))) s"

definition ppu_ANDI :: "u32 \<Rightarrow> ppu \<Rightarrow> ppu" where
  "ppu_ANDI op s =
     (let r = gpr s (op_rs op) AND ucast (op_uimm16 op) in rc_if True r (set_gpr (op_ra op) r s))"

definition ppu_ANDIS :: "u32 \<Rightarrow> ppu \<Rightarrow> ppu" where
  "ppu_ANDIS op s =
     (let r = gpr s (op_rs op) AND push_bit 16 (ucast (op_uimm16 op))
      in rc_if True r (set_gpr (op_ra op) r s))"

section \<open>Rotates\<close>

definition ppu_RLWIMI :: "bool \<Rightarrow> u32 \<Rightarrow> ppu \<Rightarrow> ppu" where
  "ppu_RLWIMI rc op s =
     (let m = ppu_rotate_mask (32 + of_nat (op_mb32 op)) (32 + of_nat (op_me32 op));
          r = (gpr s (op_ra op) AND NOT m) OR
              (dup32 (rol32 (ucast (gpr s (op_rs op))) (of_nat (op_sh32 op))) AND m)
      in rc_if rc r (set_gpr (op_ra op) r s))"

definition ppu_RLWINM :: "bool \<Rightarrow> u32 \<Rightarrow> ppu \<Rightarrow> ppu" where
  "ppu_RLWINM rc op s =
     (let r = dup32 (rol32 (ucast (gpr s (op_rs op))) (of_nat (op_sh32 op))) AND
              ppu_rotate_mask (32 + of_nat (op_mb32 op)) (32 + of_nat (op_me32 op))
      in rc_if rc r (set_gpr (op_ra op) r s))"

definition ppu_RLWNM :: "bool \<Rightarrow> u32 \<Rightarrow> ppu \<Rightarrow> ppu" where
  "ppu_RLWNM rc op s =
     (let r = dup32 (rol32 (ucast (gpr s (op_rs op))) (ucast (gpr s (op_rb op) AND 0x1f))) AND
              ppu_rotate_mask (32 + of_nat (op_mb32 op)) (32 + of_nat (op_me32 op))
      in rc_if rc r (set_gpr (op_ra op) r s))"

definition ppu_RLDICL :: "bool \<Rightarrow> u32 \<Rightarrow> ppu \<Rightarrow> ppu" where
  "ppu_RLDICL rc op s =
     (let r = rol64 (gpr s (op_rs op)) (of_nat (op_sh64 op)) AND drop_bit (op_mbe64 op) (- 1)
      in rc_if rc r (set_gpr (op_ra op) r s))"

definition ppu_RLDICR :: "bool \<Rightarrow> u32 \<Rightarrow> ppu \<Rightarrow> ppu" where
  "ppu_RLDICR rc op s =
     (let r = rol64 (gpr s (op_rs op)) (of_nat (op_sh64 op)) AND push_bit (op_mbe64 op XOR 63) (- 1)
      in rc_if rc r (set_gpr (op_ra op) r s))"

definition ppu_RLDIC :: "bool \<Rightarrow> u32 \<Rightarrow> ppu \<Rightarrow> ppu" where
  "ppu_RLDIC rc op s =
     (let r = rol64 (gpr s (op_rs op)) (of_nat (op_sh64 op)) AND
              ppu_rotate_mask (of_nat (op_mbe64 op)) (of_nat (op_sh64 op XOR 63))
      in rc_if rc r (set_gpr (op_ra op) r s))"

definition ppu_RLDIMI :: "bool \<Rightarrow> u32 \<Rightarrow> ppu \<Rightarrow> ppu" where
  "ppu_RLDIMI rc op s =
     (let m = ppu_rotate_mask (of_nat (op_mbe64 op)) (of_nat (op_sh64 op XOR 63));
          r = (gpr s (op_ra op) AND NOT m) OR (rol64 (gpr s (op_rs op)) (of_nat (op_sh64 op)) AND m)
      in rc_if rc r (set_gpr (op_ra op) r s))"

definition ppu_RLDCL :: "bool \<Rightarrow> u32 \<Rightarrow> ppu \<Rightarrow> ppu" where
  "ppu_RLDCL rc op s =
     (let r = rol64 (gpr s (op_rs op)) (gpr s (op_rb op) AND 0x3f) AND drop_bit (op_mbe64 op) (- 1)
      in rc_if rc r (set_gpr (op_ra op) r s))"

definition ppu_RLDCR :: "bool \<Rightarrow> u32 \<Rightarrow> ppu \<Rightarrow> ppu" where
  "ppu_RLDCR rc op s =
     (let r = rol64 (gpr s (op_rs op)) (gpr s (op_rb op) AND 0x3f) AND push_bit (op_mbe64 op XOR 63) (- 1)
      in rc_if rc r (set_gpr (op_ra op) r s))"

section \<open>Comparisons\<close>

definition ppu_CMP :: "u32 \<Rightarrow> ppu \<Rightarrow> ppu" where
  "ppu_CMP op s =
     (if op_l10 op then cr_set_s (op_crfd op) (gpr s (op_ra op)) (gpr s (op_rb op)) s
      else cr_set_s (op_crfd op) (ucast (gpr s (op_ra op)) :: u32) (ucast (gpr s (op_rb op))) s)"

definition ppu_CMPL :: "u32 \<Rightarrow> ppu \<Rightarrow> ppu" where
  "ppu_CMPL op s =
     (if op_l10 op then cr_set_u (op_crfd op) (gpr s (op_ra op)) (gpr s (op_rb op)) s
      else cr_set_u (op_crfd op) (ucast (gpr s (op_ra op)) :: u32) (ucast (gpr s (op_rb op))) s)"

section \<open>Additions and subtractions\<close>

text \<open>
  The overflow test compares sign bits: the operands \<open>a\<close> and \<open>b\<close> have equal ones and the result's
  differs.
\<close>

definition ov_test :: "u64 \<Rightarrow> u64 \<Rightarrow> u64 \<Rightarrow> bool" where
  "ov_test a b r = (drop_bit 63 a = drop_bit 63 b \<and> drop_bit 63 a \<noteq> drop_bit 63 r)"

definition ppu_ADD :: "bool \<Rightarrow> bool \<Rightarrow> u32 \<Rightarrow> ppu \<Rightarrow> ppu" where
  "ppu_ADD oe rc op s =
     (let RA = gpr s (op_ra op); RB = gpr s (op_rb op); r = RA + RB
      in rc_if rc r (ov_if oe (ov_test RA RB r) (set_gpr (op_rd op) r s)))"

definition ppu_SUBF :: "bool \<Rightarrow> bool \<Rightarrow> u32 \<Rightarrow> ppu \<Rightarrow> ppu" where
  "ppu_SUBF oe rc op s =
     (let RA = gpr s (op_ra op); RB = gpr s (op_rb op); r = RB - RA
      in rc_if rc r (ov_if oe (ov_test (NOT RA) RB r) (set_gpr (op_rd op) r s)))"

definition ppu_ADDC :: "bool \<Rightarrow> bool \<Rightarrow> u32 \<Rightarrow> ppu \<Rightarrow> ppu" where
  "ppu_ADDC oe rc op s =
     (let RA = gpr s (op_ra op); RB = gpr s (op_rb op); (r, c) = add_flags RA RB
      in rc_if rc r (ov_if oe (ov_test RA RB r) (set_ca c (set_gpr (op_rd op) r s))))"

definition ppu_SUBFC :: "bool \<Rightarrow> bool \<Rightarrow> u32 \<Rightarrow> ppu \<Rightarrow> ppu" where
  "ppu_SUBFC oe rc op s =
     (let RA = gpr s (op_ra op); RB = gpr s (op_rb op); (r, c) = add_flags_c (NOT RA) RB True
      in rc_if rc r (ov_if oe (ov_test (NOT RA) RB r) (set_ca c (set_gpr (op_rd op) r s))))"

definition ppu_ADDE :: "bool \<Rightarrow> bool \<Rightarrow> u32 \<Rightarrow> ppu \<Rightarrow> ppu" where
  "ppu_ADDE oe rc op s =
     (let RA = gpr s (op_ra op); RB = gpr s (op_rb op); (r, c) = add_flags_c RA RB (xer_ca s)
      in rc_if rc r (ov_if oe (ov_test RA RB r) (set_ca c (set_gpr (op_rd op) r s))))"

definition ppu_SUBFE :: "bool \<Rightarrow> bool \<Rightarrow> u32 \<Rightarrow> ppu \<Rightarrow> ppu" where
  "ppu_SUBFE oe rc op s =
     (let RA = gpr s (op_ra op); RB = gpr s (op_rb op); (r, c) = add_flags_c (NOT RA) RB (xer_ca s)
      in rc_if rc r (ov_if oe (ov_test (NOT RA) RB r) (set_ca c (set_gpr (op_rd op) r s))))"

definition ppu_ADDZE :: "bool \<Rightarrow> bool \<Rightarrow> u32 \<Rightarrow> ppu \<Rightarrow> ppu" where
  "ppu_ADDZE oe rc op s =
     (let RA = gpr s (op_ra op); (r, c) = add_flags_c RA 0 (xer_ca s)
      in rc_if rc r (ov_if oe (drop_bit 63 RA = 0 \<and> drop_bit 63 RA \<noteq> drop_bit 63 r)
           (set_ca c (set_gpr (op_rd op) r s))))"

definition ppu_SUBFZE :: "bool \<Rightarrow> bool \<Rightarrow> u32 \<Rightarrow> ppu \<Rightarrow> ppu" where
  "ppu_SUBFZE oe rc op s =
     (let RA = gpr s (op_ra op); (r, c) = add_flags_c (NOT RA) 0 (xer_ca s)
      in rc_if rc r (ov_if oe (drop_bit 63 (NOT RA) = 0 \<and> drop_bit 63 (NOT RA) \<noteq> drop_bit 63 r)
           (set_ca c (set_gpr (op_rd op) r s))))"

definition ppu_ADDME :: "bool \<Rightarrow> bool \<Rightarrow> u32 \<Rightarrow> ppu \<Rightarrow> ppu" where
  "ppu_ADDME oe rc op s =
     (let RA = gpr s (op_ra op); (r, c) = add_flags_c RA (- 1) (xer_ca s)
      in rc_if rc r (ov_if oe (drop_bit 63 RA = 1 \<and> drop_bit 63 RA \<noteq> drop_bit 63 r)
           (set_ca c (set_gpr (op_rd op) r s))))"

definition ppu_SUBFME :: "bool \<Rightarrow> bool \<Rightarrow> u32 \<Rightarrow> ppu \<Rightarrow> ppu" where
  "ppu_SUBFME oe rc op s =
     (let RA = gpr s (op_ra op); (r, c) = add_flags_c (NOT RA) (- 1) (xer_ca s)
      in rc_if rc r (ov_if oe (drop_bit 63 (NOT RA) = 1 \<and> drop_bit 63 (NOT RA) \<noteq> drop_bit 63 r)
           (set_ca c (set_gpr (op_rd op) r s))))"

definition ppu_NEG :: "bool \<Rightarrow> bool \<Rightarrow> u32 \<Rightarrow> ppu \<Rightarrow> ppu" where
  "ppu_NEG oe rc op s =
     (let RA = gpr s (op_ra op); r = 0 - RA
      in rc_if rc r (ov_if oe (RA = push_bit 63 1) (set_gpr (op_rd op) r s)))"

section \<open>Products and quotients\<close>

definition ppu_MULLW :: "bool \<Rightarrow> bool \<Rightarrow> u32 \<Rightarrow> ppu \<Rightarrow> ppu" where
  "ppu_MULLW oe rc op s =
     (let r = scast (ucast (gpr s (op_ra op)) :: u32) * scast (ucast (gpr s (op_rb op)) :: u32) :: u64
      in rc_if rc r (ov_if oe (sint r < - (2 ^ 31) \<or> sint r > 2 ^ 31 - 1) (set_gpr (op_rd op) r s)))"

definition ppu_MULLD :: "bool \<Rightarrow> u32 \<Rightarrow> ppu \<Rightarrow> ppu" where
  "ppu_MULLD rc op s =
     (let RA = gpr s (op_ra op); RB = gpr s (op_rb op); r = RA * RB
      in rc_if rc r (ov_if (op_oe op) (mulh64 RA RB \<noteq> signed_drop_bit 63 r) (set_gpr (op_rd op) r s)))"

definition ppu_MULHW :: "bool \<Rightarrow> u32 \<Rightarrow> ppu \<Rightarrow> ppu" where
  "ppu_MULHW rc op s =
     (let a = ucast (gpr s (op_ra op)) :: u32; b = ucast (gpr s (op_rb op)) :: u32;
          r = signed_drop_bit 32 (scast a * scast b :: u64)
      in rc_if rc r (set_gpr (op_rd op) r s))"

definition ppu_MULHWU :: "bool \<Rightarrow> u32 \<Rightarrow> ppu \<Rightarrow> ppu" where
  "ppu_MULHWU rc op s =
     (let a = ucast (gpr s (op_ra op)) :: u32; b = ucast (gpr s (op_rb op)) :: u32;
          r = drop_bit 32 (ucast a * ucast b :: u64)
      in rc_if rc r (set_gpr (op_rd op) r s))"

definition ppu_MULHD :: "bool \<Rightarrow> u32 \<Rightarrow> ppu \<Rightarrow> ppu" where
  "ppu_MULHD rc op s =
     (let r = mulh64 (gpr s (op_ra op)) (gpr s (op_rb op)) in rc_if rc r (set_gpr (op_rd op) r s))"

definition ppu_MULHDU :: "bool \<Rightarrow> u32 \<Rightarrow> ppu \<Rightarrow> ppu" where
  "ppu_MULHDU rc op s =
     (let r = umulh64 (gpr s (op_ra op)) (gpr s (op_rb op)) in rc_if rc r (set_gpr (op_rd op) r s))"

definition ppu_DIVD :: "bool \<Rightarrow> bool \<Rightarrow> u32 \<Rightarrow> ppu \<Rightarrow> ppu" where
  "ppu_DIVD oe rc op s =
     (let RA = gpr s (op_ra op); RB = gpr s (op_rb op);
          ov = (RB = 0 \<or> (RA = push_bit 63 1 \<and> RB = - 1)); r = (if ov then 0 else sdiv RA RB)
      in rc_if rc r (ov_if oe ov (set_gpr (op_rd op) r s)))"

definition ppu_DIVDU :: "bool \<Rightarrow> bool \<Rightarrow> u32 \<Rightarrow> ppu \<Rightarrow> ppu" where
  "ppu_DIVDU oe rc op s =
     (let RA = gpr s (op_ra op); RB = gpr s (op_rb op); r = (if RB = 0 then 0 else RA div RB)
      in rc_if rc r (ov_if oe (RB = 0) (set_gpr (op_rd op) r s)))"

definition ppu_DIVW :: "bool \<Rightarrow> bool \<Rightarrow> u32 \<Rightarrow> ppu \<Rightarrow> ppu" where
  "ppu_DIVW oe rc op s =
     (let RA = ucast (gpr s (op_ra op)) :: u32; RB = ucast (gpr s (op_rb op)) :: u32;
          ov = (RB = 0 \<or> (RA = push_bit 31 1 \<and> RB = - 1)); r = (if ov then 0 else ucast (sdiv RA RB))
      in rc_if rc r (ov_if oe ov (set_gpr (op_rd op) r s)))"

definition ppu_DIVWU :: "bool \<Rightarrow> bool \<Rightarrow> u32 \<Rightarrow> ppu \<Rightarrow> ppu" where
  "ppu_DIVWU oe rc op s =
     (let RA = ucast (gpr s (op_ra op)) :: u32; RB = ucast (gpr s (op_rb op)) :: u32;
          r = (if RB = 0 then 0 else ucast (RA div RB))
      in rc_if rc r (ov_if oe (RB = 0) (set_gpr (op_rd op) r s)))"

section \<open>Logic and sign extension\<close>

definition ppu_AND :: "bool \<Rightarrow> u32 \<Rightarrow> ppu \<Rightarrow> ppu" where
  "ppu_AND rc op s =
     (let r = gpr s (op_rs op) AND gpr s (op_rb op) in rc_if rc r (set_gpr (op_ra op) r s))"

definition ppu_ANDC :: "bool \<Rightarrow> u32 \<Rightarrow> ppu \<Rightarrow> ppu" where
  "ppu_ANDC rc op s =
     (let r = gpr s (op_rs op) AND NOT (gpr s (op_rb op)) in rc_if rc r (set_gpr (op_ra op) r s))"

definition ppu_OR :: "bool \<Rightarrow> u32 \<Rightarrow> ppu \<Rightarrow> ppu" where
  "ppu_OR rc op s =
     (let r = gpr s (op_rs op) OR gpr s (op_rb op) in rc_if rc r (set_gpr (op_ra op) r s))"

definition ppu_ORC :: "bool \<Rightarrow> u32 \<Rightarrow> ppu \<Rightarrow> ppu" where
  "ppu_ORC rc op s =
     (let r = gpr s (op_rs op) OR NOT (gpr s (op_rb op)) in rc_if rc r (set_gpr (op_ra op) r s))"

definition ppu_XOR :: "bool \<Rightarrow> u32 \<Rightarrow> ppu \<Rightarrow> ppu" where
  "ppu_XOR rc op s =
     (let r = gpr s (op_rs op) XOR gpr s (op_rb op) in rc_if rc r (set_gpr (op_ra op) r s))"

definition ppu_NAND :: "bool \<Rightarrow> u32 \<Rightarrow> ppu \<Rightarrow> ppu" where
  "ppu_NAND rc op s =
     (let r = NOT (gpr s (op_rs op) AND gpr s (op_rb op)) in rc_if rc r (set_gpr (op_ra op) r s))"

definition ppu_NOR :: "bool \<Rightarrow> u32 \<Rightarrow> ppu \<Rightarrow> ppu" where
  "ppu_NOR rc op s =
     (let r = NOT (gpr s (op_rs op) OR gpr s (op_rb op)) in rc_if rc r (set_gpr (op_ra op) r s))"

definition ppu_EQV :: "bool \<Rightarrow> u32 \<Rightarrow> ppu \<Rightarrow> ppu" where
  "ppu_EQV rc op s =
     (let r = NOT (gpr s (op_rs op) XOR gpr s (op_rb op)) in rc_if rc r (set_gpr (op_ra op) r s))"

definition ppu_EXTSB :: "bool \<Rightarrow> u32 \<Rightarrow> ppu \<Rightarrow> ppu" where
  "ppu_EXTSB rc op s =
     (let r = scast (ucast (gpr s (op_rs op)) :: u8) in rc_if rc r (set_gpr (op_ra op) r s))"

definition ppu_EXTSH :: "bool \<Rightarrow> u32 \<Rightarrow> ppu \<Rightarrow> ppu" where
  "ppu_EXTSH rc op s =
     (let r = scast (ucast (gpr s (op_rs op)) :: u16) in rc_if rc r (set_gpr (op_ra op) r s))"

definition ppu_EXTSW :: "bool \<Rightarrow> u32 \<Rightarrow> ppu \<Rightarrow> ppu" where
  "ppu_EXTSW rc op s =
     (let r = scast (ucast (gpr s (op_rs op)) :: u32) in rc_if rc r (set_gpr (op_ra op) r s))"

definition ppu_CNTLZW :: "bool \<Rightarrow> u32 \<Rightarrow> ppu \<Rightarrow> ppu" where
  "ppu_CNTLZW rc op s =
     (let r = of_nat (countl_zero (ucast (gpr s (op_rs op)) :: u32))
      in rc_if rc r (set_gpr (op_ra op) r s))"

definition ppu_CNTLZD :: "bool \<Rightarrow> u32 \<Rightarrow> ppu \<Rightarrow> ppu" where
  "ppu_CNTLZD rc op s =
     (let r = of_nat (countl_zero (gpr s (op_rs op))) in rc_if rc r (set_gpr (op_ra op) r s))"

section \<open>Shifts\<close>

definition ppu_SLW :: "bool \<Rightarrow> u32 \<Rightarrow> ppu \<Rightarrow> ppu" where
  "ppu_SLW rc op s =
     (let r = ucast (ucast (push_bit (unat (gpr s (op_rb op) AND 0x3f)) (gpr s (op_rs op))) :: u32)
      in rc_if rc r (set_gpr (op_ra op) r s))"

definition ppu_SRW :: "bool \<Rightarrow> u32 \<Rightarrow> ppu \<Rightarrow> ppu" where
  "ppu_SRW rc op s =
     (let r = drop_bit (unat (gpr s (op_rb op) AND 0x3f)) (gpr s (op_rs op) AND 0xffffffff)
      in rc_if rc r (set_gpr (op_ra op) r s))"

definition ppu_SLD :: "bool \<Rightarrow> u32 \<Rightarrow> ppu \<Rightarrow> ppu" where
  "ppu_SLD rc op s =
     (let n = gpr s (op_rb op) AND 0x7f;
          r = (if n AND 0x40 \<noteq> 0 then 0 else push_bit (unat n) (gpr s (op_rs op)))
      in rc_if rc r (set_gpr (op_ra op) r s))"

definition ppu_SRD :: "bool \<Rightarrow> u32 \<Rightarrow> ppu \<Rightarrow> ppu" where
  "ppu_SRD rc op s =
     (let n = gpr s (op_rb op) AND 0x7f;
          r = (if n AND 0x40 \<noteq> 0 then 0 else drop_bit (unat n) (gpr s (op_rs op)))
      in rc_if rc r (set_gpr (op_ra op) r s))"

definition ppu_SRAW :: "bool \<Rightarrow> u32 \<Rightarrow> ppu \<Rightarrow> ppu" where
  "ppu_SRAW rc op s =
     (let RS = ucast (gpr s (op_rs op)) :: u32; shift = unat (gpr s (op_rb op) AND 63);
          neg = sint RS < 0;
          r = (if shift > 31 then - of_bool neg else scast (signed_drop_bit shift RS)) :: u64;
          ca = (if shift > 31 then neg else neg \<and> push_bit shift r \<noteq> scast RS)
      in rc_if rc r (set_ca ca (set_gpr (op_ra op) r s)))"

definition ppu_SRAD :: "bool \<Rightarrow> u32 \<Rightarrow> ppu \<Rightarrow> ppu" where
  "ppu_SRAD rc op s =
     (let RS = gpr s (op_rs op); shift = unat (gpr s (op_rb op) AND 127);
          neg = sint RS < 0;
          r = (if shift > 63 then - of_bool neg else signed_drop_bit shift RS);
          ca = (if shift > 63 then neg else neg \<and> push_bit shift r \<noteq> RS)
      in rc_if rc r (set_ca ca (set_gpr (op_ra op) r s)))"

definition ppu_SRAWI :: "bool \<Rightarrow> u32 \<Rightarrow> ppu \<Rightarrow> ppu" where
  "ppu_SRAWI rc op s =
     (let RS = ucast (gpr s (op_rs op)) :: u32;
          r = scast (signed_drop_bit (op_sh32 op) RS) :: u64;
          ca = (sint RS < 0 \<and> (ucast (push_bit (op_sh32 op) r) :: u32) \<noteq> RS)
      in rc_if rc r (set_ca ca (set_gpr (op_ra op) r s)))"

definition ppu_SRADI :: "bool \<Rightarrow> u32 \<Rightarrow> ppu \<Rightarrow> ppu" where
  "ppu_SRADI rc op s =
     (let sh = op_sh64 op; RS = gpr s (op_rs op); r = signed_drop_bit sh RS;
          ca = (sint RS < 0 \<and> push_bit sh r \<noteq> RS)
      in rc_if rc r (set_ca ca (set_gpr (op_ra op) r s)))"

end
