(* ===== verification/Ppu_Arith.thy ===== *)
theory Ppu_Arith
  imports Ppu_Integer
begin

text \<open>
  The additions, subtractions, products and quotients of \<^theory_text>\<open>Ppu_Integer\<close> compute what the
  architecture defines: the result, the carry, the overflow and the condition register are stated
  over integers, without the word tricks of the code, for every instruction of a family at once.
\<close>

text \<open>The fields of an instruction word with target 3 and operands 4 and 5, for the examples below.\<close>

lemma op_345: "op_rd 0x7c642800 = 3" "op_rs 0x7c642800 = 3" "op_ra 0x7c642800 = 4" "op_rb 0x7c642800 = 5" "\<not> op_oe 0x7c642800"
  by (simp_all add: op_field_defs bf_defs mask_eq_exp_minus_1)

section \<open>Flags over integers\<close>

lemma add_flags_c_spec: "add_flags_c a b c = (a + b + of_bool c, 2 ^ 64 \<le> uint a + uint b + of_bool c)"
proof -
  have c: "uint (of_bool c :: u64) = of_bool c" by simp
  show ?thesis
    using uint_lt2p [of a] uint_lt2p [of b]
    by (auto simp: add_flags_c_def add_flags_def Let_def word_less_def uint_plus_if' c)
qed

lemma add_flags_spec: "add_flags a b = (a + b, 2 ^ 64 \<le> uint a + uint b)"
  using uint_lt2p [of a] uint_lt2p [of b]
  by (auto simp: add_flags_def word_less_def uint_plus_if')

lemma sint_split_uint: "sint (a::u64) = (if uint a < 2 ^ 63 then uint a else uint a - 2 ^ 64)"
proof -
  have "sint a = (uint a + 2 ^ 63) mod 2 ^ 64 - 2 ^ 63"
    by (simp add: sint_uint signed_take_bit_eq_take_bit_shift take_bit_eq_mod)
  moreover have "(uint a + 2 ^ 63) mod 2 ^ 64 = (if uint a < 2 ^ 63 then uint a + 2 ^ 63 else uint a - 2 ^ 63)"
    using uint_lt2p [of a] by (auto simp: mod_pos_pos_trivial mod_pos_geq)
  ultimately show ?thesis by simp
qed

lemma sign_bit: "drop_bit 63 (a::u64) = of_bool (sint a < 0)"
proof -
  have "drop_bit 63 a = of_bool (bit a 63)"
  proof (rule bit_eqI)
    fix n assume "possible_bit TYPE(u64) n"
    show "bit (drop_bit 63 a) n = bit (of_bool (bit a 63) :: u64) n"
      by (cases n) (auto simp: bit_simps dest: bit_imp_le_length)
  qed
  then show ?thesis using bit_last_iff [of a] by simp
qed

datatype add_insn = ADD | SUBF | ADDC | SUBFC | ADDE | SUBFE | ADDZE | SUBFZE | ADDME | SUBFME | NEG

fun exec_add :: "add_insn \<Rightarrow> bool \<Rightarrow> bool \<Rightarrow> u32 \<Rightarrow> ppu \<Rightarrow> ppu" where
  "exec_add ADD = ppu_ADD" | "exec_add SUBF = ppu_SUBF" | "exec_add ADDC = ppu_ADDC"
| "exec_add SUBFC = ppu_SUBFC" | "exec_add ADDE = ppu_ADDE" | "exec_add SUBFE = ppu_SUBFE"
| "exec_add ADDZE = ppu_ADDZE" | "exec_add SUBFZE = ppu_SUBFZE" | "exec_add ADDME = ppu_ADDME"
| "exec_add SUBFME = ppu_SUBFME" | "exec_add NEG = ppu_NEG"

text \<open>The three addends of each instruction in the architecture's definition.\<close>

fun addends :: "add_insn \<Rightarrow> u64 \<Rightarrow> u64 \<Rightarrow> bool \<Rightarrow> u64 \<times> u64 \<times> bool" where
  "addends ADD a b c = (a, b, False)" | "addends SUBF a b c = (NOT a, b, True)"
| "addends ADDC a b c = (a, b, False)" | "addends SUBFC a b c = (NOT a, b, True)"
| "addends ADDE a b c = (a, b, c)" | "addends SUBFE a b c = (NOT a, b, c)"
| "addends ADDZE a b c = (a, 0, c)" | "addends SUBFZE a b c = (NOT a, 0, c)"
| "addends ADDME a b c = (a, - 1, c)" | "addends SUBFME a b c = (NOT a, - 1, c)"
| "addends NEG a b c = (NOT a, 0, True)"

definition sets_carry :: "add_insn \<Rightarrow> bool" where
  "sets_carry i = (i \<notin> {ADD, SUBF, NEG})"

lemma ov_test_zero: "ov_test x 0 r = (drop_bit 63 x = 0 \<and> drop_bit 63 x \<noteq> drop_bit 63 r)"
  by (simp add: ov_test_def)

lemma ov_test_minus_one: "ov_test x (- 1) r = (drop_bit 63 x = 1 \<and> drop_bit 63 x \<noteq> drop_bit 63 r)"
  by (auto simp add: ov_test_def sign_bit)

lemma ov_test_neg: "ov_test (NOT x) 0 (- x) = (x = push_bit 63 1)"
proof -
  have "uint (- x) = (if x = 0 then 0 else 2 ^ 64 - uint x)"
    using uint_lt2p [of x] by (simp add: uint_word_arith_bintrs take_bit_eq_mod zmod_zminus1_eq_if unsigned_eq_0_iff)
  moreover have "uint (NOT x) = 2 ^ 64 - 1 - uint x"
    using uint_lt2p [of x] by (simp add: unsigned_not_eq take_bit_not_eq_mask_diff mask_eq_exp_minus_1 take_bit_int_eq_self)
  moreover have "x = push_bit 63 1 \<longleftrightarrow> uint x = 2 ^ 63"
    by (simp add: word_uint_eq_iff)
  ultimately show ?thesis
    using uint_lt2p [of x] uint_ge_0 [of x] by (auto simp: ov_test_def sign_bit sint_split_uint)
qed

lemma exec_add_normal:
  assumes "addends i (gpr s (op_ra op)) (gpr s (op_rb op)) (xer_ca s) = (x, y, c)"
  shows "exec_add i oe rc op s =
    (let r = x + y + of_bool c
     in rc_if rc r (ov_if oe (ov_test x y r) ((if sets_carry i then set_ca (2 ^ 64 \<le> uint x + uint y + of_bool c) else id)
          (set_gpr (op_rd op) r s))))"
  using assms
  by (cases i)
    (auto simp: Let_def sets_carry_def ppu_ADD_def ppu_SUBF_def ppu_ADDC_def ppu_SUBFC_def ppu_ADDE_def ppu_SUBFE_def
      ppu_ADDZE_def ppu_SUBFZE_def ppu_ADDME_def ppu_SUBFME_def ppu_NEG_def add_flags_c_spec add_flags_spec not_eq_complement
      ov_test_zero [symmetric] ov_test_minus_one [symmetric] ov_test_neg [unfolded not_eq_complement, simplified])

definition cr0_with :: "u64 \<Rightarrow> bool \<Rightarrow> (nat \<Rightarrow> u8) \<Rightarrow> nat \<Rightarrow> u8" where
  "cr0_with r so c = c(0 := of_bool (sint r < 0), 1 := of_bool (sint r > 0), 2 := of_bool (r = 0), 3 := of_bool so)"

lemma rc_if_cr: "rc_if rc r s = s\<lparr>cr := if rc then cr0_with r (xer_so s) (cr s) else cr s\<rparr>"
  by (simp add: rc_if_def cr_set_s_def ppu_cr_set_def cr0_with_def numeral_2_eq_2)

lemma ov_if_xer: "ov_if oe b s = s\<lparr>xer_ov := if oe then b else xer_ov s, xer_so := xer_so s \<or> oe \<and> b\<rparr>"
  by (simp add: ov_if_def ppu_ov_set_def)

lemma signed_overflow_int:
  fixes a b k M :: int
  assumes "0 \<le> a" "a < 2 * M" "0 \<le> b" "b < 2 * M" "0 \<le> k" "k \<le> 1"
    and "r = (if a + b + k < 2 * M then a + b + k else a + b + k - 2 * M)"
  shows "((a < M) = (b < M) \<and> (a < M) \<noteq> (r < M)) \<longleftrightarrow>
    (if a < M then a else a - 2 * M) + (if b < M then b else b - 2 * M) + k \<notin> {- M ..< M}"
  using assms by (cases "a < M"; cases "b < M"; cases "a + b + k < 2 * M") auto

lemma negative_iff: "sint (a::u64) < 0 \<longleftrightarrow> \<not> uint a < 2 ^ 63"
  using uint_lt2p [of a] uint_ge_0 [of a] by (auto simp: sint_split_uint)

lemma mod_once: "0 \<le> z \<Longrightarrow> z < 2 * N \<Longrightarrow> z mod N = (if z < N then z else z - (N::int))"
  using mod_pos_geq [of N z] mod_pos_pos_trivial [of "z - N" N] mod_pos_pos_trivial [of z N] by auto

lemma ov_test_signed:
  "ov_test x y (x + y + of_bool c) = (sint x + sint y + of_bool c \<notin> {- (2 ^ 63) ..< 2 ^ 63})"
proof -
  have m: "(uint x + uint y + of_bool c) mod 2 ^ 64 =
      (if uint x + uint y + of_bool c < 2 * 2 ^ 63 then uint x + uint y + of_bool c
       else uint x + uint y + of_bool c - 2 * 2 ^ 63)"
    using mod_once [of "uint x + uint y + of_bool c" "2 ^ 64"] uint_lt2p [of x] uint_lt2p [of y] by (cases c) simp_all
  have "uint (x + y + of_bool c) = (uint x + uint y + of_bool c) mod 2 ^ 64"
    by (cases c) (simp_all add: uint_word_arith_bintrs take_bit_eq_mod mod_simps)
  note s = signed_overflow_int [OF _ _ _ _ _ _ this [unfolded m]]
  have "ov_test x y (x + y + of_bool c) \<longleftrightarrow>
      (uint x < 2 ^ 63) = (uint y < 2 ^ 63) \<and> (uint x < 2 ^ 63) \<noteq> (uint (x + y + of_bool c) < 2 ^ 63)"
    unfolding ov_test_def sign_bit negative_iff of_bool_eq_iff by blast
  also have "\<dots> \<longleftrightarrow> sint x + sint y + of_bool c \<notin> {- (2 ^ 63) ..< 2 ^ 63}"
    unfolding sint_split_uint using uint_lt2p [of x] uint_lt2p [of y] by (subst s) simp_all
  finally show ?thesis .
qed

text \<open>
  Claim C2. The eleven additions and subtractions form the exact sum of their three addends: the target gets
  it modulo \<open>2 ^ 64\<close>, the carry says whether the unsigned sum left 64 bits, the overflow flags whether
  the signed sum did (the summary flag is sticky), the record form compares the result with zero,
  and nothing else changes.
\<close>

theorem add_subtract_exact:
  assumes "addends i (gpr s (op_ra op)) (gpr s (op_rb op)) (xer_ca s) = (x, y, c)"
    and "r = word_of_int (uint x + uint y + of_bool c)"
    and "ov = (sint x + sint y + of_bool c \<notin> {- (2 ^ 63) ..< 2 ^ 63})"
  shows "exec_add i oe rc op s = s\<lparr>gpr := (gpr s)(op_rd op := r),
      xer_ca := if sets_carry i then 2 ^ 64 \<le> uint x + uint y + of_bool c else xer_ca s,
      xer_ov := if oe then ov else xer_ov s, xer_so := xer_so s \<or> oe \<and> ov,
      cr := if rc then cr0_with r (xer_so s \<or> oe \<and> ov) (cr s) else cr s\<rparr>"
proof -
  have "r = x + y + of_bool c"
    unfolding assms(2) by (cases c) simp_all
  then show ?thesis
    unfolding exec_add_normal [OF assms(1)]
    by (simp add: Let_def ov_test_signed rc_if_cr ov_if_xer set_ca_def set_gpr_def assms(3))
qed

theorem add_subtract_exact_witness:
  "exec_add ADDE True True 0x7c642800 (ppu_default\<lparr>gpr := \<lambda>_. 2 ^ 63 - 1, xer_ca := True\<rparr>) =
     ppu_default\<lparr>gpr := (\<lambda>_. 2 ^ 63 - 1)(3 := - 1), xer_ca := False, xer_ov := True, xer_so := True,
       cr := (\<lambda>_. 0)(0 := 1, 3 := 1)\<rparr>"
  using add_subtract_exact [of ADDE "ppu_default\<lparr>gpr := \<lambda>_. 2 ^ 63 - 1, xer_ca := True\<rparr>" "0x7c642800"
      "2 ^ 63 - 1" "2 ^ 63 - 1" True "- 1" True True True]
  by (auto simp: op_345 ppu_default_def sets_carry_def cr0_with_def fun_eq_iff)

section \<open>Products\<close>

lemma sint_bounds: "- (2 ^ (LENGTH('a) - 1)) \<le> sint (w::'a::len word)" "sint w < 2 ^ (LENGTH('a) - 1)"
  using sint_greater_eq [of w] sint_lt [of w] by auto

lemma product_bounds:
  fixes a b M :: int
  assumes "- M \<le> a" "a < M" "- M \<le> b" "b < M"
  shows "\<bar>a * b\<bar> \<le> M * M"
proof -
  have "\<bar>a\<bar> * \<bar>b\<bar> \<le> M * M" using assms by (intro mult_mono) auto
  then show ?thesis by (simp add: abs_mult)
qed

lemma sint_of_int_exact:
  "- (2 ^ (LENGTH('a) - 1)) \<le> z \<Longrightarrow> z < 2 ^ (LENGTH('a) - 1) \<Longrightarrow> sint (word_of_int z :: 'a::len word) = z"
  by (simp add: signed_of_int signed_take_bit_int_eq_self)

lemma scast_product:
  assumes "LENGTH('b) = 2 * LENGTH('a)"
  shows "sint (scast (a::'a::len word) * scast (b::'a word) :: 'b::len word) = sint a * sint b"
proof -
  define M :: int where "M = 2 ^ (LENGTH('a) - 1)"
  have "\<bar>sint a * sint b\<bar> \<le> M * M"
    unfolding M_def by (rule product_bounds) (rule sint_bounds)+
  moreover have "M * M < 2 ^ (LENGTH('b) - 1)"
    unfolding M_def power_add [symmetric] using assms by (intro power_strict_increasing) (cases "LENGTH('a)"; simp)+
  ultimately have "sint (word_of_int (sint a * sint b) :: 'b word) = sint a * sint b"
    by (intro sint_of_int_exact) (auto simp: abs_le_iff)
  then show ?thesis by (simp only: of_int_mult of_int_sint)
qed

lemma ucast_product:
  assumes "LENGTH('b) = 2 * LENGTH('a)"
  shows "uint (ucast (a::'a::len word) * ucast (b::'a word) :: 'b::len word) = uint a * uint b"
proof -
  have "uint a * uint b < 2 ^ LENGTH('a) * 2 ^ LENGTH('a)"
    by (intro mult_strict_mono) auto
  then have "uint a * uint b < 2 ^ LENGTH('b)"
    unfolding assms by (simp add: mult_2 power_add)
  moreover have "ucast a * ucast b = (word_of_int (uint a * uint b) :: 'b word)"
    by simp
  ultimately show ?thesis by (simp only: unsigned_of_int) (simp add: take_bit_int_eq_self)
qed

lemma umulh64_high: "uint (umulh64 x y) = uint x * uint y div 2 ^ 64"
proof -
  have "uint (umulh64 x y) = take_bit 64 (drop_bit 64 (uint (ucast x * ucast y :: u128)))"
    unfolding umulh64_def unsigned_ucast_eq unsigned_drop_bit_eq by (simp add: bintr_uint)
  also have "\<dots> = take_bit 64 (uint x * uint y div 2 ^ 64)"
    by (subst ucast_product) (simp_all add: drop_bit_eq_div)
  also have "\<dots> = uint x * uint y div 2 ^ 64"
  proof (rule take_bit_int_eq_self)
    have "uint x * uint y < 2 ^ 64 * 2 ^ 64"
      using uint_lt2p [of x] uint_lt2p [of y] by (intro mult_strict_mono) auto
    then show "uint x * uint y div 2 ^ 64 < 2 ^ 64" by simp
  qed (simp add: pos_imp_zdiv_nonneg_iff)
  finally show ?thesis .
qed

lemma sint_ucast_exact:
  fixes w :: "'a::len word"
  assumes "LENGTH('b) \<le> LENGTH('a)" "- (2 ^ (LENGTH('b) - 1)) \<le> sint w" "sint w < 2 ^ (LENGTH('b) - 1)"
  shows "sint (ucast w :: 'b::len word) = sint w"
proof -
  have "ucast w = (word_of_int (sint w) :: 'b word)"
    using assms(1) by (intro bit_word_eqI) (auto simp: bit_simps bit_sint_iff)
  then show ?thesis by (simp only: sint_of_int_exact [OF assms(2,3)])
qed

lemma sint_signed_drop_bit: "sint (signed_drop_bit n (w::'a::len word)) = sint w div 2 ^ n"
  by (simp add: sint_signed_drop_bit_eq drop_bit_eq_div)

lemma mulh64_high: "sint (mulh64 x y) = sint x * sint y div 2 ^ 64"
proof -
  have p: "sint (scast x * scast y :: u128) = sint x * sint y"
    by (rule scast_product) simp
  have "\<bar>sint x * sint y\<bar> \<le> 2 ^ 63 * 2 ^ 63"
    using sint_bounds [of x] sint_bounds [of y] by (intro product_bounds) auto
  then have "- (2 ^ 63) \<le> sint x * sint y div 2 ^ 64" "sint x * sint y div 2 ^ 64 < 2 ^ 63"
    by (auto simp: abs_le_iff)
  then show ?thesis
    unfolding mulh64_def by (subst sint_ucast_exact) (simp_all add: sint_signed_drop_bit p)
qed

lemma low_product: "sint (x * y :: u64) = sint x * sint y - 2 ^ 64 * ((sint x * sint y + 2 ^ 63) div 2 ^ 64)"
proof -
  have "x * y = word_of_int (sint x * sint y)" by (simp add: of_int_sint)
  then have "sint (x * y) = (sint x * sint y + 2 ^ 63) mod 2 ^ 64 - 2 ^ 63"
    by (simp only: signed_of_int) (simp add: signed_take_bit_eq_take_bit_shift take_bit_eq_mod)
  then show ?thesis by (simp add: minus_mult_div_eq_mod [symmetric])
qed

lemma div_near_zero: "- M \<le> r \<Longrightarrow> r < M \<Longrightarrow> r div M = - of_bool (r < (0::int))"
  using div_pos_pos_trivial [of r M] div_pos_neg_trivial [of "- r" "- M"] zdiv_eq_0_iff [of "r + M" M] by force

lemma mulld_overflow:
  "mulh64 x y \<noteq> signed_drop_bit 63 (x * y) \<longleftrightarrow> sint x * sint y \<notin> {- (2 ^ 63) ..< 2 ^ 63}"
proof -
  define p q where "p = sint x * sint y" and "q = (p + 2 ^ 63) div 2 ^ 64"
  have "mulh64 x y \<noteq> signed_drop_bit 63 (x * y) \<longleftrightarrow> p div 2 ^ 64 \<noteq> (p - 2 ^ 64 * q) div 2 ^ 63"
    by (simp add: word_eq_iff_signed [where 'a = int] mulh64_high sint_signed_drop_bit low_product p_def q_def)
  moreover have "q = 0 \<longleftrightarrow> p \<in> {- (2 ^ 63) ..< 2 ^ 63}"
    unfolding q_def by auto
  moreover have "p div 2 ^ 64 = (p - 2 ^ 64 * q) div 2 ^ 63 \<longleftrightarrow> q = 0"
  proof -
    define r where "r = p - 2 ^ 64 * q"
    have "r = (p + 2 ^ 63) mod 2 ^ 64 - 2 ^ 63"
      unfolding r_def q_def by (simp add: minus_mult_div_eq_mod [symmetric])
    then have "- (2 ^ 63) \<le> r" "r < 2 ^ 63"
      using pos_mod_bound [of "2 ^ 64" "p + 2 ^ 63"] pos_mod_sign [of "2 ^ 64" "p + 2 ^ 63"] by simp_all
    then have "r div 2 ^ 64 = - of_bool (r < 0)" "r div 2 ^ 63 = - of_bool (r < 0)"
      by (simp_all add: div_near_zero)
    moreover have "p div 2 ^ 64 = q + r div 2 ^ 64"
      unfolding r_def by simp
    ultimately show ?thesis unfolding r_def [symmetric] by simp
  qed
  ultimately show ?thesis unfolding p_def by blast
qed

datatype mul_insn = MULLW | MULLD | MULHW | MULHWU | MULHD | MULHDU

fun exec_mul :: "mul_insn \<Rightarrow> bool \<Rightarrow> u32 \<Rightarrow> ppu \<Rightarrow> ppu" where
  "exec_mul MULLW rc op = ppu_MULLW (op_oe op) rc op" | "exec_mul MULLD rc op = ppu_MULLD rc op"
| "exec_mul MULHW rc op = ppu_MULHW rc op" | "exec_mul MULHWU rc op = ppu_MULHWU rc op"
| "exec_mul MULHD rc op = ppu_MULHD rc op" | "exec_mul MULHDU rc op = ppu_MULHDU rc op"

text \<open>The integer whose lowest 64 bits an instruction delivers, and the range that raises no overflow.\<close>

abbreviation lo32 :: "u64 \<Rightarrow> u32" where
  "lo32 \<equiv> ucast"

fun product :: "mul_insn \<Rightarrow> u64 \<Rightarrow> u64 \<Rightarrow> int" where
  "product MULLW a b = sint (lo32 a) * sint (lo32 b)" | "product MULLD a b = sint a * sint b"
| "product MULHW a b = sint (lo32 a) * sint (lo32 b) div 2 ^ 32"
| "product MULHWU a b = uint (lo32 a) * uint (lo32 b) div 2 ^ 32"
| "product MULHD a b = sint a * sint b div 2 ^ 64" | "product MULHDU a b = uint a * uint b div 2 ^ 64"

fun mul_width :: "mul_insn \<Rightarrow> nat" where
  "mul_width MULLW = 32" | "mul_width MULLD = 64" | "mul_width _ = 0"

definition mul_overflow :: "mul_insn \<Rightarrow> int \<Rightarrow> bool" where
  "mul_overflow i p = (0 < mul_width i \<and> p \<notin> {- (2 ^ (mul_width i - 1)) ..< 2 ^ (mul_width i - 1)})"

lemma word_of_int_sint: "sint w = z \<Longrightarrow> w = word_of_int z"
  by (metis of_int_sint scast_id)

lemma word_of_int_uint: "uint w = z \<Longrightarrow> w = word_of_int z"
  by (metis word_of_int_uint)

lemma not_in_range: "(p < - M \<or> p > M - 1) = (p \<notin> {- M ..< (M::int)})"
  by auto

lemma uint_drop_bit: "uint (drop_bit n (w::'a::len word)) = uint w div 2 ^ n"
  unfolding unsigned_drop_bit_eq by (simp add: bintr_uint drop_bit_eq_div)

lemmas set_defs = Let_def rc_if_cr ov_if_xer set_ca_def set_gpr_def

text \<open>
  Claim C34. The six products deliver the low or the high part of the exact product of the operands they read,
  and \<open>mullw\<close> and \<open>mulld\<close> with overflow recording raise the flags exactly when the signed product
  leaves 32 or 64 bits.
\<close>

theorem multiply_exact:
  assumes "p = product i (gpr s (op_ra op)) (gpr s (op_rb op))"
    and "ov = (op_oe op \<and> mul_overflow i p)"
  shows "exec_mul i rc op s = s\<lparr>gpr := (gpr s)(op_rd op := word_of_int p),
      xer_ov := if op_oe op \<and> 0 < mul_width i then ov else xer_ov s, xer_so := xer_so s \<or> ov,
      cr := if rc then cr0_with (word_of_int p) (xer_so s \<or> ov) (cr s) else cr s\<rparr>"
proof (cases i)
  case MULLW
  have "sint (scast (lo32 (gpr s (op_ra op))) * scast (lo32 (gpr s (op_rb op))) :: u64) = p"
    by (subst scast_product) (simp_all add: assms(1) MULLW)
  moreover note word_of_int_sint [OF this]
  ultimately show ?thesis
    using not_in_range [of p "2 ^ 31"] by (simp add: MULLW ppu_MULLW_def set_defs assms(2) mul_overflow_def)
next
  case MULLD
  have "gpr s (op_ra op) * gpr s (op_rb op) = word_of_int p"
    by (simp add: assms(1) MULLD)
  then show ?thesis
    using mulld_overflow [of "gpr s (op_ra op)" "gpr s (op_rb op)"] assms(1)
    by (simp add: MULLD ppu_MULLD_def set_defs assms(2) mul_overflow_def)
next
  case MULHW
  have "sint (scast (lo32 (gpr s (op_ra op))) * scast (lo32 (gpr s (op_rb op))) :: u64) = sint (lo32 (gpr s (op_ra op))) * sint (lo32 (gpr s (op_rb op)))"
    by (rule scast_product) simp
  then have "sint (signed_drop_bit 32 (scast (lo32 (gpr s (op_ra op))) * scast (lo32 (gpr s (op_rb op))) :: u64)) = p"
    unfolding sint_signed_drop_bit by (simp only: assms(1) MULHW product.simps)
  from word_of_int_sint [OF this] show ?thesis
    by (simp add: MULHW ppu_MULHW_def set_defs assms(2) mul_overflow_def)
next
  case MULHWU
  have "uint (ucast (lo32 (gpr s (op_ra op))) * ucast (lo32 (gpr s (op_rb op))) :: u64) = uint (lo32 (gpr s (op_ra op))) * uint (lo32 (gpr s (op_rb op)))"
    by (rule ucast_product) simp
  then have "uint (drop_bit 32 (ucast (lo32 (gpr s (op_ra op))) * ucast (lo32 (gpr s (op_rb op))) :: u64)) = p"
    unfolding uint_drop_bit by (simp only: assms(1) MULHWU product.simps)
  from word_of_int_uint [OF this] show ?thesis
    by (simp add: MULHWU ppu_MULHWU_def set_defs assms(2) mul_overflow_def)
next
  case MULHD
  from word_of_int_sint [OF mulh64_high [of "gpr s (op_ra op)" "gpr s (op_rb op)"]] show ?thesis
    by (simp add: MULHD ppu_MULHD_def set_defs assms mul_overflow_def)
next
  case MULHDU
  from word_of_int_uint [OF umulh64_high [of "gpr s (op_ra op)" "gpr s (op_rb op)"]] show ?thesis
    by (simp add: MULHDU ppu_MULHDU_def set_defs assms mul_overflow_def)
qed

theorem multiply_exact_witness:
  "exec_mul MULHD True 0x7c642800 (ppu_default\<lparr>gpr := (\<lambda>_. 0)(4 := - 5, 5 := 2 ^ 62)\<rparr>) =
     ppu_default\<lparr>gpr := (\<lambda>_. 0)(3 := - 2, 4 := - 5, 5 := 2 ^ 62), cr := (\<lambda>_. 0)(0 := 1)\<rparr>"
  using multiply_exact [of "- 2" MULHD "ppu_default\<lparr>gpr := (\<lambda>_. 0)(4 := - 5, 5 := 2 ^ 62)\<rparr>" "0x7c642800" False True]
  by (auto simp: op_345 ppu_default_def mul_overflow_def cr0_with_def fun_eq_iff)

section \<open>Quotients\<close>

text \<open>Division rounding towards zero.\<close>

definition quot0 :: "int \<Rightarrow> int \<Rightarrow> int" where
  "quot0 n d = (let q = \<bar>n\<bar> div \<bar>d\<bar> in if (n < 0) = (d < 0) then q else - q)"

lemma quot0_sgn: "quot0 n d = sgn n * sgn d * (\<bar>n\<bar> div \<bar>d\<bar>)"
  by (cases "n = 0"; cases "d = 0") (auto simp: quot0_def Let_def sgn_if)

lemma quot0_unsigned: "0 \<le> a \<Longrightarrow> 0 \<le> b \<Longrightarrow> quot0 a b = a div b"
  by (cases "a = 0"; cases "b = 0") (simp_all add: quot0_sgn)

text \<open>The quotient times the divisor is the dividend but for a remainder of the dividend's sign.\<close>

lemma quot0_remainder:
  assumes "b \<noteq> 0"
  obtains m where "a = quot0 a b * b + sgn a * m" "0 \<le> m" "m < \<bar>b\<bar>"
proof
  have "\<bar>a\<bar> = \<bar>a\<bar> div \<bar>b\<bar> * \<bar>b\<bar> + \<bar>a\<bar> mod \<bar>b\<bar>" by simp
  then have "sgn a * \<bar>a\<bar> = sgn a * (\<bar>a\<bar> div \<bar>b\<bar> * \<bar>b\<bar>) + sgn a * (\<bar>a\<bar> mod \<bar>b\<bar>)"
    by (metis distrib_left)
  then show "a = quot0 a b * b + sgn a * (\<bar>a\<bar> mod \<bar>b\<bar>)"
    by (cases "a = 0") (simp_all add: quot0_sgn sgn_mult_abs mult.assoc mult.left_commute mult.commute abs_sgn)
  show "0 \<le> \<bar>a\<bar> mod \<bar>b\<bar>" "\<bar>a\<bar> mod \<bar>b\<bar> < \<bar>b\<bar>" using assms by simp_all
qed

lemma div_le_self: "0 \<le> a \<Longrightarrow> 0 < b \<Longrightarrow> a div b \<le> (a::int)"
  using zdiv_mono2 [of a 1 b] by simp

lemma quot0_bound: "\<bar>quot0 a b\<bar> \<le> \<bar>a\<bar>"
  by (cases "b = 0"; cases "a = 0") (auto simp: quot0_sgn abs_mult abs_sgn_eq pos_imp_zdiv_nonneg_iff div_le_self)

lemma quot0_overflow:
  assumes "- M \<le> a" "a < M" "0 < M" "b \<noteq> 0"
  shows "quot0 a b \<notin> {- M ..< M} \<longleftrightarrow> a = - M \<and> b = - 1"
proof (cases "a = - M \<and> b = - 1")
  case True
  then show ?thesis using assms by (simp add: quot0_sgn sgn_if)
next
  case False
  have "\<bar>quot0 a b\<bar> < M \<or> quot0 a b = - M"
  proof (cases "\<bar>a\<bar> < M")
    case True
    then show ?thesis using quot0_bound [of a b] by linarith
  next
    case abs: False
    then have a: "a = - M" using assms by linarith
    then have "b \<noteq> - 1" using False by simp
    show ?thesis
    proof (cases "b = 1")
      case True
      then show ?thesis using a assms by (simp add: quot0_sgn sgn_if)
    next
      case b: False
      then have "1 < \<bar>b\<bar>" using \<open>b \<noteq> - 1\<close> assms(4) by linarith
      then have "\<bar>a\<bar> div \<bar>b\<bar> < M" using a assms by (simp add: int_div_less_self)
      then have "\<bar>quot0 a b\<bar> < M"
        using assms a by (simp add: quot0_sgn abs_mult abs_sgn_eq pos_imp_zdiv_nonneg_iff)
      then show ?thesis ..
    qed
  qed
  then show ?thesis using False assms by auto
qed

datatype div_insn = DIVD | DIVDU | DIVW | DIVWU

fun exec_div :: "div_insn \<Rightarrow> bool \<Rightarrow> bool \<Rightarrow> u32 \<Rightarrow> ppu \<Rightarrow> ppu" where
  "exec_div DIVD = ppu_DIVD" | "exec_div DIVDU = ppu_DIVDU" | "exec_div DIVW = ppu_DIVW"
| "exec_div DIVWU = ppu_DIVWU"

fun div_operand :: "div_insn \<Rightarrow> u64 \<Rightarrow> int" where
  "div_operand DIVD a = sint a" | "div_operand DIVDU a = uint a"
| "div_operand DIVW a = sint (lo32 a)" | "div_operand DIVWU a = uint (lo32 a)"

fun div_range :: "div_insn \<Rightarrow> int set" where
  "div_range DIVD = {- (2 ^ 63) ..< 2 ^ 63}" | "div_range DIVDU = {0 ..< 2 ^ 64}"
| "div_range DIVW = {- (2 ^ 31) ..< 2 ^ 31}" | "div_range DIVWU = {0 ..< 2 ^ 32}"

fun div_width :: "div_insn \<Rightarrow> nat" where
  "div_width DIVD = 64" | "div_width DIVDU = 64" | "div_width DIVW = 32" | "div_width DIVWU = 32"

lemma min_word: "(w::'a::len word) = push_bit (LENGTH('a) - 1) 1 \<longleftrightarrow> sint w = - (2 ^ (LENGTH('a) - 1))"
proof -
  have "push_bit (LENGTH('a) - 1) 1 = (word_of_int (- (2 ^ (LENGTH('a) - 1))) :: 'a word)"
    by (intro bit_word_eqI) (auto simp: bit_simps simp flip: mask_eq_exp_minus_1)
  moreover have "sint (word_of_int (- (2 ^ (LENGTH('a) - 1))) :: 'a word) = - (2 ^ (LENGTH('a) - 1))"
    by (rule sint_of_int_exact) simp_all
  ultimately show ?thesis by (metis word_of_int_sint)
qed

lemma minus_one_word: "(w::'a::len word) = - 1 \<longleftrightarrow> sint w = - 1"
  by (metis word_of_int_sint of_int_minus of_int_1 signed_minus_1)

lemma sdiv_overflow:
  fixes a b :: "'a::len word"
  assumes "b \<noteq> 0"
  shows "a = push_bit (LENGTH('a) - 1) 1 \<and> b = - 1 \<longleftrightarrow>
    quot0 (sint a) (sint b) \<notin> {- (2 ^ (LENGTH('a) - 1)) ..< 2 ^ (LENGTH('a) - 1)}"
  unfolding min_word minus_one_word
  using assms sint_bounds [of a] by (subst quot0_overflow) (simp_all add: signed_eq_0_iff)

lemma sdiv_trunc: "sdiv a b = word_of_int (quot0 (sint a) (sint b))"
  by (simp only: sdiv_def quot0_sgn)

lemma div_trunc: "(a::'a::len word) div b = word_of_int (quot0 (uint a) (uint b))"
  by (simp add: quot0_unsigned word_div_def)

lemma ucast_of_int: "LENGTH('a) \<le> LENGTH('b) \<Longrightarrow> ucast (word_of_int z :: 'a::len word) = (word_of_int (take_bit LENGTH('a) z) :: 'b::len word)"
  by (intro bit_word_eqI) (auto simp: bit_simps)

lemma udiv_in_range: "b \<noteq> 0 \<Longrightarrow> 0 \<le> quot0 (uint (a::'a::len word)) (uint b) \<and> quot0 (uint a) (uint b) < 2 ^ LENGTH('a)"
  using div_le_self [of "uint a" "uint b"] uint_lt2p [of a] uint_ge_0 [of b] unsigned_eq_0_iff [of b, where 'a = int]
  by (simp add: quot0_unsigned pos_imp_zdiv_nonneg_iff less_le)

text \<open>
  Claim C18. The four divisions round towards zero; a zero divisor or the one unrepresentable quotient
  gives zero and the overflow flags, and the 32-bit forms zero-extend their quotient.
\<close>

theorem divide_exact:
  assumes "a = div_operand i (gpr s (op_ra op))" and "b = div_operand i (gpr s (op_rb op))"
    and "ov = (b = 0 \<or> quot0 a b \<notin> div_range i)"
    and "r = (if ov then 0 else word_of_int (take_bit (div_width i) (quot0 a b)))"
  shows "exec_div i oe rc op s = s\<lparr>gpr := (gpr s)(op_rd op := r),
      xer_ov := if oe then ov else xer_ov s, xer_so := xer_so s \<or> oe \<and> ov,
      cr := if rc then cr0_with r (xer_so s \<or> oe \<and> ov) (cr s) else cr s\<rparr>"
proof (cases i)
  case DIVD
  have "(gpr s (op_rb op) = 0 \<or> gpr s (op_ra op) = push_bit 63 1 \<and> gpr s (op_rb op) = - 1) = ov"
    using sdiv_overflow [of "gpr s (op_rb op)" "gpr s (op_ra op)"] assms DIVD
    by (auto simp: signed_eq_0_iff)
  moreover have "r = (if ov then 0 else sdiv (gpr s (op_ra op)) (gpr s (op_rb op)))"
    unfolding assms(4) sdiv_trunc using assms(1,2) DIVD ucast_of_int [where 'a = 64 and 'b = 64, of "quot0 a b"] by simp
  ultimately show ?thesis by (simp add: DIVD ppu_DIVD_def set_defs)
next
  case DIVDU
  have "(gpr s (op_rb op) = 0) = ov"
    using udiv_in_range [of "gpr s (op_rb op)" "gpr s (op_ra op)"] assms DIVDU
    by (auto simp: unsigned_eq_0_iff)
  moreover have "r = (if ov then 0 else gpr s (op_ra op) div gpr s (op_rb op))"
    unfolding assms(4) div_trunc using assms(1,2) DIVDU ucast_of_int [where 'a = 64 and 'b = 64, of "quot0 a b"] by simp
  ultimately show ?thesis by (simp add: DIVDU ppu_DIVDU_def set_defs)
next
  case DIVW
  let ?a = "lo32 (gpr s (op_ra op))" and ?b = "lo32 (gpr s (op_rb op))"
  have "(?b = 0 \<or> ?a = push_bit 31 1 \<and> ?b = - 1) = ov"
    using sdiv_overflow [of ?b ?a] assms DIVW by (auto simp: signed_eq_0_iff)
  moreover have "r = (if ov then 0 else ucast (sdiv ?a ?b))"
    unfolding assms(4) sdiv_trunc using assms(1,2) DIVW by (simp add: ucast_of_int)
  ultimately show ?thesis by (simp add: DIVW ppu_DIVW_def set_defs)
next
  case DIVWU
  let ?a = "lo32 (gpr s (op_ra op))" and ?b = "lo32 (gpr s (op_rb op))"
  have "(?b = 0) = ov"
    using udiv_in_range [of ?b ?a] assms DIVWU by (auto simp: unsigned_eq_0_iff)
  moreover have "r = (if ov then 0 else ucast (?a div ?b))"
    unfolding assms(4) div_trunc using assms(1,2) DIVWU by (simp add: ucast_of_int)
  ultimately show ?thesis by (simp add: DIVWU ppu_DIVWU_def set_defs)
qed

theorem divide_exact_witness:
  "exec_div DIVW True False 0x7c642800 (ppu_default\<lparr>gpr := (\<lambda>_. 0)(4 := - 7, 5 := 2)\<rparr>) =
     ppu_default\<lparr>gpr := (\<lambda>_. 0)(4 := - 7, 5 := 2, 3 := 0xfffffffd)\<rparr>"
proof -
  let ?s = "ppu_default\<lparr>gpr := (\<lambda>_. 0)(4 := - 7, 5 := 2)\<rparr>"
  have "- 7 = div_operand DIVW (gpr ?s (op_ra 0x7c642800))" "2 = div_operand DIVW (gpr ?s (op_rb 0x7c642800))"
    by (simp_all add: op_345)
  moreover have "False = (2 = (0::int) \<or> quot0 (- 7) 2 \<notin> div_range DIVW)"
    by (simp add: quot0_sgn)
  moreover have "(0xfffffffd :: u64) = (if False then 0 else word_of_int (take_bit (div_width DIVW) (quot0 (- 7) 2)))"
    by (simp add: quot0_sgn)
  ultimately have "exec_div DIVW True False 0x7c642800 ?s = ?s\<lparr>gpr := (gpr ?s)(op_rd 0x7c642800 := 0xfffffffd),
      xer_ov := if True then False else xer_ov ?s, xer_so := xer_so ?s \<or> True \<and> False,
      cr := if False then cr0_with 0xfffffffd (xer_so ?s \<or> True \<and> False) (cr ?s) else cr ?s\<rparr>"
    by (rule divide_exact)
  then show ?thesis by (simp add: op_345 ppu_default_def)
qed

end
