(* ===== verification/Ppu_Shift.thy ===== *)
theory Ppu_Shift
  imports Ppu_Arith
begin

text \<open>
  The rotates and shifts of \<^theory_text>\<open>Ppu_Integer\<close>. A rotate is described bit by bit: inside the mask a bit
  of the rotated source, outside it zero or the old value; a shift is a product or a floored
  quotient by a power of two, and the carry of an arithmetic one says whether a negative value lost
  a one.
\<close>

section \<open>Rotates\<close>

lemma and_mask_mod:
  assumes "k \<le> LENGTH('a)"
  shows "unat (word_of_int z AND mask k :: 'a::len word) = nat (z mod 2 ^ k)"
proof -
  have "uint (take_bit k (word_of_int z :: 'a word)) = take_bit k z"
    using assms by (simp add: unsigned_take_bit_eq uint_word_of_int_eq min_def)
  then have "uint (word_of_int z AND mask k :: 'a word) = z mod 2 ^ k"
    by (simp only: take_bit_eq_mask) (simp add: take_bit_eq_mod flip: take_bit_eq_mask)
  then show ?thesis by (metis unat_eq_nat_uint)
qed

lemma neg_mod: "n < M \<Longrightarrow> nat ((- int n) mod int M) = (if n = 0 then 0 else M - n)"
  by (auto simp: zmod_zminus1_eq_if)

lemma bit_rol64: "n < 64 \<Longrightarrow> j < 64 \<Longrightarrow> bit (rol64 x (of_nat n)) j = bit x ((j + 64 - n) mod 64)"
proof -
  assume *: "n < 64" "j < 64"
  have "unat (of_nat n AND 63 :: u64) = n"
    using and_mask_mod [of 6 "int n", where 'a = 64] * by (simp add: mask_eq_exp_minus_1)
  moreover have "unat ((0 - of_nat n) AND 63 :: u64) = (if n = 0 then 0 else 64 - n)"
    using and_mask_mod [of 6 "- int n", where 'a = 64] neg_mod [of n 64] * by (simp add: mask_eq_exp_minus_1)
  moreover have "(j + 64 - n) mod 64 = (if n \<le> j then j - n else j + 64 - n)"
    using * by (auto simp: mod_if)
  ultimately show ?thesis
    using * by (auto simp: rol64_def bit_simps add.commute dest: bit_imp_le_length)
qed

lemma bit_rol32: "n < 32 \<Longrightarrow> j < 32 \<Longrightarrow> bit (rol32 x (of_nat n)) j = bit x ((j + 32 - n) mod 32)"
proof -
  assume *: "n < 32" "j < 32"
  have "unat (of_nat n AND 31 :: u32) = n"
    using and_mask_mod [of 5 "int n", where 'a = 32] * by (simp add: mask_eq_exp_minus_1)
  moreover have "unat ((0 - of_nat n) AND 31 :: u32) = (if n = 0 then 0 else 32 - n)"
    using and_mask_mod [of 5 "- int n", where 'a = 32] neg_mod [of n 32] * by (simp add: mask_eq_exp_minus_1)
  moreover have "(j + 32 - n) mod 32 = (if n \<le> j then j - n else j + 32 - n)"
    using * by (auto simp: mod_if)
  ultimately show ?thesis
    using * by (auto simp: rol32_def bit_simps add.commute dest: bit_imp_le_length)
qed

lemma bit_dup32: "j < 64 \<Longrightarrow> bit (dup32 x) j = bit x (j mod 32)"
  by (auto simp: dup32_def bit_simps mod_if dest: bit_imp_le_length)

lemma xor_63: "n < 64 \<Longrightarrow> n XOR 63 = 63 - (n::nat)"
proof -
  assume n: "n < 64"
  have "\<forall>n \<in> set [0 ..< 64]. n XOR 63 = 63 - (n::nat)" by code_simp
  with n show ?thesis by simp
qed

datatype rot_insn = RLWIMI | RLWINM | RLWNM | RLDICL | RLDICR | RLDIC | RLDIMI | RLDCL | RLDCR

fun exec_rot :: "rot_insn \<Rightarrow> bool \<Rightarrow> u32 \<Rightarrow> ppu \<Rightarrow> ppu" where
  "exec_rot RLWIMI = ppu_RLWIMI" | "exec_rot RLWINM = ppu_RLWINM" | "exec_rot RLWNM = ppu_RLWNM"
| "exec_rot RLDICL = ppu_RLDICL" | "exec_rot RLDICR = ppu_RLDICR" | "exec_rot RLDIC = ppu_RLDIC"
| "exec_rot RLDIMI = ppu_RLDIMI" | "exec_rot RLDCL = ppu_RLDCL" | "exec_rot RLDCR = ppu_RLDCR"

text \<open>
  The amount of the rotation, the bits of the mask (counted from the most significant bit), whether
  the rotated value is a doubled word, and whether the other bits keep the target's old value.
\<close>

definition rot_word :: "rot_insn \<Rightarrow> bool" where
  "rot_word i = (i \<in> {RLWIMI, RLWINM, RLWNM})"

definition rot_inserts :: "rot_insn \<Rightarrow> bool" where
  "rot_inserts i = (i \<in> {RLWIMI, RLDIMI})"

definition rot_amount :: "rot_insn \<Rightarrow> u32 \<Rightarrow> u64 \<Rightarrow> nat" where
  "rot_amount i op b =
     (if i = RLWNM then unat b mod 32 else if i \<in> {RLDCL, RLDCR} then unat b mod 64
      else if rot_word i then op_sh32 op else op_sh64 op)"

definition rot_first :: "rot_insn \<Rightarrow> u32 \<Rightarrow> nat" where
  "rot_first i op =
     (if rot_word i then 32 + op_mb32 op else if i \<in> {RLDICR, RLDCR} then 0 else op_mbe64 op)"

definition rot_last :: "rot_insn \<Rightarrow> u32 \<Rightarrow> nat" where
  "rot_last i op =
     (if rot_word i then 32 + op_me32 op else if i \<in> {RLDICL, RLDCL} then 63
      else if i \<in> {RLDICR, RLDCR} then op_mbe64 op else 63 - op_sh64 op)"

definition rot_bit :: "rot_insn \<Rightarrow> u64 \<Rightarrow> nat \<Rightarrow> nat \<Rightarrow> bool" where
  "rot_bit i x n j =
     (if rot_word i then bit x ((j mod 32 + 32 - n) mod 32) else bit x ((j + 64 - n) mod 64))"

lemma mask_word:
  "j < 64 \<Longrightarrow> bit (ppu_rotate_mask (32 + of_nat (op_mb32 op)) (32 + of_nat (op_me32 op))) (63 - j) =
     in_rotate_mask (32 + op_mb32 op) (32 + op_me32 op) j"
  using bit_rotate_mask [of "32 + op_mb32 op" "32 + op_me32 op" j] field5 [of op] by simp

lemma mask_dword:
  "j < 64 \<Longrightarrow> bit (ppu_rotate_mask (of_nat (op_mbe64 op)) (of_nat (op_sh64 op XOR 63))) (63 - j) =
     in_rotate_mask (op_mbe64 op) (63 - op_sh64 op) j"
  unfolding xor_63 [OF field6(1)] by (rule bit_rotate_mask) (simp_all add: less_Suc_eq_le)

lemma mask_left: "j < 64 \<Longrightarrow> bit (mask (64 - op_mbe64 op) :: u64) (63 - j) = in_rotate_mask (op_mbe64 op) 63 j"
  using field6(2) [of op] by (auto simp: in_rotate_mask_def bit_simps simp del: field6)

lemma mask_right: "j < 64 \<Longrightarrow> bit (mask (op_mbe64 op XOR 63) :: u64) (63 - j) = (\<not> in_rotate_mask 0 (op_mbe64 op) j)"
  using field6(2) [of op] by (auto simp: in_rotate_mask_def xor_63 bit_simps simp del: field6)

lemma rotated_word:
  "n < 32 \<Longrightarrow> j < 64 \<Longrightarrow> bit (dup32 (rol32 (ucast (x::u64)) (of_nat n))) j = bit x ((j mod 32 + 32 - n) mod 32)"
  by (auto simp: bit_dup32 bit_rol32 bit_simps)

lemma and_small: "unat (b AND 0x1f :: u64) = unat b mod 32" "unat (b AND 0x3f :: u64) = unat b mod 64"
  using and_mask_mod [of 5 "uint b", where 'a = 64] and_mask_mod [of 6 "uint b", where 'a = 64]
  by (simp_all add: mask_eq_exp_minus_1 nat_mod_distrib)

lemma rotated_by_register:
  "(ucast (b AND 0x1f :: u64) :: u32) = of_nat (unat b mod 32)" "(b AND 0x3f :: u64) = of_nat (unat b mod 64)"
  unfolding and_small [symmetric] by simp_all

lemma rotate_parts:
  assumes "r = gpr (exec_rot i rc op s) (op_ra op)"
  shows "exec_rot i rc op s = s\<lparr>gpr := (gpr s)(op_ra op := r), cr := if rc then cr0_with r (xer_so s) (cr s) else cr s\<rparr>"
    and "j < 64 \<Longrightarrow> bit r (63 - j) =
       (if in_rotate_mask (rot_first i op) (rot_last i op) j
        then rot_bit i (gpr s (op_rs op)) (rot_amount i op (gpr s (op_rb op))) (63 - j)
        else rot_inserts i \<and> bit (gpr s (op_ra op)) (63 - j))"
  using assms
  by (cases i; auto simp: ppu_RLWIMI_def ppu_RLWINM_def ppu_RLWNM_def ppu_RLDICL_def ppu_RLDICR_def ppu_RLDIC_def
      ppu_RLDIMI_def ppu_RLDCL_def ppu_RLDCR_def set_defs rot_word_def rot_inserts_def rot_amount_def
      rot_first_def rot_last_def rot_bit_def bit_and_iff bit_or_iff bit_not_iff mask_word mask_dword mask_left mask_right
      rotated_word bit_rol64 rotated_by_register)+

text \<open>
  Claim C12. The nine rotates: every bit of the target that lies under the mask from the first to the
  last bit the instruction names (wrapping round) is the bit of the source rotated left by the
  instruction's amount, the others are zero, or unchanged for the inserting forms; only the target
  and, for the record forms, the first condition field change.
\<close>

theorem rotate_exact:
  assumes "r = gpr (exec_rot i rc op s) (op_ra op)" and "j < 64"
  shows "exec_rot i rc op s = s\<lparr>gpr := (gpr s)(op_ra op := r), cr := if rc then cr0_with r (xer_so s) (cr s) else cr s\<rparr> \<and>
    bit r (63 - j) =
       (if in_rotate_mask (rot_first i op) (rot_last i op) j
        then rot_bit i (gpr s (op_rs op)) (rot_amount i op (gpr s (op_rb op))) (63 - j)
        else rot_inserts i \<and> bit (gpr s (op_ra op)) (63 - j))"
  using rotate_parts [OF assms(1)] assms(2) by blast

text \<open>\<open>rlwinm r4, r3, 4, 8, 27\<close>: bit 20 is rotated to position 24, outside the mask, bit 16 to position 20, inside it.\<close>

theorem rotate_exact_witness:
  "bit (gpr (exec_rot RLWINM False 0x54642236 (ppu_default\<lparr>gpr := \<lambda>_. 0x100000\<rparr>)) 4) 24 = False \<and>
   bit (gpr (exec_rot RLWINM False 0x54642236 (ppu_default\<lparr>gpr := \<lambda>_. 0x10000\<rparr>)) 4) 20 = True"
proof -
  have f: "op_ra 0x54642236 = 4" "op_rs 0x54642236 = 3" "op_sh32 0x54642236 = 4"
    "op_mb32 0x54642236 = 8" "op_me32 0x54642236 = 27"
    by (simp_all add: op_field_defs bf_defs mask_eq_exp_minus_1)
  note spec = rot_first_def rot_last_def rot_word_def in_rotate_mask_def rot_bit_def rot_amount_def rot_inserts_def
  show ?thesis
    using rotate_exact [OF refl, of 39 RLWINM False "0x54642236" "ppu_default\<lparr>gpr := \<lambda>_. 0x100000\<rparr>"]
      rotate_exact [OF refl, of 43 RLWINM False "0x54642236" "ppu_default\<lparr>gpr := \<lambda>_. 0x10000\<rparr>"]
    by (simp add: f spec bit_numeral_simps)
qed

section \<open>Shifts\<close>

datatype shift_insn = SLW | SRW | SLD | SRD | SRAW | SRAD | SRAWI | SRADI

fun exec_shift :: "shift_insn \<Rightarrow> bool \<Rightarrow> u32 \<Rightarrow> ppu \<Rightarrow> ppu" where
  "exec_shift SLW = ppu_SLW" | "exec_shift SRW = ppu_SRW" | "exec_shift SLD = ppu_SLD"
| "exec_shift SRD = ppu_SRD" | "exec_shift SRAW = ppu_SRAW" | "exec_shift SRAD = ppu_SRAD"
| "exec_shift SRAWI = ppu_SRAWI" | "exec_shift SRADI = ppu_SRADI"

definition shift_amount :: "shift_insn \<Rightarrow> u32 \<Rightarrow> u64 \<Rightarrow> nat" where
  "shift_amount i op b =
     (if i = SRAWI then op_sh32 op else if i = SRADI then op_sh64 op
      else if i \<in> {SLW, SRW, SRAW} then unat b mod 64 else unat b mod 128)"

fun shift_value :: "shift_insn \<Rightarrow> u64 \<Rightarrow> int" where
  "shift_value SLW x = uint (lo32 x)" | "shift_value SRW x = uint (lo32 x)" | "shift_value SLD x = uint x"
| "shift_value SRD x = uint x" | "shift_value SRAW x = sint (lo32 x)" | "shift_value SRAD x = sint x"
| "shift_value SRAWI x = sint (lo32 x)" | "shift_value SRADI x = sint x"

definition shift_result :: "shift_insn \<Rightarrow> int \<Rightarrow> nat \<Rightarrow> int" where
  "shift_result i v n =
     (if i = SLW then v * 2 ^ n mod 2 ^ 32 else if i = SLD then v * 2 ^ n mod 2 ^ 64 else v div 2 ^ n)"

definition shift_carry :: "shift_insn \<Rightarrow> bool" where
  "shift_carry i = (i \<in> {SRAW, SRAD, SRAWI, SRADI})"

lemma and_127: "unat (b AND 0x7f :: u64) = unat b mod 128" "(b AND 0x7f) AND 0x40 \<noteq> 0 \<longleftrightarrow> 64 \<le> unat b mod 128"
proof -
  show *: "unat (b AND 0x7f :: u64) = unat b mod 128"
    using and_mask_mod [of 7 "uint b", where 'a = 64] by (simp add: mask_eq_exp_minus_1 nat_mod_distrib)
  have "(b AND 0x7f) AND 0x40 = b AND (push_bit 6 1)" by (simp add: and.assoc)
  also have "\<dots> \<noteq> 0 \<longleftrightarrow> bit b 6"
    by (simp add: bit_iff_and_push_bit_not_eq_0)
  also have "bit b 6 \<longleftrightarrow> bit (unat b) 6" by (simp add: bit_unsigned_iff)
  also have "\<dots> \<longleftrightarrow> odd (unat b div 64)" by (simp add: bit_iff_odd)
  also have "\<dots> \<longleftrightarrow> 64 \<le> unat b mod 128"
    using mod_mult2_eq [of "unat b" 64 2] by (auto simp: odd_iff_mod_2_eq_one) 
  finally show "(b AND 0x7f) AND 0x40 \<noteq> 0 \<longleftrightarrow> 64 \<le> unat b mod 128" .
qed

lemma shift_out: "64 \<le> n \<Longrightarrow> uint (x::u64) div 2 ^ n = 0"
proof -
  assume "64 \<le> n"
  then have "(2 ^ 64 :: int) \<le> 2 ^ n" by (rule power_increasing) simp
  then show "uint x div 2 ^ n = 0" using uint_lt2p [of x] by (intro div_pos_pos_trivial) auto
qed

lemma shift_out_left: "64 \<le> n \<Longrightarrow> push_bit n (x::u64) = 0"
  by (intro bit_word_eqI) (auto simp: bit_simps)

lemma slw_word: "ucast (lo32 (push_bit n x)) = (word_of_int (uint (lo32 x) * 2 ^ n mod 2 ^ 32) :: u64)"
proof -
  have "lo32 (push_bit n x) = push_bit n (lo32 x)" by (intro bit_word_eqI) (auto simp: bit_simps)
  then have "uint (lo32 (push_bit n x)) = uint (lo32 x) * 2 ^ n mod 2 ^ 32"
    by (simp only: unsigned_push_bit_eq) (simp add: take_bit_eq_mod push_bit_eq_mult)
  then show ?thesis by (metis unsigned_of_int word_of_int_uint of_int_uint unsigned_ucast_eq)
qed

lemma carry_iff:
  fixes w :: "'a::len word"
  assumes "n < LENGTH('a)"
  shows "push_bit n (word_of_int (sint w div 2 ^ n)) \<noteq> w \<longleftrightarrow> sint w mod 2 ^ n \<noteq> 0"
proof -
  have "push_bit n (word_of_int (sint w div 2 ^ n)) = (word_of_int (sint w div 2 ^ n * 2 ^ n) :: 'a word)"
    by (simp add: push_bit_eq_mult)
  also have "\<dots> = word_of_int (sint w - sint w mod 2 ^ n)"
    by (simp only: minus_mod_eq_div_mult)
  also have "\<dots> = w - word_of_int (sint w mod 2 ^ n)"
    by simp
  finally have e: "push_bit n (word_of_int (sint w div 2 ^ n)) = w - word_of_int (sint w mod 2 ^ n)" .
  have "sint w mod 2 ^ n < 2 ^ LENGTH('a)"
    by (rule less_trans [OF pos_mod_bound power_strict_increasing]) (use assms in simp_all)
  then have "(word_of_int (sint w mod 2 ^ n) :: 'a word) = 0 \<longleftrightarrow> sint w mod 2 ^ n = 0"
    using word_of_int_inj [of "sint w mod 2 ^ n" 0, where 'a = 'a] by simp
  then show ?thesis unfolding e by simp
qed

lemma sra_all: "LENGTH('a) \<le> Suc n \<Longrightarrow> sint (w::'a::len word) div 2 ^ n = - of_bool (sint w < 0)"
  "LENGTH('a) \<le> n \<Longrightarrow> sint w < 0 \<Longrightarrow> sint w mod 2 ^ n \<noteq> 0"
proof -
  have *: "- (2 ^ n) \<le> sint w" "sint w < 2 ^ n" if "LENGTH('a) \<le> Suc n"
    using sint_bounds [of w] power_increasing [of "LENGTH('a) - 1" n "2::int"] that by linarith+
  then show "LENGTH('a) \<le> Suc n \<Longrightarrow> sint w div 2 ^ n = - of_bool (sint w < 0)"
    by (intro div_near_zero) auto
  assume n: "LENGTH('a) \<le> n" and neg: "sint w < 0"
  have "LENGTH('a) - 1 < n" using n by (cases "LENGTH('a)") auto
  then have "(2::int) ^ (LENGTH('a) - 1) < 2 ^ n" by (rule power_strict_increasing) simp
  then have "- sint w < 2 ^ n" using sint_bounds(1) [of w] by linarith
  then have "\<not> 2 ^ n dvd sint w"
    using neg zdvd_imp_le [of "2 ^ n" "- sint w"] by auto
  then show "sint w mod 2 ^ n \<noteq> 0" by (simp add: dvd_eq_mod_eq_0)
qed

lemma sra_word:
  "scast (signed_drop_bit n (w::u32)) = (word_of_int (sint w div 2 ^ n) :: u64)"
  unfolding sint_signed_drop_bit [symmetric] of_int_sint ..

lemma sra_dword: "signed_drop_bit n (w::u64) = word_of_int (sint w div 2 ^ n)"
  by (rule word_of_int_sint) (rule sint_signed_drop_bit)

lemma word_of_int_mod: "(word_of_int (z mod 2 ^ 64) :: u64) = word_of_int z"
  using wi_bintr [of 64 z, where 'a = 64] by (simp add: take_bit_eq_mod)

lemma sint_scast_up: "sint (scast (w::u32) :: u64) = sint w"
  using sint_of_int_exact [of "sint w", where 'a = 64] sint_bounds [of w] by simp

text \<open>
  Claim C35. The eight shifts: a left shift multiplies by the power of two and keeps 32 or 64 bits, a
  right shift is the floored quotient of the unsigned or signed value by it, amounts past the width
  included; the arithmetic shifts set the carry exactly when a negative value was not a multiple of
  the divisor, the others leave it.
\<close>

theorem shift_exact:
  assumes "v = shift_value i (gpr s (op_rs op))" and "n = shift_amount i op (gpr s (op_rb op))"
    and "r = word_of_int (shift_result i v n)"
  shows "exec_shift i rc op s = s\<lparr>gpr := (gpr s)(op_ra op := r),
      xer_ca := if shift_carry i then v < 0 \<and> v mod 2 ^ n \<noteq> 0 else xer_ca s,
      cr := if rc then cr0_with r (xer_so s) (cr s) else cr s\<rparr>"
proof (cases i)
  case SLW
  then show ?thesis
    using slw_word [of n "gpr s (op_rs op)"] assms
    by (simp add: ppu_SLW_def set_defs and_small shift_amount_def shift_result_def shift_carry_def)
next
  case SRW
  have "drop_bit n (gpr s (op_rs op) AND 0xffffffff) = r"
  proof -
    have "gpr s (op_rs op) AND mask 32 = ucast (lo32 (gpr s (op_rs op)))"
      by (intro bit_word_eqI) (auto simp: bit_simps)
    then have "gpr s (op_rs op) AND 0xffffffff = ucast (lo32 (gpr s (op_rs op)))"
      by (simp add: mask_eq_exp_minus_1)
    then have "uint (drop_bit n (gpr s (op_rs op) AND 0xffffffff)) = v div 2 ^ n"
      using assms(1) SRW by (simp add: uint_drop_bit unsigned_ucast_eq bintr_uint unsigned_take_bit_eq)
    from word_of_int_uint [OF this] show ?thesis by (simp add: assms(3) shift_result_def SRW)
  qed
  then show ?thesis using SRW assms(2)
    by (simp add: ppu_SRW_def set_defs and_small shift_amount_def shift_carry_def)
next
  case SLD
  have "(if 64 \<le> n then 0 else push_bit n (gpr s (op_rs op))) = r"
    using SLD assms(1,3) shift_out_left [of n "gpr s (op_rs op)"]
    by (auto simp: shift_result_def push_bit_eq_mult word_of_int_mod [simplified])
  then show ?thesis using SLD assms(2)
    by (auto simp: ppu_SLD_def set_defs and_127 shift_amount_def shift_carry_def split: if_splits)
next
  case SRD
  have "(if 64 \<le> n then 0 else drop_bit n (gpr s (op_rs op))) = r"
    using shift_out [of n "gpr s (op_rs op)"] word_of_int_uint [OF uint_drop_bit [of n "gpr s (op_rs op)"]] SRD assms(1,3)
    by (simp add: shift_result_def)
  then show ?thesis using SRD assms(2)
    by (auto simp: ppu_SRD_def set_defs and_127 shift_amount_def shift_carry_def split: if_splits)
next
  case SRAW
  let ?w = "lo32 (gpr s (op_rs op))"
  have "31 < n \<Longrightarrow> r = - of_bool (sint ?w < 0)"
    using SRAW assms(1,3) sra_all(1) [of n ?w] by (simp add: shift_result_def)
  moreover have "31 < n \<Longrightarrow> (v < 0 \<and> v mod 2 ^ n \<noteq> 0) = (sint ?w < 0)"
    using SRAW assms(1) sra_all(2) [where 'a = 32, of n ?w] by auto
  moreover have "\<not> 31 < n \<Longrightarrow> (push_bit n (word_of_int (sint ?w div 2 ^ n)) \<noteq> (scast ?w :: u64)) = (v mod 2 ^ n \<noteq> 0)"
    using SRAW assms(1) carry_iff [of n "scast ?w :: u64"] by (simp add: sint_scast_up)
  ultimately show ?thesis using SRAW assms
    by (simp add: ppu_SRAW_def set_defs and_small shift_amount_def shift_carry_def shift_result_def sra_word)
next
  case SRAD
  let ?w = "gpr s (op_rs op)"
  have "63 < n \<Longrightarrow> r = - of_bool (sint ?w < 0)"
    using SRAD assms(1,3) sra_all(1) [of n ?w] by (simp add: shift_result_def)
  moreover have "63 < n \<Longrightarrow> (v < 0 \<and> v mod 2 ^ n \<noteq> 0) = (sint ?w < 0)"
    using SRAD assms(1) sra_all(2) [where 'a = 64, of n ?w] by auto
  moreover have "\<not> 63 < n \<Longrightarrow> (push_bit n (word_of_int (sint ?w div 2 ^ n)) \<noteq> ?w) = (v mod 2 ^ n \<noteq> 0)"
    using SRAD assms(1) carry_iff [of n ?w] by simp
  ultimately show ?thesis using SRAD assms
    by (simp add: ppu_SRAD_def set_defs and_127 shift_amount_def shift_carry_def shift_result_def sra_dword)
next
  case SRAWI
  let ?w = "lo32 (gpr s (op_rs op))"
  have n: "n < 32" using assms(2) SRAWI by (simp add: shift_amount_def)
  have "lo32 (push_bit n (word_of_int (sint ?w div 2 ^ n))) = push_bit n (word_of_int (sint ?w div 2 ^ n))"
    by (intro bit_word_eqI) (auto simp: bit_simps)
  then have "(lo32 (push_bit n (word_of_int (sint ?w div 2 ^ n))) \<noteq> ?w) = (v mod 2 ^ n \<noteq> 0)"
    using SRAWI assms(1) carry_iff [of n ?w] n by simp
  then show ?thesis using SRAWI assms
    by (simp add: ppu_SRAWI_def set_defs shift_amount_def shift_carry_def shift_result_def sra_word)
next
  case SRADI
  have "n < 64" using assms(2) SRADI by (simp add: shift_amount_def)
  then have "push_bit n (signed_drop_bit n (gpr s (op_rs op))) \<noteq> gpr s (op_rs op) \<longleftrightarrow> v mod 2 ^ n \<noteq> 0"
    unfolding sra_dword using assms(1) SRADI carry_iff [of n "gpr s (op_rs op)"] by simp
  then show ?thesis using SRADI assms
    by (simp add: ppu_SRADI_def set_defs shift_amount_def shift_carry_def shift_result_def sra_dword)
qed

theorem shift_exact_witness:
  "exec_shift SRAW False 0x7c642800 (ppu_default\<lparr>gpr := (\<lambda>_. 0)(3 := - 5, 5 := 1)\<rparr>) =
     ppu_default\<lparr>gpr := (\<lambda>_. 0)(3 := - 5, 5 := 1, 4 := - 3), xer_ca := True\<rparr>"
  using shift_exact [of "- 5" SRAW "ppu_default\<lparr>gpr := (\<lambda>_. 0)(3 := - 5, 5 := 1)\<rparr>" "0x7c642800" 1 "- 3" False]
  by (simp add: op_345 ppu_default_def shift_amount_def shift_result_def shift_carry_def)

end
