(* ===== verification/Ppu_Branch.thy ===== *)
theory Ppu_Branch
  imports Ppu_Arith
begin

text \<open>
  Branches, traps, system calls, the condition register and the special registers of
  \<^verbatim>\<open>rpcs3/Emu/Cell/PPUInterpreter.cpp\<close>. An instruction that ends a block of the threaded interpreter
  reports how: it calls the next function (\<open>Next\<close>), returns to the dispatcher, which goes on at
  \<open>cia\<close> (\<open>Leave\<close>), traps, throws, performs a system call, or has run into undefined behaviour. The call history that
  \<^verbatim>\<open>ppu_record_call\<close> keeps for the debugger is left out; the time base is an argument.
\<close>

section \<open>Control flow\<close>

datatype flow = Next | Leave | Trap u32 | Throw string | Undefined string | Syscall u64

definition bo_bit :: "u32 \<Rightarrow> u32 \<Rightarrow> bool" where
  "bo_bit op m = (op_bo op AND m \<noteq> 0)"

definition leave_to :: "u32 \<Rightarrow> u32 \<Rightarrow> ppu \<Rightarrow> flow \<times> ppu" where
  "leave_to target link s = (Leave, s\<lparr>cia := target, exec_bytes := exec_bytes s + ucast (link - cia s)\<rparr>)"

definition not_taken :: "u32 \<Rightarrow> ppu \<Rightarrow> flow \<times> ppu" where
  "not_taken link s = (if \<not> cpu_state s then (Next, s) else leave_to link link s)"

definition ppu_BC :: "u32 \<Rightarrow> u32 \<Rightarrow> ppu \<Rightarrow> flow \<times> ppu" where
  "ppu_BC op this_op s =
     (let bo0 = bo_bit op 0x10; bo1 = bo_bit op 0x08; bo2 = bo_bit op 0x04; bo3 = bo_bit op 0x02;
          s = s\<lparr>ctr := ctr s - of_bool (\<not> bo2)\<rparr>; link = this_op + 4;
          s = (if op_lk op then s\<lparr>lr := ucast link\<rparr> else s);
          ctr_ok = bo2 \<or> ((ctr s \<noteq> 0) \<noteq> bo3); cond_ok = bo0 \<or> ((cr s (op_bi op) \<noteq> 0) \<noteq> (\<not> bo1))
      in if ctr_ok \<and> cond_ok then leave_to ((if op_aa op then 0 else this_op) + op_bt14 op) link s
         else not_taken link s)"

definition ppu_B :: "u32 \<Rightarrow> u32 \<Rightarrow> ppu \<Rightarrow> flow \<times> ppu" where
  "ppu_B op this_op s =
     (let link = this_op + 4
      in leave_to ((if op_aa op then 0 else this_op) + op_bt24 op) link
           (if op_lk op then s\<lparr>lr := ucast link\<rparr> else s))"

definition ppu_BCLR :: "u32 \<Rightarrow> u32 \<Rightarrow> ppu \<Rightarrow> flow \<times> ppu" where
  "ppu_BCLR op this_op s =
     (let bo0 = bo_bit op 0x10; bo1 = bo_bit op 0x08; bo2 = bo_bit op 0x04; bo3 = bo_bit op 0x02;
          s = s\<lparr>ctr := ctr s - of_bool (\<not> bo2)\<rparr>;
          ctr_ok = bo2 \<or> ((ctr s \<noteq> 0) \<noteq> bo3); cond_ok = bo0 \<or> ((cr s (op_bi op) \<noteq> 0) \<noteq> (\<not> bo1));
          target = ucast (lr s) AND NOT 3; link = this_op + 4;
          s = (if op_lk op then s\<lparr>lr := ucast link\<rparr> else s)
      in if ctr_ok \<and> cond_ok then leave_to target link s else not_taken link s)"

definition ppu_BCCTR :: "u32 \<Rightarrow> u32 \<Rightarrow> ppu \<Rightarrow> flow \<times> ppu" where
  "ppu_BCCTR op this_op s =
     (let link = this_op + 4; s = (if op_lk op then s\<lparr>lr := ucast link\<rparr> else s)
      in if bo_bit op 0x10 \<or> cr s (op_bi op) = of_bool (bo_bit op 0x8)
         then leave_to (ucast (ctr s) AND NOT 3) link s else not_taken link s)"

text \<open>\<^verbatim>\<open>ppu_instructions::SC(0)\<close> is \<open>0x44000002\<close>.\<close>

definition ppu_SC :: "u32 \<Rightarrow> u32 \<Rightarrow> ppu \<Rightarrow> flow \<times> ppu" where
  "ppu_SC op this_op s =
     (let s = s\<lparr>cia := this_op, exec_bytes := exec_bytes s + ucast (this_op - cia s)\<rparr>
      in if op \<noteq> 0x44000002 then (Throw ''Unknown/Illegal SC'', s) else (Syscall (gpr s 11), s))"

section \<open>Traps\<close>

definition trap_if :: "u32 \<Rightarrow> 'a::len word \<Rightarrow> 'a word \<Rightarrow> u32 \<Rightarrow> ppu \<Rightarrow> flow \<times> ppu" where
  "trap_if op a b this_op s =
     (if (bo_bit op 0x10 \<and> sint a < sint b) \<or> (bo_bit op 0x8 \<and> sint a > sint b) \<or> (bo_bit op 0x4 \<and> a = b) \<or>
         (bo_bit op 0x2 \<and> a < b) \<or> (bo_bit op 0x1 \<and> a > b)
      then (Trap this_op, s) else (Next, s))"

definition ppu_TDI :: "u32 \<Rightarrow> u32 \<Rightarrow> ppu \<Rightarrow> flow \<times> ppu" where
  "ppu_TDI op this_op s = trap_if op (gpr s (op_ra op)) (scast (op_simm16 op)) this_op s"

definition ppu_TWI :: "u32 \<Rightarrow> u32 \<Rightarrow> ppu \<Rightarrow> flow \<times> ppu" where
  "ppu_TWI op this_op s = trap_if op (ucast (gpr s (op_ra op)) :: u32) (op_simm16 op) this_op s"

definition ppu_TD :: "u32 \<Rightarrow> u32 \<Rightarrow> ppu \<Rightarrow> flow \<times> ppu" where
  "ppu_TD op this_op s = trap_if op (gpr s (op_ra op)) (gpr s (op_rb op)) this_op s"

definition ppu_TW :: "u32 \<Rightarrow> u32 \<Rightarrow> ppu \<Rightarrow> flow \<times> ppu" where
  "ppu_TW op this_op s =
     trap_if op (ucast (gpr s (op_ra op)) :: u32) (ucast (gpr s (op_rb op))) this_op s"

section \<open>Condition register\<close>

text \<open>A field is four bytes, \<^verbatim>\<open>CrField\<close>; \<^verbatim>\<open>CrField::From\<close> writes zeros and ones.\<close>

definition set_field :: "nat \<Rightarrow> u8 list \<Rightarrow> ppu \<Rightarrow> ppu" where
  "set_field n f s =
     s\<lparr>cr := (cr s)(n * 4 := f ! 0, n * 4 + 1 := f ! 1, n * 4 + 2 := f ! 2, n * 4 + 3 := f ! 3)\<rparr>"

definition CrField_From :: "bool \<Rightarrow> bool \<Rightarrow> bool \<Rightarrow> bool \<Rightarrow> u8 list" where
  "CrField_From lt gt eq so = [of_bool lt, of_bool gt, of_bool eq, of_bool so]"

definition get_field :: "nat \<Rightarrow> ppu \<Rightarrow> u8 list" where
  "get_field n s = map (\<lambda>k. cr s (n * 4 + k)) [0 ..< 4]"

definition ppu_MCRF :: "u32 \<Rightarrow> ppu \<Rightarrow> ppu" where
  "ppu_MCRF op s = set_field (op_crfd op) (get_field (op_crfs op) s) s"

definition set_crb :: "u32 \<Rightarrow> u8 \<Rightarrow> ppu \<Rightarrow> ppu" where
  "set_crb op v s = s\<lparr>cr := (cr s)(op_crbd op := v)\<rparr>"

definition ppu_CRNOR :: "u32 \<Rightarrow> ppu \<Rightarrow> ppu" where
  "ppu_CRNOR op s = set_crb op ((cr s (op_crba op) OR cr s (op_crbb op)) XOR 1) s"

definition ppu_CRANDC :: "u32 \<Rightarrow> ppu \<Rightarrow> ppu" where
  "ppu_CRANDC op s = set_crb op (cr s (op_crba op) AND (cr s (op_crbb op) XOR 1)) s"

definition ppu_CRXOR :: "u32 \<Rightarrow> ppu \<Rightarrow> ppu" where
  "ppu_CRXOR op s = set_crb op (cr s (op_crba op) XOR cr s (op_crbb op)) s"

definition ppu_CRNAND :: "u32 \<Rightarrow> ppu \<Rightarrow> ppu" where
  "ppu_CRNAND op s = set_crb op ((cr s (op_crba op) AND cr s (op_crbb op)) XOR 1) s"

definition ppu_CRAND :: "u32 \<Rightarrow> ppu \<Rightarrow> ppu" where
  "ppu_CRAND op s = set_crb op (cr s (op_crba op) AND cr s (op_crbb op)) s"

definition ppu_CREQV :: "u32 \<Rightarrow> ppu \<Rightarrow> ppu" where
  "ppu_CREQV op s = set_crb op ((cr s (op_crba op) XOR cr s (op_crbb op)) XOR 1) s"

definition ppu_CRORC :: "u32 \<Rightarrow> ppu \<Rightarrow> ppu" where
  "ppu_CRORC op s = set_crb op (cr s (op_crba op) OR (cr s (op_crbb op) XOR 1)) s"

definition ppu_CROR :: "u32 \<Rightarrow> ppu \<Rightarrow> ppu" where
  "ppu_CROR op s = set_crb op (cr s (op_crba op) OR cr s (op_crbb op)) s"

text \<open>\<^verbatim>\<open>MFOCRF<N>\<close> is instantiated for the eight fields; the decoder picks the one of \<^verbatim>\<open>crm\<close>.\<close>

definition ppu_MFOCRF :: "nat \<Rightarrow> u32 \<Rightarrow> ppu \<Rightarrow> ppu" where
  "ppu_MFOCRF n op s =
     (let p = n * 4;
          v = push_bit 3 (ucast (cr s (p + 0))) OR push_bit 2 (ucast (cr s (p + 1))) OR
              push_bit 1 (ucast (cr s (p + 2))) OR push_bit 0 (ucast (cr s (p + 3))) :: u32
      in set_gpr (op_rd op) (ucast (push_bit (p XOR 0x1c) v)) s)"

text \<open>\<^verbatim>\<open>cr_bits::pack\<close>, the version of the code without vector instructions.\<close>

definition cr_pack :: "(nat \<Rightarrow> u8) \<Rightarrow> u32" where
  "cr_pack c = fold (\<lambda>b r. push_bit 1 r OR ucast (c b)) [0 ..< 32] 0"

definition ppu_MFCR :: "u32 \<Rightarrow> ppu \<Rightarrow> ppu" where
  "ppu_MFCR op s = set_gpr (op_rd op) (ucast (cr_pack (cr s))) s"

definition s_table :: "u8 list list" where
  "s_table =
    [CrField_From False False False False, CrField_From False False False True,
     CrField_From False False True False, CrField_From False False True True,
     CrField_From False True False False, CrField_From False True False True,
     CrField_From False True True False, CrField_From False True True True,
     CrField_From True False False False, CrField_From True False False True,
     CrField_From True False True False, CrField_From True False True True,
     CrField_From True True False False, CrField_From True True False True,
     CrField_From True True True False, CrField_From True True True True]"

definition ppu_MTOCRF :: "u32 \<Rightarrow> ppu \<Rightarrow> ppu" where
  "ppu_MTOCRF op s =
     (let v = gpr s (op_rs op);
          put = (\<lambda>n. set_field n (s_table ! unat (drop_bit ((n * 4) XOR 0x1c) v AND 0xf)))
      in if op_l11 op then put (countl_zero (op_crm op) mod 8) s
         else fold (\<lambda>i s. if op_crm op AND drop_bit i 128 \<noteq> 0 then put i s else s) [0 ..< 8] s)"

section \<open>Special registers\<close>

definition spr_field :: "u32 \<Rightarrow> u32" where
  "spr_field op = drop_bit 5 (op_spr op) OR push_bit 5 (op_spr op AND 0x1f)"

definition ppu_MFSPR :: "u64 \<Rightarrow> u32 \<Rightarrow> ppu \<Rightarrow> flow \<times> ppu" where
  "ppu_MFSPR timebase op s =
     (let n = spr_field op; put = (\<lambda>v. (Next, set_gpr (op_rd op) v s))
      in if n = 0x001 then
           put (ucast (push_bit 31 (of_bool (xer_so s)) OR push_bit 30 (of_bool (xer_ov s)) OR
                       push_bit 29 (of_bool (xer_ca s)) OR ucast (xer_cnt s) :: u32))
         else if n = 0x008 then put (lr s)
         else if n = 0x009 then put (ctr s)
         else if n = 0x100 then put (ucast (vrsave s))
         else if n = 0x10C then put timebase
         else if n = 0x10D then put (drop_bit 32 timebase)
         else (Throw ''MFSPR'', s))"

definition ppu_MFTB :: "u64 \<Rightarrow> u32 \<Rightarrow> ppu \<Rightarrow> flow \<times> ppu" where
  "ppu_MFTB timebase op s =
     (let n = spr_field op; put = (\<lambda>v. (Next, set_gpr (op_rd op) v s))
      in if n = 0x10C then put timebase
         else if n = 0x10D then put (drop_bit 32 timebase)
         else (Throw ''MFTB'', s))"

definition ppu_MTSPR :: "u32 \<Rightarrow> ppu \<Rightarrow> flow \<times> ppu" where
  "ppu_MTSPR op s =
     (let n = spr_field op; v = gpr s (op_rs op)
      in if n = 0x001 then
           (Next, s\<lparr>xer_so := (v AND 0x80000000 \<noteq> 0), xer_ov := (v AND 0x40000000 \<noteq> 0),
                   xer_ca := (v AND 0x20000000 \<noteq> 0), xer_cnt := ucast (v AND 0x7f)\<rparr>)
         else if n = 0x008 then (Next, s\<lparr>lr := v\<rparr>)
         else if n = 0x009 then (Next, s\<lparr>ctr := v\<rparr>)
         else if n = 0x100 then (Next, s\<lparr>vrsave := ucast v\<rparr>)
         else (Throw ''MTSPR'', s))"

section \<open>Well-formed registers\<close>

text \<open>Every byte of the condition register is a zero or a one and the string count has seven bits.\<close>

definition ppu_wf :: "ppu \<Rightarrow> bool" where
  "ppu_wf s = ((\<forall>i. cr s i = 0 \<or> cr s i = 1) \<and> xer_cnt s < 128)"

section \<open>Branches\<close>

datatype branch_insn = B | BC | BCLR | BCCTR

fun exec_branch :: "branch_insn \<Rightarrow> u32 \<Rightarrow> u32 \<Rightarrow> ppu \<Rightarrow> flow \<times> ppu" where
  "exec_branch B = ppu_B" | "exec_branch BC = ppu_BC" | "exec_branch BCLR = ppu_BCLR"
| "exec_branch BCCTR = ppu_BCCTR"

text \<open>
  What the architecture says: the counter after the instruction, whether the branch is taken, its
  target, and where execution goes on after an outcome.
\<close>

definition branch_ctr :: "branch_insn \<Rightarrow> u32 \<Rightarrow> ppu \<Rightarrow> u64" where
  "branch_ctr b op s = (if b \<in> {BC, BCLR} \<and> \<not> bo_bit op 4 then ctr s - 1 else ctr s)"

definition branch_taken :: "branch_insn \<Rightarrow> u32 \<Rightarrow> ppu \<Rightarrow> bool" where
  "branch_taken b op s =
     (b = B \<or>
      (b = BCCTR \<or> bo_bit op 4 \<or> (if bo_bit op 2 then branch_ctr b op s = 0 else branch_ctr b op s \<noteq> 0)) \<and>
      (bo_bit op 0x10 \<or> (if bo_bit op 8 then cr s (op_bi op) = 1 else cr s (op_bi op) = 0)))"

fun branch_target :: "branch_insn \<Rightarrow> u32 \<Rightarrow> u32 \<Rightarrow> ppu \<Rightarrow> u32" where
  "branch_target B op this_op s = (if op_aa op then op_bt24 op else this_op + op_bt24 op)"
| "branch_target BC op this_op s = (if op_aa op then op_bt14 op else this_op + op_bt14 op)"
| "branch_target BCLR op this_op s = ucast (lr s) AND NOT 3"
| "branch_target BCCTR op this_op s = ucast (ctr s) AND NOT 3"

definition next_address :: "u32 \<Rightarrow> flow \<times> ppu \<Rightarrow> u32" where
  "next_address this_op r = (if fst r = Next then this_op + 4 else cia (snd r))"

lemma cr_bit: "ppu_wf s \<Longrightarrow> cr s i = 1 \<longleftrightarrow> cr s i \<noteq> 0"
  unfolding ppu_wf_def by (metis zero_neq_one)

lemma exec_branch_normal:
  assumes "ppu_wf s"
  shows "exec_branch b op this_op s =
    (let s1 = s\<lparr>ctr := branch_ctr b op s, lr := if op_lk op then ucast (this_op + 4) else lr s\<rparr>
     in if branch_taken b op s then leave_to (branch_target b op this_op s) (this_op + 4) s1
        else not_taken (this_op + 4) s1)"
proof (cases b)
  case B
  then show ?thesis by (simp add: ppu_B_def branch_taken_def branch_ctr_def Let_def)
next
  case BC
  show ?thesis
    unfolding BC exec_branch.simps ppu_BC_def branch_taken_def branch_ctr_def Let_def
    by (cases "bo_bit op 2"; cases "bo_bit op 4"; cases "bo_bit op 8"; cases "op_lk op") (auto simp: cr_bit [OF assms])
next
  case BCLR
  show ?thesis
    unfolding BCLR exec_branch.simps ppu_BCLR_def branch_taken_def branch_ctr_def Let_def
    by (cases "bo_bit op 2"; cases "bo_bit op 4"; cases "bo_bit op 8"; cases "op_lk op") (auto simp: cr_bit [OF assms])
next
  case BCCTR
  show ?thesis
    unfolding BCCTR exec_branch.simps ppu_BCCTR_def branch_taken_def branch_ctr_def Let_def
    by (cases "bo_bit op 8"; cases "op_lk op") (auto simp: cr_bit [OF assms])
qed

text \<open>
  Claim C10. Branches: execution goes on at the target exactly when the counter and the condition bit, as BO
  selects them, allow it, and at the following instruction otherwise, whether the interpreter falls
  through or returns because the thread has pending state; the link register gets the following
  address (after an old value served as target), the counter is decremented only by the forms that
  test it, the executed bytes are counted on leaving, and no other register changes.
\<close>

theorem branch_exact:
  assumes "ppu_wf s" and "(f, s') = exec_branch b op this_op s"
  shows "next_address this_op (f, s') = (if branch_taken b op s then branch_target b op this_op s else this_op + 4) \<and>
    f = (if branch_taken b op s \<or> cpu_state s then Leave else Next) \<and>
    s' = s\<lparr>lr := if op_lk op then ucast (this_op + 4) else lr s, ctr := branch_ctr b op s, cia := cia s',
      exec_bytes := if f = Leave then exec_bytes s + ucast (this_op + 4 - cia s) else exec_bytes s\<rparr>"
  using assms(2) unfolding exec_branch_normal [OF assms(1)] Let_def
  by (cases "branch_taken b op s"; cases "cpu_state s") (simp_all add: leave_to_def not_taken_def next_address_def)

text \<open>\<open>bdnz\<close> eight bytes back, with the counter at two.\<close>

theorem branch_exact_witness:
  "next_address 0x10000 (exec_branch BC 0x4200fff8 0x10000 (ppu_default\<lparr>ctr := 2\<rparr>)) = 0xfff8 \<and>
   ctr (snd (exec_branch BC 0x4200fff8 0x10000 (ppu_default\<lparr>ctr := 2\<rparr>))) = 1"
proof -
  let ?s = "ppu_default\<lparr>ctr := 2\<rparr>"
  have wf: "ppu_wf ?s" by (simp add: ppu_wf_def ppu_default_def)
  have f: "\<not> op_aa 0x4200fff8" "\<not> op_lk 0x4200fff8" "op_bt14 0x4200fff8 = - 8"
    "\<not> bo_bit 0x4200fff8 2" "\<not> bo_bit 0x4200fff8 4" "bo_bit 0x4200fff8 0x10"
    by (simp_all add: op_field_defs bf_defs mask_eq_exp_minus_1 bo_bit_def)
  have "branch_taken BC 0x4200fff8 ?s" by (simp add: branch_taken_def branch_ctr_def f)
  then show ?thesis
    using branch_exact [OF wf, of "fst (exec_branch BC 0x4200fff8 0x10000 ?s)" "snd (exec_branch BC 0x4200fff8 0x10000 ?s)"
        BC "0x4200fff8" "0x10000"] f
    by (auto simp: branch_ctr_def ppu_default_def dest: arg_cong [where f = ctr])
qed

section \<open>Moving the condition register\<close>

lemma s_table_bits: "v < 16 \<Longrightarrow> s_table ! v = map (\<lambda>k. of_bool (bit v (3 - k))) [0 ..< 4]"
proof -
  assume "v < 16"
  have "\<forall>v \<in> set [0 ..< 16]. s_table ! v = map (\<lambda>k. of_bool (bit v (3 - k))) [0 ..< 4]" by code_simp
  with \<open>v < 16\<close> show ?thesis by simp
qed

lemma xor_1c: "n < 8 \<Longrightarrow> (n * 4) XOR 0x1c = 28 - n * (4::nat)"
proof -
  assume "n < 8"
  have "\<forall>n \<in> set [0 ..< 8]. (n * 4) XOR 0x1c = 28 - n * (4::nat)" by code_simp
  with \<open>n < 8\<close> show ?thesis by simp
qed

definition put_field :: "u64 \<Rightarrow> nat \<Rightarrow> ppu \<Rightarrow> ppu" where
  "put_field v n = set_field n (s_table ! unat (drop_bit ((n * 4) XOR 0x1c) v AND 0xf))"

lemma put_field_cr:
  assumes "n < 8"
  shows "put_field v n s = s\<lparr>cr := \<lambda>j. if j div 4 = n then of_bool (bit v (31 - j)) else cr s j\<rparr>"
proof -
  define w where "w = unat (drop_bit ((n * 4) XOR 0x1c) v AND 0xf)"
  have w: "w = unat (take_bit 4 (drop_bit (28 - n * 4) v))"
    using assms by (simp add: w_def xor_1c take_bit_eq_mask mask_eq_exp_minus_1)
  have "w < 16" unfolding w using take_bit_nat_less_exp [of 4] by (simp add: unsigned_take_bit_eq)
  moreover have "bit w k = (k < 4 \<and> bit v (28 - n * 4 + k))" for k
    unfolding w by (auto simp: bit_simps dest: bit_imp_le_length)
  moreover have "28 - n * 4 + (3 - k) = 31 - (n * 4 + k)" if "k < 4" for k using assms that by linarith
  ultimately have "s_table ! w = map (\<lambda>k. of_bool (bit v (31 - (n * 4 + k)))) [0 ..< 4]"
    by (simp only: s_table_bits) (rule map_cong, auto)
  then have f: "s_table ! w ! k = of_bool (bit v (31 - (n * 4 + k)))" if "k < 4" for k using that by simp
  have "((cr s)(n * 4 := s_table ! w ! 0, n * 4 + 1 := s_table ! w ! 1, n * 4 + 2 := s_table ! w ! 2,
      n * 4 + 3 := s_table ! w ! 3)) j = (if j div 4 = n then of_bool (bit v (31 - j)) else cr s j)" for j
  proof (cases "j div 4 = n")
    case True
    then have "j = n * 4 + j mod 4" by (metis div_mult_mod_eq)
    moreover have "j mod 4 = 0 \<or> j mod 4 = 1 \<or> j mod 4 = 2 \<or> j mod 4 = 3" by linarith
    ultimately show ?thesis using True by (elim disjE) (simp_all add: f)
  qed auto
  then show ?thesis
    unfolding put_field_def w_def [symmetric] set_field_def by (simp add: fun_eq_iff)
qed

lemma ppu_MTOCRF_put:
  "ppu_MTOCRF op s =
    (let v = gpr s (op_rs op)
     in if op_l11 op then put_field v (countl_zero (op_crm op) mod 8) s
        else fold (\<lambda>i s. if op_crm op AND drop_bit i 128 \<noteq> 0 then put_field v i s else s) [0 ..< 8] s)"
  by (simp only: ppu_MTOCRF_def put_field_def Let_def)

lemma put_field_upd:
  "n < 8 \<Longrightarrow> put_field v n (s\<lparr>cr := c\<rparr>) = s\<lparr>cr := \<lambda>j. if j div 4 = n then of_bool (bit v (31 - j)) else c j\<rparr>"
  unfolding put_field_cr by (simp cong: if_cong)

lemma fold_fields:
  "n \<le> 8 \<Longrightarrow> fold (\<lambda>i s. if P i then put_field v i s else s) [0 ..< n] s =
     s\<lparr>cr := \<lambda>j. if j div 4 < n \<and> P (j div 4) then of_bool (bit v (31 - j)) else cr s j\<rparr>"
proof (induction n)
  case (Suc n)
  have "(\<lambda>j. if j div 4 = n then of_bool (bit v (31 - j))
      else if j div 4 < n \<and> P (j div 4) then of_bool (bit v (31 - j)) else cr s j) =
    (\<lambda>j. if j div 4 < Suc n \<and> P (j div 4) then of_bool (bit v (31 - j)) else cr s j)" if "P n"
    using that by (auto simp: fun_eq_iff less_Suc_eq)
  moreover have "(\<lambda>j. if j div 4 < n \<and> P (j div 4) then of_bool (bit v (31 - j)) else cr s j) =
    (\<lambda>j. if j div 4 < Suc n \<and> P (j div 4) then of_bool (bit v (31 - j)) else cr s j)" if "\<not> P n"
    using that by (auto simp: fun_eq_iff less_Suc_eq)
  ultimately show ?case using Suc by (auto simp: put_field_upd)
qed simp

lemma crm_bit: "i < 8 \<Longrightarrow> op_crm op AND drop_bit i 128 \<noteq> 0 \<longleftrightarrow> bit (op_crm op) (7 - i)"
proof -
  assume "i < 8"
  have "\<forall>i \<in> set [0 ..< 8]. drop_bit i 128 = (push_bit (7 - i) 1 :: u32)" by code_simp
  then have "drop_bit i 128 = (push_bit (7 - i) 1 :: u32)" using \<open>i < 8\<close> by simp
  then show ?thesis by (metis bit_iff_and_push_bit_not_eq_0)
qed

lemma ppu_MTCRF:
  assumes "\<not> op_l11 op"
  shows "ppu_MTOCRF op s = s\<lparr>cr := \<lambda>j. if j < 32 \<and> bit (op_crm op) (7 - j div 4)
      then of_bool (bit (gpr s (op_rs op)) (31 - j)) else cr s j\<rparr>"
proof -
  have "ppu_MTOCRF op s = s\<lparr>cr := \<lambda>j. if j div 4 < 8 \<and> op_crm op AND drop_bit (j div 4) 128 \<noteq> 0
      then of_bool (bit (gpr s (op_rs op)) (31 - j)) else cr s j\<rparr>"
    using assms by (simp add: ppu_MTOCRF_put fold_fields del: upt.simps)
  also have "\<dots> = s\<lparr>cr := \<lambda>j. if j < 32 \<and> bit (op_crm op) (7 - j div 4)
      then of_bool (bit (gpr s (op_rs op)) (31 - j)) else cr s j\<rparr>"
    using crm_bit [of _ op] by (intro arg_cong [where f = "\<lambda>c. s\<lparr>cr := c\<rparr>"]) (auto simp: fun_eq_iff less_mult_imp_div_less)
  finally show ?thesis .
qed

lemma bit_push_1: "bit (push_bit 1 r :: u32) k \<longleftrightarrow> 0 < k \<and> k < 32 \<and> bit r (k - 1)"
  unfolding bit_push_bit_iff possible_bit_word by auto

lemma pack_step:
  "n \<le> 32 \<Longrightarrow> (\<And>i. c i = 0 \<or> c i = 1) \<Longrightarrow> k < 32 \<Longrightarrow>
    bit (fold (\<lambda>b r. push_bit 1 r OR ucast (c b :: u8)) [0 ..< n] (0::u32)) k = (k < n \<and> c (n - 1 - k) = 1)"
proof (induction n arbitrary: k)
  case (Suc n)
  have "bit (ucast (c n) :: u32) k \<longleftrightarrow> k = 0 \<and> c n = 1"
    using Suc.prems(2) [of n] by (auto simp: bit_1_iff)
  moreover have "bit (fold (\<lambda>b r. push_bit 1 r OR ucast (c b)) [0 ..< n] (0::u32)) (k - 1) \<longleftrightarrow>
      k - 1 < n \<and> c (n - 1 - (k - 1)) = 1"
    using Suc.prems by (intro Suc.IH) auto
  moreover have "fold (\<lambda>b r. push_bit 1 r OR ucast (c b)) [0 ..< Suc n] (0::u32) =
      push_bit 1 (fold (\<lambda>b r. push_bit 1 r OR ucast (c b)) [0 ..< n] 0) OR ucast (c n)" (is "?l = push_bit 1 ?r OR _")
    by simp
  ultimately have "bit ?l k \<longleftrightarrow> 0 < k \<and> k - 1 < n \<and> c (n - 1 - (k - 1)) = 1 \<or> k = 0 \<and> c n = 1"
    using Suc.prems(3) by (simp only: bit_or_iff bit_push_1) blast
  then show ?case by (cases k) (simp_all del: upt.simps)
qed simp

lemma bit_cr_pack: "(\<And>i. c i = 0 \<or> c i = 1) \<Longrightarrow> bit (cr_pack c) k = (k < 32 \<and> c (31 - k) = 1)"
  using pack_step [of 32 c k] bit_imp_le_length [of "cr_pack c" k] unfolding cr_pack_def by auto

text \<open>
  Moving the condition register: after a masked move to it, reading it back gives the source
  register's bits in the selected fields and the old ones in the others, with the upper half of the
  target zero.
\<close>

theorem cr_transfer:
  assumes "ppu_wf s" and "\<not> op_l11 op" and "j < 32"
    and "r = gpr (ppu_MFCR op' (ppu_MTOCRF op s)) (op_rd op')"
  shows "bit r (31 - j) =
      (if bit (op_crm op) (7 - j div 4) then bit (gpr s (op_rs op)) (31 - j) else cr s j = 1) \<and>
    drop_bit 32 r = 0"
proof -
  have r: "r = ucast (cr_pack (cr (ppu_MTOCRF op s)))"
    unfolding assms(4) ppu_MFCR_def set_gpr_def by simp
  have "cr s i = 0 \<or> cr s i = 1" for i using assms(1) unfolding ppu_wf_def by blast
  then have "bit (cr_pack (cr (ppu_MTOCRF op s))) (31 - j) = (cr (ppu_MTOCRF op s) j = 1)"
    unfolding ppu_MTCRF [OF assms(2)] using assms(3) by (subst bit_cr_pack) auto
  then have "bit r (31 - j) = (if bit (op_crm op) (7 - j div 4) then bit (gpr s (op_rs op)) (31 - j) else cr s j = 1)"
    unfolding r using assms(3) by (auto simp: bit_simps ppu_MTCRF [OF assms(2)])
  moreover have "drop_bit 32 r = 0"
    unfolding r by (intro bit_word_eqI) (auto simp: bit_simps dest: bit_imp_le_length)
  ultimately show ?thesis ..
qed

text \<open>\<open>mtcrf 0xf0, r3; mfcr r4\<close>\<close>

theorem cr_transfer_witness:
  "bit (gpr (ppu_MFCR 0x7c800026 (ppu_MTOCRF 0x7c6f0120 (ppu_default\<lparr>gpr := \<lambda>_. 0x12345678\<rparr>))) 4) 28 \<and>
   \<not> bit (gpr (ppu_MFCR 0x7c800026 (ppu_MTOCRF 0x7c6f0120 (ppu_default\<lparr>gpr := \<lambda>_. 0x12345678\<rparr>))) 4) 3"
proof -
  let ?s = "ppu_default\<lparr>gpr := \<lambda>_. 0x12345678\<rparr>"
  have wf: "ppu_wf ?s" by (simp add: ppu_wf_def ppu_default_def)
  have f: "\<not> op_l11 0x7c6f0120" "op_crm 0x7c6f0120 = 0xf0" "op_rd 0x7c800026 = 4"
    by (simp_all add: op_field_defs bf_defs mask_eq_exp_minus_1)
  show ?thesis
    using cr_transfer [OF wf f(1), of 3 _ "0x7c800026"] cr_transfer [OF wf f(1), of 28 _ "0x7c800026"]
    by (simp add: f ppu_default_def bit_numeral_simps)
qed

section \<open>Special registers keep what is written\<close>

text \<open>The bits of a register that exist.\<close>

definition spr_mask :: "u32 \<Rightarrow> u64" where
  "spr_mask n = (if n = 1 then 0xe000007f else if n = 0x100 then 0xffffffff else - 1)"

lemma bits_of_xer: "bit (0xe000007f :: u64) k \<longleftrightarrow> k \<in> {29, 30, 31} \<or> k < 7"
proof -
  have "\<forall>k \<in> set [0 ..< 64]. bit (0xe000007f :: u64) k \<longleftrightarrow> k \<in> {29, 30, 31} \<or> k < 7" by code_simp
  then show ?thesis using bit_imp_le_length [of "0xe000007f :: u64" k] by (cases "k < 64") auto
qed

lemma and_bit_flag:
  "v AND 0x80000000 \<noteq> 0 \<longleftrightarrow> bit (v::u64) 31" "v AND 0x40000000 \<noteq> 0 \<longleftrightarrow> bit v 30" "v AND 0x20000000 \<noteq> 0 \<longleftrightarrow> bit v 29"
  using bit_iff_and_push_bit_not_eq_0 [of v 31] bit_iff_and_push_bit_not_eq_0 [of v 30] bit_iff_and_push_bit_not_eq_0 [of v 29]
  by simp_all

lemma bit_flag: "bit (push_bit n (of_bool b) :: u32) k \<longleftrightarrow> b \<and> k = n \<and> n < 32"
  by (auto simp: bit_push_bit_iff bit_1_iff)

lemma xer_roundtrip:
  "(ucast (push_bit 31 (of_bool (bit v 31)) OR push_bit 30 (of_bool (bit v 30)) OR
      push_bit 29 (of_bool (bit v 29)) OR ucast (ucast (v AND 0x7f :: u64) :: u8) :: u32) :: u64) = v AND 0xe000007f"
proof (rule bit_word_eqI)
  fix k assume "k < LENGTH(64)"
  have "v AND 0x7f = take_bit 7 v" by (simp add: take_bit_eq_mask mask_eq_exp_minus_1)
  then show "bit (ucast (push_bit 31 (of_bool (bit v 31)) OR push_bit 30 (of_bool (bit v 30)) OR
      push_bit 29 (of_bool (bit v 29)) OR ucast (ucast (v AND 0x7f :: u64) :: u8) :: u32) :: u64) k = bit (v AND 0xe000007f) k"
    using \<open>k < LENGTH(64)\<close>
    by (simp only: bit_ucast_iff bit_or_iff bit_and_iff bits_of_xer bit_flag bit_take_bit_iff) auto
qed

text \<open>
  Writing one of the special registers XER, LR, CTR and VRSAVE and reading it back gives the value
  written, restricted to the bits the register has, and neither instruction throws.
\<close>

theorem spr_roundtrip:
  assumes "spr_field op \<in> {1, 8, 9, 0x100}" and "spr_field op' = spr_field op"
  shows "ppu_MFSPR timebase op' (snd (ppu_MTSPR op s)) =
    (Next, set_gpr (op_rd op') (gpr s (op_rs op) AND spr_mask (spr_field op)) (snd (ppu_MTSPR op s)))"
proof -
  have v: "(ucast (ucast v :: u32) :: u64) = v AND 0xffffffff" for v
  proof -
    have "(ucast (ucast v :: u32) :: u64) = v AND mask 32" by (intro bit_word_eqI) (auto simp: bit_simps)
    then show ?thesis by (simp add: mask_eq_exp_minus_1)
  qed
  show ?thesis
    using assms(1)
  proof (elim insertE emptyE)
    assume "spr_field op = 1"
    then show ?thesis
      using assms(2) by (simp only: ppu_MFSPR_def ppu_MTSPR_def spr_mask_def Let_def and_bit_flag)
        (simp add: xer_roundtrip)
  qed (use assms(2) v in \<open>simp_all add: ppu_MFSPR_def ppu_MTSPR_def spr_mask_def Let_def\<close>)
qed

text \<open>\<open>mtxer r3; mfxer r4\<close>\<close>

theorem spr_roundtrip_witness:
  "gpr (snd (ppu_MFSPR 0 0x7c8102a6 (snd (ppu_MTSPR 0x7c6103a6 (ppu_default\<lparr>gpr := \<lambda>_. - 1\<rparr>))))) 4 = 0xe000007f"
proof -
  have f: "spr_field 0x7c6103a6 = 1" "spr_field 0x7c8102a6 = 1" "op_rd 0x7c8102a6 = 4"
    by (simp_all add: spr_field_def op_field_defs bf_defs mask_eq_exp_minus_1)
  show ?thesis
    using spr_roundtrip [of "0x7c6103a6" "0x7c8102a6" 0 "ppu_default\<lparr>gpr := \<lambda>_. - 1\<rparr>"]
    by (simp add: f set_gpr_def spr_mask_def)
qed

end
