(* ===== verification/Ppu_Memory.thy ===== *)
theory Ppu_Memory
  imports Ppu_Branch Guest_Memory
begin

text \<open>
  Loads and stores of \<^verbatim>\<open>rpcs3/Emu/Cell/PPUInterpreter.cpp\<close>. An access computes a 64-bit effective
  address, narrows it with \<^verbatim>\<open>vm::cast\<close>, which throws when it does not fit 32 bits, and reads or writes
  big-endian bytes. With the flag \<^verbatim>\<open>use_feed_data\<close> a load compares what it read with the data of the
  thread's reservation and drops the reservation on a difference. Page faults, memory breakpoints and
  the notification \<open>stw\<close> sends for one magic value are outside the model; the single-precision
  forms and the atomic \<open>lwarx\<close> and \<open>stwcx.\<close> are not modelled.
\<close>

section \<open>Access to memory\<close>

type_synonym 'a access = "ppu \<Rightarrow> (flow + 'a) \<times> ppu"

definition return_m :: "'a \<Rightarrow> 'a access" where
  "return_m x s = (Inr x, s)"

definition bind_m :: "'a access \<Rightarrow> ('a \<Rightarrow> 'b access) \<Rightarrow> 'b access" where
  "bind_m m k s = (case m s of (Inl f, s') \<Rightarrow> (Inl f, s') | (Inr x, s') \<Rightarrow> k x s')"

definition modify_m :: "(ppu \<Rightarrow> ppu) \<Rightarrow> unit access" where
  "modify_m f s = (Inr (), f s)"

definition run_m :: "unit access \<Rightarrow> ppu \<Rightarrow> flow \<times> ppu" where
  "run_m m s = (case m s of (Inl f, s') \<Rightarrow> (f, s') | (Inr _, s') \<Rightarrow> (Next, s'))"

definition vm_cast :: "u64 \<Rightarrow> nat access" where
  "vm_cast addr s =
     (if unat addr < 2 ^ 32 then (Inr (unat addr), s) else (Inl (Throw ''Narrowing error''), s))"

definition drop_reservation :: "ppu \<Rightarrow> ppu" where
  "drop_reservation s = s\<lparr>raddr := 0, res_cached := 0\<rparr>"

text \<open>
  \<^verbatim>\<open>ppu_feed_data<T>\<close> for a type of \<open>n\<close> bytes; the bytes are in memory order. Where the comparison
  would leave its buffer the behaviour is undefined.
\<close>

definition ppu_feed_data :: "bool \<Rightarrow> nat \<Rightarrow> u64 \<Rightarrow> u8 list access" where
  "ppu_feed_data feed n addr s =
     (case vm_cast addr s of
        (Inl f, s) \<Rightarrow> (Inl f, s)
      | (Inr a, s) \<Rightarrow>
          let value = vm_read a n (mem s); r = unat (raddr s)
          in if \<not> feed \<or> \<not> use_full_rdata s then (Inr value, s)
             else if a div 128 > r div 128 \<or> (a + n - 1) div 128 < r div 128 then (Inr value, s)
             else if n = 1 \<or> a div 128 = (a + n - 1) div 128 then
               (Inr value, if value \<noteq> vm_read (a mod 128) n (rdata s) then drop_reservation s else s)
             else if r div 128 = a div 128 then
               let size = min (128 - a mod 128) n
               in (Inr value, if take size value \<noteq> vm_read (a mod 128) size (rdata s)
                              then drop_reservation s else s)
             else
               let size = (a + n) mod 127
               in if size > n then (Inl (Undefined ''memcmp past the buffer''), s)
                  else (Inr value, if drop (n - size) value \<noteq> vm_read 0 size (rdata s)
                                   then drop_reservation s else s))"

definition load_m :: "bool \<Rightarrow> nat \<Rightarrow> u64 \<Rightarrow> (u8 list \<Rightarrow> ppu \<Rightarrow> ppu) \<Rightarrow> unit access" where
  "load_m feed n addr put = bind_m (ppu_feed_data feed n addr) (\<lambda>bs. modify_m (put bs))"

definition store_m :: "u64 \<Rightarrow> u8 list \<Rightarrow> unit access" where
  "store_m addr bs = bind_m (vm_cast addr) (\<lambda>a. modify_m (\<lambda>s. s\<lparr>mem := vm_write a bs (mem s)\<rparr>))"

section \<open>Effective addresses\<close>

text \<open>The register forms, the immediate forms (\<^verbatim>\<open>op.ra || 1\<close> always adds the register) and the DS forms.\<close>

definition ea_x :: "u32 \<Rightarrow> ppu \<Rightarrow> u64" where
  "ea_x op s = (if op_ra op \<noteq> 0 then gpr s (op_ra op) + gpr s (op_rb op) else gpr s (op_rb op))"

definition ea_xu :: "u32 \<Rightarrow> ppu \<Rightarrow> u64" where
  "ea_xu op s = gpr s (op_ra op) + gpr s (op_rb op)"

definition ea_d :: "u32 \<Rightarrow> ppu \<Rightarrow> u64" where
  "ea_d op s = gpr s (op_ra op) + scast (op_simm16 op)"

definition ea_d0 :: "u32 \<Rightarrow> ppu \<Rightarrow> u64" where
  "ea_d0 op s = (if op_ra op \<noteq> 0 then gpr s (op_ra op) + scast (op_simm16 op) else scast (op_simm16 op))"

definition ea_ds :: "u32 \<Rightarrow> ppu \<Rightarrow> u64" where
  "ea_ds op s = scast (op_simm16 op AND NOT 3) + (if op_ra op \<noteq> 0 then gpr s (op_ra op) else 0)"

definition ea_dsu :: "u32 \<Rightarrow> ppu \<Rightarrow> u64" where
  "ea_dsu op s = gpr s (op_ra op) + scast (op_simm16 op AND NOT 3)"

text \<open>Conversions of what a load read.\<close>

definition get_u :: "u8 list \<Rightarrow> u64" where
  "get_u bs = of_be bs"

definition get_s16 :: "u8 list \<Rightarrow> u64" where
  "get_s16 bs = scast (of_be bs :: u16)"

definition get_s32 :: "u8 list \<Rightarrow> u64" where
  "get_s32 bs = scast (of_be bs :: u32)"

definition get_le :: "u8 list \<Rightarrow> u64" where
  "get_le bs = of_be (rev bs)"

definition load_gpr :: "bool \<Rightarrow> nat \<Rightarrow> (u8 list \<Rightarrow> u64) \<Rightarrow> (u32 \<Rightarrow> ppu \<Rightarrow> u64) \<Rightarrow> u32 \<Rightarrow> ppu \<Rightarrow> flow \<times> ppu" where
  "load_gpr feed n get ea op s =
     run_m (load_m feed n (ea op s) (\<lambda>bs. set_gpr (op_rd op) (get bs))) s"

text \<open>The update forms write the target first and the address register after it.\<close>

definition load_upd :: "bool \<Rightarrow> nat \<Rightarrow> (u8 list \<Rightarrow> u64) \<Rightarrow> (u32 \<Rightarrow> ppu \<Rightarrow> u64) \<Rightarrow> u32 \<Rightarrow> ppu \<Rightarrow> flow \<times> ppu" where
  "load_upd feed n get ea op s =
     run_m (load_m feed n (ea op s) (\<lambda>bs. set_gpr (op_ra op) (ea op s) \<circ> set_gpr (op_rd op) (get bs))) s"

definition store_gpr :: "(u64 \<Rightarrow> u8 list) \<Rightarrow> (u32 \<Rightarrow> ppu \<Rightarrow> u64) \<Rightarrow> u32 \<Rightarrow> ppu \<Rightarrow> flow \<times> ppu" where
  "store_gpr put ea op s = run_m (store_m (ea op s) (put (gpr s (op_rs op)))) s"

definition store_upd :: "(u64 \<Rightarrow> u8 list) \<Rightarrow> (u32 \<Rightarrow> ppu \<Rightarrow> u64) \<Rightarrow> u32 \<Rightarrow> ppu \<Rightarrow> flow \<times> ppu" where
  "store_upd put ea op s =
     run_m (bind_m (store_m (ea op s) (put (gpr s (op_rs op)))) (\<lambda>_. modify_m (set_gpr (op_ra op) (ea op s)))) s"

abbreviation put8 :: "u64 \<Rightarrow> u8 list" where "put8 v \<equiv> be_bytes (ucast v :: u8)"
abbreviation put16 :: "u64 \<Rightarrow> u8 list" where "put16 v \<equiv> be_bytes (ucast v :: u16)"
abbreviation put32 :: "u64 \<Rightarrow> u8 list" where "put32 v \<equiv> be_bytes (ucast v :: u32)"
abbreviation put64 :: "u64 \<Rightarrow> u8 list" where "put64 v \<equiv> be_bytes v"

section \<open>Fixed-point loads\<close>

definition ppu_LDX :: "bool \<Rightarrow> u32 \<Rightarrow> ppu \<Rightarrow> flow \<times> ppu" where
  "ppu_LDX feed = load_gpr feed 8 get_u ea_x"

definition ppu_LWZX :: "bool \<Rightarrow> u32 \<Rightarrow> ppu \<Rightarrow> flow \<times> ppu" where
  "ppu_LWZX feed = load_gpr feed 4 get_u ea_x"

definition ppu_LDUX :: "bool \<Rightarrow> u32 \<Rightarrow> ppu \<Rightarrow> flow \<times> ppu" where
  "ppu_LDUX feed = load_upd feed 8 get_u ea_xu"

definition ppu_LWZUX :: "bool \<Rightarrow> u32 \<Rightarrow> ppu \<Rightarrow> flow \<times> ppu" where
  "ppu_LWZUX feed = load_upd feed 4 get_u ea_xu"

definition ppu_LBZX :: "bool \<Rightarrow> u32 \<Rightarrow> ppu \<Rightarrow> flow \<times> ppu" where
  "ppu_LBZX feed = load_gpr feed 1 get_u ea_x"

definition ppu_LBZUX :: "bool \<Rightarrow> u32 \<Rightarrow> ppu \<Rightarrow> flow \<times> ppu" where
  "ppu_LBZUX feed = load_upd feed 1 get_u ea_xu"

definition ppu_LHZX :: "bool \<Rightarrow> u32 \<Rightarrow> ppu \<Rightarrow> flow \<times> ppu" where
  "ppu_LHZX feed = load_gpr feed 2 get_u ea_x"

definition ppu_LHZUX :: "bool \<Rightarrow> u32 \<Rightarrow> ppu \<Rightarrow> flow \<times> ppu" where
  "ppu_LHZUX feed = load_upd feed 2 get_u ea_x"

definition ppu_LWAX :: "bool \<Rightarrow> u32 \<Rightarrow> ppu \<Rightarrow> flow \<times> ppu" where
  "ppu_LWAX feed = load_gpr feed 4 get_s32 ea_x"

definition ppu_LHAX :: "bool \<Rightarrow> u32 \<Rightarrow> ppu \<Rightarrow> flow \<times> ppu" where
  "ppu_LHAX feed = load_gpr feed 2 get_s16 ea_x"

definition ppu_LWAUX :: "bool \<Rightarrow> u32 \<Rightarrow> ppu \<Rightarrow> flow \<times> ppu" where
  "ppu_LWAUX feed = load_upd feed 4 get_s32 ea_x"

definition ppu_LHAUX :: "bool \<Rightarrow> u32 \<Rightarrow> ppu \<Rightarrow> flow \<times> ppu" where
  "ppu_LHAUX feed = load_upd feed 2 get_s16 ea_x"

definition ppu_LDBRX :: "bool \<Rightarrow> u32 \<Rightarrow> ppu \<Rightarrow> flow \<times> ppu" where
  "ppu_LDBRX feed = load_gpr feed 8 get_le ea_x"

definition ppu_LWBRX :: "bool \<Rightarrow> u32 \<Rightarrow> ppu \<Rightarrow> flow \<times> ppu" where
  "ppu_LWBRX feed = load_gpr feed 4 get_le ea_x"

definition ppu_LHBRX :: "bool \<Rightarrow> u32 \<Rightarrow> ppu \<Rightarrow> flow \<times> ppu" where
  "ppu_LHBRX feed = load_gpr feed 2 get_le ea_x"

definition ppu_LWZ :: "bool \<Rightarrow> u32 \<Rightarrow> ppu \<Rightarrow> flow \<times> ppu" where
  "ppu_LWZ feed = load_gpr feed 4 get_u ea_d"

definition ppu_LWZU :: "bool \<Rightarrow> u32 \<Rightarrow> ppu \<Rightarrow> flow \<times> ppu" where
  "ppu_LWZU feed = load_upd feed 4 get_u ea_d"

definition ppu_LBZ :: "bool \<Rightarrow> u32 \<Rightarrow> ppu \<Rightarrow> flow \<times> ppu" where
  "ppu_LBZ feed = load_gpr feed 1 get_u ea_d"

definition ppu_LBZU :: "bool \<Rightarrow> u32 \<Rightarrow> ppu \<Rightarrow> flow \<times> ppu" where
  "ppu_LBZU feed = load_upd feed 1 get_u ea_d"

definition ppu_LHZ :: "bool \<Rightarrow> u32 \<Rightarrow> ppu \<Rightarrow> flow \<times> ppu" where
  "ppu_LHZ feed = load_gpr feed 2 get_u ea_d"

definition ppu_LHZU :: "bool \<Rightarrow> u32 \<Rightarrow> ppu \<Rightarrow> flow \<times> ppu" where
  "ppu_LHZU feed = load_upd feed 2 get_u ea_d"

definition ppu_LHA :: "bool \<Rightarrow> u32 \<Rightarrow> ppu \<Rightarrow> flow \<times> ppu" where
  "ppu_LHA feed = load_gpr feed 2 get_s16 ea_d"

definition ppu_LHAU :: "bool \<Rightarrow> u32 \<Rightarrow> ppu \<Rightarrow> flow \<times> ppu" where
  "ppu_LHAU feed = load_upd feed 2 get_s16 ea_d"

definition ppu_LD :: "bool \<Rightarrow> u32 \<Rightarrow> ppu \<Rightarrow> flow \<times> ppu" where
  "ppu_LD feed = load_gpr feed 8 get_u ea_ds"

definition ppu_LDU :: "bool \<Rightarrow> u32 \<Rightarrow> ppu \<Rightarrow> flow \<times> ppu" where
  "ppu_LDU feed = load_upd feed 8 get_u ea_dsu"

definition ppu_LWA :: "bool \<Rightarrow> u32 \<Rightarrow> ppu \<Rightarrow> flow \<times> ppu" where
  "ppu_LWA feed = load_gpr feed 4 get_s32 ea_ds"

section \<open>Fixed-point stores\<close>

definition ppu_STDX :: "u32 \<Rightarrow> ppu \<Rightarrow> flow \<times> ppu" where
  "ppu_STDX = store_gpr put64 ea_x"

definition ppu_STWX :: "u32 \<Rightarrow> ppu \<Rightarrow> flow \<times> ppu" where
  "ppu_STWX = store_gpr put32 ea_x"

definition ppu_STDUX :: "u32 \<Rightarrow> ppu \<Rightarrow> flow \<times> ppu" where
  "ppu_STDUX = store_upd put64 ea_xu"

definition ppu_STWUX :: "u32 \<Rightarrow> ppu \<Rightarrow> flow \<times> ppu" where
  "ppu_STWUX = store_upd put32 ea_xu"

definition ppu_STBX :: "u32 \<Rightarrow> ppu \<Rightarrow> flow \<times> ppu" where
  "ppu_STBX = store_gpr put8 ea_x"

definition ppu_STBUX :: "u32 \<Rightarrow> ppu \<Rightarrow> flow \<times> ppu" where
  "ppu_STBUX = store_upd put8 ea_xu"

definition ppu_STHX :: "u32 \<Rightarrow> ppu \<Rightarrow> flow \<times> ppu" where
  "ppu_STHX = store_gpr put16 ea_x"

definition ppu_STHUX :: "u32 \<Rightarrow> ppu \<Rightarrow> flow \<times> ppu" where
  "ppu_STHUX = store_upd put16 ea_xu"

definition ppu_STDBRX :: "u32 \<Rightarrow> ppu \<Rightarrow> flow \<times> ppu" where
  "ppu_STDBRX = store_gpr (\<lambda>v. rev (put64 v)) ea_x"

definition ppu_STWBRX :: "u32 \<Rightarrow> ppu \<Rightarrow> flow \<times> ppu" where
  "ppu_STWBRX = store_gpr (\<lambda>v. rev (put32 v)) ea_x"

definition ppu_STHBRX :: "u32 \<Rightarrow> ppu \<Rightarrow> flow \<times> ppu" where
  "ppu_STHBRX = store_gpr (\<lambda>v. rev (put16 v)) ea_x"

definition ppu_STW :: "u32 \<Rightarrow> ppu \<Rightarrow> flow \<times> ppu" where
  "ppu_STW = store_gpr put32 ea_d"

definition ppu_STWU :: "u32 \<Rightarrow> ppu \<Rightarrow> flow \<times> ppu" where
  "ppu_STWU = store_upd put32 ea_d"

definition ppu_STB :: "u32 \<Rightarrow> ppu \<Rightarrow> flow \<times> ppu" where
  "ppu_STB = store_gpr put8 ea_d"

definition ppu_STBU :: "u32 \<Rightarrow> ppu \<Rightarrow> flow \<times> ppu" where
  "ppu_STBU = store_upd put8 ea_d"

definition ppu_STH :: "u32 \<Rightarrow> ppu \<Rightarrow> flow \<times> ppu" where
  "ppu_STH = store_gpr put16 ea_d"

definition ppu_STHU :: "u32 \<Rightarrow> ppu \<Rightarrow> flow \<times> ppu" where
  "ppu_STHU = store_upd put16 ea_d"

definition ppu_STD :: "u32 \<Rightarrow> ppu \<Rightarrow> flow \<times> ppu" where
  "ppu_STD = store_gpr put64 ea_ds"

definition ppu_STDU :: "u32 \<Rightarrow> ppu \<Rightarrow> flow \<times> ppu" where
  "ppu_STDU = store_upd put64 ea_dsu"

section \<open>Several registers\<close>

text \<open>\<open>lmw\<close> and \<open>stmw\<close>: registers \<open>rd\<close> to 31 from ascending words.\<close>

definition ppu_LMW :: "bool \<Rightarrow> u32 \<Rightarrow> ppu \<Rightarrow> flow \<times> ppu" where
  "ppu_LMW feed op s =
     run_m (fold (\<lambda>i m. bind_m m (\<lambda>_. load_m feed 4 (ea_d0 op s + 4 * of_nat (i - op_rd op)) (\<lambda>bs. set_gpr i (get_u bs))))
       [op_rd op ..< 32] (return_m ())) s"

definition ppu_STMW :: "u32 \<Rightarrow> ppu \<Rightarrow> flow \<times> ppu" where
  "ppu_STMW op s =
     run_m (fold (\<lambda>i m. bind_m m (\<lambda>_. store_m (ea_d0 op s + 4 * of_nat (i - op_rs op)) (put32 (gpr s i))))
       [op_rs op ..< 32] (return_m ())) s"

text \<open>
  The string forms move \<open>n\<close> bytes, four per register, registers wrapping round from 31 to 0; the
  last register takes the remaining bytes from its high end, and a load clears the rest of it.
\<close>

fun load_tail :: "bool \<Rightarrow> nat \<Rightarrow> u64 \<Rightarrow> nat \<Rightarrow> u32 \<Rightarrow> u32 access" where
  "load_tail feed 0 addr i buf = return_m buf"
| "load_tail feed (Suc n) addr i buf =
     bind_m (ppu_feed_data feed 1 addr)
       (\<lambda>bs. load_tail feed n (addr + 1) (i - 1) (buf OR push_bit (i * 8) (of_be bs)))"

function load_string :: "bool \<Rightarrow> nat \<Rightarrow> u64 \<Rightarrow> nat \<Rightarrow> unit access" where
  "load_string feed n addr reg =
     (if n = 0 then return_m ()
      else if n > 3 then
        bind_m (load_m feed 4 addr (\<lambda>bs. set_gpr reg (get_u bs)))
          (\<lambda>_. load_string feed (n - 4) (addr + 4) ((reg + 1) mod 32))
      else bind_m (load_tail feed n addr 3 0) (\<lambda>buf. modify_m (set_gpr reg (ucast buf))))"
  by pat_completeness auto
termination by (relation "measure (\<lambda>(feed, n, addr, reg). n)") auto

fun store_tail :: "nat \<Rightarrow> u64 \<Rightarrow> u32 \<Rightarrow> unit access" where
  "store_tail 0 addr buf = return_m ()"
| "store_tail (Suc n) addr buf =
     bind_m (store_m addr [ucast (drop_bit 24 (0xff000000 AND buf))])
       (\<lambda>_. store_tail n (addr + 1) (push_bit 8 buf))"

function store_string :: "nat \<Rightarrow> u64 \<Rightarrow> nat \<Rightarrow> unit access" where
  "store_string n addr reg s =
     (if n = 0 then return_m () s
      else if n > 3 then
        bind_m (store_m addr (put32 (gpr s reg))) (\<lambda>_. store_string (n - 4) (addr + 4) ((reg + 1) mod 32)) s
      else store_tail n addr (ucast (gpr s reg)) s)"
  by pat_completeness auto
termination by (relation "measure (\<lambda>(n, addr, reg, s). n)") auto

declare load_string.simps [simp del] store_string.simps [simp del]

definition ppu_LSWI :: "bool \<Rightarrow> u32 \<Rightarrow> ppu \<Rightarrow> flow \<times> ppu" where
  "ppu_LSWI feed op s =
     run_m (load_string feed (if op_rb op \<noteq> 0 then op_rb op else 32) (if op_ra op \<noteq> 0 then gpr s (op_ra op) else 0) (op_rd op)) s"

definition ppu_STSWI :: "u32 \<Rightarrow> ppu \<Rightarrow> flow \<times> ppu" where
  "ppu_STSWI op s =
     run_m (store_string (if op_rb op \<noteq> 0 then op_rb op else 32) (if op_ra op \<noteq> 0 then gpr s (op_ra op) else 0) (op_rd op)) s"

text \<open>The indexed string forms take the count from XER and place byte \<open>k\<close> of the tail at \<^verbatim>\<open>3 ^ k\<close>.\<close>

function load_string_x :: "bool \<Rightarrow> nat \<Rightarrow> u64 \<Rightarrow> nat \<Rightarrow> unit access" where
  "load_string_x feed count addr rd =
     (if count \<ge> 4 then
        bind_m (load_m feed 4 addr (\<lambda>bs. set_gpr rd (get_u bs)))
          (\<lambda>_. load_string_x feed (count - 4) (addr + 4) ((rd + 1) mod 32))
      else if count \<noteq> 0 then
        bind_m (fold (\<lambda>byte m. bind_m m (\<lambda>value. bind_m (ppu_feed_data feed 1 (addr + of_nat byte))
            (\<lambda>bs. return_m (value OR push_bit ((3 XOR byte) * 8) (of_be bs))))) [0 ..< count] (return_m (0::u32)))
          (\<lambda>value. modify_m (set_gpr rd (ucast value)))
      else return_m ())"
  by pat_completeness auto
termination by (relation "measure (\<lambda>(feed, count, addr, rd). count)") auto

function store_string_x :: "nat \<Rightarrow> u64 \<Rightarrow> nat \<Rightarrow> unit access" where
  "store_string_x count addr rs s =
     (if count \<ge> 4 then
        bind_m (store_m addr (put32 (gpr s rs))) (\<lambda>_. store_string_x (count - 4) (addr + 4) ((rs + 1) mod 32)) s
      else if count \<noteq> 0 then
        fold (\<lambda>byte m. bind_m m (\<lambda>_. store_m (addr + of_nat byte)
            [ucast (drop_bit ((3 XOR byte) * 8) (ucast (gpr s rs) :: u32))])) [0 ..< count] (return_m ()) s
      else return_m () s)"
  by pat_completeness auto
termination by (relation "measure (\<lambda>(count, addr, rs, s). count)") auto

declare load_string_x.simps [simp del] store_string_x.simps [simp del]

definition ppu_LSWX :: "bool \<Rightarrow> u32 \<Rightarrow> ppu \<Rightarrow> flow \<times> ppu" where
  "ppu_LSWX feed op s = run_m (load_string_x feed (unat (xer_cnt s AND 0x7f)) (ea_x op s) (op_rd op)) s"

definition ppu_STSWX :: "u32 \<Rightarrow> ppu \<Rightarrow> flow \<times> ppu" where
  "ppu_STSWX op s = run_m (store_string_x (unat (xer_cnt s AND 0x7f)) (ea_x op s) (op_rs op)) s"

section \<open>Vectors, doubles and cache lines\<close>

text \<open>The fields \<open>vd\<close>, \<open>vs\<close>, \<open>frd\<close> and \<open>frs\<close> occupy the bits of \<open>rd\<close>.\<close>

definition set_vr :: "nat \<Rightarrow> u128 \<Rightarrow> ppu \<Rightarrow> ppu" where
  "set_vr i v s = s\<lparr>vr := (vr s)(i := v)\<rparr>"

definition set_fpr :: "nat \<Rightarrow> u64 \<Rightarrow> ppu \<Rightarrow> ppu" where
  "set_fpr i v s = s\<lparr>fpr := (fpr s)(i := v)\<rparr>"

definition ea_16 :: "u32 \<Rightarrow> ppu \<Rightarrow> u64" where
  "ea_16 op s = ea_x op s AND NOT 0xf"

definition load_vr :: "bool \<Rightarrow> u32 \<Rightarrow> ppu \<Rightarrow> flow \<times> ppu" where
  "load_vr feed op s = run_m (load_m feed 16 (ea_16 op s) (\<lambda>bs. set_vr (op_rd op) (of_be bs))) s"

definition ppu_LVX :: "bool \<Rightarrow> u32 \<Rightarrow> ppu \<Rightarrow> flow \<times> ppu" where
  "ppu_LVX feed = load_vr feed"

definition ppu_LVXL :: "bool \<Rightarrow> u32 \<Rightarrow> ppu \<Rightarrow> flow \<times> ppu" where
  "ppu_LVXL feed = load_vr feed"

definition ppu_LVEBX :: "bool \<Rightarrow> u32 \<Rightarrow> ppu \<Rightarrow> flow \<times> ppu" where
  "ppu_LVEBX feed = load_vr feed"

definition ppu_LVEHX :: "bool \<Rightarrow> u32 \<Rightarrow> ppu \<Rightarrow> flow \<times> ppu" where
  "ppu_LVEHX feed = load_vr feed"

definition ppu_LVEWX :: "bool \<Rightarrow> u32 \<Rightarrow> ppu \<Rightarrow> flow \<times> ppu" where
  "ppu_LVEWX feed = load_vr feed"

definition ppu_STVX :: "u32 \<Rightarrow> ppu \<Rightarrow> flow \<times> ppu" where
  "ppu_STVX op s = run_m (store_m (ea_16 op s) (be_bytes (vr s (op_rs op)))) s"

definition ppu_STVXL :: "u32 \<Rightarrow> ppu \<Rightarrow> flow \<times> ppu" where
  "ppu_STVXL op s = run_m (store_m (ea_16 op s) (be_bytes (vr s (op_rs op)))) s"

text \<open>Element \<^verbatim>\<open>_u8[15 - eb]\<close> of the host's little-endian vector is byte \<open>eb\<close> in memory order.\<close>

definition ppu_STVEBX :: "u32 \<Rightarrow> ppu \<Rightarrow> flow \<times> ppu" where
  "ppu_STVEBX op s =
     (let eb = unat (ea_x op s AND 0xf)
      in run_m (store_m (ea_x op s) [be_bytes (vr s (op_rs op)) ! eb]) s)"

definition ppu_STVEHX :: "u32 \<Rightarrow> ppu \<Rightarrow> flow \<times> ppu" where
  "ppu_STVEHX op s =
     (let addr = ea_x op s AND NOT 1; eb = unat (drop_bit 1 (addr AND 0xf))
      in run_m (store_m addr (take 2 (drop (2 * eb) (be_bytes (vr s (op_rs op)))))) s)"

definition ppu_STVEWX :: "u32 \<Rightarrow> ppu \<Rightarrow> flow \<times> ppu" where
  "ppu_STVEWX op s =
     (let addr = ea_x op s AND NOT 3; eb = unat (drop_bit 2 (addr AND 0xf))
      in run_m (store_m addr (take 4 (drop (4 * eb) (be_bytes (vr s (op_rs op)))))) s)"

text \<open>The permutation vectors for unaligned data: bytes counting up from the offset.\<close>

definition ppu_LVSL :: "u32 \<Rightarrow> ppu \<Rightarrow> ppu" where
  "ppu_LVSL op s =
     (let sh = unat (ea_x op s) mod 16
      in set_vr (op_rd op) (of_be (map (\<lambda>k. of_nat k + of_nat sh) [0 ..< 16])) s)"

definition ppu_LVSR :: "u32 \<Rightarrow> ppu \<Rightarrow> ppu" where
  "ppu_LVSR op s =
     (let sh = unat (ea_x op s) mod 16
      in set_vr (op_rd op) (of_be (map (\<lambda>k. of_nat k + (16 - of_nat sh)) [0 ..< 16])) s)"

definition ppu_LVLX :: "bool \<Rightarrow> u32 \<Rightarrow> ppu \<Rightarrow> flow \<times> ppu" where
  "ppu_LVLX feed op s =
     (let addr = ea_x op s
      in run_m (load_m feed 16 (addr AND - 16)
           (\<lambda>bs. set_vr (op_rd op) (push_bit (unat (addr AND 15) * 8) (of_be bs)))) s)"

definition ppu_LVRX :: "bool \<Rightarrow> u32 \<Rightarrow> ppu \<Rightarrow> flow \<times> ppu" where
  "ppu_LVRX feed op s =
     (let addr = ea_x op s
      in run_m (load_m feed 16 ((if addr AND 15 = 0 then ucast (cia s) else addr) AND - 16)
           (\<lambda>bs. set_vr (op_rd op) (drop_bit 8 (drop_bit (unat (NOT addr AND 15) * 8) (of_be bs))))) s)"

definition ppu_STVLX :: "u32 \<Rightarrow> ppu \<Rightarrow> flow \<times> ppu" where
  "ppu_STVLX op s =
     (let addr = ea_x op s; tail = unat (addr AND 15)
      in run_m (store_m addr (take (16 - tail) (be_bytes (vr s (op_rs op))))) s)"

text \<open>The loop runs from byte 15 down to byte \<open>16 - tail\<close> of the sixteen bytes before the address.\<close>

definition ppu_STVRX :: "u32 \<Rightarrow> ppu \<Rightarrow> flow \<times> ppu" where
  "ppu_STVRX op s =
     (let addr = ea_x op s; tail = unat (addr AND 15)
      in run_m (bind_m (vm_cast (addr - 16)) (\<lambda>p. modify_m (\<lambda>s.
           fold (\<lambda>i s. s\<lparr>mem := (mem s)(p + i := be_bytes (vr s (op_rs op)) ! i)\<rparr>) (rev [16 - tail ..< 16]) s))) s)"

definition load_fpr :: "bool \<Rightarrow> (u32 \<Rightarrow> ppu \<Rightarrow> u64) \<Rightarrow> u32 \<Rightarrow> unit access" where
  "load_fpr feed ea op s = load_m feed 8 (ea op s) (\<lambda>bs. set_fpr (op_rd op) (of_be bs)) s"

definition with_update :: "(u32 \<Rightarrow> ppu \<Rightarrow> u64) \<Rightarrow> (u32 \<Rightarrow> unit access) \<Rightarrow> u32 \<Rightarrow> unit access" where
  "with_update ea m op s = bind_m (m op) (\<lambda>_. modify_m (set_gpr (op_ra op) (ea op s))) s"

definition ppu_LFDX :: "bool \<Rightarrow> u32 \<Rightarrow> ppu \<Rightarrow> flow \<times> ppu" where
  "ppu_LFDX feed op = run_m (load_fpr feed ea_x op)"

definition ppu_LFDUX :: "bool \<Rightarrow> u32 \<Rightarrow> ppu \<Rightarrow> flow \<times> ppu" where
  "ppu_LFDUX feed op = run_m (with_update ea_xu (load_fpr feed ea_xu) op)"

definition ppu_LFD :: "bool \<Rightarrow> u32 \<Rightarrow> ppu \<Rightarrow> flow \<times> ppu" where
  "ppu_LFD feed op = run_m (load_fpr feed ea_d op)"

definition ppu_LFDU :: "bool \<Rightarrow> u32 \<Rightarrow> ppu \<Rightarrow> flow \<times> ppu" where
  "ppu_LFDU feed op = run_m (with_update ea_d (load_fpr feed ea_d) op)"

definition store_fpr :: "(u32 \<Rightarrow> ppu \<Rightarrow> u64) \<Rightarrow> u32 \<Rightarrow> unit access" where
  "store_fpr ea op s = store_m (ea op s) (be_bytes (fpr s (op_rs op))) s"

definition ppu_STFDX :: "u32 \<Rightarrow> ppu \<Rightarrow> flow \<times> ppu" where
  "ppu_STFDX op = run_m (store_fpr ea_x op)"

definition ppu_STFDUX :: "u32 \<Rightarrow> ppu \<Rightarrow> flow \<times> ppu" where
  "ppu_STFDUX op = run_m (with_update ea_xu (store_fpr ea_xu) op)"

definition ppu_STFD :: "u32 \<Rightarrow> ppu \<Rightarrow> flow \<times> ppu" where
  "ppu_STFD op = run_m (store_fpr ea_d op)"

definition ppu_STFDU :: "u32 \<Rightarrow> ppu \<Rightarrow> flow \<times> ppu" where
  "ppu_STFDU op = run_m (with_update ea_d (store_fpr ea_d) op)"

definition ppu_STFIWX :: "u32 \<Rightarrow> ppu \<Rightarrow> flow \<times> ppu" where
  "ppu_STFIWX op s = run_m (store_m (ea_x op s) (put32 (fpr s (op_rs op)))) s"

definition ppu_DCBZ :: "u32 \<Rightarrow> ppu \<Rightarrow> flow \<times> ppu" where
  "ppu_DCBZ op s =
     run_m (bind_m (vm_cast (ea_x op s)) (\<lambda>a. modify_m (\<lambda>s. s\<lparr>mem := vm_write (a - a mod 128) (replicate 128 0) (mem s)\<rparr>))) s"

end
