(* ===== verification/Ppu_Access.thy ===== *)
theory Ppu_Access
  imports Ppu_Memory
begin

text \<open>
  Single accesses: what a store writes a load reads back, for every width, byte order and address
  form; unaligned vectors through the left and right halves; and the check that drops a reservation
  whose data a load finds changed.
\<close>

section \<open>The loads and stores of the fixed-point unit\<close>

datatype load_insn = LDX | LWZX | LDUX | LWZUX | LBZX | LBZUX | LHZX | LHZUX | LWAX | LHAX | LWAUX | LHAUX |
  LDBRX | LWBRX | LHBRX | LWZ | LWZU | LBZ | LBZU | LHZ | LHZU | LHA | LHAU | LD | LDU | LWA

datatype store_insn = STDX | STWX | STDUX | STWUX | STBX | STBUX | STHX | STHUX | STDBRX | STWBRX | STHBRX |
  STW | STWU | STB | STBU | STH | STHU | STD | STDU

fun exec_load :: "load_insn \<Rightarrow> bool \<Rightarrow> u32 \<Rightarrow> ppu \<Rightarrow> flow \<times> ppu" where
  "exec_load LDX = ppu_LDX" | "exec_load LWZX = ppu_LWZX" | "exec_load LDUX = ppu_LDUX"
| "exec_load LWZUX = ppu_LWZUX" | "exec_load LBZX = ppu_LBZX" | "exec_load LBZUX = ppu_LBZUX"
| "exec_load LHZX = ppu_LHZX" | "exec_load LHZUX = ppu_LHZUX" | "exec_load LWAX = ppu_LWAX"
| "exec_load LHAX = ppu_LHAX" | "exec_load LWAUX = ppu_LWAUX" | "exec_load LHAUX = ppu_LHAUX"
| "exec_load LDBRX = ppu_LDBRX" | "exec_load LWBRX = ppu_LWBRX" | "exec_load LHBRX = ppu_LHBRX"
| "exec_load LWZ = ppu_LWZ" | "exec_load LWZU = ppu_LWZU" | "exec_load LBZ = ppu_LBZ"
| "exec_load LBZU = ppu_LBZU" | "exec_load LHZ = ppu_LHZ" | "exec_load LHZU = ppu_LHZU"
| "exec_load LHA = ppu_LHA" | "exec_load LHAU = ppu_LHAU" | "exec_load LD = ppu_LD"
| "exec_load LDU = ppu_LDU" | "exec_load LWA = ppu_LWA"

fun exec_store :: "store_insn \<Rightarrow> u32 \<Rightarrow> ppu \<Rightarrow> flow \<times> ppu" where
  "exec_store STDX = ppu_STDX" | "exec_store STWX = ppu_STWX" | "exec_store STDUX = ppu_STDUX"
| "exec_store STWUX = ppu_STWUX" | "exec_store STBX = ppu_STBX" | "exec_store STBUX = ppu_STBUX"
| "exec_store STHX = ppu_STHX" | "exec_store STHUX = ppu_STHUX" | "exec_store STDBRX = ppu_STDBRX"
| "exec_store STWBRX = ppu_STWBRX" | "exec_store STHBRX = ppu_STHBRX" | "exec_store STW = ppu_STW"
| "exec_store STWU = ppu_STWU" | "exec_store STB = ppu_STB" | "exec_store STBU = ppu_STBU"
| "exec_store STH = ppu_STH" | "exec_store STHU = ppu_STHU" | "exec_store STD = ppu_STD"
| "exec_store STDU = ppu_STDU"

lemmas load_defs = ppu_LDX_def ppu_LWZX_def ppu_LDUX_def ppu_LWZUX_def ppu_LBZX_def ppu_LBZUX_def
  ppu_LHZX_def ppu_LHZUX_def ppu_LWAX_def ppu_LHAX_def ppu_LWAUX_def ppu_LHAUX_def ppu_LDBRX_def
  ppu_LWBRX_def ppu_LHBRX_def ppu_LWZ_def ppu_LWZU_def ppu_LBZ_def ppu_LBZU_def ppu_LHZ_def ppu_LHZU_def
  ppu_LHA_def ppu_LHAU_def ppu_LD_def ppu_LDU_def ppu_LWA_def

lemmas store_defs = ppu_STDX_def ppu_STWX_def ppu_STDUX_def ppu_STWUX_def ppu_STBX_def ppu_STBUX_def
  ppu_STHX_def ppu_STHUX_def ppu_STDBRX_def ppu_STWBRX_def ppu_STHBRX_def ppu_STW_def ppu_STWU_def
  ppu_STB_def ppu_STBU_def ppu_STH_def ppu_STHU_def ppu_STD_def ppu_STDU_def

text \<open>What the names of the instructions say: width in bytes, form of the address, update, sign, byte order.\<close>

definition load_bytes :: "load_insn \<Rightarrow> nat" where
  "load_bytes l =
     (if l \<in> {LBZX, LBZUX, LBZ, LBZU} then 1
      else if l \<in> {LHZX, LHZUX, LHAX, LHAUX, LHBRX, LHZ, LHZU, LHA, LHAU} then 2
      else if l \<in> {LDX, LDUX, LDBRX, LD, LDU} then 8 else 4)"

definition load_ea :: "load_insn \<Rightarrow> u32 \<Rightarrow> ppu \<Rightarrow> u64" where
  "load_ea l =
     (if l \<in> {LDUX, LWZUX, LBZUX} then ea_xu
      else if l \<in> {LWZ, LWZU, LBZ, LBZU, LHZ, LHZU, LHA, LHAU} then ea_d
      else if l \<in> {LD, LWA} then ea_ds else if l = LDU then ea_dsu else ea_x)"

definition load_updates :: "load_insn \<Rightarrow> bool" where
  "load_updates l = (l \<in> {LDUX, LWZUX, LBZUX, LHZUX, LWAUX, LHAUX, LWZU, LBZU, LHZU, LHAU, LDU})"

definition load_signed :: "load_insn \<Rightarrow> bool" where
  "load_signed l = (l \<in> {LWAX, LHAX, LWAUX, LHAUX, LHA, LHAU, LWA})"

definition load_reversed :: "load_insn \<Rightarrow> bool" where
  "load_reversed l = (l \<in> {LDBRX, LWBRX, LHBRX})"

definition store_bytes :: "store_insn \<Rightarrow> nat" where
  "store_bytes i =
     (if i \<in> {STBX, STBUX, STB, STBU} then 1
      else if i \<in> {STHX, STHUX, STHBRX, STH, STHU} then 2
      else if i \<in> {STDX, STDUX, STDBRX, STD, STDU} then 8 else 4)"

definition store_ea :: "store_insn \<Rightarrow> u32 \<Rightarrow> ppu \<Rightarrow> u64" where
  "store_ea i =
     (if i \<in> {STDUX, STWUX, STBUX, STHUX} then ea_xu
      else if i \<in> {STW, STWU, STB, STBU, STH, STHU} then ea_d
      else if i = STD then ea_ds else if i = STDU then ea_dsu else ea_x)"

definition store_updates :: "store_insn \<Rightarrow> bool" where
  "store_updates i = (i \<in> {STDUX, STWUX, STBUX, STHUX, STWU, STBU, STHU, STDU})"

definition store_reversed :: "store_insn \<Rightarrow> bool" where
  "store_reversed i = (i \<in> {STDBRX, STWBRX, STHBRX})"

text \<open>The lowest \<open>n\<close> bytes of a register, first the most significant one.\<close>

definition low_bytes :: "nat \<Rightarrow> u64 \<Rightarrow> u8 list" where
  "low_bytes n v = map (\<lambda>k. ucast (drop_bit (8 * (n - 1 - k)) v)) [0 ..< n]"

definition extend_low :: "bool \<Rightarrow> nat \<Rightarrow> u64 \<Rightarrow> u64" where
  "extend_low se n v = (if se then signed_take_bit (8 * n - 1) v else take_bit (8 * n) v)"

lemmas access_defs = run_m_def bind_m_def return_m_def modify_m_def load_m_def store_m_def vm_cast_def

lemma be_bytes_low:
  assumes "LENGTH('a) = 8 * m" "m \<le> 8"
  shows "be_bytes (ucast (v::u64) :: 'a::len word) = low_bytes m v"
proof -
  have "ucast (drop_bit (8 * m - 8 - 8 * k) (ucast v :: 'a word)) = (ucast (drop_bit (8 * (m - 1 - k)) v) :: u8)" if "k < m" for k
  proof (rule bit_word_eqI)
    fix n assume "n < LENGTH(8)"
    moreover have "8 * m - 8 - 8 * k + n = 8 * (m - 1 - k) + n" "8 * (m - 1 - k) + n < 8 * m"
      using that \<open>n < LENGTH(8)\<close> by (auto simp: algebra_simps)
    ultimately show "bit (ucast (drop_bit (8 * m - 8 - 8 * k) (ucast v :: 'a word)) :: u8) n = bit (ucast (drop_bit (8 * (m - 1 - k)) v) :: u8) n"
      using assms by (simp add: bit_ucast_iff bit_drop_bit_eq)
  qed
  then show ?thesis using assms by (simp add: be_bytes_def low_bytes_def)
qed

lemma put_low_bytes: "put8 v = low_bytes 1 v" "put16 v = low_bytes 2 v" "put32 v = low_bytes 4 v" "put64 v = low_bytes 8 v"
  using be_bytes_low [where 'a = 64, of 8 v] by (simp_all add: be_bytes_low)

lemma vm_cast_cases:
  "unat a < 2 ^ 32 \<Longrightarrow> vm_cast a s = (Inr (unat a), s)"
  "\<not> unat a < 2 ^ 32 \<Longrightarrow> vm_cast a s = (Inl (Throw ''Narrowing error''), s)"
  by (simp_all add: vm_cast_def)

lemma store_normal:
  "exec_store i op s =
    (if unat (store_ea i op s) < 2 ^ 32
     then (Next, s\<lparr>mem := vm_write (unat (store_ea i op s))
              ((if store_reversed i then rev else id) (low_bytes (store_bytes i) (gpr s (op_rs op)))) (mem s),
            gpr := if store_updates i then (gpr s)(op_ra op := store_ea i op s) else gpr s\<rparr>)
     else (Throw ''Narrowing error'', s))"
  by (cases i)
    (simp_all add: store_defs store_gpr_def store_upd_def store_ea_def store_bytes_def store_reversed_def
      store_updates_def put_low_bytes run_m_def bind_m_def modify_m_def store_m_def vm_cast_def set_gpr_def)

lemma feed_plain:
  assumes "\<not> feed \<or> \<not> use_full_rdata s"
  shows "ppu_feed_data feed n a s =
    (if unat a < 2 ^ 32 then (Inr (vm_read (unat a) n (mem s)), s) else (Inl (Throw ''Narrowing error''), s))"
  using assms by (simp add: ppu_feed_data_def vm_cast_def)

section \<open>Checked loads\<close>

text \<open>The loads for which \<^verbatim>\<open>ppu_feed_data\<close> takes its last branch: they reach into the reserved line from before.\<close>

definition into_line :: "nat \<Rightarrow> u64 \<Rightarrow> ppu \<Rightarrow> bool" where
  "into_line n addr s \<longleftrightarrow> unat addr div 128 < unat (raddr s) div 128 \<and>
     unat (raddr s) div 128 \<le> (unat addr + n - 1) div 128"

definition plain_load :: "bool \<Rightarrow> nat \<Rightarrow> u64 \<Rightarrow> ppu \<Rightarrow> bool" where
  "plain_load feed n addr s \<longleftrightarrow> (feed \<and> use_full_rdata s \<longrightarrow> \<not> into_line n addr s)"

lemma feed_checked:
  assumes "use_full_rdata s" and "unat addr < 2 ^ 32" and "0 < n" and "n \<le> 128"
    and "\<not> into_line n addr s"
  shows "ppu_feed_data True n addr s =
    (Inr (vm_read (unat addr) n (mem s)),
     if \<forall>k < n. (unat addr + k) div 128 = unat (raddr s) div 128 \<longrightarrow> mem s (unat addr + k) = rdata s ((unat addr + k) mod 128)
     then s else drop_reservation s)"
proof -
  let ?a = "unat addr" and ?r = "unat (raddr s)"
  define size where "size = min (128 - ?a mod 128) n"
  consider "?r div 128 < ?a div 128" | "?r div 128 = ?a div 128"
    | "?a div 128 < ?r div 128" "(?a + n - 1) div 128 < ?r div 128" using assms(5) unfolding into_line_def by linarith
  then show ?thesis
  proof cases
    case 1
    have "(?a + k) div 128 \<noteq> ?r div 128" for k using 1 div_le_mono [of ?a "?a + k" 128] by linarith
    then show ?thesis using assms 1 by (simp add: ppu_feed_data_def vm_cast_def Let_def)
  next
    case 3
    have "(?a + k) div 128 \<noteq> ?r div 128" if "k < n" for k
      using 3(2) that div_le_mono [of "?a + k" "?a + n - 1" 128] by linarith
    then show ?thesis using assms 3 by (simp add: ppu_feed_data_def vm_cast_def Let_def)
  next
    case 2
    have line: "(?a + k) div 128 = ?r div 128 \<longleftrightarrow> ?a mod 128 + k < 128" for k
    proof -
      have "?a + k = ?a div 128 * 128 + (?a mod 128 + k)" by simp
      then have "(?a + k) div 128 = ?a div 128 + (?a mod 128 + k) div 128" by (metis div_mult_self3 add.commute zero_neq_numeral)
      then show ?thesis using 2 by auto
    qed
    have md: "?a mod 128 + k < 128 \<Longrightarrow> (?a + k) mod 128 = ?a mod 128 + k" for k
      by (metis mod_add_left_eq mod_less)
    have eq: "vm_read ?a size (mem s) = vm_read (?a mod 128) size (rdata s) \<longleftrightarrow>
        (\<forall>k < n. (?a + k) div 128 = ?r div 128 \<longrightarrow> mem s (?a + k) = rdata s ((?a + k) mod 128))"
      unfolding vm_read_eq line using md by (auto simp: size_def)
    have last: "?a div 128 = (?a + n - 1) div 128 \<longleftrightarrow> size = n"
    proof -
      have "?a + n - 1 = ?a + (n - 1)" using assms(3) by simp
      moreover have "?a mod 128 + (n - 1) < 128 \<longleftrightarrow> size = n"
        using assms(3) mod_less_divisor [of 128 ?a] unfolding size_def min_def by (simp split: if_split) linarith
      ultimately show ?thesis using line [of "n - 1"] 2 by metis
    qed
    show ?thesis
    proof (cases "size = n")
      case True
      then have "ppu_feed_data True n addr s = (Inr (vm_read ?a n (mem s)),
          if vm_read ?a n (mem s) \<noteq> vm_read (?a mod 128) n (rdata s) then drop_reservation s else s)"
        using assms(1,2) last 2 by (simp add: ppu_feed_data_def vm_cast_def Let_def)
      then show ?thesis using eq True by auto
    next
      case False
      have "take size (vm_read ?a n (mem s)) = vm_read ?a size (mem s)" by (rule vm_read_take) (simp add: size_def)
      moreover have "n \<noteq> 1" "\<not> (?a + n - 1) div 128 < ?r div 128"
        using False 2 div_le_mono [of ?a "?a + n - 1" 128] assms(3) mod_less_divisor [of 128 ?a] by (auto simp: size_def)
      ultimately have "ppu_feed_data True n addr s = (Inr (vm_read ?a n (mem s)),
          if vm_read ?a size (mem s) \<noteq> vm_read (?a mod 128) size (rdata s) then drop_reservation s else s)"
        using assms(1,2) last 2 False by (simp add: ppu_feed_data_def vm_cast_def Let_def size_def)
      then show ?thesis using eq by auto
    qed
  qed
qed

text \<open>What a load leaves of the state before it writes its registers.\<close>

definition checked :: "ppu \<Rightarrow> ppu \<Rightarrow> bool" where
  "checked s s' \<longleftrightarrow> s' = s \<or> s' = drop_reservation s"

lemma checked_refl [simp]: "checked s s"
  by (simp add: checked_def)

lemma checked_trans: "checked s s' \<Longrightarrow> checked s' s'' \<Longrightarrow> checked s s''"
  by (auto simp: checked_def drop_reservation_def)

lemma checked_fields:
  "checked s s' \<Longrightarrow> mem s' = mem s \<and> gpr s' = gpr s \<and> use_full_rdata s' = use_full_rdata s \<and> xer_cnt s' = xer_cnt s"
  by (auto simp: checked_def drop_reservation_def)

lemma checked_gpr: "checked (set_gpr r v s) s' \<longleftrightarrow> (\<exists>s0. checked s s0 \<and> s' = set_gpr r v s0)"
  by (auto simp: checked_def drop_reservation_def set_gpr_def)

lemma into_line_checked: "checked s s' \<Longrightarrow> into_line n a s' \<Longrightarrow> into_line n a s"
  by (auto simp: checked_def into_line_def drop_reservation_def)

lemma plain_checked: "plain_load feed n a s \<Longrightarrow> checked s s' \<Longrightarrow> plain_load feed n a s'"
  using into_line_checked checked_fields by (auto simp: plain_load_def)

lemma plain_set_gpr [simp]: "plain_load feed n a (set_gpr r v s) = plain_load feed n a s"
  by (simp add: plain_load_def into_line_def set_gpr_def)

lemma plain_byte [simp]: "plain_load feed 1 a s"
  by (auto simp: plain_load_def into_line_def)

lemma feed_value:
  assumes "plain_load feed n a s" "unat a < 2 ^ 32" "0 < n" "n \<le> 128"
  obtains s' where "checked s s'" "ppu_feed_data feed n a s = (Inr (vm_read (unat a) n (mem s)), s')"
proof (cases "feed \<and> use_full_rdata s")
  case True
  then have "\<not> into_line n a s" "feed = True" using assms(1) by (simp_all add: plain_load_def)
  with feed_checked [OF _ assms(2-4) this(1)] True show ?thesis by (intro that) (auto simp: checked_def)
next
  case False
  then show ?thesis using feed_plain [of feed s n a] assms(2) that [of s] by simp
qed

definition load_value :: "load_insn \<Rightarrow> u8 list \<Rightarrow> u64" where
  "load_value l bs =
     extend_low (load_signed l) (load_bytes l) (of_be ((if load_reversed l then rev else id) bs))"

lemma of_be_zext: "length bs = n \<Longrightarrow> take_bit (8 * n) (of_be bs :: u64) = of_be bs"
  by (intro bit_word_eqI) (auto simp: bit_simps bit_of_be)

lemma of_be_sext16: "length bs = 2 \<Longrightarrow> scast (of_be bs :: u16) = signed_take_bit 15 (of_be bs :: u64)"
  by (intro bit_word_eqI) (auto simp: bit_simps bit_of_be min_def)

lemma of_be_sext32: "length bs = 4 \<Longrightarrow> scast (of_be bs :: u32) = signed_take_bit 31 (of_be bs :: u64)"
  by (intro bit_word_eqI) (auto simp: bit_simps bit_of_be min_def)

lemma get_values:
  "length bs = n \<Longrightarrow> get_u bs = extend_low False n (of_be bs)"
  "length bs = 2 \<Longrightarrow> get_s16 bs = extend_low True 2 (of_be bs)"
  "length bs = 4 \<Longrightarrow> get_s32 bs = extend_low True 4 (of_be bs)"
  "length bs = n \<Longrightarrow> get_le bs = extend_low False n (of_be (rev bs))"
  by (simp_all add: get_u_def get_s16_def get_s32_def get_le_def extend_low_def of_be_zext of_be_sext16 of_be_sext32)

lemma load_plain:
  assumes "\<not> feed \<or> \<not> use_full_rdata s"
  shows "exec_load l feed op s =
    (if unat (load_ea l op s) < 2 ^ 32
     then (Next, (if load_updates l then set_gpr (op_ra op) (load_ea l op s) else id)
            (set_gpr (op_rd op) (load_value l (vm_read (unat (load_ea l op s)) (load_bytes l) (mem s))) s))
     else (Throw ''Narrowing error'', s))"
  using feed_plain [OF assms]
  by (cases l)
    (simp_all add: load_defs load_gpr_def load_upd_def load_ea_def load_bytes_def load_reversed_def load_signed_def
      load_updates_def load_value_def get_values run_m_def bind_m_def modify_m_def load_m_def)

lemma load_checked:
  assumes "plain_load feed (load_bytes l) (load_ea l op s) s" "unat (load_ea l op s) < 2 ^ 32"
  obtains s' where "checked s s'" "exec_load l feed op s =
    (Next, (if load_updates l then set_gpr (op_ra op) (load_ea l op s) else id)
       (set_gpr (op_rd op) (load_value l (vm_read (unat (load_ea l op s)) (load_bytes l) (mem s))) s'))"
proof -
  have "0 < load_bytes l" "load_bytes l \<le> 128" by (simp_all add: load_bytes_def)
  from feed_value [OF assms this] obtain s' where s': "checked s s'"
    "ppu_feed_data feed (load_bytes l) (load_ea l op s) s =
       (Inr (vm_read (unat (load_ea l op s)) (load_bytes l) (mem s)), s')" .
  have "exec_load l feed op s =
      (Next, (if load_updates l then set_gpr (op_ra op) (load_ea l op s) else id)
         (set_gpr (op_rd op) (load_value l (vm_read (unat (load_ea l op s)) (load_bytes l) (mem s))) s'))"
    using s'(2)
    by (cases l)
      (simp_all add: load_defs load_gpr_def load_upd_def load_ea_def load_bytes_def load_reversed_def load_signed_def
        load_updates_def load_value_def get_values run_m_def bind_m_def modify_m_def load_m_def)
  with that s'(1) show ?thesis by blast
qed

lemma of_low_bytes: "n \<le> 8 \<Longrightarrow> of_be (low_bytes n v) = (take_bit (8 * n) v :: u64)"
proof (rule bit_word_eqI)
  fix j assume "n \<le> 8" and j: "j < LENGTH(64)"
  have "bit (low_bytes n v ! (n - 1 - j div 8)) (j mod 8) = bit v j" if "j < 8 * n"
  proof -
    have q: "j div 8 < n" using that by (simp add: less_mult_imp_div_less mult.commute)
    then have "n - 1 - (n - 1 - j div 8) = j div 8" by simp
    moreover have "8 * (j div 8) + j mod 8 = j" by simp
    ultimately show ?thesis using q by (simp add: low_bytes_def bit_ucast_iff bit_drop_bit_eq)
  qed
  then show "bit (of_be (low_bytes n v) :: u64) j = bit (take_bit (8 * n) v) j"
    using j by (auto simp: bit_of_be bit_take_bit_iff low_bytes_def)
qed

lemma length_low_bytes [simp]: "length (low_bytes n v) = n"
  by (simp add: low_bytes_def)

lemma extend_take: "0 < n \<Longrightarrow> extend_low se n (take_bit (8 * n) v) = extend_low se n v"
  by (auto simp: extend_low_def bit_simps intro!: bit_word_eqI)

lemma load_bytes_pos: "0 < load_bytes l" "load_bytes l \<le> 8"
  by (simp_all add: load_bytes_def)

text \<open>
  Claim C3. A value stored by any of the nineteen fixed-point stores is what any load of the same width and
  byte order reads back from the same address: the low bytes of the source register, sign-extended
  by the algebraic loads and zero-extended by the others. The load may be a checked one, with or without a
  reservation, except that it does not reach into the reserved line from an earlier one, where the code's
  check is wrong (see the last section).
\<close>

theorem store_load_roundtrip:
  assumes "exec_store i op s = (Next, s1)" and "plain_load feed (load_bytes l) (load_ea l op' s1) s1"
    and "store_bytes i = load_bytes l" and "store_reversed i = load_reversed l"
    and "load_ea l op' s1 = store_ea i op s" and "load_updates l \<longrightarrow> op_rd op' \<noteq> op_ra op'"
  shows "fst (exec_load l feed op' s1) = Next \<and>
    gpr (snd (exec_load l feed op' s1)) (op_rd op') = extend_low (load_signed l) (load_bytes l) (gpr s (op_rs op))"
proof -
  let ?a = "unat (store_ea i op s)"
  let ?bs = "(if load_reversed l then rev else id) (low_bytes (load_bytes l) (gpr s (op_rs op)))"
  have a: "?a < 2 ^ 32" using assms(1) unfolding store_normal by (auto split: if_splits)
  then have s1: "mem s1 = vm_write ?a ?bs (mem s)"
    using assms(1) unfolding store_normal assms(3,4) by (auto split: if_splits)
  have "length ?bs = load_bytes l" by simp
  then have "vm_read ?a (load_bytes l) (mem s1) = ?bs"
    unfolding s1 by (metis vm_read_write)
  then have "load_value l (vm_read ?a (load_bytes l) (mem s1)) = extend_low (load_signed l) (load_bytes l) (gpr s (op_rs op))"
    using load_bytes_pos [of l] by (simp add: load_value_def of_low_bytes extend_take)
  moreover have "unat (load_ea l op' s1) < 2 ^ 32" using a assms(5) by simp
  from load_checked [OF assms(2) this] obtain s' where "exec_load l feed op' s1 =
    (Next, (if load_updates l then set_gpr (op_ra op') (load_ea l op' s1) else id)
       (set_gpr (op_rd op') (load_value l (vm_read ?a (load_bytes l) (mem s1))) s'))"
    unfolding assms(5) by blast
  ultimately show ?thesis using assms(6) by (simp add: set_gpr_def)
qed

text \<open>A checked load next to a reservation.\<close>

theorem store_load_roundtrip_witness:
  "gpr (snd (exec_load LWBRX True 0x7c642800 (snd (exec_store STWBRX 0x7c642800
     (ppu_default\<lparr>gpr := (\<lambda>_. 0)(3 := - 2, 4 := 0x1000), use_full_rdata := True, raddr := 0x1000\<rparr>))))) 3 = 0xfffffffe"
proof -
  let ?s = "ppu_default\<lparr>gpr := (\<lambda>_. 0)(3 := - 2, 4 := 0x1000), use_full_rdata := True, raddr := 0x1000\<rparr>"
  let ?t = "snd (exec_store STWBRX 0x7c642800 ?s)"
  have st: "exec_store STWBRX 0x7c642800 ?s = (Next, ?t)"
    by (simp add: store_normal store_ea_def ea_x_def op_345 del: exec_store.simps)
  have ea: "load_ea LWBRX 0x7c642800 ?t = store_ea STWBRX 0x7c642800 ?s" "raddr ?t = 0x1000"
    by (simp_all add: store_normal store_ea_def load_ea_def ea_x_def op_345 store_updates_def del: exec_store.simps)
  have "store_ea STWBRX 0x7c642800 ?s = 0x1000" by (simp add: store_ea_def ea_x_def op_345)
  then have "plain_load True (load_bytes LWBRX) (load_ea LWBRX 0x7c642800 ?t) ?t"
    using ea by (simp add: plain_load_def into_line_def del: exec_store.simps)
  from store_load_roundtrip [OF st this _ _ ea(1)] show ?thesis
    by (simp add: store_bytes_def load_bytes_def store_reversed_def load_reversed_def load_updates_def load_signed_def
        extend_low_def op_345 del: exec_store.simps exec_load.simps)
qed


section \<open>Unaligned vectors\<close>

lemma and_15: "unat (a AND 15 :: u64) = unat a mod 16"
proof -
  have "a AND 15 = take_bit 4 a" by (simp add: take_bit_eq_mask mask_eq_exp_minus_1)
  then show ?thesis by (simp only: unsigned_take_bit_eq) (simp add: take_bit_eq_mod)
qed

lemma not_and_15: "unat (NOT a AND 15 :: u64) = 15 - unat a mod 16"
proof -
  have "NOT a AND 15 = take_bit 4 (NOT a)" by (simp add: take_bit_eq_mask mask_eq_exp_minus_1)
  also have "\<dots> = mask 4 - take_bit 4 a" by (rule take_bit_not_eq_mask_diff)
  finally have e: "NOT a AND 15 = 15 - (a AND 15)" by (simp add: take_bit_eq_mask mask_eq_exp_minus_1)
  have "(a AND 15) \<le> 15" by (rule word_and_le1)
  then have "unat (15 - (a AND 15)) = unat (15::u64) - unat (a AND 15)" by (rule unat_sub)
  then show ?thesis unfolding e by (simp add: and_15)
qed

lemma and_minus_16: "unat (a AND - 16 :: u64) = unat a - unat a mod 16"
proof -
  have "a AND - 16 = a AND NOT 15" by (simp add: not_eq_complement)
  also have "\<dots> = a - (a AND 15)"
  proof -
    have "(a AND NOT 15) AND (a AND 15) = 0" "(a AND NOT 15) OR (a AND 15) = a"
      by (auto simp: bit_eq_iff bit_simps)
    with disjunctive_add_eq_or [of "a AND NOT 15" "a AND 15"] show ?thesis by (simp add: eq_diff_eq)
  qed
  finally have e: "a AND - 16 = a - (a AND 15)" .
  have "(a AND 15) \<le> a" by (rule word_and_le2)
  then show ?thesis unfolding e by (simp add: unat_sub and_15)
qed

lemma bit_of_read:
  "j < 128 \<Longrightarrow> bit (of_be (vm_read a 16 m) :: u128) j = bit (m (a + 15 - j div 8)) (j mod 8)"
proof -
  assume "j < 128"
  then have "j div 8 \<le> 15" by linarith
  then have "vm_read a 16 m ! (15 - j div 8) = m (a + 15 - j div 8)"
    unfolding vm_read_def by (subst nth_map) (simp_all add: nth_upt del: upt_rec_numeral)
  then show ?thesis using \<open>j < 128\<close> by (simp add: bit_of_be)
qed

lemma lvlx_bit:
  assumes "j < 128" "t < 16" "a mod 16 = t"
  shows "bit (push_bit (t * 8) (of_be (vm_read (a - t) 16 m)) :: u128) j = (t * 8 \<le> j \<and> bit (m (a + 15 - j div 8)) (j mod 8))"
proof -
  have "t \<le> a" using assms(3) mod_less_eq_dividend [of a 16] by simp
  have "t * 8 \<le> j \<Longrightarrow> a - t + 15 - (j - t * 8) div 8 = a + 15 - j div 8 \<and> (j - t * 8) mod 8 = j mod 8"
  proof -
    assume "t * 8 \<le> j"
    then obtain k where k: "j = k + t * 8" by (metis add.commute le_Suc_ex)
    then show ?thesis using assms(1) \<open>t \<le> a\<close> by (simp add: div_mult_self1)
  qed
  then show ?thesis using assms(1,2) by (auto simp: bit_push_bit_iff bit_of_read)
qed

lemma lvrx_bit:
  assumes "j < 128" "0 < t" "t < 16" "b mod 16 = t" "16 \<le> b"
  shows "bit (drop_bit 8 (drop_bit ((15 - t) * 8) (of_be (vm_read (b - t) 16 m))) :: u128) j =
    (j < t * 8 \<and> bit (m (b - 1 - j div 8)) (j mod 8))"
proof -
  have e: "8 + ((15 - t) * 8 + j) = j + (16 - t) * 8" using assms(3) by (simp add: algebra_simps)
  have "bit (drop_bit 8 (drop_bit ((15 - t) * 8) (of_be (vm_read (b - t) 16 m))) :: u128) j =
      bit (of_be (vm_read (b - t) 16 m) :: u128) (j + (16 - t) * 8)"
    by (simp add: bit_drop_bit_eq e [symmetric] add.commute add.left_commute)
  also have "\<dots> = (j < t * 8 \<and> bit (m (b - t + 15 - (j + (16 - t) * 8) div 8)) (j mod 8))"
  proof (cases "j < t * 8")
    case True
    then have "j + (16 - t) * 8 < 128" using assms(3) by linarith
    then show ?thesis using True by (subst bit_of_read) simp_all
  next
    case False
    then have "\<not> j + (16 - t) * 8 < 128" using assms(3) by linarith
    then show ?thesis using False bit_imp_le_length [of "of_be (vm_read (b - t) 16 m) :: u128" "j + (16 - t) * 8"] by auto
  qed
  finally have f: "bit (drop_bit 8 (drop_bit ((15 - t) * 8) (of_be (vm_read (b - t) 16 m))) :: u128) j =
      (j < t * 8 \<and> bit (m (b - t + 15 - (j + (16 - t) * 8) div 8)) (j mod 8))" .
  have "j < t * 8 \<Longrightarrow> b - t + 15 - (j + (16 - t) * 8) div 8 = b - 1 - j div 8"
  proof -
    assume "j < t * 8"
    then have "j div 8 < t" by (simp add: less_mult_imp_div_less)
    then show ?thesis using assms(3,5) by simp
  qed
  then show ?thesis unfolding f by auto
qed

lemma run_load:
  assumes "\<not> feed \<or> \<not> use_full_rdata s" and "unat a < 2 ^ 32"
  shows "run_m (load_m feed n a put) s = (Next, put (vm_read (unat a) n (mem s)) s)"
  using assms by (simp add: run_m_def load_m_def bind_m_def modify_m_def feed_plain)

lemma run_store: "unat a < 2 ^ 32 \<Longrightarrow> run_m (store_m a bs) s = (Next, s\<lparr>mem := vm_write (unat a) bs (mem s)\<rparr>)"
  by (simp add: run_m_def store_m_def bind_m_def modify_m_def vm_cast_def)

lemma ea_x_vr [simp]: "ea_x op (set_vr i v s) = ea_x op s"
  by (simp add: ea_x_def set_vr_def)

lemma ea_x_mem [simp]: "ea_x op (s\<lparr>mem := m\<rparr>) = ea_x op s"
  by (simp add: ea_x_def)

lemma unat_add_16: "unat (a::u64) + 32 \<le> 2 ^ 32 \<Longrightarrow> unat (a + 16) = unat a + 16"
  by (simp add: unat_word_ariths)

text \<open>
  Claim C36. Loading the left part of a vector from an address and the right part from sixteen bytes further on
  gives two registers whose disjunction is the sixteen bytes at the address, aligned or not.
\<close>

theorem unaligned_vector_load:
  assumes "\<not> feed \<or> \<not> use_full_rdata s" and "a = ea_x op s" and "ea_x op' s = a + 16"
    and "unat a + 32 \<le> 2 ^ 32" and "op_rd op \<noteq> op_rd op'"
    and "(f, s1) = ppu_LVLX feed op s" and "(f', s2) = ppu_LVRX feed op' s1"
  shows "f = Next \<and> f' = Next \<and> vr s2 (op_rd op) OR vr s2 (op_rd op') = of_be (vm_read (unat a) 16 (mem s))"
proof -
  define t where "t = unat a mod 16"
  have t: "t < 16" "unat a mod 16 = t" "(unat a + 16) mod 16 = t" unfolding t_def by simp_all
  have "unat (a AND - 16) < 2 ^ 32" using assms(4) by (simp add: and_minus_16)
  then have L: "f = Next" "s1 = set_vr (op_rd op) (push_bit (t * 8) (of_be (vm_read (unat a - t) 16 (mem s)))) s"
    using assms(6) unfolding ppu_LVLX_def Let_def assms(2)[symmetric]
    by (simp_all add: run_load [OF assms(1)] and_15 and_minus_16 t)
  define b where "b = (if (a + 16) AND 15 = 0 then ucast (cia s) else a + 16) AND - 16"
  have z: "(a + 16) AND 15 = 0 \<longleftrightarrow> t = 0"
    using and_15 [of "a + 16"] unat_add_16 [OF assms(4)] t(3) unsigned_eq_0_iff [of "(a + 16) AND 15", where 'a = nat] by simp
  have b: "unat b < 2 ^ 32"
  proof (cases "t = 0")
    case True
    have "unat (ucast (cia s) :: u64) < 2 ^ 32"
      using unsigned_less [of "cia s", where 'a = nat] by (simp add: unsigned_ucast_eq take_bit_nat_eq_self)
    then show ?thesis unfolding b_def and_minus_16 z if_P [OF True] by linarith
  next
    case False
    then show ?thesis unfolding b_def and_minus_16 z using assms(4) by (simp add: unat_add_16)
  qed
  have s1: "\<not> feed \<or> \<not> use_full_rdata s1" "ea_x op' s1 = a + 16" "mem s1 = mem s" "cia s1 = cia s"
    using assms(1,3) unfolding L(2) ea_x_vr by (simp_all add: set_vr_def)
  have R: "f' = Next" "s2 = set_vr (op_rd op') (drop_bit 8 (drop_bit ((15 - t) * 8) (of_be (vm_read (unat b) 16 (mem s))))) s1"
    using assms(7) b unfolding ppu_LVRX_def Let_def s1(2,4) b_def [symmetric]
    by (simp_all add: run_load [OF s1(1)] s1(3) not_and_15 unat_add_16 [OF assms(4)] t)
  have "bit (vr s2 (op_rd op) OR vr s2 (op_rd op')) j = bit (of_be (vm_read (unat a) 16 (mem s)) :: u128) j" if "j < 128" for j
  proof -
    have l: "bit (vr s2 (op_rd op)) j = (t * 8 \<le> j \<and> bit (mem s (unat a + 15 - j div 8)) (j mod 8))"
      unfolding R(2) L(2) using assms(5) lvlx_bit [OF that t(1,2)] by (simp add: set_vr_def)
    have r: "bit (vr s2 (op_rd op')) j = (j < t * 8 \<and> bit (mem s (unat a + 15 - j div 8)) (j mod 8))"
    proof (cases "t = 0")
      case True
      then have "drop_bit 8 (drop_bit ((15 - t) * 8) (of_be (vm_read (unat b) 16 (mem s)) :: u128)) = 0"
        by (intro bit_word_eqI) (auto simp: bit_drop_bit_eq dest: bit_imp_le_length)
      then show ?thesis unfolding R(2) by (simp add: set_vr_def True)
    next
      case False
      then have "unat b = unat a + 16 - t"
        unfolding b_def using assms(4) by (simp add: z and_minus_16 unat_add_16 t)
      then show ?thesis
        unfolding R(2) using lvrx_bit [of j t "unat a + 16" "mem s"] that False t by (simp add: set_vr_def add.commute)
    qed
    show ?thesis unfolding bit_or_iff l r bit_of_read [OF that] by auto
  qed
  then show ?thesis using L(1) R(1) by (auto intro: bit_word_eqI)
qed

theorem unaligned_vector_load_witness:
  "vr (snd (ppu_LVRX False 0x7cc43800 (snd (ppu_LVLX False 0x7c642800
       (ppu_default\<lparr>gpr := (\<lambda>_. 0)(4 := 0x1001, 7 := 16), mem := \<lambda>i. of_nat (i mod 256)\<rparr>))))) 3 OR
   vr (snd (ppu_LVRX False 0x7cc43800 (snd (ppu_LVLX False 0x7c642800
       (ppu_default\<lparr>gpr := (\<lambda>_. 0)(4 := 0x1001, 7 := 16), mem := \<lambda>i. of_nat (i mod 256)\<rparr>))))) 6 =
   of_be [1, 2, 3, 4, 5, 6, 7, 8, 9, 10, 11, 12, 13, 14, 15, 16]"
proof -
  let ?s = "ppu_default\<lparr>gpr := (\<lambda>_. 0)(4 := 0x1001, 7 := 16), mem := \<lambda>i. of_nat (i mod 256)\<rparr>"
  have f: "op_rd 0x7cc43800 = 6" "op_ra 0x7cc43800 = 4" "op_rb 0x7cc43800 = 7"
    by (simp_all add: op_field_defs bf_defs mask_eq_exp_minus_1)
  have ea: "ea_x 0x7c642800 ?s = 0x1001" "ea_x 0x7cc43800 ?s = 0x1001 + 16" by (simp_all add: ea_x_def op_345 f)
  have "vm_read (unat (0x1001 :: u64)) 16 (mem ?s) = [1, 2, 3, 4, 5, 6, 7, 8, 9, 10, 11, 12, 13, 14, 15, 16]"
    by (simp add: vm_read_def upt_rec)
  then show ?thesis
    using unaligned_vector_load [of False ?s "0x1001" "0x7c642800" "0x7cc43800" "fst (ppu_LVLX False 0x7c642800 ?s)"
        "snd (ppu_LVLX False 0x7c642800 ?s)" "fst (ppu_LVRX False 0x7cc43800 (snd (ppu_LVLX False 0x7c642800 ?s)))"
        "snd (ppu_LVRX False 0x7cc43800 (snd (ppu_LVLX False 0x7c642800 ?s)))"] ea f
    by (simp add: op_345)
qed


lemma stvrx_loop:
  "n \<le> 16 \<Longrightarrow> fold (\<lambda>i s. s\<lparr>mem := (mem s)(p + i := be_bytes (vr s r) ! i)\<rparr>) (rev [16 - n ..< 16]) s =
     s\<lparr>mem := vm_write (p + (16 - n)) (drop (16 - n) (be_bytes (vr s r))) (mem s)\<rparr>"
proof (induction n)
  case 0
  have "vm_write (p + 16) [] (mem s) = mem s" by (auto simp: vm_write_def fun_eq_iff)
  then show ?case by simp
next
  case (Suc n)
  have "16 - Suc n < 16" "Suc (16 - Suc n) = 16 - n" using Suc.prems by linarith+
  then have "[16 - Suc n ..< 16] = (16 - Suc n) # [16 - n ..< 16]"
    by (metis upt_conv_Cons)
  then have "fold (\<lambda>i s. s\<lparr>mem := (mem s)(p + i := be_bytes (vr s r) ! i)\<rparr>) (rev [16 - Suc n ..< 16]) s =
      (\<lambda>i s. s\<lparr>mem := (mem s)(p + i := be_bytes (vr s r) ! i)\<rparr>) (16 - Suc n)
        (fold (\<lambda>i s. s\<lparr>mem := (mem s)(p + i := be_bytes (vr s r) ! i)\<rparr>) (rev [16 - n ..< 16]) s)"
    by (simp only: rev.simps fold_append fold.simps o_apply id_apply)
  also have "\<dots> = s\<lparr>mem := (vm_write (p + (16 - n)) (drop (16 - n) (be_bytes (vr s r))) (mem s))(p + (16 - Suc n) := be_bytes (vr s r) ! (16 - Suc n))\<rparr>"
    unfolding Suc.IH [OF Suc_leD [OF Suc.prems]] by simp
  also have "(vm_write (p + (16 - n)) (drop (16 - n) (be_bytes (vr s r))) (mem s))(p + (16 - Suc n) := be_bytes (vr s r) ! (16 - Suc n)) =
      vm_write (p + (16 - Suc n)) (drop (16 - Suc n) (be_bytes (vr s r))) (mem s)"
    using Suc.prems by (auto simp: vm_write_def fun_eq_iff)
  finally show ?case .
qed

text \<open>
  Claim C22. Storing the left part of a vector at an address and the right part sixteen bytes further on
  writes exactly the sixteen bytes of the vector at the address.
\<close>

theorem unaligned_vector_store:
  assumes "a = ea_x op s" and "ea_x op' s = a + 16" and "unat a + 32 \<le> 2 ^ 32" and "op_rs op' = op_rs op"
    and "(f, s1) = ppu_STVLX op s" and "(f', s2) = ppu_STVRX op' s1"
  shows "f = Next \<and> f' = Next \<and> s2 = s\<lparr>mem := vm_write (unat a) (be_bytes (vr s (op_rs op))) (mem s)\<rparr>"
proof -
  define t where "t = unat a mod 16"
  let ?v = "be_bytes (vr s (op_rs op))"
  have t: "t < 16" "unat a mod 16 = t" "(unat a + 16) mod 16 = t" "t \<le> unat a"
    unfolding t_def by simp_all
  have L: "f = Next" "s1 = s\<lparr>mem := vm_write (unat a) (take (16 - t) ?v) (mem s)\<rparr>"
    using assms(3,5) unfolding ppu_STVLX_def Let_def assms(1) [symmetric] by (simp_all add: run_store and_15 t)
  have "ea_x op' s1 = a + 16" "vr s1 = vr s"
    using assms(2) unfolding L(2) ea_x_mem by simp_all
  then have R: "f' = Next" "s2 = s1\<lparr>mem := vm_write (unat a + (16 - t)) (drop (16 - t) ?v) (mem s1)\<rparr>"
    using assms(3,4,6) t unfolding ppu_STVRX_def Let_def
    by (simp_all add: run_m_def bind_m_def modify_m_def vm_cast_def and_15 unat_add_16 stvrx_loop)
  have "vm_write (unat a + (16 - t)) (drop (16 - t) ?v) (vm_write (unat a) (take (16 - t) ?v) (mem s)) = vm_write (unat a) ?v (mem s)"
    using t(1) by (auto simp: vm_write_def fun_eq_iff)
  then show ?thesis using L R by simp
qed

theorem unaligned_vector_store_witness:
  "vm_read 0x1001 16 (mem (snd (ppu_STVRX 0x7c643800 (snd (ppu_STVLX 0x7c642800
       (ppu_default\<lparr>gpr := (\<lambda>_. 0)(4 := 0x1001, 7 := 16), vr := \<lambda>_. 0x0102\<rparr>)))))) = be_bytes (0x0102 :: u128)"
proof -
  let ?s = "ppu_default\<lparr>gpr := (\<lambda>_. 0)(4 := 0x1001, 7 := 16), vr := \<lambda>_. 0x0102\<rparr>"
  have f: "op_rs 0x7c643800 = 3" "op_ra 0x7c643800 = 4" "op_rb 0x7c643800 = 7"
    by (simp_all add: op_field_defs bf_defs mask_eq_exp_minus_1)
  have ea: "ea_x 0x7c642800 ?s = 0x1001" "ea_x 0x7c643800 ?s = 0x1001 + 16" by (simp_all add: ea_x_def op_345 f)
  show ?thesis
    using unaligned_vector_store [of "0x1001" "0x7c642800" ?s "0x7c643800" "fst (ppu_STVLX 0x7c642800 ?s)"
        "snd (ppu_STVLX 0x7c642800 ?s)" "fst (ppu_STVRX 0x7c643800 (snd (ppu_STVLX 0x7c642800 ?s)))"
        "snd (ppu_STVRX 0x7c643800 (snd (ppu_STVLX 0x7c642800 ?s)))"] ea f
      vm_read_write [of "0x1001" "be_bytes (0x0102 :: u128)" "mem ?s"]
    by (simp add: op_345)
qed


section \<open>The reservation check of a load\<close>

text \<open>
  Claim C24. A checked load always returns what memory holds, and drops the reservation exactly when a byte
  it read inside the reserved line differs from the reservation's data. The theorem excludes the loads that
  start in an earlier line and reach into the reserved one: for them the code computes the size of the
  overlap modulo 127, and the lemma below shows one whose comparison leaves its buffer.
\<close>

theorem reservation_check:
  assumes "use_full_rdata s" and "unat addr < 2 ^ 32" and "0 < n" and "n \<le> 128"
    and "\<not> into_line n addr s"
  shows "ppu_feed_data True n addr s =
    (Inr (vm_read (unat addr) n (mem s)),
     if \<forall>k < n. (unat addr + k) div 128 = unat (raddr s) div 128 \<longrightarrow> mem s (unat addr + k) = rdata s ((unat addr + k) mod 128)
     then s else drop_reservation s)"
  by (rule feed_checked [OF assms])

theorem reservation_check_witness:
  "snd (ppu_feed_data True 4 0x100fe (ppu_default\<lparr>use_full_rdata := True, raddr := 0x10080, rdata := \<lambda>i. of_bool (i = 127)\<rparr>)) =
     ppu_default\<lparr>use_full_rdata := True, raddr := 0, rdata := \<lambda>i. of_bool (i = 127)\<rparr>"
proof -
  let ?s = "ppu_default\<lparr>use_full_rdata := True, raddr := 0x10080, rdata := \<lambda>i. of_bool (i = 127)\<rparr>"
  have "\<not> (\<forall>k < 4. (unat (0x100fe :: u64) + k) div 128 = unat (raddr ?s) div 128 \<longrightarrow>
      mem ?s (unat (0x100fe :: u64) + k) = rdata ?s ((unat (0x100fe :: u64) + k) mod 128))"
    by (auto simp: ppu_default_def intro!: exI [of _ 1])
  then show ?thesis
    using reservation_check [of ?s "0x100fe" 4] by (simp add: drop_reservation_def ppu_default_def into_line_def)
qed


text \<open>
  A load that starts in the line before the reservation and reaches into it computes the size of the
  overlap modulo 127 instead of 128. Eight bytes at \<open>0x1007c\<close> overlap the line \<open>0x10080\<close> by four;
  the code gets nine, the offset into its buffer underflows and the comparison leaves it.
\<close>

lemma crossing_load_undefined:
  "ppu_feed_data True 8 0x1007c (ppu_default\<lparr>use_full_rdata := True, raddr := 0x10080\<rparr>) =
     (Inl (Undefined ''memcmp past the buffer''), ppu_default\<lparr>use_full_rdata := True, raddr := 0x10080\<rparr>)"
  by (simp add: ppu_feed_data_def vm_cast_def Let_def ppu_default_def)

end
