(* ===== verification/Ppu_String.thy ===== *)
theory Ppu_String
  imports Ppu_Access
begin

text \<open>
  The instructions that move several registers: the string forms, immediate and indexed, and load
  and store multiple.
\<close>

section \<open>Strings\<close>

lemma unat_step: "unat (a::u64) + n \<le> 2 ^ 32 \<Longrightarrow> k \<le> n \<Longrightarrow> unat (a + of_nat k) = unat a + k"
proof -
  assume "unat a + n \<le> 2 ^ 32" "k \<le> n"
  then have "unat a + k < 2 ^ 64" "k < 2 ^ 64" by auto
  then show ?thesis by (simp add: unat_word_ariths unat_of_nat)
qed

text \<open>The bytes that \<open>n\<close> bytes worth of registers hold, from register \<open>reg\<close> on.\<close>

function reg_bytes :: "nat \<Rightarrow> nat \<Rightarrow> ppu \<Rightarrow> u8 list" where
  "reg_bytes n reg s =
     (if n > 3 then low_bytes 4 (gpr s reg) @ reg_bytes (n - 4) ((reg + 1) mod 32) s
      else take n (low_bytes 4 (gpr s reg)))"
  by pat_completeness auto
termination by (relation "measure (\<lambda>(n, reg, s). n)") auto

function set_regs :: "nat \<Rightarrow> u8 list \<Rightarrow> nat \<Rightarrow> ppu \<Rightarrow> ppu" where
  "set_regs n bs reg s =
     (if n = 0 then s
      else if n > 3 then set_regs (n - 4) (drop 4 bs) ((reg + 1) mod 32) (set_gpr reg (of_be (take 4 bs)) s)
      else set_gpr reg (of_be (take n bs @ replicate (4 - n) 0)) s)"
  by pat_completeness auto
termination by (relation "measure (\<lambda>(n, bs, reg, s). n)") auto

declare reg_bytes.simps [simp del] set_regs.simps [simp del]

lemma length_reg_bytes [simp]: "length (reg_bytes n reg s) = n"
  by (induction n reg s rule: reg_bytes.induct) (subst reg_bytes.simps, auto)

lemma reg_bytes_mem [simp]: "reg_bytes n reg (s\<lparr>mem := m\<rparr>) = reg_bytes n reg s"
  by (induction n reg s rule: reg_bytes.induct) (subst (1 2) reg_bytes.simps, auto)

lemma store_m_ok: "unat a < 2 ^ 32 \<Longrightarrow> store_m a bs s = (Inr (), s\<lparr>mem := vm_write (unat a) bs (mem s)\<rparr>)"
  by (simp add: store_m_def bind_m_def modify_m_def vm_cast_def)

lemma top_byte: "ucast (drop_bit 24 (0xff000000 AND buf :: u32)) = (ucast (drop_bit 24 buf) :: u8)"
proof (rule bit_word_eqI)
  fix n assume "n < LENGTH(8)"
  have "\<forall>n \<in> set [0 ..< 8]. bit (255 :: u32) n" by code_simp
  then show "bit (ucast (drop_bit 24 (0xff000000 AND buf :: u32)) :: u8) n = bit (ucast (drop_bit 24 buf) :: u8) n"
    using \<open>n < LENGTH(8)\<close> by (simp add: bit_ucast_iff bit_drop_bit_eq bit_and_iff)
qed

lemma be_bytes_u32: "be_bytes (w::u32) = [ucast (drop_bit 24 w), ucast (drop_bit 16 w), ucast (drop_bit 8 w), ucast w]"
  by (simp add: be_bytes_def upt_rec)

lemma push_8_bytes:
  "(ucast (drop_bit 24 (push_bit 8 w :: u32)) :: u8) = ucast (drop_bit 16 w)"
  "(ucast (drop_bit 16 (push_bit 8 w :: u32)) :: u8) = ucast (drop_bit 8 w)"
  "(ucast (drop_bit 8 (push_bit 8 w :: u32)) :: u8) = ucast w"
  by (intro bit_word_eqI; simp add: bit_simps; fail)+

lemma less_4_cases: "(n = 0 \<Longrightarrow> P) \<Longrightarrow> (n = 1 \<Longrightarrow> P) \<Longrightarrow> (n = 2 \<Longrightarrow> P) \<Longrightarrow> (n = 3 \<Longrightarrow> P) \<Longrightarrow> ((4::nat) \<le> n \<Longrightarrow> P) \<Longrightarrow> P"
  by linarith

lemma store_tail_bytes:
  "unat a + n \<le> 2 ^ 32 \<Longrightarrow> n \<le> 4 \<Longrightarrow> store_tail n a buf s =
     (Inr (), s\<lparr>mem := vm_write (unat a) (take n (be_bytes buf)) (mem s)\<rparr>)"
proof (induction n arbitrary: a buf s)
  case (Suc n)
  have a: "unat a < 2 ^ 32" "unat (a + 1) = unat a + 1" using Suc.prems(1) unat_step [of a "Suc n" 1] by simp_all
  have "take (Suc n) (be_bytes buf) = [ucast (drop_bit 24 buf)] @ take n (be_bytes (push_bit 8 buf))"
    using Suc.prems(2) by (cases n rule: less_4_cases) (simp_all add: be_bytes_u32 push_8_bytes)
  moreover have "unat (a + 1) + n \<le> 2 ^ 32" "n \<le> 4" using Suc.prems a(2) by simp_all
  ultimately show ?case
    by (simp only: store_tail.simps bind_m_def store_m_ok [OF a(1)] top_byte prod.case sum.case Suc.IH vm_write_append a(2))
      simp
qed (simp add: return_m_def)

lemma store_string_bytes:
  "unat a + n \<le> 2 ^ 32 \<Longrightarrow> store_string n a reg s = (Inr (), s\<lparr>mem := vm_write (unat a) (reg_bytes n reg s) (mem s)\<rparr>)"
proof (induction n a reg s rule: store_string.induct)
  case (1 n a reg s)
  consider "n = 0" | "0 < n" "n \<le> 3" | "n > 3" by linarith
  then show ?case
  proof cases
    case 1
    then show ?thesis by (simp add: store_string.simps reg_bytes.simps return_m_def)
  next
    case 2
    then show ?thesis using "1.prems" be_bytes_low [where 'a = 32, of 4 "gpr s reg"]
      by (simp add: store_string.simps [of n] reg_bytes.simps [of n] store_tail_bytes)
  next
    case 3
    have a: "unat a < 2 ^ 32" "unat (a + 4) = unat a + 4" "unat (a + 4) + (n - 4) \<le> 2 ^ 32"
      using "1.prems" 3 unat_step [of a n 4] by simp_all
    let ?s = "s\<lparr>mem := vm_write (unat a) (low_bytes 4 (gpr s reg)) (mem s)\<rparr>"
    have "store_string n a reg s = store_string (n - 4) (a + 4) ((reg + 1) mod 32) ?s"
      using 3 by (simp add: store_string.simps [of n] bind_m_def store_m_ok [OF a(1)] put_low_bytes)
    also have "\<dots> = (Inr (), ?s\<lparr>mem := vm_write (unat (a + 4)) (reg_bytes (n - 4) ((reg + 1) mod 32) ?s) (mem ?s)\<rparr>)"
      using 3 a(3) by (intro "1.IH") auto
    finally show ?thesis using 3 by (simp add: reg_bytes.simps [of n] vm_write_append a(2))
  qed
qed

lemma of_be_4: "(of_be [b0, b1, b2, b3] :: u32) =
  push_bit 24 (ucast b0) OR push_bit 16 (ucast b1) OR push_bit 8 (ucast b2) OR ucast b3"
  by (simp add: of_be_def push_bit_or or.assoc)

lemma load_tail_bytes:
  assumes "unat a + n \<le> 2 ^ 32" and "0 < n" "n \<le> 3"
  obtains s' where "checked s s'"
    "load_tail feed n a 3 0 s = (Inr (of_be (vm_read (unat a) n (mem s) @ replicate (4 - n) 0)), s')"
proof -
  have step: "\<exists>s2. checked s s2 \<and> ppu_feed_data feed 1 (a + of_nat k) s1 = (Inr [mem s (unat a + k)], s2)"
    if "k < n" "checked s s1" for k s1
  proof -
    have u: "unat (a + of_nat k) = unat a + k" "unat a + k < 2 ^ 32" using that assms unat_step [of a n k] by simp_all
    have "unat (a + of_nat k) < 2 ^ 32" unfolding u by (rule u)
    from feed_value [OF plain_byte this] obtain s2 where "checked s1 s2"
      "ppu_feed_data feed 1 (a + of_nat k) s1 = (Inr (vm_read (unat (a + of_nat k)) 1 (mem s1)), s2)" by auto
    then show ?thesis using checked_fields [OF that(2)] checked_trans [OF that(2)] u by (auto simp: vm_read_def)
  qed
  have one: "(of_be [b] :: u32) = ucast b" for b by (simp add: of_be_def)
  obtain s1 where s1: "checked s s1" "ppu_feed_data feed 1 a s = (Inr [mem s (unat a)], s1)"
    using step [of 0 s] assms(2) by auto
  have "n = 1 \<or> n = 2 \<or> n = 3" using assms(2,3) by linarith
  then show thesis
  proof (elim disjE)
    assume n: "n = 1"
    then show thesis using that [OF s1(1)] s1(2)
      by (simp add: numeral_3_eq_3 bind_m_def return_m_def vm_read_def of_be_4 one)
  next
    assume n: "n = 2"
    then obtain s2 where "checked s s2" "ppu_feed_data feed 1 (a + 1) s1 = (Inr [mem s (unat a + 1)], s2)"
      using step [OF _ s1(1), of 1] by auto
    then show thesis using that [of s2] s1(2) n
      by (simp add: numeral_2_eq_2 numeral_3_eq_3 bind_m_def return_m_def vm_read_def upt_rec of_be_4 one or.assoc)
  next
    assume n: "n = 3"
    then obtain s2 where s2: "checked s s2" "ppu_feed_data feed 1 (a + 1) s1 = (Inr [mem s (unat a + 1)], s2)"
      using step [OF _ s1(1), of 1] by auto
    obtain s3 where "checked s s3" "ppu_feed_data feed 1 (a + 2) s2 = (Inr [mem s (unat a + 2)], s3)"
      using step [OF _ s2(1), of 2] n by auto
    then show thesis using that [of s3] s1(2) s2(2) n
      by (simp add: numeral_2_eq_2 numeral_3_eq_3 bind_m_def return_m_def vm_read_def upt_rec of_be_4 one add.assoc or.assoc)
  qed
qed

lemma load_word:
  assumes "plain_load feed 4 a s" "unat a < 2 ^ 32"
  obtains s' where "checked s s'" "load_m feed 4 a put s = (Inr (), put (vm_read (unat a) 4 (mem s)) s')"
proof -
  from feed_value [OF assms] obtain s' where "checked s s'"
    "ppu_feed_data feed 4 a s = (Inr (vm_read (unat a) 4 (mem s)), s')" by auto
  then show ?thesis by (intro that) (simp_all add: load_m_def bind_m_def modify_m_def)
qed

lemma load_m_ok:
  "\<not> feed \<or> \<not> use_full_rdata s \<Longrightarrow> unat a < 2 ^ 32 \<Longrightarrow>
   load_m feed n a put s = (Inr (), put (vm_read (unat a) n (mem s)) s)"
  by (simp add: load_m_def bind_m_def modify_m_def feed_plain)

lemma set_gpr_fields [simp]: "mem (set_gpr i v s) = mem s" "use_full_rdata (set_gpr i v s) = use_full_rdata s"
  "gpr (set_gpr i v s) = (gpr s)(i := v)" "xer_cnt (set_gpr i v s) = xer_cnt s"
  by (simp_all add: set_gpr_def)

text \<open>The four-byte pieces of a string do not reach into the reserved line from before it.\<close>

definition plain_words :: "bool \<Rightarrow> nat \<Rightarrow> u64 \<Rightarrow> ppu \<Rightarrow> bool" where
  "plain_words feed n a s \<longleftrightarrow> (\<forall>k. 4 * k + 4 \<le> n \<longrightarrow> plain_load feed 4 (a + of_nat (4 * k)) s)"

lemma plain_words_tl:
  assumes "plain_words feed n a s" "checked s s'"
  shows "plain_words feed (n - 4) (a + 4) (set_gpr r v s')"
proof -
  have "plain_load feed 4 (a + 4 + of_nat (4 * k)) s" if "4 * k + 4 \<le> n - 4" for k
  proof -
    have "4 * Suc k + 4 \<le> n" using that by simp
    with assms(1) have "plain_load feed 4 (a + of_nat (4 * Suc k)) s" unfolding plain_words_def by blast
    then show ?thesis by (simp add: add.assoc)
  qed
  then show ?thesis using plain_checked [OF _ assms(2)] by (simp add: plain_words_def)
qed

lemma load_string_bytes:
  "plain_words feed n a s \<Longrightarrow> unat a + n \<le> 2 ^ 32 \<Longrightarrow>
   \<exists>s'. checked s s' \<and> load_string feed n a reg s = (Inr (), set_regs n (vm_read (unat a) n (mem s)) reg s')"
proof (induction feed n a reg arbitrary: s rule: load_string.induct)
  case (1 feed n a reg)
  consider "n = 0" | "0 < n" "n \<le> 3" | "n > 3" by linarith
  then show ?case
  proof cases
    case 1
    then show ?thesis by (auto simp: load_string.simps set_regs.simps return_m_def intro: exI [of _ s])
  next
    case 2
    from load_tail_bytes [OF "1.prems"(2) 2] obtain s' where "checked s s'"
      "load_tail feed n a 3 0 s = (Inr (of_be (vm_read (unat a) n (mem s) @ replicate (4 - n) 0)), s')" .
    moreover have "ucast (of_be bs :: u32) = (of_be bs :: u64)" if "length bs = 4" for bs
      using that by (intro bit_word_eqI) (auto simp: bit_simps bit_of_be)
    ultimately show ?thesis using 2
      by (intro exI [of _ s']) (simp add: load_string.simps [of _ n] set_regs.simps [of n] bind_m_def modify_m_def)
  next
    case 3
    have a: "unat a < 2 ^ 32" "unat (a + 4) = unat a + 4" "unat (a + 4) + (n - 4) \<le> 2 ^ 32"
      using "1.prems"(2) 3 unat_step [of a n 4] by simp_all
    have "4 * 0 + 4 \<le> n" using 3 by simp
    then have "plain_load feed 4 (a + of_nat (4 * 0)) s" using "1.prems"(1) unfolding plain_words_def by blast
    then have "plain_load feed 4 a s" by simp
    from load_word [OF this a(1), of "\<lambda>bs. set_gpr reg (get_u bs)"] obtain s1 where s1: "checked s s1"
      "load_m feed 4 a (\<lambda>bs. set_gpr reg (get_u bs)) s = (Inr (), set_gpr reg (get_u (vm_read (unat a) 4 (mem s))) s1)" .
    let ?v = "of_be (vm_read (unat a) 4 (mem s))"
    have "load_string feed n a reg s = load_string feed (n - 4) (a + 4) ((reg + 1) mod 32) (set_gpr reg ?v s1)"
      using 3 s1(2) by (simp add: load_string.simps [of _ n] bind_m_def get_u_def)
    moreover have "\<exists>s2. checked (set_gpr reg ?v s1) s2 \<and>
        load_string feed (n - 4) (a + 4) ((reg + 1) mod 32) (set_gpr reg ?v s1) =
          (Inr (), set_regs (n - 4) (vm_read (unat (a + 4)) (n - 4) (mem s1)) ((reg + 1) mod 32) s2)"
      using "1.IH" [of "set_gpr reg ?v s1"] plain_words_tl [OF "1.prems"(1) s1(1)] 3 a(3) by simp
    ultimately obtain s2 where "checked s1 s2" "load_string feed n a reg s =
        (Inr (), set_regs (n - 4) (vm_read (unat (a + 4)) (n - 4) (mem s)) ((reg + 1) mod 32) (set_gpr reg ?v s2))"
      using checked_fields [OF s1(1)] by (auto simp: checked_gpr)
    then show ?thesis using 3 checked_trans [OF s1(1)]
      by (intro exI [of _ s2]) (simp add: set_regs.simps [of n] vm_read_take vm_read_drop a(2))
  qed
qed

lemma set_regs_frame:
  "(\<And>k. k < (n + 3) div 4 \<Longrightarrow> r \<noteq> (reg + k) mod 32) \<Longrightarrow> reg < 32 \<Longrightarrow> gpr (set_regs n bs reg s) r = gpr s r"
proof (induction n bs reg s rule: set_regs.induct)
  case (1 n bs reg s)
  consider "n = 0" | "0 < n" "n \<le> 3" | "n > 3" by linarith
  then show ?case
  proof cases
    case 1
    then show ?thesis by (simp add: set_regs.simps)
  next
    case 2
    then show ?thesis using "1.prems"(1) [of 0] "1.prems"(2) by (simp add: set_regs.simps [of n])
  next
    case 3
    have n: "(n + 3) div 4 = Suc ((n - 4 + 3) div 4)" using 3 by (simp add: div_if)
    have "r \<noteq> ((reg + 1) mod 32 + k) mod 32" if "k < (n - 4 + 3) div 4" for k
      using "1.prems"(1) [of "Suc k"] that n by (simp add: mod_add_left_eq)
    moreover have "r \<noteq> reg" using "1.prems"(1) [of 0] "1.prems"(2) n by simp
    ultimately show ?thesis using "1.IH" 3 by (simp add: set_regs.simps [of n])
  qed
qed

lemma low_bytes_of_be: "length xs = n \<Longrightarrow> n \<le> 8 \<Longrightarrow> low_bytes n (of_be xs) = xs"
proof (rule nth_equalityI)
  fix k assume len: "length xs = n" "n \<le> 8" and k: "k < length (low_bytes n (of_be xs))"
  show "low_bytes n (of_be xs) ! k = xs ! k"
  proof (rule bit_word_eqI)
    fix j assume j: "j < LENGTH(8)"
    have "8 * (n - 1 - k) + j < 8 * n" "(8 * (n - 1 - k) + j) div 8 = n - 1 - k" "(8 * (n - 1 - k) + j) mod 8 = j"
      using k j by auto
    then show "bit (low_bytes n (of_be xs) ! k) j = bit (xs ! k) j"
      using k j len by (simp add: low_bytes_def bit_ucast_iff bit_drop_bit_eq bit_of_be)
  qed
qed simp

lemma wrap_other: "reg < 32 \<Longrightarrow> k < 31 \<Longrightarrow> reg \<noteq> ((reg + 1) mod 32 + k) mod (32::nat)"
  by (auto simp: mod_add_left_eq mod_if split: if_splits)

lemma reg_bytes_set_regs:
  "length bs = n \<Longrightarrow> n \<le> 128 \<Longrightarrow> reg < 32 \<Longrightarrow> reg_bytes n reg (set_regs n bs reg s) = bs"
proof (induction n bs reg s rule: set_regs.induct)
  case (1 n bs reg s)
  consider "n = 0" | "0 < n" "n \<le> 3" | "n > 3" by linarith
  then show ?case
  proof cases
    case 1
    then show ?thesis using "1.prems" by (simp add: reg_bytes.simps)
  next
    case 2
    then show ?thesis using "1.prems" by (simp add: set_regs.simps [of n] reg_bytes.simps [of n] low_bytes_of_be)
  next
    case 3
    let ?s = "set_gpr reg (of_be (take 4 bs)) s"
    have "gpr (set_regs (n - 4) (drop 4 bs) ((reg + 1) mod 32) ?s) reg = gpr ?s reg"
    proof (rule set_regs_frame)
      fix k assume "k < (n - 4 + 3) div 4"
      then have "k < 31" using "1.prems"(2) 3 by linarith
      then show "reg \<noteq> ((reg + 1) mod 32 + k) mod 32" using wrap_other "1.prems"(3) by blast
    qed simp
    moreover have "reg_bytes (n - 4) ((reg + 1) mod 32) (set_regs (n - 4) (drop 4 bs) ((reg + 1) mod 32) ?s) = drop 4 bs"
      using "1.prems" 3 by (intro "1.IH") auto
    ultimately show ?thesis using 3 "1.prems"(1)
      by (simp add: set_regs.simps [of n] reg_bytes.simps [of n] low_bytes_of_be)
  qed
qed

lemma bind_return [simp]: "bind_m (return_m x) f = f x"
  by (simp add: bind_m_def return_m_def fun_eq_iff)

lemma bind_assoc [simp]: "bind_m (bind_m m f) g = bind_m m (\<lambda>x. bind_m (f x) g)"
  by (auto simp: bind_m_def fun_eq_iff split: prod.splits sum.splits)

lemma tail_equiv:
  assumes "0 < n" "n \<le> 3"
  shows "fold (\<lambda>byte m. bind_m m (\<lambda>value. bind_m (ppu_feed_data feed 1 (addr + of_nat byte))
      (\<lambda>bs. return_m (value OR push_bit ((3 XOR byte) * 8) (of_be bs))))) [0 ..< n] (return_m (0::u32)) =
    load_tail feed n addr 3 0"
proof -
  have x: "(3 XOR 0) = (3::nat)" "3 XOR 1 = (2::nat)" "3 XOR 2 = (1::nat)" by code_simp+
  have "n = 1 \<or> n = 2 \<or> n = 3" using assms by linarith
  then show ?thesis
    using x [unfolded numeral_3_eq_3]
    by (elim disjE) (simp_all add: numeral_2_eq_2 numeral_3_eq_3 upt_rec add.assoc)
qed

lemma load_string_x_equiv: "load_string_x feed n addr reg = load_string feed n addr reg"
proof (induction feed n addr reg rule: load_string.induct)
  case (1 feed n addr reg)
  consider "n = 0" | "0 < n" "n \<le> 3" | "n > 3" by linarith
  then show ?case
  proof cases
    case 1
    then show ?thesis by (simp add: load_string_x.simps load_string.simps)
  next
    case 2
    then show ?thesis
      unfolding load_string_x.simps [of _ n] load_string.simps [of _ n] tail_equiv [OF 2] by simp
  next
    case 3
    then show ?thesis using "1.IH" unfolding load_string_x.simps [of _ n] load_string.simps [of _ n] by simp
  qed
qed

lemma store_tail_equiv:
  assumes "0 < n" "n \<le> 3"
  shows "fold (\<lambda>byte m. bind_m m (\<lambda>_. store_m (addr + of_nat byte) [ucast (drop_bit ((3 XOR byte) * 8) (buf :: u32))]))
      [0 ..< n] (return_m ()) = store_tail n addr buf"
proof -
  have x: "(3 XOR 0) = (3::nat)" "3 XOR 1 = (2::nat)" "3 XOR 2 = (1::nat)" by code_simp+
  have r: "bind_m m return_m = m" for m :: "unit access"
    by (auto simp: bind_m_def return_m_def fun_eq_iff split: prod.splits sum.splits)
  have p: "(ucast (drop_bit 24 (push_bit 8 buf)) :: u8) = ucast (drop_bit 16 buf)"
    "(ucast (drop_bit 24 (push_bit 8 (push_bit 8 buf))) :: u8) = ucast (drop_bit 8 buf)"
    by (intro bit_word_eqI; simp add: bit_simps; fail)+
  have u: "(\<lambda>_::unit. return_m ()) = return_m" by (rule ext) simp
  have e: "store_tail (Suc k) a b = bind_m (store_m a [ucast (drop_bit 24 b)]) (\<lambda>_. store_tail k (a + 1) (push_bit 8 b))" for k a b
    by (simp only: store_tail.simps top_byte)
  have l: "[0 ..< 1] = [0::nat]" "[0 ..< 2] = [0, 1::nat]" "[0 ..< 3] = [0, 1, 2::nat]" by (simp_all add: upt_rec)
  have n: "(1::nat) = Suc 0" "(2::nat) = Suc 1" "(3::nat) = Suc 2" by simp_all
  have t: "store_tail 1 a b = store_m a [ucast (drop_bit 24 b)]" for a b
    unfolding n(1) e store_tail.simps u r ..
  have t2: "store_tail 2 a b = bind_m (store_m a [ucast (drop_bit 24 b)]) (\<lambda>_. store_tail 1 (a + 1) (push_bit 8 b))" for a b
    unfolding n(2) e ..
  have t3: "store_tail 3 a b = bind_m (store_m a [ucast (drop_bit 24 b)]) (\<lambda>_. store_tail 2 (a + 1) (push_bit 8 b))" for a b
    unfolding n(3) e ..
  have "n = 1 \<or> n = 2 \<or> n = 3" using assms by linarith
  then show ?thesis
    by (elim disjE) (simp_all only: l fold.simps o_apply id_apply bind_return bind_assoc x t3 t2 t p, simp_all add: add.assoc)
qed

lemma store_string_x_equiv: "store_string_x n addr reg s = store_string n addr reg s"
proof (induction n addr reg s rule: store_string.induct)
  case (1 n addr reg s)
  consider "n = 0" | "0 < n" "n \<le> 3" | "n > 3" by linarith
  then show ?case
  proof cases
    case 1
    then show ?thesis by (simp add: store_string_x.simps store_string.simps)
  next
    case 2
    then show ?thesis
      unfolding store_string_x.simps [of n] store_string.simps [of n] store_tail_equiv [OF 2] by simp
  next
    case 3
    then show ?thesis using "1.IH" unfolding store_string_x.simps [of n] store_string.simps [of n]
      by (simp add: bind_m_def split: prod.splits sum.splits)
  qed
qed

datatype string_form = Immediate | Indexed

fun exec_lsw :: "string_form \<Rightarrow> bool \<Rightarrow> u32 \<Rightarrow> ppu \<Rightarrow> flow \<times> ppu" where
  "exec_lsw Immediate = ppu_LSWI" | "exec_lsw Indexed = ppu_LSWX"

fun exec_stsw :: "string_form \<Rightarrow> u32 \<Rightarrow> ppu \<Rightarrow> flow \<times> ppu" where
  "exec_stsw Immediate = ppu_STSWI" | "exec_stsw Indexed = ppu_STSWX"

fun string_count :: "string_form \<Rightarrow> u32 \<Rightarrow> ppu \<Rightarrow> nat" where
  "string_count Immediate op s = (if op_rb op = 0 then 32 else op_rb op)"
| "string_count Indexed op s = unat (xer_cnt s) mod 128"

fun string_ea :: "string_form \<Rightarrow> u32 \<Rightarrow> ppu \<Rightarrow> u64" where
  "string_ea Immediate op s = (if op_ra op = 0 then 0 else gpr s (op_ra op))"
| "string_ea Indexed op s = ea_x op s"

lemma and_7f: "unat (c AND 0x7f :: u8) = unat c mod 128"
proof -
  have "c AND 0x7f = take_bit 7 c" by (simp add: take_bit_eq_mask mask_eq_exp_minus_1)
  then show ?thesis by (simp only: unsigned_take_bit_eq) (simp add: take_bit_eq_mod)
qed

lemma exec_stsw_normal: "exec_stsw f op s = run_m (store_string (string_count f op s) (string_ea f op s) (op_rd op)) s"
  by (cases f) (simp_all add: ppu_STSWI_def ppu_STSWX_def store_string_x_equiv and_7f op_rs_def op_rd_def run_m_def)

lemma exec_lsw_normal: "exec_lsw f feed op s = run_m (load_string feed (string_count f op s) (string_ea f op s) (op_rd op)) s"
  by (cases f) (simp_all add: ppu_LSWI_def ppu_LSWX_def load_string_x_equiv and_7f)

lemma string_count_bound: "string_count f op s \<le> 128"
  using field5(2) [of op] by (cases f) (auto simp del: field5)

text \<open>
  Claim C19. Storing a string of registers and loading as many bytes from the same address, in the immediate or
  the indexed form, copies the bytes of the source registers to the target registers, four to a
  register, wrapping round after register 31, for every count that the instructions can have (1 to 32 for
  the immediate, 0 to 127 for the indexed form). The loads may be checked ones, with or without a
  reservation, except that none of the four-byte pieces reaches into the reserved line from an earlier one,
  where the check of the code is wrong.
\<close>

theorem string_roundtrip:
  assumes "n = string_count f op s" and "unat (string_ea f op s) + n \<le> 2 ^ 32"
    and "(r, s1) = exec_stsw f op s" and "plain_words feed n (string_ea f op s) s1"
    and "string_count f' op' s1 = n" and "string_ea f' op' s1 = string_ea f op s"
  shows "r = Next \<and> fst (exec_lsw f' feed op' s1) = Next \<and>
    reg_bytes n (op_rd op') (snd (exec_lsw f' feed op' s1)) = reg_bytes n (op_rd op) s"
proof -
  let ?a = "unat (string_ea f op s)"
  have s1: "r = Next" "s1 = s\<lparr>mem := vm_write ?a (reg_bytes n (op_rd op) s) (mem s)\<rparr>"
    using assms(3) unfolding exec_stsw_normal assms(1) [symmetric]
    by (simp_all add: run_m_def store_string_bytes [OF assms(2)])
  have "vm_read ?a n (mem s1) = reg_bytes n (op_rd op) s"
    unfolding s1(2) using vm_read_write [of ?a "reg_bytes n (op_rd op) s" "mem s"] by simp
  with load_string_bytes [OF assms(4,2), of "op_rd op'"] obtain s' where
    "exec_lsw f' feed op' s1 = (Next, set_regs n (reg_bytes n (op_rd op) s) (op_rd op') s')"
    unfolding exec_lsw_normal assms(5,6) by (auto simp: run_m_def)
  then show ?thesis
    using s1(1) string_count_bound [of f op s] assms(1) by (simp add: reg_bytes_set_regs)
qed

theorem string_roundtrip_witness:
  "reg_bytes 5 3 (snd (exec_lsw Immediate False 0x7c642800 (snd (exec_stsw Immediate 0x7c642800
     (ppu_default\<lparr>gpr := (\<lambda>_. 0)(3 := 0x01020304, 4 := 0x05060708)\<rparr>))))) = [1, 2, 3, 4, 5]"
proof -
  let ?s = "ppu_default\<lparr>gpr := (\<lambda>_. 0)(3 := 0x01020304, 4 := 0x05060708)\<rparr>"
  have ea: "string_ea Immediate 0x7c642800 ?s = 0x05060708" "string_count Immediate 0x7c642800 ?s = 5" by (simp_all add: op_345)
  have "snd (exec_stsw Immediate 0x7c642800 ?s) = ?s\<lparr>mem := vm_write 0x05060708 (reg_bytes 5 3 ?s) (mem ?s)\<rparr>"
    using store_string_bytes [of "0x05060708" 5 3 ?s]
    by (simp only: exec_stsw_normal ea op_345 run_m_def) simp
  then have ea': "string_ea Immediate 0x7c642800 (snd (exec_stsw Immediate 0x7c642800 ?s)) = 0x05060708"
    "string_count Immediate 0x7c642800 (snd (exec_stsw Immediate 0x7c642800 ?s)) = 5"
    by (simp_all add: op_345 del: exec_stsw.simps)
  have "reg_bytes 5 3 ?s = [1, 2, 3, 4, 5]"
    by (simp add: reg_bytes.simps low_bytes_def upt_rec)
  then show ?thesis
    using string_roundtrip [of 5 Immediate "0x7c642800" ?s "fst (exec_stsw Immediate 0x7c642800 ?s)"
        "snd (exec_stsw Immediate 0x7c642800 ?s)" False Immediate "0x7c642800"] ea ea'
    by (simp add: op_345 plain_words_def plain_load_def del: exec_stsw.simps exec_lsw.simps string_ea.simps string_count.simps)
qed


section \<open>Load and store multiple\<close>

lemma fold_bind: "fold (\<lambda>i m. bind_m m (\<lambda>_. g i)) xs m = bind_m m (\<lambda>_. fold (\<lambda>i m. bind_m m (\<lambda>_. g i)) xs (return_m ()))"
  for m :: "unit access"
proof (induction xs arbitrary: m)
  case Nil
  show ?case by (auto simp: bind_m_def return_m_def fun_eq_iff split: prod.splits sum.splits)
next
  case (Cons x xs)
  show ?case
    using Cons.IH [of "bind_m m (\<lambda>_. g x)"] Cons.IH [of "g x"] by simp
qed

lemma fold_bind_upt:
  "j < 32 \<Longrightarrow> fold (\<lambda>i m. bind_m m (\<lambda>_. g i)) [j ..< 32] (return_m ()) =
     bind_m (g j) (\<lambda>_. fold (\<lambda>i m. bind_m m (\<lambda>_. g i)) [Suc j ..< 32] (return_m ()))"
  using fold_bind [of g "[Suc j ..< 32]" "g j"] by (simp add: upt_conv_Cons)

lemma reg_bytes_multiple: "j < 32 \<Longrightarrow> reg_bytes (4 * (32 - j)) j s = low_bytes 4 (gpr s j) @ reg_bytes (4 * (32 - Suc j)) (Suc j) s"
proof -
  assume j: "j < 32"
  have n: "3 < 4 * (32 - j)" "4 * (32 - j) - 4 = 4 * (32 - Suc j)" using j by auto
  have "reg_bytes (4 * (32 - Suc j)) ((j + 1) mod 32) s = reg_bytes (4 * (32 - Suc j)) (Suc j) s"
    using j by (cases "j = 31") (simp_all add: reg_bytes.simps [of 0])
  then show ?thesis using n by (simp add: reg_bytes.simps [of "4 * (32 - j)"])
qed

lemma set_regs_multiple:
  "j < 32 \<Longrightarrow> set_regs (4 * (32 - j)) bs j s = set_regs (4 * (32 - Suc j)) (drop 4 bs) (Suc j) (set_gpr j (of_be (take 4 bs)) s)"
proof -
  assume j: "j < 32"
  have n: "3 < 4 * (32 - j)" "4 * (32 - j) - 4 = 4 * (32 - Suc j)" using j by auto
  have "set_regs (4 * (32 - Suc j)) bs ((j + 1) mod 32) s = set_regs (4 * (32 - Suc j)) bs (Suc j) s" for bs s
    using j by (cases "j = 31") (simp_all add: set_regs.simps [of 0])
  then show ?thesis using n by (simp add: set_regs.simps [of "4 * (32 - j)"])
qed

lemma multiple_address:
  assumes "unat (a::u64) + 4 * (32 - r) \<le> 2 ^ 32" "r \<le> j" "j < 32"
  shows "unat (a + 4 * of_nat (j - r)) = unat a + 4 * (j - r)" "unat a + 4 * (j - r) < 2 ^ 32"
proof -
  have "4 * (j - r) \<le> 4 * (32 - r)" using assms by simp
  from unat_step [OF assms(1) this] show "unat (a + 4 * of_nat (j - r)) = unat a + 4 * (j - r)" by simp
  show "unat a + 4 * (j - r) < 2 ^ 32" using assms by linarith
qed

lemma bind_ok: "m s = (Inr x, s') \<Longrightarrow> bind_m m k s = k x s'"
  by (simp add: bind_m_def)

lemma stmw_loop:
  assumes "unat a + 4 * (32 - r) \<le> 2 ^ 32" "r \<le> j" "j \<le> 32"
  shows "fold (\<lambda>i m. bind_m m (\<lambda>_. store_m (a + 4 * of_nat (i - r)) (put32 (gpr s i)))) [j ..< 32] (return_m ()) s' =
    (Inr (), s'\<lparr>mem := vm_write (unat a + 4 * (j - r)) (reg_bytes (4 * (32 - j)) j s) (mem s')\<rparr>)"
  using assms(3,2)
proof (induction arbitrary: s' rule: inc_induct)
  case base
  show ?case by (simp add: return_m_def reg_bytes.simps [of 0])
next
  case (step j)
  have e: "unat a + 4 * (Suc j - r) = unat a + 4 * (j - r) + length (low_bytes 4 (gpr s j))"
    using step.prems by (simp add: Suc_diff_le)
  note addr = multiple_address [OF assms(1) step.prems step.hyps(2)]
  have st: "store_m (a + 4 * of_nat (j - r)) (put32 (gpr s j)) s' =
      (Inr (), s'\<lparr>mem := vm_write (unat a + 4 * (j - r)) (low_bytes 4 (gpr s j)) (mem s')\<rparr>)"
    using addr by (simp only: store_m_ok put_low_bytes)
  have "r \<le> Suc j" using step.prems by simp
  note IH = step.IH [OF this, unfolded e]
  show ?case
    unfolding fold_bind_upt [OF step.hyps(2)] reg_bytes_multiple [OF step.hyps(2)] vm_write_append bind_ok [where m = "store_m _ _", OF st] IH
    by simp
qed

lemma lmw_loop:
  assumes "unat a + 4 * (32 - r) \<le> 2 ^ 32" "r \<le> j" "j \<le> 32" "\<not> feed \<or> \<not> use_full_rdata s"
  shows "fold (\<lambda>i m. bind_m m (\<lambda>_. load_m feed 4 (a + 4 * of_nat (i - r)) (\<lambda>bs. set_gpr i (get_u bs)))) [j ..< 32] (return_m ()) s =
    (Inr (), set_regs (4 * (32 - j)) (vm_read (unat a + 4 * (j - r)) (4 * (32 - j)) (mem s)) j s)"
  using assms(3,2,4)
proof (induction arbitrary: s rule: inc_induct)
  case base
  show ?case by (simp add: return_m_def set_regs.simps [of 0])
next
  case (step j)
  have e: "unat a + 4 * (Suc j - r) = unat a + 4 * (j - r) + 4" "4 * (32 - j) - 4 = 4 * (32 - Suc j)" "4 \<le> 4 * (32 - j)"
    using step.prems step.hyps by (simp_all add: Suc_diff_le)
  note addr = multiple_address [OF assms(1) step.prems(1) step.hyps(2)]
  have ld: "load_m feed 4 (a + 4 * of_nat (j - r)) (\<lambda>bs. set_gpr j (get_u bs)) s =
      (Inr (), set_gpr j (of_be (vm_read (unat a + 4 * (j - r)) 4 (mem s))) s)"
    using addr step.prems(2) by (simp only: load_m_ok get_u_def)
  have "r \<le> Suc j" using step.prems by simp
  note IH = step.IH [OF this, unfolded e]
  show ?case
    unfolding fold_bind_upt [OF step.hyps(2)] set_regs_multiple [OF step.hyps(2)] vm_read_take [OF e(3)] vm_read_drop bind_ok [where m = "load_m _ _ _ _", OF ld]
    using step.prems(2) by (subst IH) (simp_all add: e)
qed

lemma set_regs_all:
  assumes "j \<le> 32"
  shows "gpr (set_regs (4 * (32 - j)) (reg_bytes (4 * (32 - j)) j s) j s') i =
    (if j \<le> i \<and> i < 32 then take_bit 32 (gpr s i) else gpr s' i)"
  using assms
proof (induction arbitrary: s' rule: inc_induct)
  case base
  show ?case by (auto simp: set_regs.simps [of 0])
next
  case (step j)
  show ?case
    unfolding set_regs_multiple [OF step.hyps(2)] reg_bytes_multiple [OF step.hyps(2)]
    using step.hyps(2) step.IH [of "set_gpr j (take_bit 32 (gpr s j)) s'"]
    by (auto simp: of_low_bytes not_less_eq_eq)
qed

text \<open>
  Store multiple followed by load multiple at the same address restores the low words of all
  registers from the first to 31, zero-extended, and leaves the lower registers alone.
\<close>

theorem multiple_roundtrip:
  assumes "\<not> feed \<or> \<not> use_full_rdata s" and "unat (ea_d0 op s) + 4 * (32 - op_rd op) \<le> 2 ^ 32"
    and "(r, s1) = ppu_STMW op s" and "ea_d0 op' s1 = ea_d0 op s" and "op_rd op' = op_rd op"
  shows "r = Next \<and> fst (ppu_LMW feed op' s1) = Next \<and>
    (\<forall>i. gpr (snd (ppu_LMW feed op' s1)) i = (if op_rd op \<le> i \<and> i < 32 then take_bit 32 (gpr s i) else gpr s i))"
proof -
  let ?a = "unat (ea_d0 op s)" and ?n = "4 * (32 - op_rd op)"
  have "op_rs op = op_rd op" by (simp add: op_rs_def op_rd_def)
  moreover have "op_rd op \<le> 32" using field5(3) [of op] by linarith
  ultimately have s1: "r = Next" "s1 = s\<lparr>mem := vm_write ?a (reg_bytes ?n (op_rd op) s) (mem s)\<rparr>"
    using assms(3) stmw_loop [OF assms(2) order.refl] by (simp_all add: ppu_STMW_def run_m_def)
  have "vm_read ?a ?n (mem s1) = reg_bytes ?n (op_rd op) s"
    unfolding s1(2) using vm_read_write [of ?a "reg_bytes ?n (op_rd op) s" "mem s"] by simp
  moreover have "\<not> feed \<or> \<not> use_full_rdata s1" using assms(1) s1(2) by simp
  ultimately have "ppu_LMW feed op' s1 = (Next, set_regs ?n (reg_bytes ?n (op_rd op) s) (op_rd op) s1)"
    using lmw_loop [OF assms(2) order.refl \<open>op_rd op \<le> 32\<close>, of feed s1]
    by (simp add: ppu_LMW_def run_m_def assms(4,5))
  then show ?thesis
    using s1 set_regs_all [OF \<open>op_rd op \<le> 32\<close>, of s s1] by simp
qed

theorem multiple_roundtrip_witness:
  "gpr (snd (ppu_LMW False 0xbfa40000 (snd (ppu_STMW 0xbfa40000 (ppu_default\<lparr>gpr := (\<lambda>_. - 1)(4 := 0x1000)\<rparr>))))) 30 = 0xffffffff"
proof -
  let ?s = "ppu_default\<lparr>gpr := (\<lambda>_. - 1)(4 := 0x1000)\<rparr>"
  have f: "op_rd 0xbfa40000 = 29" "op_rs 0xbfa40000 = 29" "op_ra 0xbfa40000 = 4" "op_simm16 0xbfa40000 = 0"
    by (simp_all add: op_field_defs bf_defs mask_eq_exp_minus_1)
  have ea: "ea_d0 0xbfa40000 ?s = 0x1000" by (simp add: ea_d0_def f)
  have "snd (ppu_STMW 0xbfa40000 ?s) = ?s\<lparr>mem := vm_write 0x1000 (reg_bytes 12 29 ?s) (mem ?s)\<rparr>"
    using stmw_loop [of "0x1000" 29 29 ?s ?s] by (simp only: ppu_STMW_def ea f run_m_def) simp
  then have "ea_d0 0xbfa40000 (snd (ppu_STMW 0xbfa40000 ?s)) = ea_d0 0xbfa40000 ?s" by (simp add: ea_d0_def f)
  then show ?thesis
    using multiple_roundtrip [of False ?s "0xbfa40000" "fst (ppu_STMW 0xbfa40000 ?s)" "snd (ppu_STMW 0xbfa40000 ?s)" "0xbfa40000"] ea f
    by (simp add: mask_eq_exp_minus_1)
qed


end
