(* ===== verification/Ppu_Interpreter.thy ===== *)
theory Ppu_Interpreter
  imports Ppu_Decoder Ppu_Shift Ppu_String
begin

text \<open>
  The table of the threaded interpreter, \<^verbatim>\<open>ppu_interpreter_rt_base::ppu_interpreter_rt_base\<close> of
  \<^verbatim>\<open>rpcs3/Emu/Cell/PPUInterpreter.cpp\<close>: which function every name of the decoder stands for, and
  \<^verbatim>\<open>ppu_interpreter_rt::decode\<close>, which finds the function of an instruction word. The names of the
  vector, floating-point and atomic instructions, whose functions are not modelled, are listed apart.
\<close>

section \<open>The table of functions\<close>

type_synonym insn = "u32 \<Rightarrow> u32 \<Rightarrow> ppu \<Rightarrow> flow \<times> ppu"

definition lift_plain :: "(u32 \<Rightarrow> ppu \<Rightarrow> ppu) \<Rightarrow> insn" where
  "lift_plain f op this_op s = (Next, f op s)"

definition lift_flow :: "(u32 \<Rightarrow> ppu \<Rightarrow> flow \<times> ppu) \<Rightarrow> insn" where
  "lift_flow f op this_op s = f op s"

text \<open>The macros of the initialisation: which variants of a name get a function, with which flags.\<close>

definition INIT :: "string \<Rightarrow> insn \<Rightarrow> (string \<times> insn) list" where
  "INIT name f = [(name, f)]"

definition INIT_OV :: "string \<Rightarrow> (bool \<Rightarrow> bool \<Rightarrow> insn) \<Rightarrow> (string \<times> insn) list" where
  "INIT_OV name f = [(name, f False False), (name @ ''O'', f True False)]"

definition INIT_RC :: "string \<Rightarrow> (bool \<Rightarrow> insn) \<Rightarrow> (string \<times> insn) list" where
  "INIT_RC name f = [(name, f False), (name @ ''_'', f True)]"

definition INIT_RC_OV :: "string \<Rightarrow> (bool \<Rightarrow> bool \<Rightarrow> insn) \<Rightarrow> (string \<times> insn) list" where
  "INIT_RC_OV name f =
     [(name, f False False), (name @ ''O'', f True False), (name @ ''_'', f False True), (name @ ''O_'', f True True)]"

definition ptrs :: "bool \<Rightarrow> u64 \<Rightarrow> (string \<times> insn) list" where
  "ptrs feed timebase = concat
     [INIT ''TDI'' ppu_TDI,
      INIT ''TWI'' ppu_TWI,
      INIT ''MULLI'' (lift_plain ppu_MULLI),
      INIT ''SUBFIC'' (lift_plain ppu_SUBFIC),
      INIT ''CMPLI'' (lift_plain ppu_CMPLI),
      INIT ''CMPI'' (lift_plain ppu_CMPI),
      INIT ''ADDIC'' (lift_plain ppu_ADDIC),
      INIT ''ADDI'' (lift_plain ppu_ADDI),
      INIT ''ADDIS'' (lift_plain ppu_ADDIS),
      INIT ''BC'' ppu_BC,
      INIT ''SC'' ppu_SC,
      INIT ''B'' ppu_B,
      INIT ''MCRF'' (lift_plain ppu_MCRF),
      INIT ''BCLR'' ppu_BCLR,
      INIT ''CRNOR'' (lift_plain ppu_CRNOR),
      INIT ''CRANDC'' (lift_plain ppu_CRANDC),
      INIT ''ISYNC'' (lift_plain (\<lambda>op s. s)),
      INIT ''CRXOR'' (lift_plain ppu_CRXOR),
      INIT ''CRNAND'' (lift_plain ppu_CRNAND),
      INIT ''CRAND'' (lift_plain ppu_CRAND),
      INIT ''CREQV'' (lift_plain ppu_CREQV),
      INIT ''CRORC'' (lift_plain ppu_CRORC),
      INIT ''CROR'' (lift_plain ppu_CROR),
      INIT ''BCCTR'' ppu_BCCTR,
      INIT_RC ''RLWIMI'' (\<lambda>rc. lift_plain (ppu_RLWIMI rc)),
      INIT_RC ''RLWINM'' (\<lambda>rc. lift_plain (ppu_RLWINM rc)),
      INIT_RC ''RLWNM'' (\<lambda>rc. lift_plain (ppu_RLWNM rc)),
      INIT ''ORI'' (lift_plain ppu_ORI),
      INIT ''ORIS'' (lift_plain ppu_ORIS),
      INIT ''XORI'' (lift_plain ppu_XORI),
      INIT ''XORIS'' (lift_plain ppu_XORIS),
      INIT ''ANDI'' (lift_plain ppu_ANDI),
      INIT ''ANDIS'' (lift_plain ppu_ANDIS),
      INIT_RC ''RLDICL'' (\<lambda>rc. lift_plain (ppu_RLDICL rc)),
      INIT_RC ''RLDICR'' (\<lambda>rc. lift_plain (ppu_RLDICR rc)),
      INIT_RC ''RLDIC'' (\<lambda>rc. lift_plain (ppu_RLDIC rc)),
      INIT_RC ''RLDIMI'' (\<lambda>rc. lift_plain (ppu_RLDIMI rc)),
      INIT_RC ''RLDCL'' (\<lambda>rc. lift_plain (ppu_RLDCL rc)),
      INIT_RC ''RLDCR'' (\<lambda>rc. lift_plain (ppu_RLDCR rc)),
      INIT ''CMP'' (lift_plain ppu_CMP),
      INIT ''TW'' ppu_TW,
      INIT ''LVSL'' (lift_plain ppu_LVSL),
      INIT ''LVEBX'' (lift_flow (ppu_LVEBX feed)),
      INIT_RC_OV ''SUBFC'' (\<lambda>oe rc. lift_plain (ppu_SUBFC oe rc)),
      INIT_RC_OV ''ADDC'' (\<lambda>oe rc. lift_plain (ppu_ADDC oe rc)),
      INIT_RC ''MULHDU'' (\<lambda>rc. lift_plain (ppu_MULHDU rc)),
      INIT_RC ''MULHWU'' (\<lambda>rc. lift_plain (ppu_MULHWU rc)),
      INIT ''MFCR'' (lift_plain ppu_MFCR),
      INIT ''LDX'' (lift_flow (ppu_LDX feed)),
      INIT ''LWZX'' (lift_flow (ppu_LWZX feed)),
      INIT_RC ''SLW'' (\<lambda>rc. lift_plain (ppu_SLW rc)),
      INIT_RC ''CNTLZW'' (\<lambda>rc. lift_plain (ppu_CNTLZW rc)),
      INIT_RC ''SLD'' (\<lambda>rc. lift_plain (ppu_SLD rc)),
      INIT_RC ''AND'' (\<lambda>rc. lift_plain (ppu_AND rc)),
      INIT ''CMPL'' (lift_plain ppu_CMPL),
      INIT ''LVSR'' (lift_plain ppu_LVSR),
      INIT ''LVEHX'' (lift_flow (ppu_LVEHX feed)),
      INIT_RC_OV ''SUBF'' (\<lambda>oe rc. lift_plain (ppu_SUBF oe rc)),
      INIT ''LDUX'' (lift_flow (ppu_LDUX feed)),
      INIT ''DCBST'' (lift_plain (\<lambda>op s. s)),
      INIT ''LWZUX'' (lift_flow (ppu_LWZUX feed)),
      INIT_RC ''CNTLZD'' (\<lambda>rc. lift_plain (ppu_CNTLZD rc)),
      INIT_RC ''ANDC'' (\<lambda>rc. lift_plain (ppu_ANDC rc)),
      INIT ''TD'' ppu_TD,
      INIT ''LVEWX'' (lift_flow (ppu_LVEWX feed)),
      INIT_RC ''MULHD'' (\<lambda>rc. lift_plain (ppu_MULHD rc)),
      INIT_RC ''MULHW'' (\<lambda>rc. lift_plain (ppu_MULHW rc)),
      INIT ''DCBF'' (lift_plain (\<lambda>op s. s)),
      INIT ''LBZX'' (lift_flow (ppu_LBZX feed)),
      INIT ''LVX'' (lift_flow (ppu_LVX feed)),
      INIT_RC_OV ''NEG'' (\<lambda>oe rc. lift_plain (ppu_NEG oe rc)),
      INIT ''LBZUX'' (lift_flow (ppu_LBZUX feed)),
      INIT_RC ''NOR'' (\<lambda>rc. lift_plain (ppu_NOR rc)),
      INIT ''STVEBX'' (lift_flow ppu_STVEBX),
      INIT_OV ''SUBFE'' (\<lambda>oe rc. lift_plain (ppu_SUBFE oe rc)),
      INIT_OV ''ADDE'' (\<lambda>oe rc. lift_plain (ppu_ADDE oe rc)),
      INIT ''MTOCRF'' (lift_plain ppu_MTOCRF),
      INIT ''STDX'' (lift_flow ppu_STDX),
      INIT ''STWX'' (lift_flow ppu_STWX),
      INIT ''STVEHX'' (lift_flow ppu_STVEHX),
      INIT ''STDUX'' (lift_flow ppu_STDUX),
      INIT ''STWUX'' (lift_flow ppu_STWUX),
      INIT ''STVEWX'' (lift_flow ppu_STVEWX),
      INIT_RC_OV ''SUBFZE'' (\<lambda>oe rc. lift_plain (ppu_SUBFZE oe rc)),
      INIT_RC_OV ''ADDZE'' (\<lambda>oe rc. lift_plain (ppu_ADDZE oe rc)),
      INIT ''STBX'' (lift_flow ppu_STBX),
      INIT ''STVX'' (lift_flow ppu_STVX),
      INIT_RC_OV ''SUBFME'' (\<lambda>oe rc. lift_plain (ppu_SUBFME oe rc)),
      INIT_RC_OV ''MULLD'' (\<lambda>oe rc. lift_plain (ppu_MULLD rc)),
      INIT_RC_OV ''ADDME'' (\<lambda>oe rc. lift_plain (ppu_ADDME oe rc)),
      INIT_RC_OV ''MULLW'' (\<lambda>oe rc. lift_plain (ppu_MULLW oe rc)),
      INIT ''DCBTST'' (lift_plain (\<lambda>op s. s)),
      INIT ''STBUX'' (lift_flow ppu_STBUX),
      INIT_RC_OV ''ADD'' (\<lambda>oe rc. lift_plain (ppu_ADD oe rc)),
      INIT ''DCBT'' (lift_plain (\<lambda>op s. s)),
      INIT ''LHZX'' (lift_flow (ppu_LHZX feed)),
      INIT_RC ''EQV'' (\<lambda>rc. lift_plain (ppu_EQV rc)),
      INIT ''ECIWX'' (\<lambda>op this_op s. (Throw ''ECIWX'', s)),
      INIT ''LHZUX'' (lift_flow (ppu_LHZUX feed)),
      INIT_RC ''XOR'' (\<lambda>rc. lift_plain (ppu_XOR rc)),
      INIT ''MFSPR'' (lift_flow (ppu_MFSPR timebase)),
      INIT ''LWAX'' (lift_flow (ppu_LWAX feed)),
      INIT ''DST'' (lift_plain (\<lambda>op s. s)),
      INIT ''LHAX'' (lift_flow (ppu_LHAX feed)),
      INIT ''LVXL'' (lift_flow (ppu_LVXL feed)),
      INIT ''MFTB'' (lift_flow (ppu_MFTB timebase)),
      INIT ''LWAUX'' (lift_flow (ppu_LWAUX feed)),
      INIT ''DSTST'' (lift_plain (\<lambda>op s. s)),
      INIT ''LHAUX'' (lift_flow (ppu_LHAUX feed)),
      INIT ''STHX'' (lift_flow ppu_STHX),
      INIT_RC ''ORC'' (\<lambda>rc. lift_plain (ppu_ORC rc)),
      INIT ''ECOWX'' (\<lambda>op this_op s. (Throw ''ECOWX'', s)),
      INIT ''STHUX'' (lift_flow ppu_STHUX),
      INIT_RC ''OR'' (\<lambda>rc. lift_plain (ppu_OR rc)),
      INIT_RC_OV ''DIVDU'' (\<lambda>oe rc. lift_plain (ppu_DIVDU oe rc)),
      INIT_RC_OV ''DIVWU'' (\<lambda>oe rc. lift_plain (ppu_DIVWU oe rc)),
      INIT ''MTSPR'' (lift_flow ppu_MTSPR),
      INIT ''DCBI'' (lift_plain (\<lambda>op s. s)),
      INIT_RC ''NAND'' (\<lambda>rc. lift_plain (ppu_NAND rc)),
      INIT ''STVXL'' (lift_flow ppu_STVXL),
      INIT_RC_OV ''DIVD'' (\<lambda>oe rc. lift_plain (ppu_DIVD oe rc)),
      INIT_RC_OV ''DIVW'' (\<lambda>oe rc. lift_plain (ppu_DIVW oe rc)),
      INIT ''LVLX'' (lift_flow (ppu_LVLX feed)),
      INIT ''LDBRX'' (lift_flow (ppu_LDBRX feed)),
      INIT ''LSWX'' (lift_flow (ppu_LSWX feed)),
      INIT ''LWBRX'' (lift_flow (ppu_LWBRX feed)),
      INIT_RC ''SRW'' (\<lambda>rc. lift_plain (ppu_SRW rc)),
      INIT_RC ''SRD'' (\<lambda>rc. lift_plain (ppu_SRD rc)),
      INIT ''LVRX'' (lift_flow (ppu_LVRX feed)),
      INIT ''LSWI'' (lift_flow (ppu_LSWI feed)),
      INIT ''SYNC'' (lift_plain (\<lambda>op s. s)),
      INIT ''LFDX'' (lift_flow (ppu_LFDX feed)),
      INIT ''LFDUX'' (lift_flow (ppu_LFDUX feed)),
      INIT ''STVLX'' (lift_flow ppu_STVLX),
      INIT ''STDBRX'' (lift_flow ppu_STDBRX),
      INIT ''STSWX'' (lift_flow ppu_STSWX),
      INIT ''STWBRX'' (lift_flow ppu_STWBRX),
      INIT ''STVRX'' (lift_flow ppu_STVRX),
      INIT ''STSWI'' (lift_flow ppu_STSWI),
      INIT ''STFDX'' (lift_flow ppu_STFDX),
      INIT ''STFDUX'' (lift_flow ppu_STFDUX),
      INIT ''LVLXL'' (lift_flow (ppu_LVLX feed)),
      INIT ''LHBRX'' (lift_flow (ppu_LHBRX feed)),
      INIT_RC ''SRAW'' (\<lambda>rc. lift_plain (ppu_SRAW rc)),
      INIT_RC ''SRAD'' (\<lambda>rc. lift_plain (ppu_SRAD rc)),
      INIT ''LVRXL'' (lift_flow (ppu_LVRX feed)),
      INIT ''DSS'' (lift_plain (\<lambda>op s. s)),
      INIT_RC ''SRAWI'' (\<lambda>rc. lift_plain (ppu_SRAWI rc)),
      INIT_RC ''SRADI'' (\<lambda>rc. lift_plain (ppu_SRADI rc)),
      INIT ''EIEIO'' (lift_plain (\<lambda>op s. s)),
      INIT ''STVLXL'' (lift_flow ppu_STVLX),
      INIT ''STHBRX'' (lift_flow ppu_STHBRX),
      INIT_RC ''EXTSH'' (\<lambda>rc. lift_plain (ppu_EXTSH rc)),
      INIT ''STVRXL'' (lift_flow ppu_STVRX),
      INIT_RC ''EXTSB'' (\<lambda>rc. lift_plain (ppu_EXTSB rc)),
      INIT ''STFIWX'' (lift_flow ppu_STFIWX),
      INIT_RC ''EXTSW'' (\<lambda>rc. lift_plain (ppu_EXTSW rc)),
      INIT ''ICBI'' (lift_plain (\<lambda>op s. s)),
      INIT ''DCBZ'' (lift_flow ppu_DCBZ),
      INIT ''LWZ'' (lift_flow (ppu_LWZ feed)),
      INIT ''LWZU'' (lift_flow (ppu_LWZU feed)),
      INIT ''LBZ'' (lift_flow (ppu_LBZ feed)),
      INIT ''LBZU'' (lift_flow (ppu_LBZU feed)),
      INIT ''STW'' (lift_flow ppu_STW),
      INIT ''STWU'' (lift_flow ppu_STWU),
      INIT ''STB'' (lift_flow ppu_STB),
      INIT ''STBU'' (lift_flow ppu_STBU),
      INIT ''LHZ'' (lift_flow (ppu_LHZ feed)),
      INIT ''LHZU'' (lift_flow (ppu_LHZU feed)),
      INIT ''LHA'' (lift_flow (ppu_LHA feed)),
      INIT ''LHAU'' (lift_flow (ppu_LHAU feed)),
      INIT ''STH'' (lift_flow ppu_STH),
      INIT ''STHU'' (lift_flow ppu_STHU),
      INIT ''LMW'' (lift_flow (ppu_LMW feed)),
      INIT ''STMW'' (lift_flow ppu_STMW),
      INIT ''LFD'' (lift_flow (ppu_LFD feed)),
      INIT ''LFDU'' (lift_flow (ppu_LFDU feed)),
      INIT ''STFD'' (lift_flow ppu_STFD),
      INIT ''STFDU'' (lift_flow ppu_STFDU),
      INIT ''LD'' (lift_flow (ppu_LD feed)),
      INIT ''LDU'' (lift_flow (ppu_LDU feed)),
      INIT ''LWA'' (lift_flow (ppu_LWA feed)),
      INIT ''STD'' (lift_flow ppu_STD),
      INIT ''STDU'' (lift_flow ppu_STDU)]"

text \<open>Names that also get a function, not modelled here.\<close>

definition other_names :: "string list" where
  "other_names =
     [''MFVSCR'', ''MTVSCR'', ''VADDCUW'', ''VADDFP'', ''VADDSBS'', ''VADDSHS'', ''VADDSWS'', ''VADDUBM'',
      ''VADDUBS'', ''VADDUHM'', ''VADDUHS'', ''VADDUWM'', ''VADDUWS'', ''VAND'', ''VANDC'', ''VAVGSB'', ''VAVGSH'',
      ''VAVGSW'', ''VAVGUB'', ''VAVGUH'', ''VAVGUW'', ''VCFSX'', ''VCFUX'', ''VCMPBFP'', ''VCMPBFP_'', ''VCMPEQFP'',
      ''VCMPEQFP_'', ''VCMPEQUB'', ''VCMPEQUB_'', ''VCMPEQUH'', ''VCMPEQUH_'', ''VCMPEQUW'', ''VCMPEQUW_'',
      ''VCMPGEFP'', ''VCMPGEFP_'', ''VCMPGTFP'', ''VCMPGTFP_'', ''VCMPGTSB'', ''VCMPGTSB_'', ''VCMPGTSH'',
      ''VCMPGTSH_'', ''VCMPGTSW'', ''VCMPGTSW_'', ''VCMPGTUB'', ''VCMPGTUB_'', ''VCMPGTUH'', ''VCMPGTUH_'',
      ''VCMPGTUW'', ''VCMPGTUW_'', ''VCTSXS'', ''VCTUXS'', ''VEXPTEFP'', ''VLOGEFP'', ''VMADDFP'', ''VMAXFP'',
      ''VMAXSB'', ''VMAXSH'', ''VMAXSW'', ''VMAXUB'', ''VMAXUH'', ''VMAXUW'', ''VMHADDSHS'', ''VMHRADDSHS'',
      ''VMINFP'', ''VMINSB'', ''VMINSH'', ''VMINSW'', ''VMINUB'', ''VMINUH'', ''VMINUW'', ''VMLADDUHM'', ''VMRGHB'',
      ''VMRGHH'', ''VMRGHW'', ''VMRGLB'', ''VMRGLH'', ''VMRGLW'', ''VMSUMMBM'', ''VMSUMSHM'', ''VMSUMSHS'',
      ''VMSUMUBM'', ''VMSUMUHM'', ''VMSUMUHS'', ''VMULESB'', ''VMULESH'', ''VMULEUB'', ''VMULEUH'', ''VMULOSB'',
      ''VMULOSH'', ''VMULOUB'', ''VMULOUH'', ''VNMSUBFP'', ''VNOR'', ''VOR'', ''VPERM'', ''VPKPX'', ''VPKSHSS'',
      ''VPKSHUS'', ''VPKSWSS'', ''VPKSWUS'', ''VPKUHUM'', ''VPKUHUS'', ''VPKUWUM'', ''VPKUWUS'', ''VREFP'',
      ''VRFIM'', ''VRFIN'', ''VRFIP'', ''VRFIZ'', ''VRLB'', ''VRLH'', ''VRLW'', ''VRSQRTEFP'', ''VSEL'', ''VSL'',
      ''VSLB'', ''VSLDOI'', ''VSLH'', ''VSLO'', ''VSLW'', ''VSPLTB'', ''VSPLTH'', ''VSPLTISB'', ''VSPLTISH'',
      ''VSPLTISW'', ''VSPLTW'', ''VSR'', ''VSRAB'', ''VSRAH'', ''VSRAW'', ''VSRB'', ''VSRH'', ''VSRO'', ''VSRW'',
      ''VSUBCUW'', ''VSUBFP'', ''VSUBSBS'', ''VSUBSHS'', ''VSUBSWS'', ''VSUBUBM'', ''VSUBUBS'', ''VSUBUHM'',
      ''VSUBUHS'', ''VSUBUWM'', ''VSUBUWS'', ''VSUMSWS'', ''VSUM2SWS'', ''VSUM4SBS'', ''VSUM4SHS'', ''VSUM4UBS'',
      ''VUPKHPX'', ''VUPKHSB'', ''VUPKHSH'', ''VUPKLPX'', ''VUPKLSB'', ''VUPKLSH'', ''VXOR'', ''LWARX'', ''LDARX'',
      ''STWCX'', ''STDCX'', ''LFSX'', ''LFSUX'', ''STFSX'', ''STFSUX'', ''LFS'', ''LFSU'', ''STFS'', ''STFSU'',
      ''FDIVS'', ''FDIVS_'', ''FSUBS'', ''FSUBS_'', ''FADDS'', ''FADDS_'', ''FSQRTS'', ''FSQRTS_'', ''FRES'',
      ''FRES_'', ''FMULS'', ''FMULS_'', ''FMADDS'', ''FMADDS_'', ''FMSUBS'', ''FMSUBS_'', ''FNMSUBS'', ''FNMSUBS_'',
      ''FNMADDS'', ''FNMADDS_'', ''MTFSB1'', ''MTFSB1_'', ''MCRFS'', ''MTFSB0'', ''MTFSB0_'', ''MTFSFI'',
      ''MTFSFI_'', ''MFFS'', ''MFFS_'', ''MTFSF'', ''MTFSF_'', ''FCMPU'', ''FRSP'', ''FRSP_'', ''FCTIW'',
      ''FCTIW_'', ''FCTIWZ'', ''FCTIWZ_'', ''FDIV'', ''FDIV_'', ''FSUB'', ''FSUB_'', ''FADD'', ''FADD_'', ''FSQRT'',
      ''FSQRT_'', ''FSEL'', ''FSEL_'', ''FMUL'', ''FMUL_'', ''FRSQRTE'', ''FRSQRTE_'', ''FMSUB'', ''FMSUB_'',
      ''FMADD'', ''FMADD_'', ''FNMSUB'', ''FNMSUB_'', ''FNMADD'', ''FNMADD_'', ''FCMPO'', ''FNEG'', ''FNEG_'',
      ''FMR'', ''FMR_'', ''FNABS'', ''FNABS_'', ''FABS'', ''FABS_'', ''FCTID'', ''FCTID_'', ''FCTIDZ'', ''FCTIDZ_'',
      ''FCFID'', ''FCFID_'', ''UNK'']"

section \<open>Decoding an instruction word\<close>

text \<open>
  A function pointer is one of the model, one of the others, null, or an object that throws. The
  16-bit absolute addressing of the plain D-form accesses is rejected here, so that those functions
  may add the register unconditionally.
\<close>

datatype target = Run insn | Other string | Null | Invalid string

definition d_form_names :: "string list" where
  "d_form_names = [''LWZ'', ''LBZ'', ''STW'', ''STB'', ''LHZ'', ''LHA'', ''STH'', ''LFS'', ''LFD'', ''STFS'', ''STFD'']"

definition lookup_ptr :: "bool \<Rightarrow> u64 \<Rightarrow> string \<Rightarrow> target" where
  "lookup_ptr feed timebase name =
     (case map_of (ptrs feed timebase) name of
        Some f \<Rightarrow> Run f
      | None \<Rightarrow> if name \<in> set other_names then Other name else Null)"

definition rt_decode :: "bool \<Rightarrow> u64 \<Rightarrow> u32 \<Rightarrow> target" where
  "rt_decode feed timebase op =
     (let name = decode op
      in if name \<in> set d_form_names \<and> op_ra op = 0 then Invalid ''Invalid instruction''
         else if name = ''MFOCRF'' then
           if op_l11 op then
             let n = countl_zero (op_crm op) mod 8
             in if drop_bit n 0x80 \<noteq> op_crm op then Invalid ''Invalid instruction: MFOCRF''
                else Run (lift_plain (ppu_MFOCRF n))
           else lookup_ptr feed timebase ''MFCR''
         else lookup_ptr feed timebase name)"

text \<open>One instruction; \<^const>\<open>None\<close> if its function is not one of the model.\<close>

definition step :: "bool \<Rightarrow> u64 \<Rightarrow> u32 \<Rightarrow> u32 \<Rightarrow> ppu \<Rightarrow> (flow \<times> ppu) option" where
  "step feed timebase op this_op s =
     (case rt_decode feed timebase op of
        Run f \<Rightarrow> Some (f op this_op s)
      | Other name \<Rightarrow> None
      | Null \<Rightarrow> Some (Undefined ''null function pointer'', s)
      | Invalid msg \<Rightarrow> Some (Throw msg, s))"

section \<open>Which instructions have a function\<close>

text \<open>The names the table holds, in the order of the table.\<close>

definition ptr_names :: "string list" where
  "ptr_names =
     [''TDI'', ''TWI'', ''MULLI'', ''SUBFIC'', ''CMPLI'', ''CMPI'', ''ADDIC'', ''ADDI'', ''ADDIS'', ''BC'',
      ''SC'', ''B'', ''MCRF'', ''BCLR'', ''CRNOR'', ''CRANDC'', ''ISYNC'', ''CRXOR'', ''CRNAND'', ''CRAND'',
      ''CREQV'', ''CRORC'', ''CROR'', ''BCCTR'', ''RLWIMI'', ''RLWIMI_'', ''RLWINM'', ''RLWINM_'', ''RLWNM'',
      ''RLWNM_'', ''ORI'', ''ORIS'', ''XORI'', ''XORIS'', ''ANDI'', ''ANDIS'', ''RLDICL'', ''RLDICL_'',
      ''RLDICR'', ''RLDICR_'', ''RLDIC'', ''RLDIC_'', ''RLDIMI'', ''RLDIMI_'', ''RLDCL'', ''RLDCL_'', ''RLDCR'',
      ''RLDCR_'', ''CMP'', ''TW'', ''LVSL'', ''LVEBX'', ''SUBFC'', ''SUBFCO'', ''SUBFC_'', ''SUBFCO_'',
      ''ADDC'', ''ADDCO'', ''ADDC_'', ''ADDCO_'', ''MULHDU'', ''MULHDU_'', ''MULHWU'', ''MULHWU_'', ''MFCR'',
      ''LDX'', ''LWZX'', ''SLW'', ''SLW_'', ''CNTLZW'', ''CNTLZW_'', ''SLD'', ''SLD_'', ''AND'', ''AND_'',
      ''CMPL'', ''LVSR'', ''LVEHX'', ''SUBF'', ''SUBFO'', ''SUBF_'', ''SUBFO_'', ''LDUX'', ''DCBST'', ''LWZUX'',
      ''CNTLZD'', ''CNTLZD_'', ''ANDC'', ''ANDC_'', ''TD'', ''LVEWX'', ''MULHD'', ''MULHD_'', ''MULHW'',
      ''MULHW_'', ''DCBF'', ''LBZX'', ''LVX'', ''NEG'', ''NEGO'', ''NEG_'', ''NEGO_'', ''LBZUX'', ''NOR'',
      ''NOR_'', ''STVEBX'', ''SUBFE'', ''SUBFEO'', ''ADDE'', ''ADDEO'', ''MTOCRF'', ''STDX'', ''STWX'',
      ''STVEHX'', ''STDUX'', ''STWUX'', ''STVEWX'', ''SUBFZE'', ''SUBFZEO'', ''SUBFZE_'', ''SUBFZEO_'',
      ''ADDZE'', ''ADDZEO'', ''ADDZE_'', ''ADDZEO_'', ''STBX'', ''STVX'', ''SUBFME'', ''SUBFMEO'', ''SUBFME_'',
      ''SUBFMEO_'', ''MULLD'', ''MULLDO'', ''MULLD_'', ''MULLDO_'', ''ADDME'', ''ADDMEO'', ''ADDME_'',
      ''ADDMEO_'', ''MULLW'', ''MULLWO'', ''MULLW_'', ''MULLWO_'', ''DCBTST'', ''STBUX'', ''ADD'', ''ADDO'',
      ''ADD_'', ''ADDO_'', ''DCBT'', ''LHZX'', ''EQV'', ''EQV_'', ''ECIWX'', ''LHZUX'', ''XOR'', ''XOR_'',
      ''MFSPR'', ''LWAX'', ''DST'', ''LHAX'', ''LVXL'', ''MFTB'', ''LWAUX'', ''DSTST'', ''LHAUX'', ''STHX'',
      ''ORC'', ''ORC_'', ''ECOWX'', ''STHUX'', ''OR'', ''OR_'', ''DIVDU'', ''DIVDUO'', ''DIVDU_'', ''DIVDUO_'',
      ''DIVWU'', ''DIVWUO'', ''DIVWU_'', ''DIVWUO_'', ''MTSPR'', ''DCBI'', ''NAND'', ''NAND_'', ''STVXL'',
      ''DIVD'', ''DIVDO'', ''DIVD_'', ''DIVDO_'', ''DIVW'', ''DIVWO'', ''DIVW_'', ''DIVWO_'', ''LVLX'',
      ''LDBRX'', ''LSWX'', ''LWBRX'', ''SRW'', ''SRW_'', ''SRD'', ''SRD_'', ''LVRX'', ''LSWI'', ''SYNC'',
      ''LFDX'', ''LFDUX'', ''STVLX'', ''STDBRX'', ''STSWX'', ''STWBRX'', ''STVRX'', ''STSWI'', ''STFDX'',
      ''STFDUX'', ''LVLXL'', ''LHBRX'', ''SRAW'', ''SRAW_'', ''SRAD'', ''SRAD_'', ''LVRXL'', ''DSS'', ''SRAWI'',
      ''SRAWI_'', ''SRADI'', ''SRADI_'', ''EIEIO'', ''STVLXL'', ''STHBRX'', ''EXTSH'', ''EXTSH_'', ''STVRXL'',
      ''EXTSB'', ''EXTSB_'', ''STFIWX'', ''EXTSW'', ''EXTSW_'', ''ICBI'', ''DCBZ'', ''LWZ'', ''LWZU'', ''LBZ'',
      ''LBZU'', ''STW'', ''STWU'', ''STB'', ''STBU'', ''LHZ'', ''LHZU'', ''LHA'', ''LHAU'', ''STH'', ''STHU'',
      ''LMW'', ''STMW'', ''LFD'', ''LFDU'', ''STFD'', ''STFDU'', ''LD'', ''LDU'', ''LWA'', ''STD'', ''STDU'']"

lemma ptr_names_eq: "map fst (ptrs feed timebase) = ptr_names"
  unfolding ptrs_def INIT_def INIT_OV_def INIT_RC_def INIT_RC_OV_def ptr_names_def
  by (simp only: concat.simps append.simps list.map fst_conv)

lemma lookup_null: "lookup_ptr feed timebase n = Null \<longleftrightarrow> n \<notin> set ptr_names \<and> n \<notin> set other_names"
proof -
  have "map_of (ptrs feed timebase) n = None \<longleftrightarrow> n \<notin> set ptr_names"
    by (metis ptr_names_eq map_of_eq_None_iff set_map)
  then show ?thesis by (auto simp: lookup_ptr_def split: option.split)
qed

lemma lookup_run: "n \<in> set ptr_names \<Longrightarrow> \<exists>f. lookup_ptr feed timebase n = Run f"
proof -
  assume "n \<in> set ptr_names"
  then have "map_of (ptrs feed timebase) n \<noteq> None" by (metis ptr_names_eq map_of_eq_None_iff set_map)
  then show ?thesis by (auto simp: lookup_ptr_def)
qed

lemma lookup_other: "lookup_ptr feed timebase n = Other m \<Longrightarrow> m = n \<and> n \<in> set other_names"
  by (auto simp: lookup_ptr_def split: option.splits if_splits)

text \<open>Membership of a literal is decided by reflexivity alone, without comparing characters.\<close>

definition has_function :: "string instruction_info \<Rightarrow> bool" where
  "has_function v = ((ptr0 v \<in> set other_names \<or> ptr0 v \<in> set ptr_names) \<and> (ptr_rc v \<in> set other_names \<or> ptr_rc v \<in> set ptr_names))"

definition lacks_record :: "string instruction_info list" where
  "lacks_record = [GETRC 0x88 ''SUBFE'' 0, GETRC 0x288 ''SUBFEO'' 0, GETRC 0x8a ''ADDE'' 0, GETRC 0x28a ''ADDEO'' 0]"

lemmas table_rules = ptr_names_def other_names_def has_function_def list.pred_inject list.set insert_iff append.simps
  simp_thms instruction_info.sel

lemma functions_main: "list_all has_function main_entries" by (simp only: main_entries_def table_rules)
lemma functions_04: "list_all has_function group_04" by (simp only: group_04_def table_rules)
lemma functions_13: "list_all has_function group_13" "list_all has_function group_1e" "list_all has_function group_3a"
    "list_all has_function group_3b" "list_all has_function group_3e" "list_all has_function group_3f"
  by (simp_all only: group_13_def group_1e_def group_3a_def group_3b_def group_3e_def group_3f_def table_rules)
lemma functions_1f: "list_all (\<lambda>v. has_function v \<or> v \<in> set lacks_record \<or> v = GET 0x013 ''MFOCRF'' 0) group_1f"
  by (simp only: group_1f_def table_rules lacks_record_def)

lemma functions_groups:
  assumes "(m, c, sh, vs) \<in> set groups" "v \<in> set vs"
  shows "has_function v \<or> m = 0x1f \<and> c = 10 \<and> sh = 1 \<and> (v \<in> set lacks_record \<or> v = GET 0x013 ''MFOCRF'' 0)"
  using assms functions_04 functions_13 functions_1f unfolding groups_def by (auto simp: list_all_iff)

lemma lookup_has: "n \<in> set other_names \<or> n \<in> set ptr_names \<Longrightarrow> lookup_ptr feed timebase n \<noteq> Null"
  by (auto simp: lookup_null)

lemma rt_null: "rt_decode feed timebase op = Null \<Longrightarrow> lookup_ptr feed timebase (decode op) = Null \<and> decode op \<noteq> ''MFOCRF''"
proof -
  have "lookup_ptr feed timebase ''MFCR'' \<noteq> Null" by (rule lookup_has) (simp only: table_rules)
  then show "rt_decode feed timebase op = Null \<Longrightarrow> lookup_ptr feed timebase (decode op) = Null \<and> decode op \<noteq> ''MFOCRF''"
    unfolding rt_decode_def Let_def by (auto split: if_splits)
qed

lemma rt_other: "rt_decode feed timebase op = Other m \<Longrightarrow> decode op \<in> set other_names"
proof -
  have "''MFCR'' \<in> set ptr_names" by (simp only: table_rules)
  from lookup_run [OF this, of feed timebase] have "lookup_ptr feed timebase ''MFCR'' \<noteq> Other m" for m by auto
  then show "rt_decode feed timebase op = Other m \<Longrightarrow> decode op \<in> set other_names"
    unfolding rt_decode_def Let_def by (auto dest: lookup_other split: if_splits)
qed

text \<open>Literals are told apart by their first different character.\<close>

fun same_name :: "string \<Rightarrow> string \<Rightarrow> bool" where
  "same_name (x # xs) (y # ys) = (if x = y then same_name xs ys else False)"
| "same_name xs ys = (xs = [] \<and> ys = [])"

lemma same_name_iff: "same_name xs ys = (xs = ys)"
  by (induction xs ys rule: same_name.induct) auto

lemma lacks_record_values:
  "op_value ` set lacks_record = {0x88, 0x288, 0x8a, 0x28a}"
  "ptr_rc ` set lacks_record = set [''SUBFE_'', ''SUBFEO_'', ''ADDE_'', ''ADDEO_'']"
  by (simp_all add: lacks_record_def)

lemma not_listed:
  assumes "list_all (\<lambda>n. \<not> list_ex (same_name n) [''SUBFE_'', ''SUBFEO_'', ''ADDE_'', ''ADDEO_'']) ns"
    and "v \<in> set lacks_record"
  shows "ptr_rc v \<notin> set ns"
proof
  assume "ptr_rc v \<in> set ns"
  then have "\<not> list_ex (same_name (ptr_rc v)) [''SUBFE_'', ''SUBFEO_'', ''ADDE_'', ''ADDEO_'']"
    using assms(1) unfolding list_all_iff by blast
  then show False
    using imageI [OF assms(2), of ptr_rc] unfolding list_ex_iff same_name_iff lacks_record_values by blast
qed

lemma record_missing:
  assumes "v \<in> set lacks_record"
  shows "ptr0 v \<in> set ptr_names" "ptr_rc v \<notin> set ptr_names" "ptr_rc v \<notin> set other_names"
    "ptr_rc v \<notin> set d_form_names" "ptr_rc v \<noteq> ''MFOCRF''" "v \<in> set group_1f" "magn v = 0"
proof -
  show "ptr0 v \<in> set ptr_names"
    using assms unfolding lacks_record_def by (auto simp only: table_rules)
  show "ptr_rc v \<notin> set ptr_names" by (rule not_listed [OF _ assms]) (simp add: ptr_names_def)
  show "ptr_rc v \<notin> set other_names" by (rule not_listed [OF _ assms]) (simp add: other_names_def)
  show "ptr_rc v \<notin> set d_form_names" by (rule not_listed [OF _ assms]) (simp add: d_form_names_def)
  show "ptr_rc v \<noteq> ''MFOCRF''" "magn v = 0" using assms unfolding lacks_record_def by auto
  show "v \<in> set group_1f" using assms unfolding lacks_record_def group_1f_def by (auto simp only: table_rules)
qed

text \<open>
  Claim C39. Every instruction word is given a function or is rejected with an exception, except the
  record forms of \<open>subfe\<close>, \<open>adde\<close> and of their overflow variants: the table is initialised for their
  plain forms only, so that exactly these words decode to a null pointer.
\<close>

theorem missing_functions:
  "rt_decode feed timebase op = Null \<longleftrightarrow>
     op_main op = 0x1f \<and> xo 1 10 op \<in> {0x88, 0x288, 0x8a, 0x28a} \<and> op_rc op"
proof
  assume null: "rt_decode feed timebase op = Null"
  note no = rt_null [OF null]
  show "op_main op = 0x1f \<and> xo 1 10 op \<in> {0x88, 0x288, 0x8a, 0x28a} \<and> op_rc op"
  proof (rule ccontr)
    assume bad: "\<not> ?thesis"
    have "lookup_ptr feed timebase (decode op) \<noteq> Null \<or> decode op = ''MFOCRF''"
    proof (cases "\<exists>v \<in> set main_entries. op_main op = op_value v")
      case True
      then obtain v where "v \<in> set main_entries" "op_main op = op_value v" by blast
      then show ?thesis using decode_main functions_main lookup_has
        by (metis (no_types, lifting) has_function_def list_all_iff)
    next
      case main: False
      show ?thesis
      proof (cases "\<exists>(m, c, sh, vs) \<in> set groups. \<exists>v \<in> set vs. op_main op = m \<and> xo sh (c - magn v) op = op_value v")
        case True
        then obtain m c sh vs v where v: "(m, c, sh, vs) \<in> set groups" "v \<in> set vs" "op_main op = m"
          "xo sh (c - magn v) op = op_value v" by auto
        note dec = decode_group [OF v]
        consider "has_function v" | "v \<in> set lacks_record" "m = 0x1f" "c = 10" "sh = 1" | "v = GET 0x013 ''MFOCRF'' 0"
          using functions_groups [OF v(1,2)] by blast
        then show ?thesis
        proof cases
          case 1
          then show ?thesis using dec lookup_has by (auto simp: has_function_def)
        next
          case 2
          then have "xo 1 10 op \<in> {0x88, 0x288, 0x8a, 0x28a}" 
            using v(4) imageI [OF 2(1), of op_value] record_missing(7) [OF 2(1)] by (simp add: lacks_record_values)
          then have "\<not> op_rc op" using bad v(3) 2 by blast
          then show ?thesis using dec lookup_has record_missing [OF 2(1)] by simp
        next
          case 3
          then show ?thesis using dec by simp
        qed
      next
        case False
        have "''UNK'' \<in> set other_names" by (simp only: table_rules)
        then show ?thesis using decode_unknown main False lookup_has by (auto simp: split_beta)
      qed
    qed
    then show False using no by blast
  qed
next
  assume op: "op_main op = 0x1f \<and> xo 1 10 op \<in> {0x88, 0x288, 0x8a, 0x28a} \<and> op_rc op"
  then have "xo 1 10 op \<in> op_value ` set lacks_record" by (simp only: lacks_record_values)
  then obtain v where v: "v \<in> set lacks_record" "xo 1 10 op = op_value v" by blast
  note r = record_missing [OF v(1)]
  have "decode op = ptr_rc v"
    using decode_group [of "0x1f" 10 1 group_1f v op] op v r by (simp add: groups_def)
  then show "rt_decode feed timebase op = Null" using r by (simp add: rt_decode_def lookup_null)
qed

end
