(* ===== verification/Ppu_Registers.thy ===== *)
theory Ppu_Registers
  imports Ppu_Interpreter
begin

text \<open>
  The register file as a type: every function of the interpreter's table, and so every step, keeps the
  condition register made of bits and the string count of the exception register within seven bits.
\<close>

section \<open>Every function keeps the registers well formed\<close>

lemma wf_upd [simp]:
  "ppu_wf (set_gpr i v s) = ppu_wf s" "ppu_wf (set_vr i w s) = ppu_wf s" "ppu_wf (set_fpr i v s) = ppu_wf s"
  "ppu_wf (set_ca b s) = ppu_wf s" "ppu_wf (ov_if oe b s) = ppu_wf s" "ppu_wf (drop_reservation s) = ppu_wf s"
  "ppu_wf (s\<lparr>mem := m\<rparr>) = ppu_wf s"
  by (simp_all add: ppu_wf_def set_gpr_def set_vr_def set_fpr_def set_ca_def ov_if_def ppu_ov_set_def drop_reservation_def)

lemma wf_cr_set [simp]: "ppu_wf s \<Longrightarrow> ppu_wf (ppu_cr_set n a b c d s)"
  by (auto simp: ppu_wf_def ppu_cr_set_def)

lemma wf_cr [simp]: "ppu_wf s \<Longrightarrow> ppu_wf (rc_if rc r s)" "ppu_wf s \<Longrightarrow> ppu_wf (cr_set_u n a b s)"
  "ppu_wf s \<Longrightarrow> ppu_wf (cr_set_s n a b s)"
  by (simp_all add: rc_if_def cr_set_u_def cr_set_s_def)

lemmas integer_defs =
  ppu_MULLI_def ppu_SUBFIC_def ppu_CMPLI_def ppu_CMPI_def ppu_ADDIC_def ppu_ADDI_def ppu_ADDIS_def
  ppu_ORI_def ppu_ORIS_def ppu_XORI_def ppu_XORIS_def ppu_ANDI_def ppu_ANDIS_def ppu_CMP_def ppu_CMPL_def
  ppu_RLWIMI_def ppu_RLWINM_def ppu_RLWNM_def ppu_RLDICL_def ppu_RLDICR_def ppu_RLDIC_def ppu_RLDIMI_def
  ppu_RLDCL_def ppu_RLDCR_def ppu_ADD_def ppu_SUBF_def ppu_ADDC_def ppu_SUBFC_def ppu_ADDE_def ppu_SUBFE_def
  ppu_ADDZE_def ppu_SUBFZE_def ppu_ADDME_def ppu_SUBFME_def ppu_NEG_def ppu_MULLW_def ppu_MULLD_def
  ppu_MULHW_def ppu_MULHWU_def ppu_MULHD_def ppu_MULHDU_def ppu_DIVD_def ppu_DIVDU_def ppu_DIVW_def
  ppu_DIVWU_def ppu_AND_def ppu_ANDC_def ppu_OR_def ppu_ORC_def ppu_XOR_def ppu_NAND_def ppu_NOR_def
  ppu_EQV_def ppu_EXTSB_def ppu_EXTSH_def ppu_EXTSW_def ppu_CNTLZW_def ppu_CNTLZD_def ppu_SLW_def
  ppu_SRW_def ppu_SLD_def ppu_SRD_def ppu_SRAW_def ppu_SRAD_def ppu_SRAWI_def ppu_SRADI_def

lemma wf_integer [simp]:
  assumes "ppu_wf s"
  shows "ppu_wf (ppu_MULLI op s)" "ppu_wf (ppu_SUBFIC op s)" "ppu_wf (ppu_CMPLI op s)" "ppu_wf (ppu_CMPI op s)"
    "ppu_wf (ppu_ADDIC op s)" "ppu_wf (ppu_ADDI op s)" "ppu_wf (ppu_ADDIS op s)" "ppu_wf (ppu_ORI op s)"
    "ppu_wf (ppu_ORIS op s)" "ppu_wf (ppu_XORI op s)" "ppu_wf (ppu_XORIS op s)" "ppu_wf (ppu_ANDI op s)"
    "ppu_wf (ppu_ANDIS op s)" "ppu_wf (ppu_CMP op s)" "ppu_wf (ppu_CMPL op s)" "ppu_wf (ppu_RLWIMI rc op s)"
    "ppu_wf (ppu_RLWINM rc op s)" "ppu_wf (ppu_RLWNM rc op s)" "ppu_wf (ppu_RLDICL rc op s)" "ppu_wf (ppu_RLDICR rc op s)"
    "ppu_wf (ppu_RLDIC rc op s)" "ppu_wf (ppu_RLDIMI rc op s)" "ppu_wf (ppu_RLDCL rc op s)" "ppu_wf (ppu_RLDCR rc op s)"
    "ppu_wf (ppu_ADD oe rc op s)" "ppu_wf (ppu_SUBF oe rc op s)" "ppu_wf (ppu_ADDC oe rc op s)" "ppu_wf (ppu_SUBFC oe rc op s)"
    "ppu_wf (ppu_ADDE oe rc op s)" "ppu_wf (ppu_SUBFE oe rc op s)" "ppu_wf (ppu_ADDZE oe rc op s)" "ppu_wf (ppu_SUBFZE oe rc op s)"
    "ppu_wf (ppu_ADDME oe rc op s)" "ppu_wf (ppu_SUBFME oe rc op s)" "ppu_wf (ppu_NEG oe rc op s)" "ppu_wf (ppu_MULLW oe rc op s)"
    "ppu_wf (ppu_MULLD rc op s)" "ppu_wf (ppu_MULHW rc op s)" "ppu_wf (ppu_MULHWU rc op s)" "ppu_wf (ppu_MULHD rc op s)"
    "ppu_wf (ppu_MULHDU rc op s)" "ppu_wf (ppu_DIVD oe rc op s)" "ppu_wf (ppu_DIVDU oe rc op s)" "ppu_wf (ppu_DIVW oe rc op s)"
    "ppu_wf (ppu_DIVWU oe rc op s)" "ppu_wf (ppu_AND rc op s)" "ppu_wf (ppu_ANDC rc op s)" "ppu_wf (ppu_OR rc op s)"
    "ppu_wf (ppu_ORC rc op s)" "ppu_wf (ppu_XOR rc op s)" "ppu_wf (ppu_NAND rc op s)" "ppu_wf (ppu_NOR rc op s)"
    "ppu_wf (ppu_EQV rc op s)" "ppu_wf (ppu_EXTSB rc op s)" "ppu_wf (ppu_EXTSH rc op s)" "ppu_wf (ppu_EXTSW rc op s)"
    "ppu_wf (ppu_CNTLZW rc op s)" "ppu_wf (ppu_CNTLZD rc op s)" "ppu_wf (ppu_SLW rc op s)" "ppu_wf (ppu_SRW rc op s)"
    "ppu_wf (ppu_SLD rc op s)" "ppu_wf (ppu_SRD rc op s)" "ppu_wf (ppu_SRAW rc op s)" "ppu_wf (ppu_SRAD rc op s)"
    "ppu_wf (ppu_SRAWI rc op s)" "ppu_wf (ppu_SRADI rc op s)"
  unfolding integer_defs Let_def split_beta using assms by simp_all

section \<open>Memory\<close>

text \<open>An access that keeps well-formedness whatever its outcome.\<close>

definition keeps :: "'a access \<Rightarrow> bool" where
  "keeps m = (\<forall>s. ppu_wf s \<longrightarrow> ppu_wf (snd (m s)))"

lemma keeps_bind [intro]: "keeps m \<Longrightarrow> (\<And>x. keeps (k x)) \<Longrightarrow> keeps (bind_m m k)"
  by (auto simp: keeps_def bind_m_def split: prod.split sum.split)

lemma keeps_basic [intro]: "keeps (return_m x)" "keeps (vm_cast a)" "(\<And>s. ppu_wf s \<Longrightarrow> ppu_wf (f s)) \<Longrightarrow> keeps (modify_m f)"
  "keeps (ppu_feed_data feed n a)"
  by (auto simp: keeps_def return_m_def vm_cast_def modify_m_def ppu_feed_data_def Let_def)

lemma keeps_mem [intro]: "(\<And>bs s. ppu_wf s \<Longrightarrow> ppu_wf (put bs s)) \<Longrightarrow> keeps (load_m feed n a put)" "keeps (store_m a bs)"
  unfolding load_m_def store_m_def by (auto intro!: keeps_bind keeps_basic)

lemma keeps_run: "keeps m \<Longrightarrow> ppu_wf s \<Longrightarrow> ppu_wf (snd (run_m m s))"
  by (auto simp: keeps_def run_m_def split: prod.split sum.split)

lemma keeps_fold: "(\<And>i. keeps (g i)) \<Longrightarrow> keeps m \<Longrightarrow> keeps (fold (\<lambda>i m. bind_m m (\<lambda>_. g i)) xs m)"
proof (induction xs arbitrary: m)
  case (Cons x xs)
  then have "keeps (bind_m m (\<lambda>_. g x))" by (intro keeps_bind)
  then show ?case using Cons.IH Cons.prems(1) by simp
qed simp

lemma wf_generic [simp]:
  assumes "ppu_wf s"
  shows "ppu_wf (snd (load_gpr feed n get ea op s))" "ppu_wf (snd (load_upd feed n get ea op s))"
    "ppu_wf (snd (store_gpr put ea op s))" "ppu_wf (snd (store_upd put ea op s))"
  unfolding load_gpr_def load_upd_def store_gpr_def store_upd_def
  using assms by (auto intro!: keeps_run keeps_mem keeps_bind keeps_basic)

lemma wf_load_store [simp]:
  assumes "ppu_wf s"
  shows "ppu_wf (snd (ppu_LDX feed op s))"
    "ppu_wf (snd (ppu_LWZX feed op s))"
    "ppu_wf (snd (ppu_LDUX feed op s))"
    "ppu_wf (snd (ppu_LWZUX feed op s))"
    "ppu_wf (snd (ppu_LBZX feed op s))"
    "ppu_wf (snd (ppu_LBZUX feed op s))"
    "ppu_wf (snd (ppu_LHZX feed op s))"
    "ppu_wf (snd (ppu_LHZUX feed op s))"
    "ppu_wf (snd (ppu_LWAX feed op s))"
    "ppu_wf (snd (ppu_LHAX feed op s))"
    "ppu_wf (snd (ppu_LWAUX feed op s))"
    "ppu_wf (snd (ppu_LHAUX feed op s))"
    "ppu_wf (snd (ppu_LDBRX feed op s))"
    "ppu_wf (snd (ppu_LWBRX feed op s))"
    "ppu_wf (snd (ppu_LHBRX feed op s))"
    "ppu_wf (snd (ppu_LWZ feed op s))"
    "ppu_wf (snd (ppu_LWZU feed op s))"
    "ppu_wf (snd (ppu_LBZ feed op s))"
    "ppu_wf (snd (ppu_LBZU feed op s))"
    "ppu_wf (snd (ppu_LHZ feed op s))"
    "ppu_wf (snd (ppu_LHZU feed op s))"
    "ppu_wf (snd (ppu_LHA feed op s))"
    "ppu_wf (snd (ppu_LHAU feed op s))"
    "ppu_wf (snd (ppu_LD feed op s))"
    "ppu_wf (snd (ppu_LDU feed op s))"
    "ppu_wf (snd (ppu_LWA feed op s))"
    "ppu_wf (snd (ppu_STDX op s))"
    "ppu_wf (snd (ppu_STWX op s))"
    "ppu_wf (snd (ppu_STDUX op s))"
    "ppu_wf (snd (ppu_STWUX op s))"
    "ppu_wf (snd (ppu_STBX op s))"
    "ppu_wf (snd (ppu_STBUX op s))"
    "ppu_wf (snd (ppu_STHX op s))"
    "ppu_wf (snd (ppu_STHUX op s))"
    "ppu_wf (snd (ppu_STDBRX op s))"
    "ppu_wf (snd (ppu_STWBRX op s))"
    "ppu_wf (snd (ppu_STHBRX op s))"
    "ppu_wf (snd (ppu_STW op s))"
    "ppu_wf (snd (ppu_STWU op s))"
    "ppu_wf (snd (ppu_STB op s))"
    "ppu_wf (snd (ppu_STBU op s))"
    "ppu_wf (snd (ppu_STH op s))"
    "ppu_wf (snd (ppu_STHU op s))"
    "ppu_wf (snd (ppu_STD op s))"
    "ppu_wf (snd (ppu_STDU op s))"
  unfolding load_defs store_defs using assms by simp_all

lemma keeps_fpr: "keeps (load_fpr feed ea op)" "keeps (store_fpr ea op)"
  using keeps_mem by (auto simp: keeps_def load_fpr_def store_fpr_def)

lemma keeps_update: "keeps (m op) \<Longrightarrow> keeps (with_update ea m op)"
  unfolding keeps_def with_update_def
  using keeps_bind [of "m op" "\<lambda>_. modify_m (set_gpr (op_ra op) (ea op s))" for s] keeps_basic(3) [of "set_gpr (op_ra op) (ea op s)" for s]
  by (simp add: keeps_def)

lemma wf_vector_double [simp]:
  assumes "ppu_wf s"
  shows "ppu_wf (snd (ppu_LVX feed op s))"
    "ppu_wf (snd (ppu_LVXL feed op s))"
    "ppu_wf (snd (ppu_LVEBX feed op s))"
    "ppu_wf (snd (ppu_LVEHX feed op s))"
    "ppu_wf (snd (ppu_LVEWX feed op s))"
    "ppu_wf (snd (ppu_STVX op s))"
    "ppu_wf (snd (ppu_STVXL op s))"
    "ppu_wf (snd (ppu_STVEBX op s))"
    "ppu_wf (snd (ppu_STVEHX op s))"
    "ppu_wf (snd (ppu_STVEWX op s))"
    "ppu_wf (snd (ppu_LVLX feed op s))"
    "ppu_wf (snd (ppu_LVRX feed op s))"
    "ppu_wf (snd (ppu_STVLX op s))"
    "ppu_wf (snd (ppu_LFDX feed op s))"
    "ppu_wf (snd (ppu_LFDUX feed op s))"
    "ppu_wf (snd (ppu_LFD feed op s))"
    "ppu_wf (snd (ppu_LFDU feed op s))"
    "ppu_wf (snd (ppu_STFDX op s))"
    "ppu_wf (snd (ppu_STFDUX op s))"
    "ppu_wf (snd (ppu_STFD op s))"
    "ppu_wf (snd (ppu_STFDU op s))"
    "ppu_wf (snd (ppu_STFIWX op s))"
    "ppu_wf (snd (ppu_DCBZ op s))"
  unfolding ppu_LVX_def ppu_LVXL_def ppu_LVEBX_def ppu_LVEHX_def ppu_LVEWX_def ppu_STVX_def ppu_STVXL_def ppu_STVEBX_def ppu_STVEHX_def ppu_STVEWX_def ppu_LVLX_def ppu_LVRX_def ppu_STVLX_def ppu_LFDX_def ppu_LFDUX_def ppu_LFD_def ppu_LFDU_def ppu_STFDX_def ppu_STFDUX_def ppu_STFD_def ppu_STFDU_def ppu_STFIWX_def ppu_DCBZ_def load_vr_def Let_def
  using assms by (auto intro!: keeps_run keeps_mem keeps_bind keeps_basic keeps_update keeps_fpr)

lemma wf_lvs [simp]: "ppu_wf s \<Longrightarrow> ppu_wf (ppu_LVSL op s)" "ppu_wf s \<Longrightarrow> ppu_wf (ppu_LVSR op s)"
  by (simp_all add: ppu_LVSL_def ppu_LVSR_def Let_def)

lemma keeps_tail: "keeps (load_tail feed n a i buf)" "keeps (store_tail n a buf)"
proof -
  show "keeps (load_tail feed n a i buf)"
    by (induction n arbitrary: a i buf) (auto intro!: keeps_bind keeps_basic)
  show "keeps (store_tail n a buf)"
    by (induction n arbitrary: a buf) (auto intro!: keeps_bind keeps_basic keeps_mem)
qed

lemma keeps_load_string: "keeps (load_string feed n a r)"
  by (induction feed n a r rule: load_string.induct)
    (subst load_string.simps, auto intro!: keeps_bind keeps_basic keeps_mem keeps_tail)

lemma wf_store_string: "ppu_wf s \<Longrightarrow> ppu_wf (snd (store_string n a r s))"
proof (induction n a r s rule: store_string.induct)
  case (1 n a r s)
  have "ppu_wf (snd (store_tail n a (ucast (gpr s r)) s))" using keeps_tail "1.prems" unfolding keeps_def by blast
  moreover have "ppu_wf (snd (bind_m (store_m a (put32 (gpr s r))) (\<lambda>_. store_string (n - 4) (a + 4) ((r + 1) mod 32)) s))" if "n > 3"
    using that "1.IH" "1.prems" by (simp add: bind_m_def store_m_def vm_cast_def modify_m_def)
  ultimately show ?case using "1.prems" by (simp add: store_string.simps [of n] return_m_def)
qed

lemma wf_string [simp]:
  assumes "ppu_wf s"
  shows "ppu_wf (snd (ppu_LMW feed op s))"
    "ppu_wf (snd (ppu_STMW op s))"
    "ppu_wf (snd (ppu_LSWI feed op s))"
    "ppu_wf (snd (ppu_STSWI op s))"
    "ppu_wf (snd (ppu_LSWX feed op s))"
    "ppu_wf (snd (ppu_STSWX op s))"
    "ppu_wf (snd (ppu_STVRX op s))"
proof -
  have string: "ppu_wf (snd (run_m (store_string n a r) s))" for n a r
    using wf_store_string [OF assms, of n a r] by (auto simp: run_m_def split: prod.split sum.split)
  show "ppu_wf (snd (ppu_LSWI feed op s))" "ppu_wf (snd (ppu_LSWX feed op s))"
    unfolding ppu_LSWI_def ppu_LSWX_def load_string_x_equiv using assms keeps_run keeps_load_string by blast+
  show "ppu_wf (snd (ppu_STSWI op s))" "ppu_wf (snd (ppu_STSWX op s))"
    using string unfolding ppu_STSWI_def ppu_STSWX_def run_m_def store_string_x_equiv by blast+
  show "ppu_wf (snd (ppu_LMW feed op s))" "ppu_wf (snd (ppu_STMW op s))"
    unfolding ppu_LMW_def ppu_STMW_def using assms by (auto intro!: keeps_run keeps_fold keeps_mem keeps_basic)
  have "ppu_wf (fold (\<lambda>i s. s\<lparr>mem := (mem s)(p + i := be_bytes (vr s r) ! i)\<rparr>) xs s)" if "ppu_wf s" for p r xs s
    using that by (induction xs arbitrary: s) (simp_all del: fun_upd_apply)
  then show "ppu_wf (snd (ppu_STVRX op s))"
    unfolding ppu_STVRX_def Let_def using assms by (auto intro!: keeps_run keeps_bind keeps_basic)
qed

section \<open>Branches and the condition register\<close>

lemma wf_leave [simp]: "ppu_wf s \<Longrightarrow> ppu_wf (snd (leave_to a l s))" "ppu_wf s \<Longrightarrow> ppu_wf (snd (not_taken l s))"
  "ppu_wf s \<Longrightarrow> ppu_wf (snd (trap_if op x y a s))"
  by (auto simp: leave_to_def not_taken_def trap_if_def ppu_wf_def)

lemma wf_regs [simp]: "ppu_wf (s\<lparr>ctr := c\<rparr>) = ppu_wf s" "ppu_wf (s\<lparr>lr := l\<rparr>) = ppu_wf s" "ppu_wf (s\<lparr>vrsave := v\<rparr>) = ppu_wf s"
  "ppu_wf (s\<lparr>cia := a, exec_bytes := e\<rparr>) = ppu_wf s"
  by (simp_all add: ppu_wf_def)

lemma wf_branch [simp]:
  assumes "ppu_wf s"
  shows "ppu_wf (snd (ppu_BC op a s))" "ppu_wf (snd (ppu_B op a s))" "ppu_wf (snd (ppu_BCLR op a s))" "ppu_wf (snd (ppu_BCCTR op a s))"
    "ppu_wf (snd (ppu_SC op a s))" "ppu_wf (snd (ppu_TDI op a s))" "ppu_wf (snd (ppu_TWI op a s))"
    "ppu_wf (snd (ppu_TD op a s))" "ppu_wf (snd (ppu_TW op a s))"
  unfolding ppu_BC_def ppu_B_def ppu_BCLR_def ppu_BCCTR_def ppu_SC_def ppu_TDI_def ppu_TWI_def ppu_TD_def ppu_TW_def Let_def
  using assms by simp_all

lemma wf_bit: "ppu_wf s \<Longrightarrow> v = 0 \<or> v = 1 \<Longrightarrow> ppu_wf (set_crb op v s)"
  by (auto simp: ppu_wf_def set_crb_def)

lemma bit_ops: "x = 0 \<or> x = (1::u8) \<Longrightarrow> y = 0 \<or> y = 1 \<Longrightarrow> x OR y = 0 \<or> x OR y = 1"
  "x = 0 \<or> x = (1::u8) \<Longrightarrow> y = 0 \<or> y = 1 \<Longrightarrow> x AND y = 0 \<or> x AND y = 1"
  "x = 0 \<or> x = (1::u8) \<Longrightarrow> y = 0 \<or> y = 1 \<Longrightarrow> x XOR y = 0 \<or> x XOR y = 1"
  by auto

lemma wf_cr_ops [simp]:
  assumes "ppu_wf s"
  shows "ppu_wf (ppu_CRNOR op s)" "ppu_wf (ppu_CRANDC op s)" "ppu_wf (ppu_CRXOR op s)" "ppu_wf (ppu_CRNAND op s)"
    "ppu_wf (ppu_CRAND op s)" "ppu_wf (ppu_CREQV op s)" "ppu_wf (ppu_CRORC op s)" "ppu_wf (ppu_CROR op s)"
proof -
  have "cr s i = 0 \<or> cr s i = 1" for i using assms unfolding ppu_wf_def by blast
  then show "ppu_wf (ppu_CRNOR op s)" "ppu_wf (ppu_CRANDC op s)" "ppu_wf (ppu_CRXOR op s)" "ppu_wf (ppu_CRNAND op s)"
    "ppu_wf (ppu_CRAND op s)" "ppu_wf (ppu_CREQV op s)" "ppu_wf (ppu_CRORC op s)" "ppu_wf (ppu_CROR op s)"
    unfolding ppu_CRNOR_def ppu_CRANDC_def ppu_CRXOR_def ppu_CRNAND_def ppu_CRAND_def ppu_CREQV_def ppu_CRORC_def ppu_CROR_def
    by (intro wf_bit [OF assms] bit_ops; simp)+
qed

lemma wf_set_field: "ppu_wf s \<Longrightarrow> (\<And>k. k < 4 \<Longrightarrow> f ! k = 0 \<or> f ! k = 1) \<Longrightarrow> ppu_wf (set_field n f s)"
  by (auto simp: ppu_wf_def set_field_def)

lemma wf_put_field: "n < 8 \<Longrightarrow> ppu_wf s \<Longrightarrow> ppu_wf (put_field v n s)"
  by (auto simp: put_field_cr ppu_wf_def)

lemma wf_cr_moves [simp]:
  assumes "ppu_wf s"
  shows "ppu_wf (ppu_MCRF op s)" "ppu_wf (ppu_MTOCRF op s)" "ppu_wf (ppu_MFOCRF n op s)" "ppu_wf (ppu_MFCR op s)"
proof -
  show "ppu_wf (ppu_MCRF op s)"
    unfolding ppu_MCRF_def using assms
    by (intro wf_set_field) (auto simp: get_field_def ppu_wf_def)
  show "ppu_wf (ppu_MTOCRF op s)"
  proof (cases "op_l11 op")
    case True
    then show ?thesis using assms by (simp add: ppu_MTOCRF_put Let_def wf_put_field)
  next
    case False
    then show ?thesis using assms by (auto simp: ppu_MTCRF ppu_wf_def)
  qed
qed (use assms in \<open>simp_all add: ppu_MFOCRF_def ppu_MFCR_def Let_def\<close>)

lemma wf_spr [simp]:
  assumes "ppu_wf s"
  shows "ppu_wf (snd (ppu_MFSPR tb op s))" "ppu_wf (snd (ppu_MFTB tb op s))" "ppu_wf (snd (ppu_MTSPR op s))"
proof -
  have "ucast (v AND 0x7f :: u64) < (128 :: u8)" for v
  proof -
    have "unat (ucast (v AND 0x7f :: u64) :: u8) = unat v mod 128"
      using and_127(1) [of v] by (simp add: unsigned_ucast_eq take_bit_eq_mod)
    then show ?thesis by (simp add: word_less_nat_alt)
  qed
  then show "ppu_wf (snd (ppu_MTSPR op s))" using assms by (simp add: ppu_MTSPR_def Let_def ppu_wf_def)
qed (use assms in \<open>simp_all add: ppu_MFSPR_def ppu_MFTB_def Let_def\<close>)

lemma ptrs_wf: "\<forall>(n, f) \<in> set (ptrs feed timebase). \<forall>op a s. ppu_wf s \<longrightarrow> ppu_wf (snd (f op a s))"
  unfolding ptrs_def INIT_def INIT_OV_def INIT_RC_def INIT_RC_OV_def
  by (simp add: lift_plain_def lift_flow_def)

lemma ptrs_wfD: "(n, f) \<in> set (ptrs feed timebase) \<Longrightarrow> ppu_wf s \<Longrightarrow> ppu_wf (snd (f op a s))"
  using ptrs_wf by fast

text \<open>
  Claim C13. Whatever instruction word is executed whose function is modelled, from any state in which the
  fields of the condition register are bits and the byte count of the fixed-point exception register has
  seven bits, the state reached is again of that form: none of these functions writes anything else there,
  whether it returns, branches, throws or traps. The words that are left out are those that decode to one of
  the names of the functions that are not modelled.
\<close>

theorem step_keeps_registers:
  assumes "ppu_wf s"
  shows "case step feed timebase op this_op s of
      None \<Rightarrow> decode op \<in> set other_names | Some (flow, s') \<Rightarrow> ppu_wf s'"
proof -
  have "ppu_wf (snd (f op this_op s))" if "rt_decode feed timebase op = Run f" for f
  proof -
    have l: "ppu_wf (snd (f op this_op s))" if "lookup_ptr feed timebase n = Run f" for n
      using that ptrs_wfD assms(1) unfolding lookup_ptr_def
      by (auto split: option.splits if_splits dest!: map_of_SomeD)
    show ?thesis
      using that assms(1) unfolding rt_decode_def Let_def
      by (auto simp: lift_plain_def intro: l split: if_splits)
  qed
  then show ?thesis using assms rt_other unfolding step_def by (auto simp: split_beta split: target.split)
qed

text \<open>\<open>addi r3, 0, 5\<close> is executed and keeps the form of the registers.\<close>

theorem step_keeps_registers_witness:
  "ppu_wf ppu_default \<and> (\<exists>flow s'. step False 0 0x38600005 0 ppu_default = Some (flow, s') \<and> ppu_wf s')"
proof -
  have wf: "ppu_wf ppu_default" by (simp add: ppu_wf_def ppu_default_def)
  have "GET 0xe ''ADDI'' 0 \<in> set main_entries" by (simp add: main_entries_def)
  from decode_main [OF this, of "0x38600005"] have d: "decode 0x38600005 = ''ADDI''"
    by (simp add: op_field_defs bf_defs mask_eq_exp_minus_1)
  have "''ADDI'' \<in> set ptr_names" by (simp only: table_rules)
  from lookup_run [OF this, of False 0] obtain f where "rt_decode False 0 0x38600005 = Run f"
    by (auto simp: rt_decode_def d d_form_names_def)
  then have "step False 0 0x38600005 0 ppu_default = Some (f 0x38600005 0 ppu_default)" by (simp add: step_def)
  with step_keeps_registers [OF wf, where feed = False and timebase = 0 and op = "0x38600005" and this_op = 0] wf show ?thesis
    by (cases "f 0x38600005 0 ppu_default") simp
qed

end
