(* ===== verification/Cell_Sync.thy ===== *)
theory Cell_Sync
  imports Prelude
begin

text \<open>
  What the objects of \<^verbatim>\<open>ps3fw/cellSync.cpp\<close> share: the error codes of \<^verbatim>\<open>cellSync.h\<close>, the checks of
  guest pointers, and the outcome of a stretch of a call. The objects live in guest memory, and every
  access to their control words is one atomic operation; a call is modelled as the sequence of its
  atomic operations, and the byte copies between them, which other threads can interleave with.
\<close>

abbreviation (input) CELL_SYNC_ERROR_INVAL :: error_code where "CELL_SYNC_ERROR_INVAL \<equiv> 0x80410102"
abbreviation (input) CELL_SYNC_ERROR_BUSY :: error_code where "CELL_SYNC_ERROR_BUSY \<equiv> 0x8041010A"
abbreviation (input) CELL_SYNC_ERROR_ABORT :: error_code where "CELL_SYNC_ERROR_ABORT \<equiv> 0x8041010C"
abbreviation (input) CELL_SYNC_ERROR_ALIGN :: error_code where "CELL_SYNC_ERROR_ALIGN \<equiv> 0x80410110"
abbreviation (input) CELL_SYNC_ERROR_NULL_POINTER :: error_code where "CELL_SYNC_ERROR_NULL_POINTER \<equiv> 0x80410111"

text \<open>
  \<open>Return\<close> carries the result of the call, \<open>Spin\<close> the local variables of the loop the thread is in,
  and \<open>Quit\<close> is the \<^verbatim>\<open>return 0\<close> of a thread that found itself stopped in a loop: its result is not
  looked at, because the thread does not go on.
\<close>

datatype 'l call = Return error_code | Spin 'l | Quit

definition ptr_aligned :: "u32 \<Rightarrow> u32 \<Rightarrow> bool" where
  "ptr_aligned p align = (p AND (align - 1) = 0)"

definition check_ptr :: "u32 \<Rightarrow> u32 \<Rightarrow> error_code option" where
  "check_ptr p align =
     (if p = 0 then Some CELL_SYNC_ERROR_NULL_POINTER
      else if \<not> ptr_aligned p align then Some CELL_SYNC_ERROR_ALIGN else None)"

text \<open>The calls with a data pointer test both pointers for null before the alignment of the object.\<close>

definition check_ptrs :: "u32 \<Rightarrow> u32 \<Rightarrow> u32 \<Rightarrow> error_code option" where
  "check_ptrs p align buffer = (if buffer = 0 then Some CELL_SYNC_ERROR_NULL_POINTER else check_ptr p align)"

lemma check_ptr_None: "check_ptr p align = None \<longleftrightarrow> p \<noteq> 0 \<and> ptr_aligned p align"
  by (simp add: check_ptr_def)

lemma check_ptrs_None: "check_ptrs p align b = None \<longleftrightarrow> b \<noteq> 0 \<and> check_ptr p align = None"
  by (simp add: check_ptrs_def)

end
