(* ===== verification/Cell_Sync_Mutex.thy ===== *)
theory Cell_Sync_Mutex
  imports Cell_Sync
begin

text \<open>
  \<^verbatim>\<open>CellSyncMutex\<close>: a ticket lock on two 16-bit counters. The calls of \<^verbatim>\<open>cellSync.cpp\<close> on it, any number of
  threads below \<open>2 ^ 16\<close> using them, mutual exclusion, and that every thread that asked for the lock
  gets it as long as holders unlock and waiting threads are scheduled.
\<close>

section \<open>The counters and the calls\<close>

record CellSyncMutex =
  rel :: u16
  acq :: u16

definition counter_lock_begin :: "CellSyncMutex \<Rightarrow> u16 \<times> CellSyncMutex" where
  "counter_lock_begin c = (acq c, c\<lparr>acq := acq c + 1\<rparr>)"

definition counter_try_lock :: "CellSyncMutex \<Rightarrow> bool \<times> CellSyncMutex" where
  "counter_try_lock c = (if rel c \<noteq> acq c then (False, c) else (True, c\<lparr>acq := acq c + 1\<rparr>))"

definition counter_unlock :: "CellSyncMutex \<Rightarrow> CellSyncMutex" where
  "counter_unlock c = c\<lparr>rel := rel c + 1\<rparr>"

definition cellSyncMutexInitialize :: "u32 \<Rightarrow> CellSyncMutex \<Rightarrow> error_code \<times> CellSyncMutex" where
  "cellSyncMutexInitialize p c =
     (case check_ptr p 4 of Some e \<Rightarrow> (e, c) | None \<Rightarrow> (CELL_OK, \<lparr>rel = 0, acq = 0\<rparr>))"

text \<open>The lock call up to its loop, and one round of the loop.\<close>

definition cellSyncMutexLock :: "u32 \<Rightarrow> CellSyncMutex \<Rightarrow> u16 call \<times> CellSyncMutex" where
  "cellSyncMutexLock p c =
     (case check_ptr p 4 of
        Some e \<Rightarrow> (Return e, c)
      | None \<Rightarrow> let (order, c') = counter_lock_begin c in (Spin order, c'))"

definition mutex_lock_loop :: "u16 \<Rightarrow> bool \<Rightarrow> CellSyncMutex \<Rightarrow> u16 call" where
  "mutex_lock_loop order stopped c =
     (if rel c \<noteq> order then if stopped then Quit else Spin order else Return CELL_OK)"

definition cellSyncMutexTryLock :: "u32 \<Rightarrow> CellSyncMutex \<Rightarrow> error_code \<times> CellSyncMutex" where
  "cellSyncMutexTryLock p c =
     (case check_ptr p 4 of
        Some e \<Rightarrow> (e, c)
      | None \<Rightarrow> let (ok, c') = counter_try_lock c in (if ok then CELL_OK else CELL_SYNC_ERROR_BUSY, c'))"

definition cellSyncMutexUnlock :: "u32 \<Rightarrow> CellSyncMutex \<Rightarrow> error_code \<times> CellSyncMutex" where
  "cellSyncMutexUnlock p c =
     (case check_ptr p 4 of Some e \<Rightarrow> (e, c) | None \<Rightarrow> (CELL_OK, counter_unlock c))"

section \<open>Threads that use the mutex\<close>

text \<open>
  Where a thread is, with the ticket it took. A thread only unlocks what it locked; a thread that
  quits keeps its ticket and takes no further step.
\<close>

datatype place = Outside | Spinning u16 | Inside u16 | Gone u16

record mutex_sys =
  ctrl :: CellSyncMutex
  at :: "nat \<Rightarrow> place"

definition mutex_sys_init :: mutex_sys where
  "mutex_sys_init = \<lparr>ctrl = \<lparr>rel = 0, acq = 0\<rparr>, at = (\<lambda>_. Outside)\<rparr>"

definition mutex_round :: "nat \<Rightarrow> bool \<Rightarrow> mutex_sys \<Rightarrow> mutex_sys" where
  "mutex_round t stopped s =
     (case at s t of
        Spinning o' \<Rightarrow>
          s\<lparr>at := (at s)(t := case mutex_lock_loop o' stopped (ctrl s) of
                                Return _ \<Rightarrow> Inside o' | Spin o'' \<Rightarrow> Spinning o'' | Quit \<Rightarrow> Gone o')\<rparr>
      | _ \<Rightarrow> s)"

inductive mutex_step :: "u32 \<Rightarrow> nat \<Rightarrow> mutex_sys \<Rightarrow> mutex_sys \<Rightarrow> bool" for p n where
  lock: "t < n \<Longrightarrow> at s t = Outside \<Longrightarrow> cellSyncMutexLock p (ctrl s) = (Spin q, c) \<Longrightarrow>
    mutex_step p n s (s\<lparr>ctrl := c, at := (at s)(t := Spinning q)\<rparr>)"
| round: "t < n \<Longrightarrow> mutex_step p n s (mutex_round t stopped s)"
| try_lock: "t < n \<Longrightarrow> at s t = Outside \<Longrightarrow> cellSyncMutexTryLock p (ctrl s) = (r, c) \<Longrightarrow>
    mutex_step p n s (s\<lparr>ctrl := c, at := (at s)(t := if r = CELL_OK then Inside (acq (ctrl s)) else Outside)\<rparr>)"
| unlock: "t < n \<Longrightarrow> at s t = Inside q \<Longrightarrow> cellSyncMutexUnlock p (ctrl s) = (r, c) \<Longrightarrow>
    mutex_step p n s (s\<lparr>ctrl := c, at := (at s)(t := Outside)\<rparr>)"

text \<open>A thread may also pass its time elsewhere: the relation of a run allows idling.\<close>

inductive mutex_reachable :: "u32 \<Rightarrow> nat \<Rightarrow> mutex_sys \<Rightarrow> bool" for p n where
  start: "mutex_reachable p n mutex_sys_init"
| move: "mutex_reachable p n s \<Longrightarrow> mutex_step p n s s' \<Longrightarrow> mutex_reachable p n s'"

section \<open>Tickets\<close>

fun tick :: "place \<Rightarrow> u16" where
  "tick (Spinning q) = q"
| "tick (Inside q) = q"
| "tick (Gone q) = q"
| "tick Outside = 0"

definition queued :: "mutex_sys \<Rightarrow> nat set" where
  "queued s = {t. at s t \<noteq> Outside}"

text \<open>How many unlocks have to happen before the thread's turn.\<close>

definition ahead :: "mutex_sys \<Rightarrow> nat \<Rightarrow> nat" where
  "ahead s t = unat (tick (at s t) - rel (ctrl s))"

definition mutex_ok :: "nat \<Rightarrow> mutex_sys \<Rightarrow> bool" where
  "mutex_ok n s \<longleftrightarrow> queued s \<subseteq> {..<n} \<and> (\<forall>t q. at s t = Inside q \<longrightarrow> q = rel (ctrl s)) \<and>
     bij_betw (ahead s) (queued s) {..<unat (acq (ctrl s) - rel (ctrl s))}"

lemma mutex_ok_init: "mutex_ok n mutex_sys_init"
  by (simp add: mutex_ok_def mutex_sys_init_def queued_def bij_betw_def)

lemma mutex_ok_card:
  assumes "mutex_ok n s"
  shows "card (queued s) = unat (acq (ctrl s) - rel (ctrl s))" "finite (queued s)"
  using assms bij_betw_same_card [of "ahead s" "queued s"] finite_subset [of "queued s" "{..<n}"]
  by (auto simp: mutex_ok_def)

lemma mutex_ok_enter:
  assumes "mutex_ok n s" and "n < 2 ^ 16" and "t < n" and "at s t = Outside" and "tick w = acq (ctrl s)" and "w \<noteq> Outside"
    and "\<And>q. w = Inside q \<Longrightarrow> q = rel (ctrl s)"
  shows "mutex_ok n (s\<lparr>ctrl := (ctrl s)\<lparr>acq := acq (ctrl s) + 1\<rparr>, at := (at s)(t := w)\<rparr>)"
    (is "mutex_ok n ?s")
proof -
  let ?d = "unat (acq (ctrl s) - rel (ctrl s))"
  have sub: "queued s \<subseteq> {..<n} - {t}" using assms(1,4) by (auto simp: mutex_ok_def queued_def)
  have d: "Suc ?d < 2 ^ 16"
    using card_mono [OF _ sub] mutex_ok_card(1) [OF assms(1)] assms(2,3) by simp
  have "unat (acq (ctrl s) - rel (ctrl s) + 1) = Suc ?d"
    using d by (simp add: unat_word_ariths)
  then have suc: "unat (acq (ctrl s) + 1 - rel (ctrl s)) = Suc ?d" by (simp add: algebra_simps)
  have "bij_betw (ahead ?s) (insert t (queued s)) (insert ?d {..<?d})"
  proof -
    have "bij_betw (ahead ?s) {t} {?d}" using assms(5) by (simp add: ahead_def)
    moreover have "ahead ?s u = ahead s u" if "u \<in> queued s" for u using that assms(4) by (auto simp: ahead_def queued_def)
    then have "bij_betw (ahead ?s) (queued s) {..<?d}"
      using assms(1) bij_betw_cong [of "queued s" "ahead ?s" "ahead s"] by (simp add: mutex_ok_def)
    ultimately show ?thesis using bij_betw_combine [of "ahead ?s" "{t}" "{?d}" "queued s" "{..<?d}"] by simp
  qed
  moreover have "queued ?s = insert t (queued s)" using assms(6) by (auto simp: queued_def)
  ultimately show ?thesis
    using assms(1,3,7) suc by (auto simp: mutex_ok_def lessThan_Suc)
qed

lemma mutex_ok_place:
  assumes "mutex_ok n s" and "at s t \<noteq> Outside" and "w \<noteq> Outside" and "tick w = tick (at s t)"
    and "\<And>q. w = Inside q \<Longrightarrow> q = rel (ctrl s)"
  shows "mutex_ok n (s\<lparr>at := (at s)(t := w)\<rparr>)" (is "mutex_ok n ?s")
proof -
  have "queued ?s = queued s" "ahead ?s = ahead s" using assms(2-4) by (auto simp: queued_def ahead_def fun_eq_iff)
  then show ?thesis using assms(1,5) by (auto simp: mutex_ok_def)
qed

lemma mutex_ok_leave:
  assumes "mutex_ok n s" and "at s t = Inside q"
  shows "mutex_ok n (s\<lparr>ctrl := counter_unlock (ctrl s), at := (at s)(t := Outside)\<rparr>)" (is "mutex_ok n ?s")
proof -
  let ?d = "unat (acq (ctrl s) - rel (ctrl s))"
  have bij: "bij_betw (ahead s) (queued s) {..<?d}" and q: "q = rel (ctrl s)" and t: "t \<in> queued s"
    using assms by (auto simp: mutex_ok_def queued_def)
  have zero: "ahead s t = 0" using assms(2) q by (simp add: ahead_def)
  have front: "u = t" if "u \<in> queued s" "ahead s u = 0" for u
    using inj_onD [OF bij_betw_imp_inj_on [OF bij], of u t] that t zero by simp
  have pred: "unat (x - (rel (ctrl s) + 1)) = unat (x - rel (ctrl s)) - 1" if "x \<noteq> rel (ctrl s)" for x
    using that unat_minus_one [of "x - rel (ctrl s)"] by (simp add: diff_diff_eq)
  have other: "ahead s u = Suc (ahead ?s u)" if "u \<in> queued s - {t}" for u
  proof -
    have "tick (at s u) \<noteq> rel (ctrl s)" using front [of u] that by (auto simp: ahead_def)
    then show ?thesis using that pred [of "tick (at s u)"] by (auto simp: ahead_def counter_unlock_def unat_gt_0)
  qed
  have "?d \<noteq> 0" using bij t zero by (auto simp: bij_betw_def)
  then have d: "unat (acq (ctrl ?s) - rel (ctrl ?s)) = ?d - 1"
    using pred [of "acq (ctrl s)"] by (cases "acq (ctrl s) = rel (ctrl s)") (simp_all add: counter_unlock_def)
  have inj: "inj_on (ahead ?s) (queued s - {t})"
  proof (rule inj_onI)
    fix u v assume "u \<in> queued s - {t}" "v \<in> queued s - {t}" "ahead ?s u = ahead ?s v"
    then show "u = v" using other [of u] other [of v] inj_onD [OF bij_betw_imp_inj_on [OF bij], of u v] by simp
  qed
  have "Suc ` ahead ?s ` (queued s - {t}) = ahead s ` (queued s - {t})"
    unfolding image_image using other by (intro image_cong) auto
  also have "\<dots> = {..<?d} - {0}"
    using inj_on_image_set_diff [OF bij_betw_imp_inj_on [OF bij], of "queued s" "{t}"] bij t zero by (simp add: bij_betw_def)
  also have "\<dots> = Suc ` {..<?d - 1}"
    using \<open>?d \<noteq> 0\<close> lessThan_Suc_eq_insert_0 [of "?d - 1"] by auto
  finally have "bij_betw (ahead ?s) (queued s - {t}) {..<?d - 1}"
    using inj by (simp add: bij_betw_def inj_image_eq_iff)
  moreover have "queued ?s = queued s - {t}" by (auto simp: queued_def)
  moreover have "at ?s u = Inside r \<longrightarrow> r = rel (ctrl ?s)" for u r
  proof
    assume "at ?s u = Inside r"
    then have u: "u \<noteq> t" "at s u = Inside r" by (auto split: if_splits)
    then have "r = rel (ctrl s)" using assms(1) by (simp add: mutex_ok_def)
    then show "r = rel (ctrl ?s)" using u front [of u] by (simp add: ahead_def queued_def)
  qed
  ultimately show ?thesis using assms(1) d by (auto simp: mutex_ok_def)
qed

lemma lock_loop_cases:
  "mutex_lock_loop q stopped c = (if rel c = q then Return CELL_OK else if stopped then Quit else Spin q)"
  by (simp add: mutex_lock_loop_def)

lemma mutex_ok_round:
  assumes "mutex_ok n s"
  shows "mutex_ok n (mutex_round t stopped s)"
proof (cases "at s t")
  case (Spinning q)
  then show ?thesis
    using mutex_ok_place [OF assms, of t "Inside q"] mutex_ok_place [OF assms, of t "Gone q"]
      mutex_ok_place [OF assms, of t "Spinning q"]
    by (auto simp: mutex_round_def lock_loop_cases)
qed (use assms in \<open>simp_all add: mutex_round_def\<close>)

lemma mutex_ok_step:
  assumes "mutex_step p n s s'" and "n < 2 ^ 16" and "mutex_ok n s" and "check_ptr p 4 = None"
  shows "mutex_ok n s'"
  using assms(1)
proof cases
  case (lock t q c)
  then show ?thesis
    using mutex_ok_enter [OF assms(3,2), of t "Spinning q"] assms(4)
    by (auto simp: cellSyncMutexLock_def counter_lock_begin_def)
next
  case (try_lock t r c)
  then show ?thesis
    using mutex_ok_enter [OF assms(3,2), of t "Inside (acq (ctrl s))"] assms(3,4)
    by (auto simp: cellSyncMutexTryLock_def counter_try_lock_def fun_upd_idem split: if_splits)
next
  case (unlock t q r c)
  then show ?thesis
    using mutex_ok_leave [OF assms(3)] assms(4) by (auto simp: cellSyncMutexUnlock_def)
qed (use mutex_ok_round [OF assms(3)] in auto)

text \<open>
  Claim C25. The ticket lock excludes. Whatever calls fewer than \<open>2 ^ 16\<close> threads make in whatever order,
  trying and blocking locks mixed and the 16-bit counters wrapping round any number of times, at most
  one thread is inside; it is the one whose ticket the release counter shows, the threads waiting
  have pairwise different tickets, and a try-lock succeeds exactly when nobody holds a ticket.
\<close>

theorem sync_mutex_exclusion:
  assumes "mutex_reachable p n s" and "n < 2 ^ 16" and "check_ptr p 4 = None"
  shows "(\<forall>t u q r. at s t = Inside q \<and> at s u = Inside r \<longrightarrow> t = u \<and> q = rel (ctrl s)) \<and>
    (\<forall>t u. at s t \<noteq> Outside \<and> at s u \<noteq> Outside \<and> tick (at s t) = tick (at s u) \<longrightarrow> t = u) \<and>
    (fst (cellSyncMutexTryLock p (ctrl s)) = CELL_OK \<longleftrightarrow> (\<forall>t. at s t = Outside))"
proof -
  have ok: "mutex_ok n s" using assms(1)
    by induction (use mutex_ok_init mutex_ok_step assms(2,3) in blast)+
  have tickets: "t = u" if "at s t \<noteq> Outside" "at s u \<noteq> Outside" "tick (at s t) = tick (at s u)" for t u
    using ok that inj_onD [of "ahead s" "queued s" t u] by (auto simp: mutex_ok_def queued_def ahead_def bij_betw_def)
  have "t = u \<and> q = rel (ctrl s)" if "at s t = Inside q" "at s u = Inside r" for t u q r
  proof -
    have "q = rel (ctrl s)" "r = rel (ctrl s)" using ok that unfolding mutex_ok_def by blast+
    then show ?thesis using tickets [of t u] that by simp
  qed
  moreover have "rel (ctrl s) = acq (ctrl s) \<longleftrightarrow> queued s = {}"
  proof -
    have "queued s = {} \<longleftrightarrow> unat (acq (ctrl s) - rel (ctrl s)) = 0"
      using mutex_ok_card [OF ok] card_0_eq by metis
    then show ?thesis unfolding unat_eq_zero right_minus_eq by metis
  qed
  moreover have "fst (cellSyncMutexTryLock p (ctrl s)) = CELL_OK \<longleftrightarrow> rel (ctrl s) = acq (ctrl s)"
    using assms(3) by (simp add: cellSyncMutexTryLock_def counter_try_lock_def)
  ultimately show ?thesis using tickets unfolding queued_def by blast
qed

theorem sync_mutex_exclusion_witness:
  "\<exists>s. mutex_reachable 4 2 s \<and> at s 0 = Inside 0 \<and> at s 1 = Spinning 1 \<and>
     fst (cellSyncMutexTryLock 4 (ctrl s)) \<noteq> CELL_OK"
proof -
  have p: "check_ptr 4 4 = None" by (simp add: check_ptr_def ptr_aligned_def)
  let ?s1 = "\<lparr>ctrl = \<lparr>rel = 0, acq = 1\<rparr>, at = (\<lambda>_. Outside)(0 := Inside 0)\<rparr>"
  let ?s2 = "\<lparr>ctrl = \<lparr>rel = 0, acq = 2\<rparr>, at = (\<lambda>_. Outside)(0 := Inside 0, 1 := Spinning 1)\<rparr>"
  have "cellSyncMutexTryLock 4 (ctrl mutex_sys_init) = (CELL_OK, \<lparr>rel = 0, acq = 1\<rparr>)"
    using p by (simp add: mutex_sys_init_def cellSyncMutexTryLock_def counter_try_lock_def)
  from mutex_step.try_lock [OF _ _ this, of 0 2] have "mutex_step 4 2 mutex_sys_init ?s1"
    by (simp add: mutex_sys_init_def)
  moreover have "cellSyncMutexLock 4 (ctrl ?s1) = (Spin 1, \<lparr>rel = 0, acq = 2\<rparr>)"
    using p by (simp add: cellSyncMutexLock_def counter_lock_begin_def)
  from mutex_step.lock [OF _ _ this, of 1 2] have "mutex_step 4 2 ?s1 ?s2" by simp
  ultimately have "mutex_reachable 4 2 ?s2" by (blast intro: mutex_reachable.intros)
  note r = this
  have "fst (cellSyncMutexTryLock 4 (ctrl ?s2)) \<noteq> CELL_OK"
  proof
    assume "fst (cellSyncMutexTryLock 4 (ctrl ?s2)) = CELL_OK"
    moreover have "(2::nat) < 2 ^ 16" by simp
    ultimately have "\<forall>t. at ?s2 t = Outside" using sync_mutex_exclusion [OF r _ p] by blast
    from spec [OF this, of 0] show False by simp
  qed
  with r show ?thesis by (intro exI [of _ ?s2]) simp
qed

section \<open>Every waiting thread gets the lock\<close>

text \<open>
  A run in which no thread is stopped, every holder unlocks at some time, and every thread is given
  the processor again and again, so that a waiting one makes another round of its loop.
\<close>

definition mutex_run :: "u32 \<Rightarrow> nat \<Rightarrow> (nat \<Rightarrow> mutex_sys) \<Rightarrow> bool" where
  "mutex_run p n \<sigma> \<longleftrightarrow> mutex_reachable p n (\<sigma> 0) \<and> (\<forall>i. \<sigma> (Suc i) = \<sigma> i \<or> mutex_step p n (\<sigma> i) (\<sigma> (Suc i))) \<and>
     (\<forall>i t q. at (\<sigma> i) t \<noteq> Gone q)"

definition scheduled_again :: "nat \<Rightarrow> (nat \<Rightarrow> mutex_sys) \<Rightarrow> bool" where
  "scheduled_again n \<sigma> \<longleftrightarrow> (\<forall>t < n. \<forall>i. \<exists>j \<ge> i. \<sigma> (Suc j) = mutex_round t False (\<sigma> j))"

definition holders_unlock :: "(nat \<Rightarrow> mutex_sys) \<Rightarrow> bool" where
  "holders_unlock \<sigma> \<longleftrightarrow> (\<forall>i t q. at (\<sigma> i) t = Inside q \<longrightarrow> (\<exists>j > i. at (\<sigma> j) t = Outside))"

lemma mutex_run_ok:
  assumes "mutex_run p n \<sigma>" and "n < 2 ^ 16" and "check_ptr p 4 = None"
  shows "mutex_ok n (\<sigma> i)"
proof (induction i)
  case 0
  have "mutex_reachable p n s \<Longrightarrow> mutex_ok n s" for s
    by (induction rule: mutex_reachable.induct) (use mutex_ok_init mutex_ok_step assms(2,3) in blast)+
  then show ?case using assms(1) by (simp add: mutex_run_def)
next
  case (Suc i)
  then show ?case using assms mutex_ok_step unfolding mutex_run_def by metis
qed

text \<open>One step seen from a thread that waits: it goes on waiting, no farther from its turn, or enters.\<close>

lemma ahead_unlock:
  assumes "mutex_ok n s" and "at s u = Inside r" and "at s t = Spinning q"
  shows "unat (q - (rel (ctrl s) + 1)) < unat (q - rel (ctrl s))"
proof -
  have "r = rel (ctrl s)" using assms by (simp add: mutex_ok_def)
  moreover have "inj_on (ahead s) (queued s)" using assms(1) by (simp add: mutex_ok_def bij_betw_def)
  ultimately have "q \<noteq> rel (ctrl s)"
    using inj_onD [of "ahead s" "queued s" t u] assms(2,3) by (auto simp: ahead_def queued_def)
  then show ?thesis using unat_minus_one [of "q - rel (ctrl s)"] by (simp add: diff_diff_eq unat_gt_0)
qed

lemma waiting_step:
  assumes "mutex_step p n s s'" and "mutex_ok n s" and "check_ptr p 4 = None" and "at s t = Spinning q" and "\<And>q. at s' t \<noteq> Gone q"
  shows "at s' t = Inside q \<or>
    at s' t = Spinning q \<and> (rel (ctrl s') = rel (ctrl s) \<or> unat (q - rel (ctrl s')) < unat (q - rel (ctrl s)))"
  using assms(1)
proof cases
  case (unlock u r e c)
  then show ?thesis
    using ahead_unlock [OF assms(2) unlock(3) assms(4)] assms(3,4)
    by (auto simp: cellSyncMutexUnlock_def counter_unlock_def)
next
  case (round u stopped)
  then show ?thesis using assms(4) assms(5) [of q]
    by (cases "at s u") (auto simp: mutex_round_def lock_loop_cases split: if_splits)
qed (use assms(3,4) in \<open>auto simp: cellSyncMutexLock_def cellSyncMutexTryLock_def counter_lock_begin_def
  counter_try_lock_def split: if_splits\<close>)

lemma waiting_persists:
  assumes run: "mutex_run p n \<sigma>" "n < 2 ^ 16" "check_ptr p 4 = None" and "i \<le> j" and "at (\<sigma> i) t = Spinning q"
    and "\<And>k. i \<le> k \<Longrightarrow> k \<le> j \<Longrightarrow> at (\<sigma> k) t \<noteq> Inside q"
  shows "at (\<sigma> j) t = Spinning q \<and>
    (rel (ctrl (\<sigma> j)) = rel (ctrl (\<sigma> i)) \<or> unat (q - rel (ctrl (\<sigma> j))) < unat (q - rel (ctrl (\<sigma> i))))"
  using assms(4-6)
proof (induction j rule: dec_induct)
  case base
  then show ?case by simp
next
  case (step j)
  then have ih: "at (\<sigma> j) t = Spinning q"
    "rel (ctrl (\<sigma> j)) = rel (ctrl (\<sigma> i)) \<or> unat (q - rel (ctrl (\<sigma> j))) < unat (q - rel (ctrl (\<sigma> i)))" by auto
  have "at (\<sigma> (Suc j)) t \<noteq> Inside q" using step by simp
  have gone: "at (\<sigma> (Suc j)) t \<noteq> Gone r" for r using run(1) by (simp add: mutex_run_def)
  consider "\<sigma> (Suc j) = \<sigma> j" | "mutex_step p n (\<sigma> j) (\<sigma> (Suc j))" using run(1) by (auto simp: mutex_run_def)
  then show ?case
  proof cases
    case 1
    then show ?thesis using ih by simp
  next
    case 2
    from waiting_step [OF this mutex_run_ok [OF run] run(3) ih(1) gone] \<open>at (\<sigma> (Suc j)) t \<noteq> Inside q\<close>
    show ?thesis using ih(2) by auto
  qed
qed

lemma front_enters:
  assumes run: "mutex_run p n \<sigma>" "n < 2 ^ 16" "check_ptr p 4 = None" and "scheduled_again n \<sigma>"
    and "at (\<sigma> i) t = Spinning (rel (ctrl (\<sigma> i)))"
  shows "\<exists>j \<ge> i. at (\<sigma> j) t = Inside (rel (ctrl (\<sigma> i)))"
proof (rule ccontr)
  assume no: "\<not> ?thesis"
  have "t \<in> queued (\<sigma> i)" using assms(5) by (simp add: queued_def)
  then have "t < n" using mutex_run_ok [OF run, of i] by (auto simp: mutex_ok_def)
  then obtain j where j: "i \<le> j" "\<sigma> (Suc j) = mutex_round t False (\<sigma> j)"
    using assms(4) by (auto simp: scheduled_again_def)
  have "at (\<sigma> j) t = Spinning (rel (ctrl (\<sigma> i))) \<and> rel (ctrl (\<sigma> j)) = rel (ctrl (\<sigma> i))"
    using waiting_persists [OF run j(1) assms(5)] no by auto
  then have "at (\<sigma> (Suc j)) t = Inside (rel (ctrl (\<sigma> i)))"
    using j(2) by (simp add: mutex_round_def lock_loop_cases)
  then show False using no j(1) le_SucI by blast
qed

text \<open>The release counter moves before a thread that is inside can be outside.\<close>

lemma inside_step:
  assumes "mutex_step p n s s'" and "mutex_ok n s" and "check_ptr p 4 = None" and "at s t = Inside q"
  shows "at s' t = Inside q \<and> rel (ctrl s') = rel (ctrl s) \<or> rel (ctrl s') = rel (ctrl s) + 1"
  using assms(1)
proof cases
  case (round u stopped)
  then show ?thesis using assms(4)
    by (cases "at s u") (auto simp: mutex_round_def lock_loop_cases split: if_splits)
qed (use assms(3,4) in \<open>auto simp: cellSyncMutexLock_def cellSyncMutexTryLock_def cellSyncMutexUnlock_def
  counter_lock_begin_def counter_try_lock_def counter_unlock_def split: if_splits\<close>)

lemma inside_releases:
  assumes run: "mutex_run p n \<sigma>" "n < 2 ^ 16" "check_ptr p 4 = None" and "holders_unlock \<sigma>"
    and "at (\<sigma> i) t = Inside q"
  shows "\<exists>j \<ge> i. rel (ctrl (\<sigma> j)) = rel (ctrl (\<sigma> i)) + 1"
proof (rule ccontr)
  assume no: "\<not> ?thesis"
  obtain j where j: "i < j" "at (\<sigma> j) t = Outside" using assms(4,5) by (auto simp: holders_unlock_def)
  from less_imp_le [OF j(1)] have "at (\<sigma> j) t = Inside q \<and> rel (ctrl (\<sigma> j)) = rel (ctrl (\<sigma> i))"
  proof (induction j rule: dec_induct)
    case base
    show ?case using assms(5) by simp
  next
    case (step k)
    have "rel (ctrl (\<sigma> (Suc k))) \<noteq> rel (ctrl (\<sigma> i)) + 1" using no step(1) le_SucI by blast
    moreover have "\<sigma> (Suc k) = \<sigma> k \<or> mutex_step p n (\<sigma> k) (\<sigma> (Suc k))" using run(1) by (simp add: mutex_run_def)
    ultimately show ?case
      using inside_step [OF _ mutex_run_ok [OF run, of k] run(3), of "\<sigma> (Suc k)" t q] step(3) by auto
  qed
  then show False using j(2) by simp
qed

lemma mutex_ok_front:
  assumes "mutex_ok n s" and "at s t = Spinning q"
  obtains u where "u \<in> queued s" "tick (at s u) = rel (ctrl s)"
proof -
  have "ahead s t \<in> {..<unat (acq (ctrl s) - rel (ctrl s))}"
    using assms by (auto simp: mutex_ok_def bij_betw_def queued_def)
  then have "0 \<in> ahead s ` queued s" using assms(1) by (auto simp: mutex_ok_def bij_betw_def)
  then obtain u where "u \<in> queued s" "unat (tick (at s u) - rel (ctrl s)) = 0" by (auto simp: ahead_def)
  then show thesis using that unfolding unat_eq_zero right_minus_eq by blast
qed

lemma turn_comes_closer:
  assumes run: "mutex_run p n \<sigma>" "n < 2 ^ 16" "check_ptr p 4 = None" and fair: "scheduled_again n \<sigma>" "holders_unlock \<sigma>"
    and "at (\<sigma> i) t = Spinning q"
  shows "\<exists>j \<ge> i. rel (ctrl (\<sigma> j)) \<noteq> rel (ctrl (\<sigma> i))"
proof -
  obtain u where u: "u \<in> queued (\<sigma> i)" "tick (at (\<sigma> i) u) = rel (ctrl (\<sigma> i))"
    using mutex_ok_front [OF mutex_run_ok [OF run] assms(6)] .
  obtain j r where j: "i \<le> j" "at (\<sigma> j) u = Inside r"
  proof (cases "at (\<sigma> i) u")
    case (Spinning r)
    then show ?thesis using front_enters [OF run fair(1), of i u] u that by auto
  qed (use u that run(1) in \<open>auto simp: queued_def mutex_run_def\<close>)
  obtain k where "j \<le> k" "rel (ctrl (\<sigma> k)) = rel (ctrl (\<sigma> j)) + 1" using inside_releases [OF run fair(2) j(2)] by blast
  then have "rel (ctrl (\<sigma> k)) \<noteq> rel (ctrl (\<sigma> j))" "i \<le> k" using j(1) by simp_all
  then show ?thesis using j(1) by metis
qed

text \<open>
  Claim C6. Nobody starves on the ticket lock. In every infinite run of fewer than \<open>2 ^ 16\<close> threads in which
  no thread is stopped, every thread is scheduled again and again and every holder unlocks at some
  time, every thread that waits for the lock gets it.
\<close>

theorem sync_mutex_no_starvation:
  assumes "mutex_run p n \<sigma>" and "n < 2 ^ 16" and "check_ptr p 4 = None"
    and "scheduled_again n \<sigma>" and "holders_unlock \<sigma>" and "at (\<sigma> i) t = Spinning q"
  shows "\<exists>j \<ge> i. at (\<sigma> j) t = Inside q"
  using assms(6)
proof (induction "unat (q - rel (ctrl (\<sigma> i)))" arbitrary: i rule: less_induct)
  case less
  obtain j where j: "i \<le> j" "rel (ctrl (\<sigma> j)) \<noteq> rel (ctrl (\<sigma> i))"
    using turn_comes_closer [OF assms(1-5) less.prems] by blast
  show ?case
  proof (cases "\<exists>k \<ge> i. at (\<sigma> k) t = Inside q")
    case False
    then have "at (\<sigma> j) t = Spinning q" "unat (q - rel (ctrl (\<sigma> j))) < unat (q - rel (ctrl (\<sigma> i)))"
      using waiting_persists [OF assms(1-3) j(1) less.prems] j(2) by auto
    from less.hyps [OF this(2,1)] show ?thesis using j(1) le_trans by blast
  qed
qed

theorem sync_mutex_no_starvation_witness:
  "\<exists>\<sigma>. mutex_run 4 1 \<sigma> \<and> at (\<sigma> 1) 0 = Spinning 0 \<and> (\<exists>j \<ge> 1. at (\<sigma> j) 0 = Inside 0)"
proof -
  have p: "check_ptr 4 4 = None" by (simp add: check_ptr_def ptr_aligned_def)
  define \<sigma> :: "nat \<Rightarrow> mutex_sys" where
    "\<sigma> i = (if i = 0 then mutex_sys_init
            else if i = 1 then \<lparr>ctrl = \<lparr>rel = 0, acq = 1\<rparr>, at = (\<lambda>_. Outside)(0 := Spinning 0)\<rparr>
            else if i = 2 then \<lparr>ctrl = \<lparr>rel = 0, acq = 1\<rparr>, at = (\<lambda>_. Outside)(0 := Inside 0)\<rparr>
            else \<lparr>ctrl = \<lparr>rel = 1, acq = 1\<rparr>, at = (\<lambda>_. Outside)\<rparr>)" for i
  have \<sigma>: "\<sigma> 0 = mutex_sys_init" "\<sigma> (Suc 0) = \<lparr>ctrl = \<lparr>rel = 0, acq = 1\<rparr>, at = (\<lambda>_. Outside)(0 := Spinning 0)\<rparr>"
    "\<sigma> 2 = \<lparr>ctrl = \<lparr>rel = 0, acq = 1\<rparr>, at = (\<lambda>_. Outside)(0 := Inside 0)\<rparr>"
    "i > 2 \<Longrightarrow> \<sigma> i = \<lparr>ctrl = \<lparr>rel = 1, acq = 1\<rparr>, at = (\<lambda>_. Outside)\<rparr>" for i
    by (simp_all add: \<sigma>_def)
  have l: "cellSyncMutexLock 4 (ctrl mutex_sys_init) = (Spin 0, \<lparr>rel = 0, acq = 1\<rparr>)"
    and e: "cellSyncMutexUnlock 4 \<lparr>rel = 0, acq = 1\<rparr> = (CELL_OK, \<lparr>rel = 1, acq = 1\<rparr>)"
    using p by (simp_all add: mutex_sys_init_def cellSyncMutexLock_def counter_lock_begin_def
      cellSyncMutexUnlock_def counter_unlock_def)
  have s0: "mutex_step 4 1 (\<sigma> 0) (\<sigma> (Suc 0))"
    using mutex_step.lock [OF _ _ l, of 0 1] by (simp add: \<sigma> mutex_sys_init_def)
  have r1: "\<sigma> 2 = mutex_round 0 False (\<sigma> (Suc 0))"
    by (simp add: \<sigma> mutex_round_def lock_loop_cases)
  have s2: "mutex_step 4 1 (\<sigma> 2) (\<sigma> 3)"
    using mutex_step.unlock [of 0 1 "\<sigma> 2" 0 4] e by (simp add: \<sigma> fun_upd_idem)
  have step: "\<sigma> (Suc i) = \<sigma> i \<or> mutex_step 4 1 (\<sigma> i) (\<sigma> (Suc i))" for i
  proof -
    consider "i = 0" | "i = 1" | "i = 2" | "i > 2" by linarith
    then show ?thesis
      by cases (use s0 s2 r1 mutex_step.round [of 0 1 4 "\<sigma> 1" False] in \<open>simp_all add: \<sigma>(4) numeral_3_eq_3 numeral_2_eq_2\<close>)
  qed
  have gone: "at (\<sigma> i) t \<noteq> Gone q" for i t q by (simp add: \<sigma>_def mutex_sys_init_def)
  have run: "mutex_run 4 1 \<sigma>"
    unfolding mutex_run_def using step gone \<sigma>(1) mutex_reachable.start by metis
  have "scheduled_again 1 \<sigma>"
    unfolding scheduled_again_def
  proof (intro allI impI)
    fix t i :: nat assume "t < 1"
    have "\<sigma> (Suc (i + 3)) = mutex_round t False (\<sigma> (i + 3))" by (simp add: \<sigma>(4) mutex_round_def)
    then show "\<exists>j \<ge> i. \<sigma> (Suc j) = mutex_round t False (\<sigma> j)" by (intro exI [of _ "i + 3"]) simp
  qed
  moreover have "holders_unlock \<sigma>"
    unfolding holders_unlock_def
  proof (intro allI impI)
    fix i t :: nat and q
    show "\<exists>j > i. at (\<sigma> j) t = Outside" by (intro exI [of _ "i + 3"]) (simp add: \<sigma>(4))
  qed
  ultimately have "\<exists>j \<ge> 1. at (\<sigma> j) 0 = Inside 0"
    using sync_mutex_no_starvation [OF run _ p, of 1 0 0] by (simp add: \<sigma>_def)
  then show ?thesis using run by (intro exI [of _ \<sigma>]) (simp add: \<sigma>_def)
qed

end
