(* ===== verification/Cell_Sync_Barrier.thy ===== *)
theory Cell_Sync_Barrier
  imports Cell_Sync
begin

text \<open>
  \<^verbatim>\<open>CellSyncBarrier\<close>: a counter whose sign bit tells the notifying phase of a round from the waiting
  phase. The calls of \<^verbatim>\<open>cellSync.cpp\<close> on it, and the rounds that any interleaving of them makes.
\<close>

section \<open>The counter and the calls\<close>

text \<open>\<^verbatim>\<open>value\<close> is signed; its 16 bits are kept as a word and read with \<^const>\<open>sint\<close> where it is compared.\<close>

record CellSyncBarrier =
  bar_value :: u16
  bar_count :: u16

definition barrier_try_notify :: "CellSyncBarrier \<Rightarrow> bool \<times> CellSyncBarrier" where
  "barrier_try_notify c =
     (if bar_value c AND 0x8000 \<noteq> 0 then (False, c)
      else let v = bar_value c + 1
           in (True, c\<lparr>bar_value := if sint v = uint (bar_count c) then v OR 0x8000 else v\<rparr>))"

definition barrier_try_wait :: "CellSyncBarrier \<Rightarrow> bool \<times> CellSyncBarrier" where
  "barrier_try_wait c =
     (if bar_value c AND 0x8000 = 0 then (False, c)
      else let v = bar_value c - 1 in (True, c\<lparr>bar_value := if sint v = - 0x8000 then 0 else v\<rparr>))"

definition cellSyncBarrierInitialize :: "u32 \<Rightarrow> u16 \<Rightarrow> CellSyncBarrier \<Rightarrow> error_code \<times> CellSyncBarrier" where
  "cellSyncBarrierInitialize p total_count c =
     (case check_ptr p 4 of
        Some e \<Rightarrow> (e, c)
      | None \<Rightarrow> if total_count = 0 \<or> total_count > 32767 then (CELL_SYNC_ERROR_INVAL, c)
                else (CELL_OK, \<lparr>bar_value = 0, bar_count = total_count\<rparr>))"

text \<open>The blocking calls check the pointer and loop; the others make one attempt.\<close>

definition barrier_loop ::
  "(CellSyncBarrier \<Rightarrow> bool \<times> CellSyncBarrier) \<Rightarrow> u32 \<Rightarrow> bool \<Rightarrow> CellSyncBarrier \<Rightarrow> unit call \<times> CellSyncBarrier" where
  "barrier_loop op p stopped c =
     (case check_ptr p 4 of
        Some e \<Rightarrow> (Return e, c)
      | None \<Rightarrow> let (ok, c') = op c in (if ok then Return CELL_OK else if stopped then Quit else Spin (), c'))"

definition barrier_once ::
  "(CellSyncBarrier \<Rightarrow> bool \<times> CellSyncBarrier) \<Rightarrow> u32 \<Rightarrow> CellSyncBarrier \<Rightarrow> error_code \<times> CellSyncBarrier" where
  "barrier_once op p c =
     (case check_ptr p 4 of
        Some e \<Rightarrow> (e, c)
      | None \<Rightarrow> let (ok, c') = op c in (if ok then CELL_OK else CELL_SYNC_ERROR_BUSY, c'))"

definition cellSyncBarrierNotify :: "u32 \<Rightarrow> bool \<Rightarrow> CellSyncBarrier \<Rightarrow> unit call \<times> CellSyncBarrier" where
  "cellSyncBarrierNotify = barrier_loop barrier_try_notify"

definition cellSyncBarrierTryNotify :: "u32 \<Rightarrow> CellSyncBarrier \<Rightarrow> error_code \<times> CellSyncBarrier" where
  "cellSyncBarrierTryNotify = barrier_once barrier_try_notify"

definition cellSyncBarrierWait :: "u32 \<Rightarrow> bool \<Rightarrow> CellSyncBarrier \<Rightarrow> unit call \<times> CellSyncBarrier" where
  "cellSyncBarrierWait = barrier_loop barrier_try_wait"

definition cellSyncBarrierTryWait :: "u32 \<Rightarrow> CellSyncBarrier \<Rightarrow> error_code \<times> CellSyncBarrier" where
  "cellSyncBarrierTryWait = barrier_once barrier_try_wait"

section \<open>Rounds\<close>

text \<open>
  The barrier with the number of notifications and of waits that have succeeded since it was
  initialised. A step is one attempt of any of the four calls by any thread.
\<close>

record barrier_sys =
  bar :: CellSyncBarrier
  notified :: nat
  waited :: nat

inductive barrier_step :: "u32 \<Rightarrow> barrier_sys \<Rightarrow> barrier_sys \<Rightarrow> bool" for p where
  notify: "cellSyncBarrierNotify p stopped (bar s) = (r, c) \<Longrightarrow>
    barrier_step p s (s\<lparr>bar := c, notified := notified s + of_bool (r = Return CELL_OK)\<rparr>)"
| try_notify: "cellSyncBarrierTryNotify p (bar s) = (e, c) \<Longrightarrow>
    barrier_step p s (s\<lparr>bar := c, notified := notified s + of_bool (e = CELL_OK)\<rparr>)"
| wait: "cellSyncBarrierWait p stopped (bar s) = (r, c) \<Longrightarrow>
    barrier_step p s (s\<lparr>bar := c, waited := waited s + of_bool (r = Return CELL_OK)\<rparr>)"
| try_wait: "cellSyncBarrierTryWait p (bar s) = (e, c) \<Longrightarrow>
    barrier_step p s (s\<lparr>bar := c, waited := waited s + of_bool (e = CELL_OK)\<rparr>)"

inductive barrier_reachable :: "u32 \<Rightarrow> u16 \<Rightarrow> barrier_sys \<Rightarrow> bool" for p parties where
  start: "cellSyncBarrierInitialize p parties c = (CELL_OK, c') \<Longrightarrow>
    barrier_reachable p parties \<lparr>bar = c', notified = 0, waited = 0\<rparr>"
| move: "barrier_reachable p parties s \<Longrightarrow> barrier_step p s s' \<Longrightarrow> barrier_reachable p parties s'"

text \<open>What the value stands for, with \<open>r\<close> full rounds behind.\<close>

inductive barrier_ok :: "nat \<Rightarrow> barrier_sys \<Rightarrow> bool" for n where
  notifying: "unat (bar_count (bar s)) = n \<Longrightarrow> unat (bar_value (bar s)) = k \<Longrightarrow> k < n \<Longrightarrow>
    notified s = r * n + k \<Longrightarrow> waited s = r * n \<Longrightarrow> barrier_ok n s"
| waiting: "unat (bar_count (bar s)) = n \<Longrightarrow> unat (bar_value (bar s)) = 0x8000 + k \<Longrightarrow> 0 < k \<Longrightarrow> k \<le> n \<Longrightarrow>
    notified s = r * n + n \<Longrightarrow> waited s = r * n + (n - k) \<Longrightarrow> barrier_ok n s"

lemma sign_bit_16: "w AND 0x8000 = 0 \<longleftrightarrow> unat w < 0x8000" for w :: u16
proof -
  have "w AND 0x8000 = 0 \<longleftrightarrow> \<not> bit w 15"
    using and_exp_eq_0_iff_not_bit [of w 15] by simp
  also have "bit w 15 \<longleftrightarrow> odd (unat w div 0x8000)" 
  proof -
    have "bit w 15 \<longleftrightarrow> bit (unat w) 15" by (simp add: bit_unsigned_iff)
    then show ?thesis by (simp add: bit_iff_odd [of "unat w"])
  qed
  also have "\<not> odd (unat w div 0x8000) \<longleftrightarrow> unat w < 0x8000"
  proof -
    have "unat w < 2 ^ 16" using unsigned_less [of w, where ?'a = nat] by simp
    then have "unat w div 0x8000 < 2" by (simp add: div_less_iff_less_mult)
    then have "unat w div 0x8000 = 0 \<or> unat w div 0x8000 = 1" by linarith
    then show ?thesis by auto
  qed
  finally show ?thesis .
qed

lemma sint_16: "sint w = (if unat w < 0x8000 then int (unat w) else int (unat w) - 0x10000)" for w :: u16
proof -
  have "sint w = (uint w + 2 ^ 15) mod 2 ^ 16 - 2 ^ 15"
    using signed_take_bit_eq_take_bit_shift [of 15 "uint w"] by (simp add: sint_uint take_bit_eq_mod)
  then have s: "sint w = (uint w + 0x8000) mod 0x10000 - 0x8000" by simp
  have u: "uint w = int (unat w)" "uint w < 0x10000" "0 \<le> uint w" using uint_lt2p [of w] by (simp_all only: uint_nat) simp_all
  show ?thesis
  proof (cases "unat w < 0x8000")
    case True
    then have "(uint w + 0x8000) mod 0x10000 = uint w + 0x8000" using u by (intro mod_pos_pos_trivial) linarith+
    then have "sint w = int (unat w)" using s u(1) by linarith
    with True show ?thesis by simp
  next
    case False
    then have "0x8000 \<le> uint w" using u(1) by linarith
    then have "(uint w + 0x8000) mod 0x10000 = (uint w - 0x8000) mod 0x10000" using mod_pos_geq [of "0x10000" "uint w + 0x8000"] by simp
    also have "\<dots> = uint w - 0x8000" using u \<open>0x8000 \<le> uint w\<close> by (intro mod_pos_pos_trivial) linarith+
    finally have "(uint w + 0x8000) mod 0x10000 = uint w - 0x8000" .
    then have "sint w = int (unat w) - 0x10000" using s u(1) by linarith
    with False show ?thesis by simp
  qed
qed

lemma try_notify_full: "0x8000 \<le> unat (bar_value c) \<Longrightarrow> barrier_try_notify c = (False, c)"
  using sign_bit_16 [of "bar_value c"] by (simp add: barrier_try_notify_def)

lemma try_wait_early: "unat (bar_value c) < 0x8000 \<Longrightarrow> barrier_try_wait c = (False, c)"
  using sign_bit_16 [of "bar_value c"] by (simp add: barrier_try_wait_def)

lemma try_notify_counts:
  assumes "unat (bar_value c) < n" and "n = unat (bar_count c)" and "n \<le> 32767"
  shows "\<exists>v. barrier_try_notify c = (True, c\<lparr>bar_value := v\<rparr>) \<and>
    unat v = (if Suc (unat (bar_value c)) = n then 0x8000 + n else Suc (unat (bar_value c)))"
proof -
  let ?v = "bar_value c + 1"
  have v: "unat ?v = Suc (unat (bar_value c))" using assms(1,3) by (simp add: unat_word_ariths)
  have low: "?v AND 0x8000 = 0" using v assms(1,3) by (simp add: sign_bit_16)
  have "unat (?v OR 0x8000) = unat ?v + 0x8000"
  proof -
    have "?v OR 0x8000 = ?v + 0x8000" using disjunctive_add_eq_or [OF low] by simp
    then show ?thesis using v assms(1,3) by (simp add: unat_word_ariths)
  qed
  moreover have "sint ?v = uint (bar_count c) \<longleftrightarrow> Suc (unat (bar_value c)) = n"
  proof -
    have "sint ?v = int (unat ?v)" using v assms(1,3) by (simp add: sint_16)
    moreover have "uint (bar_count c) = int n" using assms(2) by (simp only: uint_nat)
    ultimately show ?thesis unfolding v by linarith
  qed
  moreover have "bar_value c AND 0x8000 = 0" using assms(1,3) by (simp add: sign_bit_16)
  ultimately show ?thesis using v
    by (intro exI [of _ "if Suc (unat (bar_value c)) = n then ?v OR 0x8000 else ?v"])
      (simp add: barrier_try_notify_def Let_def)
qed

lemma try_wait_counts:
  assumes "unat (bar_value c) = 0x8000 + k" and "0 < k"
  shows "\<exists>v. barrier_try_wait c = (True, c\<lparr>bar_value := v\<rparr>) \<and> unat v = (if k = 1 then 0 else 0x8000 + (k - 1))"
proof -
  let ?v = "bar_value c - 1"
  have "bar_value c \<noteq> 0" using assms(1) by auto
  then have v: "unat ?v = 0x8000 + (k - 1)" using assms unat_minus_one [of "bar_value c"] by simp
  moreover have "sint ?v = - 0x8000 \<longleftrightarrow> k = 1" using v assms(2) by (auto simp: sint_16)
  moreover have "bar_value c AND 0x8000 \<noteq> 0" using assms(1) by (simp add: sign_bit_16)
  ultimately show ?thesis
    by (intro exI [of _ "if k = 1 then 0 else ?v"]) (simp add: barrier_try_wait_def Let_def)
qed

lemma barrier_ok_notify:
  assumes "barrier_ok n s" and "n \<le> 32767" and "barrier_try_notify (bar s) = (ok, c)"
  shows "barrier_ok n (s\<lparr>bar := c, notified := notified s + of_bool ok\<rparr>)"
  using assms(1)
proof cases
  case (notifying k r)
  then obtain v where v: "barrier_try_notify (bar s) = (True, (bar s)\<lparr>bar_value := v\<rparr>)"
    "unat v = (if Suc k = n then 0x8000 + n else Suc k)"
    using try_notify_counts [of "bar s" n] assms(2) by metis
  show ?thesis
  proof (cases "Suc k = n")
    case True
    with v notifying assms(3) show ?thesis by (auto intro!: barrier_ok.waiting [where k = n and r = r])
  next
    case False
    with v notifying assms(3) show ?thesis by (auto intro!: barrier_ok.notifying [where k = "Suc k" and r = r])
  qed
next
  case (waiting k r)
  then have "s\<lparr>bar := c, notified := notified s + of_bool ok\<rparr> = s" using try_notify_full [of "bar s"] assms(3) by simp
  then show ?thesis using assms(1) by simp
qed

lemma barrier_ok_wait:
  assumes "barrier_ok n s" and "n \<le> 32767" and "barrier_try_wait (bar s) = (ok, c)"
  shows "barrier_ok n (s\<lparr>bar := c, waited := waited s + of_bool ok\<rparr>)"
  using assms(1)
proof cases
  case (waiting k r)
  then obtain v where v: "barrier_try_wait (bar s) = (True, (bar s)\<lparr>bar_value := v\<rparr>)"
    "unat v = (if k = 1 then 0 else 0x8000 + (k - 1))"
    using try_wait_counts [of "bar s" k] by auto
  show ?thesis
  proof (cases "k = 1")
    case True
    with v waiting assms(3) show ?thesis by (auto intro!: barrier_ok.notifying [where k = 0 and r = "r + 1"])
  next
    case False
    with v waiting assms(3) show ?thesis by (auto intro!: barrier_ok.waiting [where k = "k - 1" and r = r])
  qed
next
  case (notifying k r)
  then have "unat (bar_value (bar s)) < 0x8000" using assms(2) by linarith
  then have "s\<lparr>bar := c, waited := waited s + of_bool ok\<rparr> = s" using try_wait_early [of "bar s"] assms(3) by simp
  then show ?thesis using assms(1) by simp
qed

lemma barrier_calls:
  assumes "check_ptr p 4 = None"
  shows "barrier_loop op p stopped c = (r, c') \<Longrightarrow> \<exists>ok. op c = (ok, c') \<and> (r = Return CELL_OK \<longleftrightarrow> ok)"
    and "barrier_once op p c = (e, c') \<Longrightarrow> \<exists>ok. op c = (ok, c') \<and> (e = CELL_OK \<longleftrightarrow> ok)"
  using assms by (auto simp: barrier_loop_def barrier_once_def split: prod.splits if_splits)

lemma barrier_ok_step:
  assumes "barrier_step p s s'" and "barrier_ok n s" and "n \<le> 32767" and "check_ptr p 4 = None"
  shows "barrier_ok n s'"
  using assms(1)
proof cases
  case (notify stopped r c)
  then show ?thesis using barrier_calls(1) [OF assms(4)] barrier_ok_notify [OF assms(2,3)]
    unfolding cellSyncBarrierNotify_def by metis
next
  case (try_notify e c)
  then show ?thesis using barrier_calls(2) [OF assms(4)] barrier_ok_notify [OF assms(2,3)]
    unfolding cellSyncBarrierTryNotify_def by metis
next
  case (wait stopped r c)
  then show ?thesis using barrier_calls(1) [OF assms(4)] barrier_ok_wait [OF assms(2,3)]
    unfolding cellSyncBarrierWait_def by metis
next
  case (try_wait e c)
  then show ?thesis using barrier_calls(2) [OF assms(4)] barrier_ok_wait [OF assms(2,3)]
    unfolding cellSyncBarrierTryWait_def by metis
qed

lemma barrier_ok_phase:
  assumes "barrier_ok n s" and "n \<le> 32767"
  shows "fst (barrier_try_notify (bar s)) \<longleftrightarrow> unat (bar_value (bar s)) < 0x8000"
    and "fst (barrier_try_wait (bar s)) \<longleftrightarrow> \<not> unat (bar_value (bar s)) < 0x8000"
  by (simp_all add: barrier_try_notify_def barrier_try_wait_def sign_bit_16 Let_def)

lemma once_ok: "check_ptr p 4 = None \<Longrightarrow> fst (barrier_once op p c) = CELL_OK \<longleftrightarrow> fst (op c)"
  by (simp add: barrier_once_def split: prod.split)

text \<open>
  Claim C26. The barrier works in rounds. After any sequence of notifications and waits, blocking or
  trying, by any threads, on a barrier initialised for \<open>n\<close> participants: a wait has only succeeded after
  all \<open>n\<close> notifications of its round, a notification only after all \<open>n\<close> waits of the round before, and in
  every state exactly one of the two can go on, the notification as long as its round is not
  complete and the wait as long as a complete round has waits left.
\<close>

theorem sync_barrier_rounds:
  assumes "barrier_reachable p parties s" and "n = unat parties"
  shows "waited s \<le> notified s div n * n \<and> notified s \<le> (waited s div n + 1) * n \<and>
    (fst (cellSyncBarrierTryNotify p (bar s)) = CELL_OK \<longleftrightarrow> waited s = notified s div n * n) \<and>
    (fst (cellSyncBarrierTryWait p (bar s)) = CELL_OK \<longleftrightarrow> waited s < notified s div n * n)"
proof -
  have "barrier_ok n s \<and> n \<le> 32767 \<and> check_ptr p 4 = None" using assms(1)
  proof induction
    case (start c c')
    then show ?case using assms(2)
      by (auto simp: cellSyncBarrierInitialize_def check_ptr_def word_less_nat_alt unat_gt_0 split: option.splits if_splits
        intro!: barrier_ok.notifying [where k = 0 and r = 0])
  next
    case (move s s')
    then show ?case using barrier_ok_step by blast
  qed
  then have ok: "barrier_ok n s" "n \<le> 32767" and p: "check_ptr p 4 = None" by blast+
  show ?thesis using ok(1)
  proof cases
    case (notifying k r)
    then show ?thesis
      using barrier_ok_phase [OF ok] once_ok [OF p] ok(2)
      by (simp add: cellSyncBarrierTryNotify_def cellSyncBarrierTryWait_def)
  next
    case (waiting k r)
    then have "n \<noteq> 0" "(n - k) div n = 0" by simp_all
    then have "(r * n + (n - k)) div n = r" "(r * n + n) div n = r + 1"
      using div_mult_self3 [of n r "n - k"] by simp_all
    moreover have "r * n + (n - k) < r * n + n" using waiting by linarith
    ultimately show ?thesis
      using waiting barrier_ok_phase [OF ok] once_ok [OF p] ok(2)
      by (auto simp: cellSyncBarrierTryNotify_def cellSyncBarrierTryWait_def)
  qed
qed

theorem sync_barrier_rounds_witness:
  "\<exists>s. barrier_reachable 4 1 s \<and> notified s = 1 \<and> waited s = 0 \<and>
     fst (cellSyncBarrierTryNotify 4 (bar s)) \<noteq> CELL_OK \<and> fst (cellSyncBarrierTryWait 4 (bar s)) = CELL_OK"
proof -
  have p: "check_ptr 4 4 = None" by (simp add: check_ptr_def ptr_aligned_def)
  have i: "barrier_reachable 4 1 \<lparr>bar = \<lparr>bar_value = 0, bar_count = 1\<rparr>, notified = 0, waited = 0\<rparr>"
    by (rule barrier_reachable.start [where c = "\<lparr>bar_value = 0, bar_count = 0\<rparr>"])
      (simp add: cellSyncBarrierInitialize_def p)
  have "cellSyncBarrierTryNotify 4 \<lparr>bar_value = 0, bar_count = 1\<rparr> = (CELL_OK, \<lparr>bar_value = 0x8001, bar_count = 1\<rparr>)"
    using p by (simp add: cellSyncBarrierTryNotify_def barrier_once_def barrier_try_notify_def)
  from barrier_step.try_notify [of 4 "\<lparr>bar = \<lparr>bar_value = 0, bar_count = 1\<rparr>, notified = 0, waited = 0\<rparr>"] this
  have "barrier_step 4 \<lparr>bar = \<lparr>bar_value = 0, bar_count = 1\<rparr>, notified = 0, waited = 0\<rparr>
      \<lparr>bar = \<lparr>bar_value = 0x8001, bar_count = 1\<rparr>, notified = 1, waited = 0\<rparr>" by simp
  from barrier_reachable.move [OF i this] sync_barrier_rounds [OF barrier_reachable.move [OF i this] refl]
  show ?thesis by (intro exI [of _ "\<lparr>bar = \<lparr>bar_value = 0x8001, bar_count = 1\<rparr>, notified = 1, waited = 0\<rparr>"]) simp
qed

end
