(* ===== verification/Cell_Sync_Rwm.thy ===== *)
theory Cell_Sync_Rwm
  imports Cell_Sync
begin

text \<open>
  \<^verbatim>\<open>CellSyncRwm\<close>: a buffer in guest memory that readers and writers copy byte by byte under two 16-bit
  counters. The calls of \<^verbatim>\<open>cellSync.cpp\<close> on it as sequences of atomic operations and byte copies, and
  that together they behave like one register that is read and written atomically.
\<close>

section \<open>The control word and the calls\<close>

text \<open>The object with the contents of its buffer.\<close>

record CellSyncRwm =
  readers :: u16
  writers :: u16
  rwm_size :: u32
  rwm_buffer :: u32
  rwm_data :: "nat \<Rightarrow> u8"

definition rwm_try_read_begin :: "CellSyncRwm \<Rightarrow> bool \<times> CellSyncRwm" where
  "rwm_try_read_begin m = (if writers m \<noteq> 0 then (False, m) else (True, m\<lparr>readers := readers m + 1\<rparr>))"

definition rwm_try_read_end :: "CellSyncRwm \<Rightarrow> bool \<times> CellSyncRwm" where
  "rwm_try_read_end m = (if readers m = 0 then (False, m) else (True, m\<lparr>readers := readers m - 1\<rparr>))"

definition rwm_try_write_begin :: "CellSyncRwm \<Rightarrow> bool \<times> CellSyncRwm" where
  "rwm_try_write_begin m = (if writers m \<noteq> 0 then (False, m) else (True, m\<lparr>writers := 1\<rparr>))"

definition cellSyncRwmInitialize :: "u32 \<Rightarrow> u32 \<Rightarrow> u32 \<Rightarrow> CellSyncRwm \<Rightarrow> error_code \<times> CellSyncRwm" where
  "cellSyncRwmInitialize p buffer buffer_size m =
     (if p = 0 \<or> buffer = 0 then (CELL_SYNC_ERROR_NULL_POINTER, m)
      else if \<not> ptr_aligned p 16 \<or> \<not> ptr_aligned buffer 128 then (CELL_SYNC_ERROR_ALIGN, m)
      else if buffer_size mod 128 \<noteq> 0 \<or> buffer_size > 0x4000 then (CELL_SYNC_ERROR_INVAL, m)
      else (CELL_OK, m\<lparr>readers := 0, writers := 0, rwm_size := buffer_size, rwm_buffer := buffer\<rparr>))"

text \<open>
  Where a thread is in a call: in one of the loops, copying (with what it has read, or the bytes to
  write and how many are done), finished, or gone because it was stopped in a loop (\<open>Left True\<close> in the
  loop that waits for the readers, where the thread has already announced its write).
\<close>

datatype rwm_local = Idle
  | ReadWait | TryRead | Reading "u8 list"
  | WriteWait "u8 list" | TryWrite "u8 list" | WriteDrain "u8 list" | Writing "u8 list" nat
  | Finished error_code | Left bool

definition cellSyncRwmRead :: "u32 \<Rightarrow> u32 \<Rightarrow> rwm_local" where
  "cellSyncRwmRead p buffer = (case check_ptrs p 16 buffer of Some e \<Rightarrow> Finished e | None \<Rightarrow> ReadWait)"

definition cellSyncRwmTryRead :: "u32 \<Rightarrow> u32 \<Rightarrow> rwm_local" where
  "cellSyncRwmTryRead p buffer = (case check_ptrs p 16 buffer of Some e \<Rightarrow> Finished e | None \<Rightarrow> TryRead)"

definition cellSyncRwmWrite :: "u32 \<Rightarrow> u32 \<Rightarrow> u8 list \<Rightarrow> rwm_local" where
  "cellSyncRwmWrite p buffer bs = (case check_ptrs p 16 buffer of Some e \<Rightarrow> Finished e | None \<Rightarrow> WriteWait bs)"

definition cellSyncRwmTryWrite :: "u32 \<Rightarrow> u32 \<Rightarrow> u8 list \<Rightarrow> rwm_local" where
  "cellSyncRwmTryWrite p buffer bs = (case check_ptrs p 16 buffer of Some e \<Rightarrow> Finished e | None \<Rightarrow> TryWrite bs)"

text \<open>
  The next atomic operation or byte copy of a call. The third component is what the call has
  accomplished with it: a completed read with its bytes, or a completed write.
\<close>

datatype rwm_event = DidRead "u8 list" | DidWrite "u8 list"

fun rwm_next :: "bool \<Rightarrow> rwm_local \<Rightarrow> CellSyncRwm \<Rightarrow> rwm_local \<times> CellSyncRwm \<times> rwm_event list" where
  "rwm_next stopped ReadWait m =
     (let (ok, m') = rwm_try_read_begin m
      in (if ok then Reading [] else if stopped then Left False else ReadWait, m', []))"
| "rwm_next stopped TryRead m =
     (let (ok, m') = rwm_try_read_begin m in (if ok then Reading [] else Finished CELL_SYNC_ERROR_BUSY, m', []))"
| "rwm_next stopped (Reading bs) m =
     (if length bs < unat (rwm_size m) then (Reading (bs @ [rwm_data m (length bs)]), m, [])
      else let (ok, m') = rwm_try_read_end m
           in (Finished (if ok then CELL_OK else CELL_SYNC_ERROR_ABORT), m', [DidRead bs]))"
| "rwm_next stopped (WriteWait bs) m =
     (let (ok, m') = rwm_try_write_begin m
      in (if ok then WriteDrain bs else if stopped then Left False else WriteWait bs, m', []))"
| "rwm_next stopped (WriteDrain bs) m =
     (if readers m \<noteq> 0 then (if stopped then Left True else WriteDrain bs, m, []) else (Writing bs 0, m, []))"
| "rwm_next stopped (TryWrite bs) m =
     (if readers m = 0 \<and> writers m = 0 then (Writing bs 0, m\<lparr>writers := 1\<rparr>, [])
      else (Finished CELL_SYNC_ERROR_BUSY, m, []))"
| "rwm_next stopped (Writing bs k) m =
     (if k < unat (rwm_size m) then (Writing bs (k + 1), m\<lparr>rwm_data := (rwm_data m)(k := bs ! k)\<rparr>, [])
      else (Finished CELL_OK, m\<lparr>readers := 0, writers := 0\<rparr>, [DidWrite bs]))"
| "rwm_next stopped l m = (l, m, [])"

section \<open>Threads that use the buffer\<close>

record rwm_sys =
  rwm :: CellSyncRwm
  doing :: "nat \<Rightarrow> rwm_local"
  history :: "rwm_event list"

text \<open>A writer passes as many bytes as the buffer has.\<close>

inductive rwm_step :: "u32 \<Rightarrow> nat \<Rightarrow> rwm_sys \<Rightarrow> rwm_sys \<Rightarrow> bool" for p n where
  begin_read: "t < n \<Longrightarrow> doing s t = Idle \<Longrightarrow> l = cellSyncRwmRead p b \<or> l = cellSyncRwmTryRead p b \<Longrightarrow>
    rwm_step p n s (s\<lparr>doing := (doing s)(t := l)\<rparr>)"
| begin_write: "t < n \<Longrightarrow> doing s t = Idle \<Longrightarrow> length bs = unat (rwm_size (rwm s)) \<Longrightarrow>
    l = cellSyncRwmWrite p b bs \<or> l = cellSyncRwmTryWrite p b bs \<Longrightarrow>
    rwm_step p n s (s\<lparr>doing := (doing s)(t := l)\<rparr>)"
| run: "t < n \<Longrightarrow> rwm_next stopped (doing s t) (rwm s) = (l, m, evs) \<Longrightarrow>
    rwm_step p n s (s\<lparr>rwm := m, doing := (doing s)(t := l), history := history s @ evs\<rparr>)"
| leave: "t < n \<Longrightarrow> doing s t = Finished e \<Longrightarrow> rwm_step p n s (s\<lparr>doing := (doing s)(t := Idle)\<rparr>)"

inductive rwm_reachable :: "u32 \<Rightarrow> nat \<Rightarrow> u8 list \<Rightarrow> rwm_sys \<Rightarrow> bool" for p n old where
  start: "cellSyncRwmInitialize p buffer sz m = (CELL_OK, m') \<Longrightarrow> old = map (rwm_data m') [0 ..< unat sz] \<Longrightarrow>
    rwm_reachable p n old \<lparr>rwm = m', doing = (\<lambda>_. Idle), history = []\<rparr>"
| move: "rwm_reachable p n old s \<Longrightarrow> rwm_step p n s s' \<Longrightarrow> rwm_reachable p n old s'"

text \<open>A register: every read returns what the last write before it stored.\<close>

fun register_ok :: "u8 list \<Rightarrow> rwm_event list \<Rightarrow> bool" where
  "register_ok x [] = True"
| "register_ok x (DidRead y # es) = (y = x \<and> register_ok x es)"
| "register_ok x (DidWrite y # es) = register_ok y es"

fun register_value :: "u8 list \<Rightarrow> rwm_event list \<Rightarrow> u8 list" where
  "register_value x [] = x"
| "register_value x (DidRead y # es) = register_value x es"
| "register_value x (DidWrite y # es) = register_value y es"

lemma register_snoc:
  "register_ok x (es @ [DidRead y]) \<longleftrightarrow> register_ok x es \<and> y = register_value x es"
  "register_ok x (es @ [DidWrite y]) \<longleftrightarrow> register_ok x es"
  "register_value x (es @ [DidRead y]) = register_value x es"
  "register_value x (es @ [DidWrite y]) = y"
  by (induction x es rule: register_ok.induct) auto

section \<open>Who is inside\<close>

fun reading :: "rwm_local \<Rightarrow> bool" where
  "reading (Reading bs) = True"
| "reading l = False"

fun announced :: "rwm_local \<Rightarrow> bool" where
  "announced (WriteDrain bs) = True"
| "announced (Writing bs k) = True"
| "announced (Left b) = b"
| "announced l = False"

fun writing :: "rwm_local \<Rightarrow> bool" where
  "writing (Writing bs k) = True"
| "writing l = False"

definition reader_set :: "(nat \<Rightarrow> rwm_local) \<Rightarrow> nat set" where
  "reader_set d = {t. reading (d t)}"

definition rwm_ctrl_ok :: "nat \<Rightarrow> CellSyncRwm \<Rightarrow> (nat \<Rightarrow> rwm_local) \<Rightarrow> bool" where
  "rwm_ctrl_ok n m d \<longleftrightarrow> reader_set d \<subseteq> {..<n} \<and> unat (readers m) = card (reader_set d) \<and>
     (writers m = 0 \<longleftrightarrow> (\<forall>t. \<not> announced (d t))) \<and>
     (\<forall>t u. announced (d t) \<and> announced (d u) \<longrightarrow> t = u) \<and>
     (\<forall>t. writing (d t) \<longrightarrow> reader_set d = {})"

lemma writing_announced: "writing l \<Longrightarrow> announced l"
  by (cases l) auto

lemma reading_excl: "reading l \<Longrightarrow> \<not> announced l \<and> \<not> writing l"
  by (cases l) auto

lemma reader_set_upd: "reader_set (d(t := l)) = (if reading l then insert t (reader_set d) else reader_set d - {t})"
  by (auto simp: reader_set_def)

lemma reader_finite: "rwm_ctrl_ok n m d \<Longrightarrow> finite (reader_set d)"
  by (auto simp: rwm_ctrl_ok_def intro: finite_subset)

lemma no_readers: "rwm_ctrl_ok n m d \<Longrightarrow> readers m = 0 \<longleftrightarrow> reader_set d = {}"
  using reader_finite [of n m d] unat_eq_zero [of "readers m"] by (auto simp: rwm_ctrl_ok_def)

text \<open>A step that stays on its side of both doors.\<close>

lemma ctrl_same:
  assumes "rwm_ctrl_ok n m d" and "reading l = reading (d t)" and "announced l = announced (d t)"
    and "writing l \<Longrightarrow> reader_set d = {}"
  shows "rwm_ctrl_ok n m (d(t := l))"
proof -
  have "reader_set (d(t := l)) = reader_set d" using assms(2) by (auto simp: reader_set_def)
  moreover have "announced ((d(t := l)) u) = announced (d u)" for u using assms(3) by simp
  ultimately show ?thesis using assms(1,4) unfolding rwm_ctrl_ok_def by auto
qed

lemma ctrl_enter_read:
  assumes "rwm_ctrl_ok n m d" and "n < 2 ^ 16" and "t < n" and "writers m = 0" and "\<not> reading (d t)"
  shows "rwm_ctrl_ok n (m\<lparr>readers := readers m + 1\<rparr>) (d(t := Reading bs))"
proof -
  have t: "t \<notin> reader_set d" using assms(5) by (simp add: reader_set_def)
  have none: "\<not> announced (d u)" for u using assms(1,4) by (simp add: rwm_ctrl_ok_def)
  then have calm: "\<not> writing (d u)" for u using writing_announced by blast
  have "card (insert t (reader_set d)) \<le> n"
    using card_mono [of "{..<n}" "insert t (reader_set d)"] assms(1,3) by (simp add: rwm_ctrl_ok_def)
  then have "Suc (card (reader_set d)) < 2 ^ 16" using reader_finite [OF assms(1)] t assms(2) by simp
  then have "unat (readers m + 1) = Suc (card (reader_set d))"
    using assms(1) by (simp add: rwm_ctrl_ok_def unat_word_ariths)
  then show ?thesis
    using assms(1,3,4) none calm reader_finite [OF assms(1)] t by (auto simp: rwm_ctrl_ok_def reader_set_upd)
qed

lemma ctrl_leave_read:
  assumes "rwm_ctrl_ok n m d" and "reading (d t)" and "\<not> reading l" and "\<not> announced l"
  shows "readers m \<noteq> 0" and "rwm_ctrl_ok n (m\<lparr>readers := readers m - 1\<rparr>) (d(t := l))"
proof -
  have t: "t \<in> reader_set d" using assms(2) by (simp add: reader_set_def)
  then show nz: "readers m \<noteq> 0" using no_readers [OF assms(1)] by blast
  have "unat (readers m - 1) = card (reader_set d - {t})"
    using nz unat_minus_one [of "readers m"] t reader_finite [OF assms(1)] assms(1) by (simp add: rwm_ctrl_ok_def)
  moreover have "\<not> writing l" using assms(4) writing_announced by blast
  ultimately show "rwm_ctrl_ok n (m\<lparr>readers := readers m - 1\<rparr>) (d(t := l))"
    using assms t reading_excl [OF assms(2)] by (auto simp: rwm_ctrl_ok_def reader_set_upd)
qed

lemma ctrl_announce:
  assumes "rwm_ctrl_ok n m d" and "writers m = 0" and "\<not> reading (d t)" and "announced l" and "\<not> reading l"
    and "writing l \<Longrightarrow> readers m = 0"
  shows "rwm_ctrl_ok n (m\<lparr>writers := 1\<rparr>) (d(t := l))"
proof -
  have none: "\<not> announced (d u)" for u using assms(1,2) by (simp add: rwm_ctrl_ok_def)
  have "reader_set (d(t := l)) = reader_set d" using assms(3,5) by (auto simp: reader_set_def)
  moreover have "writing l \<Longrightarrow> reader_set d = {}" using assms(6) no_readers [OF assms(1)] by blast
  ultimately show ?thesis
    using assms none writing_announced unfolding rwm_ctrl_ok_def by auto
qed

lemma ctrl_finish_write:
  assumes "rwm_ctrl_ok n m d" and "writing (d t)" and "\<not> reading l" and "\<not> announced l"
  shows "rwm_ctrl_ok n (m\<lparr>readers := 0, writers := 0\<rparr>) (d(t := l))"
proof -
  have "reader_set d = {}" and only: "announced (d u) \<Longrightarrow> u = t" for u
    using assms(1,2) writing_announced unfolding rwm_ctrl_ok_def by blast+
  moreover have "\<not> writing l" using assms(4) writing_announced by blast
  ultimately show ?thesis
    using assms(3,4) writing_announced by (auto simp: rwm_ctrl_ok_def reader_set_upd)
qed

section \<open>What the buffer and the copies hold\<close>

abbreviation contents :: "CellSyncRwm \<Rightarrow> u8 list" where
  "contents m \<equiv> map (rwm_data m) [0 ..< unat (rwm_size m)]"

fun local_ok :: "u8 list \<Rightarrow> u8 list \<Rightarrow> rwm_local \<Rightarrow> bool" where
  "local_ok cur dat (Reading bs) = (bs = take (length bs) cur)"
| "local_ok cur dat (WriteWait bs) = (length bs = length dat)"
| "local_ok cur dat (TryWrite bs) = (length bs = length dat)"
| "local_ok cur dat (WriteDrain bs) = (length bs = length dat)"
| "local_ok cur dat (Writing bs k) = (length bs = length dat \<and> k \<le> length dat \<and> take k dat = take k bs)"
| "local_ok cur dat (Finished e) = (e \<noteq> CELL_SYNC_ERROR_ABORT)"
| "local_ok cur dat l = True"

definition rwm_ok :: "nat \<Rightarrow> u8 list \<Rightarrow> CellSyncRwm \<Rightarrow> (nat \<Rightarrow> rwm_local) \<Rightarrow> rwm_event list \<Rightarrow> bool" where
  "rwm_ok n old m d h \<longleftrightarrow> rwm_ctrl_ok n m d \<and> register_ok old h \<and>
     length (register_value old h) = unat (rwm_size m) \<and>
     (\<forall>t. local_ok (register_value old h) (contents m) (d t)) \<and>
     ((\<forall>t. \<not> writing (d t)) \<longrightarrow> contents m = register_value old h)"

lemma rwm_ok_local:
  assumes "rwm_ok n old m d h" and "rwm_ctrl_ok n m' (d(t := l))" and "rwm_data m' = rwm_data m" and "rwm_size m' = rwm_size m"
    and "local_ok (register_value old h) (contents m) l" and "\<not> writing (d t)"
  shows "rwm_ok n old m' (d(t := l)) h"
  using assms unfolding rwm_ok_def by (auto split: if_splits)

lemma ctrl_data [simp]: "rwm_ctrl_ok n (m\<lparr>rwm_data := x\<rparr>) d = rwm_ctrl_ok n m d"
  by (simp add: rwm_ctrl_ok_def)

lemma calm_upd: "\<not> writing (d t) \<Longrightarrow> \<not> writing l \<Longrightarrow> (\<forall>u. \<not> writing ((d(t := l)) u)) \<longleftrightarrow> (\<forall>u. \<not> writing (d u))"
  by auto

lemma rwm_ok_read_end:
  assumes "rwm_ok n old m d h" and "d t = Reading bs" and "\<not> length bs < unat (rwm_size m)"
  shows "rwm_ok n old (m\<lparr>readers := readers m - 1\<rparr>) (d(t := Finished CELL_OK)) (h @ [DidRead bs])"
proof -
  have "bs = take (length bs) (register_value old h)" "length (register_value old h) = unat (rwm_size m)"
    using assms(1,2) unfolding rwm_ok_def by (metis local_ok.simps(1))+
  then have "bs = register_value old h" using assms(3) by simp
  moreover have "rwm_ctrl_ok n (m\<lparr>readers := readers m - 1\<rparr>) (d(t := Finished CELL_OK))"
    using ctrl_leave_read(2) [of n m d t] assms(1,2) by (simp add: rwm_ok_def)
  ultimately show ?thesis
    using assms(1,2) calm_upd [of d t "Finished CELL_OK"] unfolding rwm_ok_def by (simp add: register_snoc)
qed

lemma other_not_writing:
  assumes "rwm_ctrl_ok n m d" and "writing (d t)" and "u \<noteq> t"
  shows "\<not> reading (d u) \<and> \<not> announced (d u) \<and> \<not> writing (d u)"
proof -
  have "\<not> announced (d u)" using assms writing_announced unfolding rwm_ctrl_ok_def by blast
  moreover have "reader_set d = {}" using assms(1,2) unfolding rwm_ctrl_ok_def by blast
  ultimately show ?thesis using writing_announced by (auto simp: reader_set_def)
qed

lemma local_ok_frame:
  assumes "local_ok cur dat l" and "\<not> reading l" and "\<not> announced l" and "length dat' = length dat"
  shows "local_ok cur' dat' l"
  using assms by (cases l) auto

lemma rwm_ok_copy:
  assumes "rwm_ok n old m d h" and "d t = Writing bs k" and "k < unat (rwm_size m)"
  shows "rwm_ok n old (m\<lparr>rwm_data := (rwm_data m)(k := bs ! k)\<rparr>) (d(t := Writing bs (k + 1))) h" (is "rwm_ok n old ?m ?d h")
proof -
  have c: "rwm_ctrl_ok n m d" and l: "local_ok (register_value old h) (contents m) (d u)" for u
    using assms(1) by (simp_all add: rwm_ok_def)
  have bs: "length bs = unat (rwm_size m)" "take k (contents m) = take k bs" using l [of t] assms(2) by simp_all
  have upd: "contents ?m = (contents m)[k := bs ! k]"
    by (rule nth_equalityI) (auto simp: nth_list_update)
  have "take (k + 1) (contents ?m) = take (k + 1) bs"
    unfolding upd using bs assms(3) by (simp add: take_Suc_conv_app_nth)
  then have own: "local_ok (register_value old h) (contents ?m) (Writing bs (k + 1))"
    using bs(1) assms(3) unfolding local_ok.simps by simp
  have "local_ok (register_value old h) (contents ?m) (?d u)" for u
  proof (cases "u = t")
    case True
    then show ?thesis using own by (simp only: fun_upd_same)
  next
    case False
    have "\<not> reading (d u)" "\<not> announced (d u)" using other_not_writing [OF c, of t u] False assms(2) by simp_all
    from local_ok_frame [OF l this] have "local_ok (register_value old h) (contents ?m) (d u)" by simp
    then show ?thesis unfolding fun_upd_apply if_not_P [OF False] .
  qed
  moreover have "reader_set d = {}" using c assms(2) unfolding rwm_ctrl_ok_def by (metis writing.simps(1))
  then have "rwm_ctrl_ok n ?m ?d" unfolding ctrl_data by (intro ctrl_same [OF c]) (simp_all add: assms(2))
  moreover have "\<not> (\<forall>u. \<not> writing (?d u))" by (metis fun_upd_same writing.simps(1))
  moreover have "rwm_size ?m = rwm_size m" by simp
  ultimately show ?thesis using assms(1) unfolding rwm_ok_def by (simp del: fun_upd_apply) blast
qed

lemma rwm_ok_write_end:
  assumes "rwm_ok n old m d h" and "d t = Writing bs k" and "\<not> k < unat (rwm_size m)"
  shows "rwm_ok n old (m\<lparr>readers := 0, writers := 0\<rparr>) (d(t := Finished CELL_OK)) (h @ [DidWrite bs])" (is "rwm_ok n old ?m ?d ?h")
proof -
  have c: "rwm_ctrl_ok n m d" and l: "local_ok (register_value old h) (contents m) (d u)" for u
    using assms(1) by (simp_all add: rwm_ok_def)
  have "local_ok (register_value old h) (contents m) (Writing bs k)" using l [of t] assms(2) by simp
  then have bs: "contents m = bs" using assms(3) by simp
  have "local_ok bs (contents ?m) (?d u)" for u
    using local_ok_frame [OF l [of u]] other_not_writing [OF c, of t u] assms(2) by simp
  moreover have "rwm_ctrl_ok n ?m ?d" using ctrl_finish_write [OF c, of t] assms(2) by simp
  moreover have "length bs = unat (rwm_size m)" using bs by (metis length_map length_upt diff_zero)
  ultimately show ?thesis
    using assms(1) bs by (simp add: rwm_ok_def register_snoc)
qed

lemma rwm_ok_next:
  assumes ok: "rwm_ok n old m d h" and "n < 2 ^ 16" and "t < n"
  shows "case rwm_next stopped (d t) m of (l, m', evs) \<Rightarrow> rwm_ok n old m' (d(t := l)) (h @ evs)"
proof -
  have c: "rwm_ctrl_ok n m d" and lo: "local_ok (register_value old h) (contents m) (d t)"
    using ok by (simp_all add: rwm_ok_def)
  note same = rwm_ok_local [OF ok ctrl_same [OF c]]
    and enter = rwm_ok_local [OF ok ctrl_enter_read [OF c assms(2,3)]]
    and announce = rwm_ok_local [OF ok ctrl_announce [OF c]]
  show ?thesis
  proof (cases "d t")
    case ReadWait
    then show ?thesis 
      by (auto simp: rwm_try_read_begin_def split: prod.split intro!: same enter)
  next
    case TryRead
    then show ?thesis 
      by (auto simp: rwm_try_read_begin_def split: prod.split intro!: same enter)
  next
    case (Reading bs)
    show ?thesis
    proof (cases "length bs < unat (rwm_size m)")
      case True
      have calm: "contents m = register_value old h"
      proof -
        have "t \<in> reader_set d" using Reading by (simp add: reader_set_def)
        then have "\<forall>u. \<not> writing (d u)" using c unfolding rwm_ctrl_ok_def by blast
        then show ?thesis using ok by (simp add: rwm_ok_def)
      qed
      have "bs = take (length bs) (contents m)" using lo Reading calm by simp
      then have "bs @ [rwm_data m (length bs)] = take (length (bs @ [rwm_data m (length bs)])) (contents m)"
        using True take_Suc_conv_app_nth [of "length bs" "contents m"] by simp
      then have "local_ok (register_value old h) (contents m) (Reading (bs @ [rwm_data m (length bs)]))"
        unfolding calm local_ok.simps .
      from same [OF _ _ _ refl refl this] have "rwm_ok n old m (d(t := Reading (bs @ [rwm_data m (length bs)]))) h"
        using Reading by simp
      moreover have "rwm_next stopped (d t) m = (Reading (bs @ [rwm_data m (length bs)]), m, [])" using Reading True by simp
      ultimately show ?thesis by (simp only: prod.case append_Nil2)
    next
      case False
      then show ?thesis
        using Reading rwm_ok_read_end [OF ok Reading False] ctrl_leave_read(1) [OF c, of t "Finished CELL_OK"]
        by (auto simp: rwm_try_read_end_def)
    qed
  next
    case (WriteWait bs)
    then show ?thesis using lo
      by (auto simp: rwm_try_write_begin_def split: prod.split intro!: same announce)
  next
    case (TryWrite bs)
    then show ?thesis using lo by (auto split: prod.split intro!: same announce)
  next
    case (WriteDrain bs)
    then show ?thesis using lo no_readers [OF c] by (auto split: prod.split intro!: same)
  next
    case (Writing bs k)
    then show ?thesis
      using Writing rwm_ok_copy [OF ok Writing] rwm_ok_write_end [OF ok Writing] by simp
  qed (use ok in \<open>simp_all add: fun_upd_idem\<close>)
qed

lemma rwm_ok_quiet:
  assumes "rwm_ok n old m d h" and "\<not> reading (d t)" and "\<not> announced (d t)" and "\<not> reading l" and "\<not> announced l"
    and "local_ok (register_value old h) (contents m) l"
  shows "rwm_ok n old m (d(t := l)) h"
proof (rule rwm_ok_local [OF assms(1) ctrl_same refl refl assms(6)])
  show "rwm_ctrl_ok n m d" using assms(1) by (simp add: rwm_ok_def)
qed (use assms writing_announced in auto)

lemma rwm_ok_step:
  assumes "rwm_step p n s s'" and "n < 2 ^ 16" and "rwm_ok n old (rwm s) (doing s) (history s)"
  shows "rwm_ok n old (rwm s') (doing s') (history s')"
  using assms(1)
proof cases
  case (begin_read t l b)
  then have "l = ReadWait \<or> l = TryRead \<or> (\<exists>e. l = Finished e \<and> e \<noteq> CELL_SYNC_ERROR_ABORT)"
    by (auto simp: cellSyncRwmRead_def cellSyncRwmTryRead_def check_ptrs_def check_ptr_def split: option.splits if_splits)
  then have "\<not> reading l \<and> \<not> announced l \<and> local_ok (register_value old (history s)) (contents (rwm s)) l" by auto
  then show ?thesis using rwm_ok_quiet [OF assms(3)] begin_read(1,3) by simp
next
  case (begin_write t bs l b)
  then have "l = WriteWait bs \<or> l = TryWrite bs \<or> (\<exists>e. l = Finished e \<and> e \<noteq> CELL_SYNC_ERROR_ABORT)"
    by (auto simp: cellSyncRwmWrite_def cellSyncRwmTryWrite_def check_ptrs_def check_ptr_def split: option.splits if_splits)
  then have "\<not> reading l \<and> \<not> announced l \<and> local_ok (register_value old (history s)) (contents (rwm s)) l"
    using begin_write(4) by auto
  then show ?thesis using rwm_ok_quiet [OF assms(3)] begin_write(1,3) by simp
next
  case (run t stopped l m evs)
  then show ?thesis using rwm_ok_next [OF assms(3,2), of t stopped] by simp
next
  case (leave t e)
  then show ?thesis using rwm_ok_quiet [OF assms(3), of t Idle] by simp
qed

text \<open>
  Claim C8. The buffer is an atomic register although it is copied byte by byte. Whatever calls fewer than
  \<open>2 ^ 16\<close> threads make in whatever order, every completed read has delivered, untorn, exactly the bytes of
  the last write completed before it (or the initial contents); while a thread is copying into the
  buffer no other thread copies from or into it; and no read ever returns the abort error for a
  counter that is already zero.
\<close>

theorem sync_rwm_register:
  assumes "rwm_reachable p n old s" and "n < 2 ^ 16"
  shows "register_ok old (history s) \<and>
    (\<forall>t u. writing (doing s t) \<and> t \<noteq> u \<longrightarrow> \<not> writing (doing s u) \<and> \<not> reading (doing s u)) \<and>
    (\<forall>t. doing s t \<noteq> Finished CELL_SYNC_ERROR_ABORT)"
proof -
  have ok: "rwm_ok n old (rwm s) (doing s) (history s)" using assms(1)
  proof induction
    case (start buffer sz m m')
    then show ?case
      by (auto simp: cellSyncRwmInitialize_def rwm_ok_def rwm_ctrl_ok_def reader_set_def split: if_splits)
  next
    case (move s s')
    then show ?case using rwm_ok_step assms(2) by blast
  qed
  then have "local_ok (register_value old (history s)) (contents (rwm s)) (doing s t)" for t by (simp add: rwm_ok_def)
  then have "doing s t \<noteq> Finished CELL_SYNC_ERROR_ABORT" for t by (metis local_ok.simps(6))
  moreover have "rwm_ctrl_ok n (rwm s) (doing s)" "register_ok old (history s)" using ok by (simp_all add: rwm_ok_def)
  ultimately show ?thesis using other_not_writing [of n "rwm s" "doing s"] by auto
qed

theorem sync_rwm_register_witness:
  "\<exists>s. rwm_reachable 16 2 (replicate 128 7) s \<and> doing s 0 = Reading [7] \<and> doing s 1 = WriteDrain (replicate 128 9) \<and>
     register_ok (replicate 128 7) (history s) \<and> doing s 0 \<noteq> Finished CELL_SYNC_ERROR_ABORT"
proof -
  define m where "m = \<lparr>readers = 0, writers = 0, rwm_size = 128, rwm_buffer = 128, rwm_data = \<lambda>_. 7\<rparr>"
  define s where "s r w d = \<lparr>rwm = m\<lparr>readers := r, writers := w\<rparr>, doing = d, history = []\<rparr>" for r w d
  let ?r = "rwm_reachable 16 2 (replicate 128 7)"
  have ptr: "check_ptrs 16 16 128 = None" by (simp add: check_ptrs_def check_ptr_def ptr_aligned_def)
  have "?r \<lparr>rwm = m, doing = \<lambda>_. Idle, history = []\<rparr>"
    by (rule rwm_reachable.start [where buffer = 128 and sz = 128 and m = m])
      (simp_all add: m_def cellSyncRwmInitialize_def ptr_aligned_def map_replicate_const)
  then have s0: "?r (s 0 0 (\<lambda>_. Idle))" by (simp add: s_def m_def)
  have "rwm_step 16 2 (s 0 0 (\<lambda>_. Idle)) (s 0 0 ((\<lambda>_. Idle)(0 := ReadWait)))"
    using rwm_step.begin_read [of 0 2 "s 0 0 (\<lambda>_. Idle)" ReadWait 16 128] ptr by (simp add: s_def cellSyncRwmRead_def)
  from rwm_reachable.move [OF s0 this] have s1: "?r (s 0 0 ((\<lambda>_. Idle)(0 := ReadWait)))" .
  have "rwm_step 16 2 (s 0 0 ((\<lambda>_. Idle)(0 := ReadWait))) (s 1 0 ((\<lambda>_. Idle)(0 := Reading [])))"
    using rwm_step.run [of 0 2 False "s 0 0 ((\<lambda>_. Idle)(0 := ReadWait))"] by (simp add: s_def rwm_try_read_begin_def m_def)
  from rwm_reachable.move [OF s1 this] have s2: "?r (s 1 0 ((\<lambda>_. Idle)(0 := Reading [])))" .
  have "rwm_step 16 2 (s 1 0 ((\<lambda>_. Idle)(0 := Reading []))) (s 1 0 ((\<lambda>_. Idle)(0 := Reading [7])))"
    using rwm_step.run [of 0 2 False "s 1 0 ((\<lambda>_. Idle)(0 := Reading []))"] by (simp add: s_def m_def)
  from rwm_reachable.move [OF s2 this] have s3: "?r (s 1 0 ((\<lambda>_. Idle)(0 := Reading [7])))" .
  have "rwm_step 16 2 (s 1 0 ((\<lambda>_. Idle)(0 := Reading [7]))) (s 1 0 ((\<lambda>_. Idle)(0 := Reading [7], 1 := WriteWait (replicate 128 9))))"
    using rwm_step.begin_write [of 1 2 "s 1 0 ((\<lambda>_. Idle)(0 := Reading [7]))" "replicate 128 9" "WriteWait (replicate 128 9)" 16 128] ptr
    by (simp add: s_def m_def cellSyncRwmWrite_def)
  from rwm_reachable.move [OF s3 this]
  have s4: "?r (s 1 0 ((\<lambda>_. Idle)(0 := Reading [7], 1 := WriteWait (replicate 128 9))))" .
  have "rwm_step 16 2 (s 1 0 ((\<lambda>_. Idle)(0 := Reading [7], 1 := WriteWait (replicate 128 9))))
      (s 1 1 ((\<lambda>_. Idle)(0 := Reading [7], 1 := WriteDrain (replicate 128 9))))"
    using rwm_step.run [of 1 2 False "s 1 0 ((\<lambda>_. Idle)(0 := Reading [7], 1 := WriteWait (replicate 128 9)))"]
    by (simp add: s_def rwm_try_write_begin_def m_def)
  from rwm_reachable.move [OF s4 this]
  have "?r (s 1 1 ((\<lambda>_. Idle)(0 := Reading [7], 1 := WriteDrain (replicate 128 9))))" .
  with sync_rwm_register [OF this] show ?thesis
    by (intro exI [of _ "s 1 1 ((\<lambda>_. Idle)(0 := Reading [7], 1 := WriteDrain (replicate 128 9)))"]) (simp add: s_def)
qed

end
