(* ===== verification/Cell_Sync_Queue.thy ===== *)
theory Cell_Sync_Queue
  imports Cell_Sync
begin

text \<open>
  \<^verbatim>\<open>CellSyncQueue\<close>: a ring buffer of fixed-size elements in guest memory, with one thread at a time
  pushing and one popping, clearing or peeking, each copying its element byte by byte. The calls of
  \<^verbatim>\<open>cellSync.cpp\<close> on it as sequences of atomic operations and byte copies, and that together they
  implement a bounded first-in first-out queue.
\<close>

section \<open>The control words and the calls\<close>

text \<open>
  The four bit fields of the control words, the parameters and the contents of the buffer. A store
  to a field keeps its low 24 (or 8) bits.
\<close>

record CellSyncQueue =
  q_next :: u32
  q_pop :: u32
  q_count :: u32
  q_push :: u32
  q_size :: u32
  q_depth :: u32
  q_buffer :: u32
  q_data :: "nat \<Rightarrow> u8"

definition check_depth :: "CellSyncQueue \<Rightarrow> bool" where
  "check_depth q = (\<not> (q_next q > q_depth q \<or> q_count q > q_depth q))"

definition queue_try_push_begin :: "CellSyncQueue \<Rightarrow> (u32 \<times> CellSyncQueue) option" where
  "queue_try_push_begin q =
     (let count = q_count q; position = q_next q
      in if q_push q \<noteq> 0 \<or> count + q_pop q \<ge> q_depth q then None
         else Some (position, q\<lparr>q_next := take_bit 24 (if position + 1 \<noteq> q_depth q then position + 1 else 0),
                                q_count := take_bit 24 (count + 1), q_push := 1\<rparr>))"

definition queue_push_end :: "CellSyncQueue \<Rightarrow> CellSyncQueue" where
  "queue_push_end q = q\<lparr>q_push := 0\<rparr>"

definition queue_try_pop_begin :: "CellSyncQueue \<Rightarrow> (u32 \<times> CellSyncQueue) option" where
  "queue_try_pop_begin q =
     (let count = q_count q
      in if q_pop q \<noteq> 0 \<or> count \<le> q_push q then None
         else Some (q_next q + q_depth q - count, q\<lparr>q_pop := 1, q_count := take_bit 24 (count - 1)\<rparr>))"

definition queue_try_peek_begin :: "CellSyncQueue \<Rightarrow> (u32 \<times> CellSyncQueue) option" where
  "queue_try_peek_begin q =
     (let count = q_count q
      in if q_pop q \<noteq> 0 \<or> count \<le> q_push q then None
         else Some (q_next q + q_depth q - count, q\<lparr>q_pop := 1\<rparr>))"

definition queue_pop_end :: "CellSyncQueue \<Rightarrow> CellSyncQueue" where
  "queue_pop_end q = q\<lparr>q_pop := 0\<rparr>"

definition queue_try_clear_begin_1 :: "CellSyncQueue \<Rightarrow> bool \<times> CellSyncQueue" where
  "queue_try_clear_begin_1 q = (if q_pop q \<noteq> 0 then (False, q) else (True, q\<lparr>q_pop := 1\<rparr>))"

definition queue_try_clear_begin_2 :: "CellSyncQueue \<Rightarrow> bool \<times> CellSyncQueue" where
  "queue_try_clear_begin_2 q = (if q_push q \<noteq> 0 then (False, q) else (True, q\<lparr>q_push := 1\<rparr>))"

definition cellSyncQueueInitialize :: "u32 \<Rightarrow> u32 \<Rightarrow> u32 \<Rightarrow> u32 \<Rightarrow> CellSyncQueue \<Rightarrow> error_code \<times> CellSyncQueue" where
  "cellSyncQueueInitialize p buffer sz depth q =
     (if p = 0 then (CELL_SYNC_ERROR_NULL_POINTER, q)
      else if sz \<noteq> 0 \<and> buffer = 0 then (CELL_SYNC_ERROR_NULL_POINTER, q)
      else if \<not> ptr_aligned p 32 \<or> \<not> ptr_aligned buffer 16 then (CELL_SYNC_ERROR_ALIGN, q)
      else if depth = 0 \<or> sz mod 16 \<noteq> 0 then (CELL_SYNC_ERROR_INVAL, q)
      else (CELL_OK, q\<lparr>q_next := 0, q_pop := 0, q_count := 0, q_push := 0,
                       q_size := sz, q_depth := depth, q_buffer := buffer\<rparr>))"

text \<open>
  Where a thread is in a call. \<open>Gone True\<close> is a clearing thread stopped after it announced itself to
  the popping side; \<open>Crashed\<close> is the exception of \<^verbatim>\<open>check_depth\<close>.
\<close>

datatype queue_local = Idle
  | PushWait "u8 list" | TryPush "u8 list" | Pushing "u8 list" u32 nat
  | PopWait | TryPop | Popping u32 "u8 list"
  | PeekWait | TryPeek | Peeking u32 "u8 list"
  | ClearWait | ClearWait2 | Clearing
  | Finished error_code | Gone bool | Crashed

definition enter_call :: "error_code option \<Rightarrow> queue_local \<Rightarrow> CellSyncQueue \<Rightarrow> queue_local" where
  "enter_call err l q =
     (case err of Some e \<Rightarrow> Finished e | None \<Rightarrow> if check_depth q then l else Crashed)"

definition cellSyncQueuePush :: "u32 \<Rightarrow> u32 \<Rightarrow> u8 list \<Rightarrow> CellSyncQueue \<Rightarrow> queue_local" where
  "cellSyncQueuePush p b x = enter_call (check_ptrs p 32 b) (PushWait x)"

definition cellSyncQueueTryPush :: "u32 \<Rightarrow> u32 \<Rightarrow> u8 list \<Rightarrow> CellSyncQueue \<Rightarrow> queue_local" where
  "cellSyncQueueTryPush p b x = enter_call (check_ptrs p 32 b) (TryPush x)"

definition cellSyncQueuePop :: "u32 \<Rightarrow> u32 \<Rightarrow> CellSyncQueue \<Rightarrow> queue_local" where
  "cellSyncQueuePop p b = enter_call (check_ptrs p 32 b) PopWait"

definition cellSyncQueueTryPop :: "u32 \<Rightarrow> u32 \<Rightarrow> CellSyncQueue \<Rightarrow> queue_local" where
  "cellSyncQueueTryPop p b = enter_call (check_ptrs p 32 b) TryPop"

definition cellSyncQueuePeek :: "u32 \<Rightarrow> u32 \<Rightarrow> CellSyncQueue \<Rightarrow> queue_local" where
  "cellSyncQueuePeek p b = enter_call (check_ptrs p 32 b) PeekWait"

definition cellSyncQueueTryPeek :: "u32 \<Rightarrow> u32 \<Rightarrow> CellSyncQueue \<Rightarrow> queue_local" where
  "cellSyncQueueTryPeek p b = enter_call (check_ptrs p 32 b) TryPeek"

definition cellSyncQueueClear :: "u32 \<Rightarrow> CellSyncQueue \<Rightarrow> queue_local" where
  "cellSyncQueueClear p = enter_call (check_ptr p 32) ClearWait"

definition cellSyncQueueSize :: "u32 \<Rightarrow> CellSyncQueue \<Rightarrow> queue_local" where
  "cellSyncQueueSize p q = enter_call (check_ptr p 32) (Finished (q_count q AND 0xffffff)) q"

text \<open>What a call has accomplished.\<close>

datatype queue_event = DidPush "u8 list" | DidPop "u8 list" | DidPeek "u8 list" | DidClear

text \<open>
  The next atomic operation or byte copy of a call. The waiting forms of push, pop and peek differ
  from the trying forms only when the attempt fails.
\<close>

definition start_copy ::
  "(u32 \<times> CellSyncQueue) option \<Rightarrow> (u32 \<Rightarrow> queue_local) \<Rightarrow> queue_local \<Rightarrow> CellSyncQueue \<Rightarrow>
   queue_local \<times> CellSyncQueue \<times> queue_event list" where
  "start_copy r go fail q = (case r of None \<Rightarrow> (fail, q, []) | Some (position, q') \<Rightarrow> (go position, q', []))"

definition slot :: "u32 \<Rightarrow> CellSyncQueue \<Rightarrow> nat" where
  "slot position q = unat (position mod q_depth q * q_size q)"

fun queue_next :: "bool \<Rightarrow> queue_local \<Rightarrow> CellSyncQueue \<Rightarrow> queue_local \<times> CellSyncQueue \<times> queue_event list" where
  "queue_next stopped (PushWait x) q =
     start_copy (queue_try_push_begin q) (\<lambda>i. Pushing x i 0) (if stopped then Gone False else PushWait x) q"
| "queue_next stopped (TryPush x) q =
     start_copy (queue_try_push_begin q) (\<lambda>i. Pushing x i 0) (Finished CELL_SYNC_ERROR_BUSY) q"
| "queue_next stopped (Pushing x i k) q =
     (if k < unat (q_size q)
      then (Pushing x i (k + 1), q\<lparr>q_data := (q_data q)(unat (i * q_size q) + k := x ! k)\<rparr>, [])
      else (Finished CELL_OK, queue_push_end q, [DidPush x]))"
| "queue_next stopped PopWait q =
     start_copy (queue_try_pop_begin q) (\<lambda>i. Popping i []) (if stopped then Gone False else PopWait) q"
| "queue_next stopped TryPop q =
     start_copy (queue_try_pop_begin q) (\<lambda>i. Popping i []) (Finished CELL_SYNC_ERROR_BUSY) q"
| "queue_next stopped (Popping i bs) q =
     (if length bs < unat (q_size q) then (Popping i (bs @ [q_data q (slot i q + length bs)]), q, [])
      else (Finished CELL_OK, queue_pop_end q, [DidPop bs]))"
| "queue_next stopped PeekWait q =
     start_copy (queue_try_peek_begin q) (\<lambda>i. Peeking i []) (if stopped then Gone False else PeekWait) q"
| "queue_next stopped TryPeek q =
     start_copy (queue_try_peek_begin q) (\<lambda>i. Peeking i []) (Finished CELL_SYNC_ERROR_BUSY) q"
| "queue_next stopped (Peeking i bs) q =
     (if length bs < unat (q_size q) then (Peeking i (bs @ [q_data q (slot i q + length bs)]), q, [])
      else (Finished CELL_OK, queue_pop_end q, [DidPeek bs]))"
| "queue_next stopped ClearWait q =
     (let (ok, q') = queue_try_clear_begin_1 q
      in (if ok then ClearWait2 else if stopped then Gone False else ClearWait, q', []))"
| "queue_next stopped ClearWait2 q =
     (let (ok, q') = queue_try_clear_begin_2 q
      in (if ok then Clearing else if stopped then Gone True else ClearWait2, q', []))"
| "queue_next stopped Clearing q =
     (Finished CELL_OK, q\<lparr>q_next := 0, q_pop := 0, q_count := 0, q_push := 0\<rparr>, [DidClear])"
| "queue_next stopped l q = (l, q, [])"

section \<open>Threads that use the queue\<close>

record queue_sys =
  queue :: CellSyncQueue
  doing :: "nat \<Rightarrow> queue_local"
  history :: "queue_event list"

text \<open>A pushing thread passes as many bytes as an element has.\<close>

definition calls :: "u32 \<Rightarrow> CellSyncQueue \<Rightarrow> queue_local \<Rightarrow> bool" where
  "calls p q l \<longleftrightarrow>
     (\<exists>b x. length x = unat (q_size q) \<and> (l = cellSyncQueuePush p b x q \<or> l = cellSyncQueueTryPush p b x q)) \<or>
     (\<exists>b. l = cellSyncQueuePop p b q \<or> l = cellSyncQueueTryPop p b q \<or> l = cellSyncQueuePeek p b q \<or>
          l = cellSyncQueueTryPeek p b q) \<or>
     l = cellSyncQueueClear p q \<or> l = cellSyncQueueSize p q"

inductive queue_step :: "u32 \<Rightarrow> queue_sys \<Rightarrow> queue_sys \<Rightarrow> bool" for p where
  begin_call: "doing s t = Idle \<Longrightarrow> calls p (queue s) l \<Longrightarrow> queue_step p s (s\<lparr>doing := (doing s)(t := l)\<rparr>)"
| run: "queue_next stopped (doing s t) (queue s) = (l, q, evs) \<Longrightarrow>
    queue_step p s (s\<lparr>queue := q, doing := (doing s)(t := l), history := history s @ evs\<rparr>)"
| leave: "doing s t = Finished e \<Longrightarrow> queue_step p s (s\<lparr>doing := (doing s)(t := Idle)\<rparr>)"

inductive queue_reachable :: "u32 \<Rightarrow> u32 \<Rightarrow> u32 \<Rightarrow> queue_sys \<Rightarrow> bool" for p sz depth where
  start: "cellSyncQueueInitialize p buffer sz depth q = (CELL_OK, q') \<Longrightarrow>
    queue_reachable p sz depth \<lparr>queue = q', doing = (\<lambda>_. Idle), history = []\<rparr>"
| move: "queue_reachable p sz depth s \<Longrightarrow> queue_step p s s' \<Longrightarrow> queue_reachable p sz depth s'"

section \<open>A bounded queue\<close>

fun fifo_step :: "nat \<Rightarrow> u8 list list \<Rightarrow> queue_event \<Rightarrow> u8 list list option" where
  "fifo_step cap xs (DidPush x) = (if length xs < cap then Some (xs @ [x]) else None)"
| "fifo_step cap xs (DidPop y) = (case xs of [] \<Rightarrow> None | x # rest \<Rightarrow> if x = y then Some rest else None)"
| "fifo_step cap xs (DidPeek y) = (case xs of [] \<Rightarrow> None | x # rest \<Rightarrow> if x = y then Some xs else None)"
| "fifo_step cap xs DidClear = Some []"

definition fifo_run :: "nat \<Rightarrow> queue_event list \<Rightarrow> u8 list list option" where
  "fifo_run cap es = fold (\<lambda>e r. Option.bind r (\<lambda>xs. fifo_step cap xs e)) es (Some [])"

lemma fifo_run_Nil [simp]: "fifo_run cap [] = Some []"
  by (simp add: fifo_run_def)

lemma fifo_run_snoc [simp]: "fifo_run cap (es @ [e]) = Option.bind (fifo_run cap es) (\<lambda>xs. fifo_step cap xs e)"
  by (simp add: fifo_run_def)

section \<open>Roles\<close>

text \<open>A role that at most one thread has at a time.\<close>

definition role :: "('l \<Rightarrow> bool) \<Rightarrow> (nat \<Rightarrow> 'l) \<Rightarrow> bool" where
  "role P d \<longleftrightarrow> (\<exists>t. P (d t))"

definition single :: "('l \<Rightarrow> bool) \<Rightarrow> (nat \<Rightarrow> 'l) \<Rightarrow> bool" where
  "single P d \<longleftrightarrow> (\<forall>t u. P (d t) \<and> P (d u) \<longrightarrow> t = u)"

lemma role_upd: "single P d \<Longrightarrow> role P (d(t := l)) \<longleftrightarrow> P l \<or> \<not> P (d t) \<and> role P d"
  by (auto simp: role_def single_def)

lemma single_upd: "single P d \<Longrightarrow> (P l \<Longrightarrow> P (d t) \<or> \<not> role P d) \<Longrightarrow> single P (d(t := l))"
  by (auto simp: role_def single_def)

lemma single_mono: "single P d \<Longrightarrow> (\<And>l. Q l \<Longrightarrow> P l) \<Longrightarrow> single Q d"
  by (auto simp: single_def)

lemma role_has: "P (d t) \<Longrightarrow> role P d"
  by (auto simp: role_def)

fun pushing :: "queue_local \<Rightarrow> bool" where
  "pushing (Pushing x i k) = True" | "pushing l = False"

fun popping :: "queue_local \<Rightarrow> bool" where
  "popping (Popping i bs) = True" | "popping l = False"

fun holds_push :: "queue_local \<Rightarrow> bool" where
  "holds_push (Pushing x i k) = True" | "holds_push Clearing = True" | "holds_push l = False"

fun holds_pop :: "queue_local \<Rightarrow> bool" where
  "holds_pop (Popping i bs) = True" | "holds_pop (Peeking i bs) = True" | "holds_pop ClearWait2 = True"
| "holds_pop Clearing = True" | "holds_pop (Gone b) = b" | "holds_pop l = False"

lemma push_kinds: "pushing l \<Longrightarrow> holds_push l" "popping l \<Longrightarrow> holds_pop l" "holds_push l \<Longrightarrow> \<not> pushing l \<Longrightarrow> l = Clearing"
  by (cases l; simp)+

definition roles_ok :: "CellSyncQueue \<Rightarrow> (nat \<Rightarrow> queue_local) \<Rightarrow> bool" where
  "roles_ok q d \<longleftrightarrow> single holds_push d \<and> single holds_pop d \<and>
     q_push q = of_bool (role holds_push d) \<and> q_pop q = of_bool (role holds_pop d)"

lemma roles_single: "roles_ok q d \<Longrightarrow> single pushing d" "roles_ok q d \<Longrightarrow> single popping d"
  using single_mono [of holds_push d pushing] single_mono [of holds_pop d popping] push_kinds by (auto simp: roles_ok_def)

lemma roles_upd:
  assumes "roles_ok q d" and "holds_push l \<Longrightarrow> holds_push (d t) \<or> q_push q = 0"
    and "holds_pop l \<Longrightarrow> holds_pop (d t) \<or> q_pop q = 0"
    and "q_push q' = (if holds_push l then 1 else if holds_push (d t) then 0 else q_push q)"
    and "q_pop q' = (if holds_pop l then 1 else if holds_pop (d t) then 0 else q_pop q)"
  shows "roles_ok q' (d(t := l))"
  using assms unfolding roles_ok_def by (simp add: role_upd single_upd)

section \<open>What the words and the buffer hold\<close>

definition element :: "CellSyncQueue \<Rightarrow> nat \<Rightarrow> u8 list" where
  "element q j = map (\<lambda>k. q_data q (j * unat (q_size q) + k)) [0 ..< unat (q_size q)]"

fun local_ok :: "CellSyncQueue \<Rightarrow> u8 list list \<Rightarrow> nat \<Rightarrow> queue_local \<Rightarrow> bool" where
  "local_ok q xs h (PushWait x) = (length x = unat (q_size q))"
| "local_ok q xs h (TryPush x) = (length x = unat (q_size q))"
| "local_ok q xs h (Pushing x i k) = (length x = unat (q_size q) \<and> k \<le> unat (q_size q) \<and>
     unat i = (h + length xs) mod unat (q_depth q) \<and> take k (element q (unat i)) = take k x)"
| "local_ok q xs h (Popping i bs) = (xs \<noteq> [] \<and> unat i mod unat (q_depth q) = h \<and> bs = take (length bs) (hd xs))"
| "local_ok q xs h (Peeking i bs) = (xs \<noteq> [] \<and> unat i mod unat (q_depth q) = h \<and> bs = take (length bs) (hd xs))"
| "local_ok q xs h Crashed = False"
| "local_ok q xs h l = True"

text \<open>
  The elements \<open>xs\<close> in the queue start at the slot \<open>h\<close>; one that is being pushed is counted already, one
  that is being popped is not counted any more.
\<close>

definition queue_ok :: "CellSyncQueue \<Rightarrow> (nat \<Rightarrow> queue_local) \<Rightarrow> u8 list list \<Rightarrow> nat \<Rightarrow> bool" where
  "queue_ok q d xs h \<longleftrightarrow> roles_ok q d \<and> h < unat (q_depth q) \<and>
     unat (q_next q) = (h + length xs + of_bool (role pushing d)) mod unat (q_depth q) \<and>
     unat (q_count q) + of_bool (role popping d) = length xs + of_bool (role pushing d) \<and>
     length xs + of_bool (role pushing d) \<le> unat (q_depth q) \<and>
     (\<forall>i < length xs. element q ((h + i) mod unat (q_depth q)) = xs ! i) \<and>
     (\<forall>t. local_ok q xs h (d t))"

definition fits :: "CellSyncQueue \<Rightarrow> bool" where
  "fits q \<longleftrightarrow> 0 < unat (q_depth q) \<and> unat (q_depth q) < 2 ^ 24 \<and> unat (q_depth q) * unat (q_size q) \<le> 2 ^ 32"

text \<open>A step of a thread that has no part in pushing or popping before and after.\<close>

lemma queue_ok_quiet:
  assumes "queue_ok q d xs h" and "holds_push l = holds_push (d t)" and "holds_pop l = holds_pop (d t)"
    and "pushing l = pushing (d t)" and "popping l = popping (d t)" and "local_ok q xs h l"
  shows "queue_ok q (d(t := l)) xs h"
proof -
  have r: "roles_ok q d" using assms(1) by (simp add: queue_ok_def)
  have "role P (d(t := l)) = role P d" if "P l = P (d t)" for P using that by (auto simp: role_def)
  then have "role pushing (d(t := l)) = role pushing d" "role popping (d(t := l)) = role popping d" using assms(4,5) by blast+
  moreover have "roles_ok q (d(t := l))"
    by (rule roles_upd [OF r]) (use assms(2,3) r in \<open>auto simp: roles_ok_def dest: role_has\<close>)
  moreover have "local_ok q xs h ((d(t := l)) u)" for u using assms(1,6) by (simp add: queue_ok_def)
  ultimately show ?thesis using assms(1) unfolding queue_ok_def by (simp del: fun_upd_apply)
qed

lemma element_cong: "q_size q' = q_size q \<Longrightarrow> q_data q' = q_data q \<Longrightarrow> element q' = element q"
  by (simp add: element_def fun_eq_iff)

lemma local_ok_cong:
  assumes "q_size q' = q_size q" and "q_data q' = q_data q" and "q_depth q' = q_depth q"
  shows "local_ok q' xs h l = local_ok q xs h l"
  using assms element_cong [OF assms(1,2)] by (cases l) simp_all

lemma length_element [simp]: "length (element q j) = unat (q_size q)"
  by (simp add: element_def)

lemma unat_take24: "unat w < 2 ^ 24 \<Longrightarrow> unat (take_bit 24 w) = unat w" for w :: u32
  by (simp add: unsigned_take_bit_eq take_bit_nat_eq_self)

lemma queue_bounds:
  assumes "queue_ok q d xs h" and "fits q"
  shows "unat (q_next q) < unat (q_depth q)" "unat (q_count q) \<le> unat (q_depth q)" "unat (q_depth q) < 2 ^ 24"
  using assms by (auto simp: queue_ok_def fits_def intro: le_trans [OF le_add1])

lemma queue_ok_same_data:
  assumes "queue_ok q d xs h" and "roles_ok q' (d(t := l))" and "local_ok q xs h l"
    and "q_size q' = q_size q" and "q_data q' = q_data q" and "q_depth q' = q_depth q"
    and "unat (q_next q') = (h + length xs + of_bool (role pushing (d(t := l)))) mod unat (q_depth q)"
    and "unat (q_count q') + of_bool (role popping (d(t := l))) = length xs + of_bool (role pushing (d(t := l)))"
    and "length xs + of_bool (role pushing (d(t := l))) \<le> unat (q_depth q)"
  shows "queue_ok q' (d(t := l)) xs h"
proof -
  have "local_ok q' xs h ((d(t := l)) u)" for u
    unfolding local_ok_cong [OF assms(4-6)] using assms(1,3) by (simp add: queue_ok_def)
  then show ?thesis
    using assms element_cong [OF assms(4,5)] unfolding queue_ok_def by (simp del: fun_upd_apply)
qed

lemma queue_ok_push_begin:
  assumes "queue_ok q d xs h" and "fits q" and "queue_try_push_begin q = Some (i, q')" and "length x = unat (q_size q)"
    and "\<not> holds_push (d t)" and "\<not> holds_pop (d t)"
  shows "queue_ok q' (d(t := Pushing x i 0)) xs h"
proof -
  let ?D = "unat (q_depth q)" and ?b = "of_bool (role popping d) :: nat"
  note b = queue_bounds [OF assms(1,2)]
  have r: "roles_ok q d" using assms(1) by (simp add: queue_ok_def)
  have push: "q_push q = 0" and room: "q_count q + q_pop q < q_depth q" and i: "i = q_next q"
    and q': "q' = q\<lparr>q_next := take_bit 24 (if q_next q + 1 \<noteq> q_depth q then q_next q + 1 else 0),
                    q_count := take_bit 24 (q_count q + 1), q_push := 1\<rparr>"
    using assms(3) by (auto simp: queue_try_push_begin_def Let_def split: if_splits)
  have none: "\<not> role holds_push d" using r push by (auto simp: roles_ok_def split: if_splits)
  then have a: "\<not> role pushing d" using push_kinds(1) unfolding role_def by blast
  have "unat (q_pop q) \<le> 1" "?b \<le> unat (q_pop q)"
    using r push_kinds(2) by (auto simp: roles_ok_def role_def)
  moreover have "unat (q_count q + q_pop q) = unat (q_count q) + unat (q_pop q)"
    using b calculation(1) by (intro unat_add_lem [THEN iffD1]) simp
  ultimately have c: "unat (q_count q) + ?b < ?D" using room by (simp add: word_less_nat_alt)
  have "unat (q_count q) = unat (q_count q) \<and> unat (q_count q + 1) = unat (q_count q) + 1"
    "unat (q_next q + 1) = unat (q_next q) + 1" using b by (simp_all add: unat_word_ariths)
  then have count: "unat (q_count q') = unat (q_count q) + 1"
    and nxt: "unat (q_next q') = (unat (q_next q) + 1) mod ?D"
    using b c unat_take24 [of "q_count q + 1"] unat_take24 [of "q_next q + 1"] unfolding q'
    by (auto simp: word_unat_eq_iff)
  have roles: "roles_ok q' (d(t := Pushing x i 0))"
    by (rule roles_upd [OF r]) (use push assms(5,6) in \<open>auto simp: q'\<close>)
  have rp: "role pushing (d(t := Pushing x i 0))" "role popping (d(t := Pushing x i 0)) = role popping d"
    using role_upd [OF roles_single(1) [OF r], of t "Pushing x i 0"] role_upd [OF roles_single(2) [OF r], of t "Pushing x i 0"]
      push_kinds(2) [of "d t"] assms(6) by auto
  show ?thesis
  proof (rule queue_ok_same_data [OF assms(1)])
    show "local_ok q xs h (Pushing x i 0)" using assms(1,4) a by (simp add: queue_ok_def i)
    show "unat (q_next q') = (h + length xs + of_bool (role pushing (d(t := Pushing x i 0)))) mod ?D"
      using nxt assms(1) a rp unfolding queue_ok_def by (simp add: mod_Suc_eq)
  qed (use assms(1) roles rp count c a in \<open>auto simp: queue_ok_def q'\<close>)
qed

text \<open>When the popping side is free and an element is complete, the position is that of the oldest one.\<close>

lemma pop_position:
  assumes "queue_ok q d xs h" and "fits q" and "q_pop q = 0" and "\<not> q_count q \<le> q_push q"
  shows "xs \<noteq> []" and "unat (q_next q + q_depth q - q_count q) mod unat (q_depth q) = h"
    and "\<not> role holds_pop d" and "unat (q_count q) = length xs + of_bool (role pushing d)"
proof -
  let ?D = "unat (q_depth q)"
  note b = queue_bounds [OF assms(1,2)]
  have r: "roles_ok q d" using assms(1) by (simp add: queue_ok_def)
  show free: "\<not> role holds_pop d" using r assms(3) by (auto simp: roles_ok_def split: if_splits)
  then have nopop: "\<not> role popping d" using push_kinds(2) unfolding role_def by blast
  then show c: "unat (q_count q) = length xs + of_bool (role pushing d)" using assms(1) by (simp add: queue_ok_def)
  have "d t \<noteq> Clearing" for t using free role_has [of holds_pop d t] by auto
  then have "role holds_push d \<longleftrightarrow> role pushing d" using push_kinds(1,3) unfolding role_def by blast
  then have "unat (q_push q) = of_bool (role pushing d)" using r by (simp add: roles_ok_def)
  then show "xs \<noteq> []" using assms(4) c by (auto simp: word_le_nat_alt)
  have "unat (q_next q + q_depth q) = unat (q_next q) + ?D" using b by (simp add: unat_word_ariths)
  moreover from this have "unat (q_next q + q_depth q - q_count q) = unat (q_next q) + ?D - unat (q_count q)"
    using b by (subst unat_sub) (simp_all add: word_le_nat_alt)
  ultimately have "unat (q_next q + q_depth q - q_count q) = unat (q_next q) + (?D - unat (q_count q))" using b by simp
  also have "\<dots> mod ?D = (h + unat (q_count q) + (?D - unat (q_count q))) mod ?D"
  proof -
    have "unat (q_next q) = (h + unat (q_count q)) mod ?D" using assms(1) c unfolding queue_ok_def by (metis add.assoc)
    then show ?thesis using mod_add_left_eq [of "h + unat (q_count q)" ?D "?D - unat (q_count q)"] by metis
  qed
  also have "\<dots> = h" using b(2) assms(1) by (simp add: queue_ok_def)
  finally show "unat (q_next q + q_depth q - q_count q) mod ?D = h" .
qed

lemma queue_ok_pop_begin:
  assumes "queue_ok q d xs h" and "fits q" and "queue_try_pop_begin q = Some (i, q')"
    and "\<not> holds_push (d t)" and "\<not> holds_pop (d t)"
  shows "queue_ok q' (d(t := Popping i [])) xs h"
proof -
  have r: "roles_ok q d" using assms(1) by (simp add: queue_ok_def)
  have pop: "q_pop q = 0" and some: "\<not> q_count q \<le> q_push q" and i: "i = q_next q + q_depth q - q_count q"
    and q': "q' = q\<lparr>q_pop := 1, q_count := take_bit 24 (q_count q - 1)\<rparr>"
    using assms(3) by (auto simp: queue_try_pop_begin_def Let_def split: if_splits)
  note p = pop_position [OF assms(1,2) pop some] and b = queue_bounds [OF assms(1,2)]
  have "q_count q \<noteq> 0" using some by auto
  then have "unat (q_count q - 1) = unat (q_count q) - 1" "0 < unat (q_count q)"
    using unat_minus_one by (auto simp: unat_gt_0)
  then have count: "unat (q_count q') + 1 = unat (q_count q)" using b unat_take24 [of "q_count q - 1"] by (simp add: q')
  have "role popping (d(t := Popping i []))" "role pushing (d(t := Popping i [])) = role pushing d"
    using role_upd [OF roles_single(1) [OF r], of t "Popping i []"] role_upd [OF roles_single(2) [OF r], of t "Popping i []"]
      push_kinds(1) [of "d t"] assms(4) by auto
  moreover have "roles_ok q' (d(t := Popping i []))"
    by (rule roles_upd [OF r]) (use pop assms(4,5) in \<open>auto simp: q'\<close>)
  ultimately show ?thesis
    using p count assms(1) by (intro queue_ok_same_data [OF assms(1)]) (auto simp: queue_ok_def q' i)
qed

lemma queue_ok_peek_begin:
  assumes "queue_ok q d xs h" and "fits q" and "queue_try_peek_begin q = Some (i, q')"
    and "\<not> holds_push (d t)" and "\<not> holds_pop (d t)"
  shows "queue_ok q' (d(t := Peeking i [])) xs h"
proof -
  have r: "roles_ok q d" using assms(1) by (simp add: queue_ok_def)
  have pop: "q_pop q = 0" and some: "\<not> q_count q \<le> q_push q" and i: "i = q_next q + q_depth q - q_count q"
    and q': "q' = q\<lparr>q_pop := 1\<rparr>"
    using assms(3) by (auto simp: queue_try_peek_begin_def Let_def split: if_splits)
  note p = pop_position [OF assms(1,2) pop some]
  have "role popping (d(t := Peeking i [])) = role popping d" "role pushing (d(t := Peeking i [])) = role pushing d"
    using role_upd [OF roles_single(1) [OF r], of t "Peeking i []"] role_upd [OF roles_single(2) [OF r], of t "Peeking i []"]
      push_kinds(1,2) [of "d t"] assms(4,5) by auto
  moreover have "roles_ok q' (d(t := Peeking i []))"
    by (rule roles_upd [OF r]) (use pop assms(4,5) in \<open>auto simp: q'\<close>)
  ultimately show ?thesis
    using p assms(1) by (intro queue_ok_same_data [OF assms(1)]) (auto simp: queue_ok_def q' i)
qed

lemma slot_nat:
  assumes "fits q" and "j < unat (q_depth q)" and "unat i = j"
  shows "unat (i * q_size q) = j * unat (q_size q)"
proof (cases "unat (q_size q) = 0")
  case True
  then show ?thesis by (simp add: unat_eq_zero)
next
  case False
  have "(j + 1) * unat (q_size q) \<le> unat (q_depth q) * unat (q_size q)"
    using assms(2) by (intro mult_le_mono1) simp
  then have "j * unat (q_size q) < 2 ^ 32" using assms(1) False by (simp add: fits_def)
  then show ?thesis using assms(3) by (simp add: unat_word_ariths)
qed

lemma slot_eq:
  assumes "fits q" and "unat i mod unat (q_depth q) = h"
  shows "slot i q = h * unat (q_size q)"
  unfolding slot_def
  by (rule slot_nat) (use assms in \<open>auto simp: fits_def unat_mod\<close>)

lemma element_nth: "k < unat (q_size q) \<Longrightarrow> element q j ! k = q_data q (j * unat (q_size q) + k)"
  by (simp add: element_def)

text \<open>Reading: the bytes read so far are a prefix of the oldest element.\<close>

lemma read_prefix:
  assumes "queue_ok q d xs h" and "fits q" and "xs \<noteq> []" and "unat i mod unat (q_depth q) = h"
    and "bs = take (length bs) (hd xs)" and "length bs < unat (q_size q)"
  shows "bs @ [q_data q (slot i q + length bs)] = take (length (bs @ [q_data q (slot i q + length bs)])) (hd xs)"
proof -
  have "h < unat (q_depth q)" "\<forall>i < length xs. element q ((h + i) mod unat (q_depth q)) = xs ! i"
    using assms(1) by (simp_all add: queue_ok_def)
  then have "element q h = hd xs" using assms(3) by (cases xs) (auto dest: spec [of _ 0])
  then have "hd xs ! length bs = q_data q (slot i q + length bs)" "length (hd xs) = unat (q_size q)"
    using element_nth [OF assms(6), of h] slot_eq [OF assms(2,4)] length_element [of q h] by simp_all
  then show ?thesis using assms(5,6) take_Suc_conv_app_nth [of "length bs" "hd xs"] by simp
qed

lemma read_all:
  assumes "queue_ok q d xs h" and "xs \<noteq> []" and "bs = take (length bs) (hd xs)" and "\<not> length bs < unat (q_size q)"
  shows "bs = hd xs"
proof -
  have "h < unat (q_depth q)" "\<forall>i < length xs. element q ((h + i) mod unat (q_depth q)) = xs ! i"
    using assms(1) by (simp_all add: queue_ok_def)
  then have "element q h = hd xs" using assms(2) by (cases xs) (auto dest: spec [of _ 0])
  then have "length (hd xs) = unat (q_size q)" using length_element [of q h] by simp
  then show ?thesis using assms(3,4) by simp
qed

lemma queue_ok_peek_end:
  assumes "queue_ok q d xs h" and "d t = Peeking i bs"
  shows "queue_ok (queue_pop_end q) (d(t := Finished CELL_OK)) xs h"
proof -
  have r: "roles_ok q d" using assms(1) by (simp add: queue_ok_def)
  have "role popping (d(t := Finished CELL_OK)) = role popping d" "role pushing (d(t := Finished CELL_OK)) = role pushing d"
    using role_upd [OF roles_single(1) [OF r], of t "Finished CELL_OK"] role_upd [OF roles_single(2) [OF r], of t "Finished CELL_OK"]
      assms(2) by auto
  moreover have "roles_ok (queue_pop_end q) (d(t := Finished CELL_OK))"
    by (rule roles_upd [OF r]) (use assms(2) in \<open>auto simp: queue_pop_end_def\<close>)
  ultimately show ?thesis
    using assms(1) by (intro queue_ok_same_data [OF assms(1)]) (auto simp: queue_ok_def queue_pop_end_def)
qed

lemma holds_only:
  "roles_ok q d \<Longrightarrow> holds_pop (d t) \<Longrightarrow> u \<noteq> t \<Longrightarrow> \<not> holds_pop (d u)"
  "roles_ok q d \<Longrightarrow> holds_push (d t) \<Longrightarrow> u \<noteq> t \<Longrightarrow> \<not> holds_push (d u)"
  by (auto simp: roles_ok_def single_def)

lemma queue_ok_pop_end:
  assumes "queue_ok q d (x # xs) h" and "d t = Popping i bs"
  shows "queue_ok (queue_pop_end q) (d(t := Finished CELL_OK)) xs ((h + 1) mod unat (q_depth q))"
    (is "queue_ok ?q ?d xs ?h")
proof -
  let ?D = "unat (q_depth q)"
  have r: "roles_ok q d" using assms(1) by (simp add: queue_ok_def)
  have D: "0 < ?D" using assms(1) by (simp add: queue_ok_def)
  have move: "(?h + n) mod ?D = (h + (n + 1)) mod ?D" for n
    using mod_add_left_eq [of "h + 1" ?D n] by (simp add: ac_simps)
  have roles: "roles_ok ?q ?d" by (rule roles_upd [OF r]) (use assms(2) in \<open>auto simp: queue_pop_end_def\<close>)
  have rp: "\<not> role popping ?d" "role popping d" "role pushing ?d = role pushing d"
    using role_upd [OF roles_single(1) [OF r], of t "Finished CELL_OK"] role_upd [OF roles_single(2) [OF r], of t "Finished CELL_OK"]
      assms(2) role_has [of popping d t] by auto
  have loc: "local_ok ?q xs ?h (?d u)" for u
  proof (cases "u = t")
    case False
    have "\<not> holds_pop (d u)" using holds_only(1) [OF r, of t u] assms(2) False by simp
    moreover have "local_ok q (x # xs) h (d u)" using assms(1) by (simp add: queue_ok_def)
    ultimately have "local_ok q xs ?h (d u)" using move [of "length xs"] by (cases "d u") auto
    then show ?thesis using False local_ok_cong [of ?q q] by (simp add: queue_pop_end_def)
  qed simp
  have el: "element ?q = element q" by (rule element_cong) (simp_all add: queue_pop_end_def)
  have "element q ((?h + j) mod ?D) = xs ! j" if "j < length xs" for j
    using assms(1) that unfolding move queue_ok_def by (auto dest!: spec [of _ "j + 1"])
  moreover have "unat (q_next q) = (?h + (length xs + of_bool (role pushing d))) mod ?D"
    unfolding move using assms(1) by (simp add: queue_ok_def ac_simps)
  ultimately show ?thesis
    unfolding queue_ok_def using roles rp loc D assms(1) el
    by (auto simp: queue_pop_end_def queue_ok_def add.assoc simp del: fun_upd_apply)
qed

text \<open>Writing: the slot being filled is none of the elements' slots.\<close>

lemma slots_apart:
  assumes "i < n" and "n < (D::nat)"
  shows "(h + i) mod D \<noteq> (h + n) mod D"
proof
  assume "(h + i) mod D = (h + n) mod D"
  then have "D dvd (h + n) - (h + i)" using assms(1) by (intro mod_eq_dvd_iff_nat [THEN iffD1]) simp_all
  then have "D dvd n - i" by simp
  then show False using assms dvd_imp_le [of D "n - i"] by simp
qed

lemma element_upd:
  assumes "k < unat (q_size q)"
  shows "element (q\<lparr>q_data := (q_data q)(j * unat (q_size q) + k := y)\<rparr>) j' =
    (if j' = j then (element q j)[k := y] else element q j')"
proof (rule nth_equalityI)
  let ?Z = "unat (q_size q)" and ?q = "q\<lparr>q_data := (q_data q)(j * unat (q_size q) + k := y)\<rparr>"
  fix l assume "l < length (element ?q j')"
  then have l: "l < ?Z" by simp
  have "j' * ?Z + l = j * ?Z + k \<longleftrightarrow> j' = j \<and> l = k"
  proof
    assume e: "j' * ?Z + l = j * ?Z + k"
    from arg_cong [OF e, of "\<lambda>n. n div ?Z"] l assms have "j' = j" by simp
    then show "j' = j \<and> l = k" using e by simp
  qed simp
  then show "element ?q j' ! l = (if j' = j then (element q j)[k := y] else element q j') ! l"
    using l by (auto simp: element_nth element_def nth_list_update)
qed simp

lemma queue_ok_copy:
  assumes "queue_ok q d xs h" and "fits q" and "d t = Pushing x i k" and "k < unat (q_size q)"
  shows "queue_ok (q\<lparr>q_data := (q_data q)(unat (i * q_size q) + k := x ! k)\<rparr>) (d(t := Pushing x i (k + 1))) xs h"
    (is "queue_ok ?q ?d xs h")
proof -
  let ?D = "unat (q_depth q)" and ?Z = "unat (q_size q)"
  have r: "roles_ok q d" and lo: "local_ok q xs h (d u)" for u using assms(1) by (simp_all add: queue_ok_def)
  have i: "unat i = (h + length xs) mod ?D" and x: "length x = ?Z" "take k (element q (unat i)) = take k x"
    using lo [of t] assms(3) by auto
  have full: "length xs < ?D"
    using assms(1,3) role_has [of pushing d t] by (simp add: queue_ok_def)
  then have "unat i < ?D" using i by simp
  then have el: "element ?q j = (if j = unat i then (element q (unat i))[k := x ! k] else element q j)" for j
    using element_upd [OF assms(4), of "unat i" "x ! k" j] slot_nat [OF assms(2) _ refl, of i] by simp
  have "take (k + 1) (element ?q (unat i)) = take (k + 1) x"
    using x assms(4) by (simp add: el take_Suc_conv_app_nth)
  then have own: "local_ok ?q xs h (Pushing x i (k + 1))" using x(1) i assms(4) by simp
  have loc: "local_ok ?q xs h (?d u)" for u
  proof (cases "u = t")
    case False
    have "\<not> holds_push (d u)" using holds_only(2) [OF r, of t u] assms(3) False by simp
    then have "local_ok ?q xs h (d u)" using lo [of u] by (cases "d u") simp_all
    then show ?thesis using False by simp
  qed (use own in \<open>simp only: fun_upd_same\<close>)
  have same: "role P ?d = role P d" if "P (Pushing x i (k + 1)) = P (Pushing x i k)" for P
  proof -
    have "P (?d u) = P (d u)" for u using that assms(3) by simp
    then show ?thesis unfolding role_def by presburger
  qed
  have "role pushing ?d = role pushing d" "role popping ?d = role popping d" by (rule same; simp)+
  moreover have "roles_ok ?q ?d"
    by (rule roles_upd [OF r]) (use r assms(3) role_has [of holds_push d t] in \<open>auto simp: roles_ok_def\<close>)
  moreover have "element ?q ((h + j) mod ?D) = xs ! j" if "j < length xs" for j
    using slots_apart [OF that full, of h] that assms(1) by (simp add: el i queue_ok_def)
  ultimately show ?thesis
    using assms(1) loc unfolding queue_ok_def by (auto simp del: fun_upd_apply)
qed

lemma queue_ok_push_end:
  assumes "queue_ok q d xs h" and "d t = Pushing x i k" and "\<not> k < unat (q_size q)"
  shows "queue_ok (queue_push_end q) (d(t := Finished CELL_OK)) (xs @ [x]) h" (is "queue_ok ?q ?d _ h")
    and "length xs < unat (q_depth q)"
proof -
  let ?D = "unat (q_depth q)"
  have r: "roles_ok q d" and lo: "local_ok q xs h (d u)" for u using assms(1) by (simp_all add: queue_ok_def)
  have "local_ok q xs h (Pushing x i k)" using lo [of t] by (simp only: assms(2))
  then have x: "element q ((h + length xs) mod ?D) = x" using assms(3) by auto
  have a: "role pushing d" using assms(2) role_has [of pushing d t] by simp
  then show full: "length xs < ?D" using assms(1) by (simp add: queue_ok_def)
  have roles: "roles_ok ?q ?d" by (rule roles_upd [OF r]) (use assms(2) in \<open>auto simp: queue_push_end_def\<close>)
  have rp: "\<not> role pushing ?d" "role popping ?d = role popping d"
    using role_upd [OF roles_single(1) [OF r], of t "Finished CELL_OK"] role_upd [OF roles_single(2) [OF r], of t "Finished CELL_OK"]
      assms(2) by auto
  have loc: "local_ok ?q (xs @ [x]) h (?d u)" for u
  proof (cases "u = t")
    case False
    have "\<not> holds_push (d u)" using holds_only(2) [OF r, of t u] assms(2) False by simp
    then have "local_ok q (xs @ [x]) h (d u)" using lo [of u] by (cases "d u") simp_all
    then show ?thesis using False local_ok_cong [of ?q q] by (simp add: queue_push_end_def)
  qed simp
  have el: "element ?q = element q" by (rule element_cong) (simp_all add: queue_push_end_def)
  have "element q ((h + j) mod ?D) = (xs @ [x]) ! j" if "j < length (xs @ [x])" for j
    using assms(1) x that by (cases "j = length xs") (auto simp: queue_ok_def nth_append)
  then show "queue_ok ?q ?d (xs @ [x]) h"
    unfolding queue_ok_def using roles rp a loc assms(1) el
    by (auto simp: queue_push_end_def queue_ok_def simp del: fun_upd_apply)
qed

lemma queue_ok_clear_begin:
  assumes "queue_ok q d xs h" and "d t = ClearWait" and "q_pop q = 0"
  shows "queue_ok (q\<lparr>q_pop := 1\<rparr>) (d(t := ClearWait2)) xs h"
proof -
  have r: "roles_ok q d" using assms(1) by (simp add: queue_ok_def)
  have "role pushing (d(t := ClearWait2)) = role pushing d" "role popping (d(t := ClearWait2)) = role popping d"
    using role_upd [OF roles_single(1) [OF r], of t ClearWait2] role_upd [OF roles_single(2) [OF r], of t ClearWait2] assms(2) by auto
  moreover have "roles_ok (q\<lparr>q_pop := 1\<rparr>) (d(t := ClearWait2))" by (rule roles_upd [OF r]) (use assms(2,3) in auto)
  ultimately show ?thesis using assms(1) by (intro queue_ok_same_data [OF assms(1)]) (auto simp: queue_ok_def)
qed

lemma queue_ok_clear_both:
  assumes "queue_ok q d xs h" and "d t = ClearWait2" and "q_push q = 0"
  shows "queue_ok (q\<lparr>q_push := 1\<rparr>) (d(t := Clearing)) xs h"
proof -
  have r: "roles_ok q d" using assms(1) by (simp add: queue_ok_def)
  have "q_pop q = 1" using r assms(2) role_has [of holds_pop d t] by (simp add: roles_ok_def)
  moreover have "role pushing (d(t := Clearing)) = role pushing d" "role popping (d(t := Clearing)) = role popping d"
    using role_upd [OF roles_single(1) [OF r], of t Clearing] role_upd [OF roles_single(2) [OF r], of t Clearing] assms(2) by auto
  moreover have "roles_ok (q\<lparr>q_push := 1\<rparr>) (d(t := Clearing))" by (rule roles_upd [OF r]) (use assms(2,3) calculation(1) in auto)
  ultimately show ?thesis using assms(1) by (intro queue_ok_same_data [OF assms(1)]) (auto simp: queue_ok_def)
qed

lemma queue_ok_clear:
  assumes "queue_ok q d xs h" and "d t = Clearing"
  shows "queue_ok (q\<lparr>q_next := 0, q_pop := 0, q_count := 0, q_push := 0\<rparr>) (d(t := Finished CELL_OK)) [] 0"
    (is "queue_ok ?q ?d [] 0")
proof -
  have r: "roles_ok q d" and lo: "local_ok q xs h (d u)" for u using assms(1) by (simp_all add: queue_ok_def)
  have out: "\<not> holds_push (d u) \<and> \<not> holds_pop (d u)" if "u \<noteq> t" for u
    using holds_only [OF r, of t u] assms(2) that by simp
  have loc: "local_ok ?q [] 0 (?d u)" for u
  proof (cases "u = t")
    case False
    then show ?thesis using lo [of u] out [of u] by (cases "d u") auto
  qed simp
  have "\<not> role pushing ?d" "\<not> role popping ?d" using out push_kinds(1,2) by (auto simp: role_def)
  moreover have "roles_ok ?q ?d" by (rule roles_upd [OF r]) (use assms(2) in auto)
  moreover have "0 < unat (q_depth q)" using assms(1) by (auto simp: queue_ok_def)
  ultimately show ?thesis unfolding queue_ok_def using loc by (simp del: fun_upd_apply)
qed

lemma start_copy_ok:
  assumes "\<And>i q'. r = Some (i, q') \<Longrightarrow> queue_ok q' (d(t := go i)) xs h" and "queue_ok q (d(t := fail)) xs h"
  shows "case start_copy r go fail q of (l, q', evs) \<Rightarrow> queue_ok q' (d(t := l)) xs h \<and> evs = []"
  using assms by (auto simp: start_copy_def split: option.split prod.split)

definition queue_inv :: "queue_sys \<Rightarrow> bool" where
  "queue_inv s \<longleftrightarrow> (\<exists>xs h. fifo_run (unat (q_depth (queue s))) (history s) = Some xs \<and> queue_ok (queue s) (doing s) xs h)"

text \<open>One operation of a call either leaves the abstract queue or makes the step it reports.\<close>

lemma queue_ok_next:
  assumes ok: "queue_ok q d xs h" and fits: "fits q"
  shows "case queue_next stopped (d t) q of (l, q', evs) \<Rightarrow>
    \<exists>xs' h'. queue_ok q' (d(t := l)) xs' h' \<and> q_depth q' = q_depth q \<and> q_size q' = q_size q \<and>
      (evs = [] \<and> xs' = xs \<or> (\<exists>e. evs = [e] \<and> fifo_step (unat (q_depth q)) xs e = Some xs'))"
proof -
  have lo: "local_ok q xs h (d t)" using ok by (simp add: queue_ok_def)
  note quiet = queue_ok_quiet [OF ok, where t = t]
  have sizes: "queue_try_push_begin q = Some (i, q') \<Longrightarrow> q_depth q' = q_depth q \<and> q_size q' = q_size q"
    "queue_try_pop_begin q = Some (i, q') \<Longrightarrow> q_depth q' = q_depth q \<and> q_size q' = q_size q"
    "queue_try_peek_begin q = Some (i, q') \<Longrightarrow> q_depth q' = q_depth q \<and> q_size q' = q_size q" for i q'
    by (auto simp: queue_try_push_begin_def queue_try_pop_begin_def queue_try_peek_begin_def Let_def split: if_splits)
  show ?thesis
  proof (cases "d t")
    case (PushWait x)
    with lo sizes(1) show ?thesis
      by (auto simp: start_copy_def intro!: exI [of _ h] queue_ok_push_begin [OF ok fits] quiet split: option.split)
  next
    case (TryPush x)
    with lo sizes(1) show ?thesis
      by (auto simp: start_copy_def intro!: exI [of _ h] queue_ok_push_begin [OF ok fits] quiet split: option.split)
  next
    case PopWait
    with sizes(2) show ?thesis
      by (auto simp: start_copy_def intro!: exI [of _ h] queue_ok_pop_begin [OF ok fits] quiet split: option.split)
  next
    case TryPop
    with sizes(2) show ?thesis
      by (auto simp: start_copy_def intro!: exI [of _ h] queue_ok_pop_begin [OF ok fits] quiet split: option.split)
  next
    case PeekWait
    with sizes(3) show ?thesis
      by (auto simp: start_copy_def intro!: exI [of _ h] queue_ok_peek_begin [OF ok fits] quiet split: option.split)
  next
    case TryPeek
    with sizes(3) show ?thesis
      by (auto simp: start_copy_def intro!: exI [of _ h] queue_ok_peek_begin [OF ok fits] quiet split: option.split)
  next
    case (Pushing x i k)
    show ?thesis
    proof (cases "k < unat (q_size q)")
      case True
      then show ?thesis using Pushing queue_ok_copy [OF ok fits Pushing True] by auto
    next
      case False
      then show ?thesis using Pushing queue_ok_push_end [OF ok Pushing False]
        by (auto simp: queue_push_end_def intro!: exI [of _ "xs @ [x]"])
    qed
  next
    case (Popping i bs)
    then have p: "xs \<noteq> []" "unat i mod unat (q_depth q) = h" "bs = take (length bs) (hd xs)" using lo by simp_all
    show ?thesis
    proof (cases "length bs < unat (q_size q)")
      case True
      have "local_ok q xs h (Popping i (bs @ [q_data q (slot i q + length bs)]))"
        unfolding local_ok.simps using p(1,2) read_prefix [OF ok fits p True] by blast
      from quiet [OF _ _ _ _ this] show ?thesis using Popping True by auto
    next
      case False
      obtain y ys where xs: "xs = y # ys" using p(1) by (cases xs) auto
      have "bs = y" using read_all [OF ok p(1,3) False] xs by simp
      then show ?thesis using Popping False queue_ok_pop_end [OF ok [unfolded xs] Popping] xs
        by (auto simp: queue_pop_end_def)
    qed
  next
    case (Peeking i bs)
    then have p: "xs \<noteq> []" "unat i mod unat (q_depth q) = h" "bs = take (length bs) (hd xs)" using lo by simp_all
    show ?thesis
    proof (cases "length bs < unat (q_size q)")
      case True
      have "local_ok q xs h (Peeking i (bs @ [q_data q (slot i q + length bs)]))"
        unfolding local_ok.simps using p(1,2) read_prefix [OF ok fits p True] by blast
      from quiet [OF _ _ _ _ this] show ?thesis using Peeking True by auto
    next
      case False
      then have "fifo_step (unat (q_depth q)) xs (DidPeek bs) = Some xs"
        using read_all [OF ok p(1,3) False] p(1) by (cases xs) simp_all
      then show ?thesis using Peeking False queue_ok_peek_end [OF ok Peeking] by (auto simp: queue_pop_end_def)
    qed
  next
    case ClearWait
    then show ?thesis using queue_ok_clear_begin [OF ok ClearWait]
      by (auto simp: queue_try_clear_begin_1_def intro!: exI [of _ h] quiet)
  next
    case ClearWait2
    then show ?thesis using queue_ok_clear_both [OF ok ClearWait2]
      by (auto simp: queue_try_clear_begin_2_def intro!: exI [of _ h] quiet)
  next
    case Clearing
    then show ?thesis using queue_ok_clear [OF ok Clearing] by auto
  qed (use ok in \<open>auto simp: fun_upd_idem\<close>)
qed

lemma enter_call_cases: "check_depth q \<Longrightarrow> enter_call err l q = l \<or> (\<exists>e. enter_call err l q = Finished e)"
  by (cases err) (simp_all add: enter_call_def)

lemma calls_quiet:
  assumes "calls p q l" and "check_depth q"
  shows "\<not> holds_push l \<and> \<not> holds_pop l \<and> local_ok q xs h l"
proof -
  have "l \<in> {PopWait, TryPop, PeekWait, TryPeek, ClearWait} \<or> (\<exists>e. l = Finished e) \<or>
      (\<exists>x. length x = unat (q_size q) \<and> (l = PushWait x \<or> l = TryPush x))"
    using assms(1) enter_call_cases [OF assms(2)]
    unfolding calls_def cellSyncQueuePush_def cellSyncQueueTryPush_def cellSyncQueuePop_def cellSyncQueueTryPop_def
      cellSyncQueuePeek_def cellSyncQueueTryPeek_def cellSyncQueueClear_def cellSyncQueueSize_def by blast
  then show ?thesis by auto
qed

lemma queue_ok_begin:
  assumes "queue_ok q d xs h" and "fits q" and "\<not> holds_push (d t)" and "\<not> holds_pop (d t)" and "calls p q l"
  shows "queue_ok q (d(t := l)) xs h"
proof (rule queue_ok_quiet [OF assms(1)])
  have "check_depth q"
    using queue_bounds [OF assms(1,2)] by (simp add: check_depth_def word_less_nat_alt)
  then have "\<not> holds_push l \<and> \<not> holds_pop l \<and> local_ok q xs h l" using calls_quiet assms(5) by blast
  then show "holds_push l = holds_push (d t)" "holds_pop l = holds_pop (d t)" "pushing l = pushing (d t)"
    "popping l = popping (d t)" "local_ok q xs h l"
    using assms(3,4) push_kinds(1,2) by blast+
qed

lemma queue_inv_step:
  assumes "queue_step p s s'" and "queue_inv s" and "fits (queue s)"
  shows "queue_inv s' \<and> q_depth (queue s') = q_depth (queue s) \<and> q_size (queue s') = q_size (queue s)"
proof -
  obtain xs h where xs: "fifo_run (unat (q_depth (queue s))) (history s) = Some xs" and ok: "queue_ok (queue s) (doing s) xs h"
    using assms(2) by (auto simp: queue_inv_def)
  show ?thesis using assms(1)
  proof cases
    case (begin_call t l)
    then show ?thesis using xs queue_ok_begin [OF ok assms(3), of t p l] by (auto simp: queue_inv_def)
  next
    case (run stopped t l q evs)
    obtain xs' h' where n: "queue_ok q ((doing s)(t := l)) xs' h'" "q_depth q = q_depth (queue s)" "q_size q = q_size (queue s)"
      "evs = [] \<and> xs' = xs \<or> (\<exists>e. evs = [e] \<and> fifo_step (unat (q_depth (queue s))) xs e = Some xs')"
      using queue_ok_next [OF ok assms(3), where t = t and stopped = stopped] run(2) by auto
    then have "fifo_run (unat (q_depth q)) (history s @ evs) = Some xs'" using xs by auto
    then show ?thesis using run(1) n by (auto simp: queue_inv_def)
  next
    case (leave t e)
    then show ?thesis using xs queue_ok_quiet [OF ok, of Idle t] by (auto simp: queue_inv_def)
  qed
qed

text \<open>A push that has its position runs to its end.\<close>

lemma push_completes:
  assumes "queue_reachable p sz depth s" and "doing s t = Pushing x i k" and "k \<le> unat (q_size (queue s))"
  shows "\<exists>s'. queue_reachable p sz depth s' \<and> history s' = history s @ [DidPush x]"
  using assms
proof (induction "unat (q_size (queue s)) - k" arbitrary: s k)
  case 0
  then have "queue_next False (doing s t) (queue s) = (Finished CELL_OK, queue_push_end (queue s), [DidPush x])" by simp
  from queue_reachable.move [OF 0(2) queue_step.run [OF this]] show ?case by fastforce
next
  case (Suc n)
  then have "queue_next False (doing s t) (queue s) =
    (Pushing x i (k + 1), (queue s)\<lparr>q_data := (q_data (queue s))(unat (i * q_size (queue s)) + k := x ! k)\<rparr>, [])" by simp
  from Suc(1) [OF _ queue_reachable.move [OF Suc(3) queue_step.run [OF this]], of "k + 1"] Suc(2,5) show ?case by simp
qed

text \<open>
  Claim C4. The ring buffer is a bounded first-in first-out queue. Whatever calls any number of threads
  make in whatever order, on a queue of less than \<open>2 ^ 24\<close> elements whose buffer fits the address
  space, the completed pushes, pops, peeks and clears form a legal history of a queue of that
  capacity: every pop and peek delivers, untorn, the oldest element pushed and not yet popped, nothing
  is lost, duplicated or overwritten, the capacity is never exceeded, and \<^verbatim>\<open>check_depth\<close> never throws.
  When no thread is inside a push or a pop, \<^verbatim>\<open>cellSyncQueueSize\<close> returns the number of elements.
\<close>

theorem sync_queue_fifo:
  assumes "queue_reachable p sz depth s" and "unat depth < 2 ^ 24" and "unat depth * unat sz \<le> 2 ^ 32"
  shows "\<exists>xs. fifo_run (unat depth) (history s) = Some xs \<and> length xs \<le> unat depth \<and>
    (\<forall>t. doing s t \<noteq> Crashed) \<and>
    ((\<forall>t. \<not> pushing (doing s t) \<and> \<not> popping (doing s t)) \<longrightarrow>
      cellSyncQueueSize p (queue s) = Finished (of_nat (length xs)))"
proof -
  have inv: "queue_inv s \<and> q_depth (queue s) = depth \<and> q_size (queue s) = sz \<and> fits (queue s) \<and> check_ptr p 32 = None"
    using assms(1)
  proof induction
    case (start buffer q q')
    then have "p \<noteq> 0 \<and> ptr_aligned p 32 \<and> depth \<noteq> 0 \<and>
        q' = q\<lparr>q_next := 0, q_pop := 0, q_count := 0, q_push := 0, q_size := sz, q_depth := depth, q_buffer := buffer\<rparr>"
      by (auto simp: cellSyncQueueInitialize_def split: if_splits)
    then show ?case using assms(2,3)
      by (auto simp: queue_inv_def queue_ok_def roles_ok_def single_def role_def fits_def check_ptr_def unat_gt_0 intro!: exI [of _ 0])
  next
    case (move s s')
    then show ?case using queue_inv_step [OF move(2)] by (auto simp: fits_def)
  qed
  then obtain xs h where xs: "fifo_run (unat depth) (history s) = Some xs" and ok: "queue_ok (queue s) (doing s) xs h"
    by (auto simp: queue_inv_def)
  have fits: "fits (queue s)" using inv by blast
  have "local_ok (queue s) xs h (doing s t)" for t using ok by (simp add: queue_ok_def)
  then have "doing s t \<noteq> Crashed" for t by (metis local_ok.simps(6))
  moreover have "length xs \<le> unat depth" using ok inv by (simp add: queue_ok_def)
  moreover have "cellSyncQueueSize p (queue s) = Finished (of_nat (length xs))"
    if "\<forall>t. \<not> pushing (doing s t) \<and> \<not> popping (doing s t)"
  proof -
    have "unat (q_count (queue s)) = length xs" using ok that by (simp add: queue_ok_def role_def)
    then have "q_count (queue s) = of_nat (length xs)" by (simp flip: \<open>unat (q_count (queue s)) = length xs\<close>)
    moreover have "q_count (queue s) AND 0xffffff = take_bit 24 (q_count (queue s))"
      by (simp add: take_bit_eq_mask mask_eq_exp_minus_1)
    moreover have "take_bit 24 (q_count (queue s)) = q_count (queue s)"
      using unat_take24 [of "q_count (queue s)"] queue_bounds [OF ok fits] by (simp add: word_unat_eq_iff)
    moreover have "check_depth (queue s)" using queue_bounds [OF ok fits] by (simp add: check_depth_def word_less_nat_alt)
    ultimately show ?thesis using inv by (auto simp: cellSyncQueueSize_def enter_call_def)
  qed
  ultimately show ?thesis using xs by blast
qed

theorem sync_queue_fifo_witness:
  "\<exists>s. queue_reachable 32 16 2 s \<and> history s = [DidPush (replicate 16 7)] \<and>
     fifo_run 2 (history s) = Some [replicate 16 7] \<and> (\<forall>t. doing s t \<noteq> Crashed)"
proof -
  let ?x = "replicate 16 (7::u8)"
  define q where "q = \<lparr>q_next = 0, q_pop = 0, q_count = 0, q_push = 0, q_size = 16, q_depth = 2, q_buffer = 16, q_data = \<lambda>_. 0\<rparr>"
  have q: "q_size q = 16" "check_depth q" "queue_try_push_begin q = Some (0, q\<lparr>q_next := 1, q_count := 1, q_push := 1\<rparr>)"
    by (simp_all add: q_def check_depth_def queue_try_push_begin_def Let_def)
  have "queue_reachable 32 16 2 \<lparr>queue = q, doing = \<lambda>_. Idle, history = []\<rparr>"
    by (rule queue_reachable.start [where buffer = 16 and q = q])
      (simp add: q_def cellSyncQueueInitialize_def ptr_aligned_def)
  moreover have "calls 32 q (TryPush ?x)"
    unfolding calls_def cellSyncQueueTryPush_def using q(1,2)
    by (intro disjI1 exI [of _ 16] exI [of _ ?x]) (simp add: enter_call_def check_ptrs_def check_ptr_def ptr_aligned_def)
  ultimately have s1: "queue_reachable 32 16 2 \<lparr>queue = q, doing = (\<lambda>_. Idle)(0 := TryPush ?x), history = []\<rparr>"
    using queue_reachable.move queue_step.begin_call [of "\<lparr>queue = q, doing = \<lambda>_. Idle, history = []\<rparr>" 0 32 "TryPush ?x"]
    by fastforce
  have "queue_next False (TryPush ?x) q = (Pushing ?x 0 0, q\<lparr>q_next := 1, q_count := 1, q_push := 1\<rparr>, [])"
    using q(3) by (simp add: start_copy_def)
  then have "queue_reachable 32 16 2
      \<lparr>queue = q\<lparr>q_next := 1, q_count := 1, q_push := 1\<rparr>, doing = (\<lambda>_. Idle)(0 := Pushing ?x 0 0), history = []\<rparr>"
    using queue_reachable.move [OF s1 queue_step.run [of False _ 0]] by (simp del: queue_next.simps)
  from push_completes [OF this, of 0 ?x 0 0] obtain s where s: "queue_reachable 32 16 2 s" "history s = [DidPush ?x]" by auto
  from sync_queue_fifo [OF s(1)] s show ?thesis by (intro exI [of _ s]) (auto simp: fifo_run_def)
qed

text \<open>
  The initialisation accepts a depth that the 24-bit fields cannot count to: with \<open>2 ^ 24\<close> slots the push
  that fills the queue sets the count to zero, and all elements are lost.
\<close>

lemma deep_queue_loses_elements:
  assumes "q_depth q = 2 ^ 24" and "q_count q = 2 ^ 24 - 1" and "q_push q = 0" and "q_pop q = 0"
  shows "\<exists>q'. queue_try_push_begin q = Some (q_next q, q') \<and> q_count q' = 0"
  using assms by (simp add: queue_try_push_begin_def Let_def)

end
