(* ===== verification/Spec2Isabelle.thy ===== *)
theory Spec2Isabelle
  imports Sys_Mutex Sys_Semaphore Sys_Rwlock Sys_Event_Flag Sys_Event Sys_Cond Sys_Lwmutex Sys_Lwcond Lv2_Create
    Ppu_Registers Cell_Sync_Mutex Cell_Sync_Barrier Cell_Sync_Rwm Cell_Sync_Queue
begin

text \<open>
  \<^bold>\<open>The synchronisation kernel, the PPU interpreter and the synchronisation library of RPCSX.\<close> The program is a PlayStation 3 emulator (RPCSX, built on
  RPCS3) packaged for Android. Its core under \<^verbatim>\<open>app/src/main/cpp/rpcsx\<close> re-implements the lv2 kernel of the
  console: guest threads (PPU threads) are host threads, and the kernel objects through which a game
  synchronises are C++ objects of \<^verbatim>\<open>kernel/cellos\<close>. The code of a guest thread is executed by the PPU
  interpreter of \<^verbatim>\<open>rpcs3/Emu/Cell\<close>, which enters the kernel at the instruction \<open>sc\<close>. The firmware library
  \<^verbatim>\<open>ps3fw/cellSync.cpp\<close> gives games locks and queues in guest memory that do without the kernel. This development models
  the synchronisation kernel (the wait queues and the scheduler that all objects share, the store that maps
  handles to objects, and the nine kinds of objects with every system call on them), the interpreter
  (decoding, and the fixed-point, branch, condition-register, load and store instructions), and the mutex,
  barrier, reader-writer buffer and queue of \<^verbatim>\<open>cellSync\<close>.

  \<^bold>\<open>The parts and how they interact.\<close> A system call runs on the calling thread: it raises \<^verbatim>\<open>cpu_flag::wait\<close>,
  resolves a handle through \<^verbatim>\<open>idm\<close> and works on the object under the object's mutex or with a lock-free
  operation on its control word. A call that has to wait puts the thread into the object's queue
  (\<^verbatim>\<open>emplace\<close>), asks the scheduler to deschedule it (\<^verbatim>\<open>sleep\<close>), and stays in a loop until a signal, a
  timeout or a stop request. A call that wakes takes a thread off the queue (\<^verbatim>\<open>schedule\<close>) and hands it to
  the scheduler (\<^verbatim>\<open>awake\<close>), which keeps the running threads in priority order and suspends those beyond the
  number of hardware threads. Results of blocked calls travel in the register \<^verbatim>\<open>gpr[3]\<close> of the waiting
  thread. While a save state is taken, waiting threads leave their calls with the flag \<^verbatim>\<open>cpu_flag::again\<close>
  and repeat them after loading. The objects of \<^verbatim>\<open>cellSync\<close> are words in guest memory: their calls change them by
  atomic operations, and a call that has to wait repeats its operation until it succeeds or the thread is stopped.

  \<^bold>\<open>Theories and sources\<close> (paths below \<^verbatim>\<open>app/src/main/cpp/rpcsx\<close>).
  \<^item> \<open>Prelude\<close>: machine integers, wrap-around, error codes, the type \<open>outcome\<close>, shared lemmas.
  \<^item> \<open>Guest_Memory\<close>: the bytes of guest memory (\<^verbatim>\<open>rpcs3/Emu/Memory/vm.h\<close>) and the big-endian words in them,
    which the kernel calls and the interpreter share.
  \<^item> \<open>Lv2_Thread\<close>: \<^verbatim>\<open>ppu_thread\<close>, the state flags, the queues of \<^verbatim>\<open>kernel/cellos/include/cellos/sys_sync.h\<close>
    on pointers and on lists, and the refinement between the two; fairness of \<^verbatim>\<open>schedule\<close>.
  \<^item> \<open>Lv2_Scheduler\<close>: \<^verbatim>\<open>lv2_obj::sleep\<close>, \<^verbatim>\<open>awake\<close>, \<^verbatim>\<open>yield\<close>, \<^verbatim>\<open>set_priority\<close>, \<^verbatim>\<open>schedule_all\<close> of
    \<^verbatim>\<open>kernel/cellos/src/lv2.cpp\<close>; the invariant of the run queue and the timeouts, order of insertion,
    suspension, saturation of deadlines. The locale \<open>quiet_op\<close> is what the objects rely on: the
    scheduler leaves registers and enqueue order alone.
  \<^item> \<open>Id_Manager\<close>: \<^verbatim>\<open>rpcs3/Emu/IdManager.{h,cpp}\<close> and \<^verbatim>\<open>rpcs3/Emu/IPC.h\<close>. The locale \<open>handle_store\<close> states
    the store as a map from handles to objects; it is interpreted on the model of \<^verbatim>\<open>idm\<close>.
  \<^item> \<open>Lv2_Objects\<close>: the records of the nine objects, the kernel state (an object heap, so that two handles
    can share an object), \<^verbatim>\<open>lv2_obj::create\<close>, \<^verbatim>\<open>on_id_create\<close>, \<^verbatim>\<open>on_id_destroy\<close>, \<^verbatim>\<open>idm::withdraw\<close> with a
    check, the common wait loop and the loops that empty a queue. The locale \<open>destroy_call\<close> is the
    contract of the destroying calls, interpreted once per object.
  \<^item> \<open>Lv2_Create\<close>: creation of process-shared objects on the three flag values.
  \<^item> \<open>Sys_Mutex\<close>, \<open>Sys_Cond\<close>, \<open>Sys_Rwlock\<close>, \<open>Sys_Semaphore\<close>, \<open>Sys_Event_Flag\<close>, \<open>Sys_Event\<close>, \<open>Sys_Lwmutex\<close>,
    \<open>Sys_Lwcond\<close>: the object of the same name in \<^verbatim>\<open>kernel/cellos/src\<close> and \<^verbatim>\<open>kernel/cellos/include/cellos\<close>,
    event queues and ports together in \<open>Sys_Event\<close>. The locale \<open>monitor_lock\<close> of \<open>Sys_Mutex\<close> is what
    the condition variable relies on.
  \<^item> \<open>Ppu_Opcode\<close>: the fields of an instruction word, the rotate mask and the encoders of
    \<^verbatim>\<open>rpcs3/Emu/Cell/PPUOpcodes.h\<close>, over the bit fields of \<^verbatim>\<open>rpcs3/util/BitField.h\<close>.
  \<^item> \<open>Ppu_Decoder\<close>: the lookup tables of \<^verbatim>\<open>PPUOpcodes.h\<close> and of \<^verbatim>\<open>rpcsx/cpu/cell/ppu/src/Decoder.cpp\<close>. The
    locale \<open>table_filler\<close> is what both ways of filling a table promise; it is interpreted on each.
  \<^item> \<open>Ppu_Integer\<close>, \<open>Ppu_Arith\<close>, \<open>Ppu_Shift\<close>: the registers and the fixed-point instructions of
    \<^verbatim>\<open>PPUInterpreter.cpp\<close>, one definition \<open>ppu_X\<close> per function \<^verbatim>\<open>X()\<close>, and what they compute on integers.
  \<^item> \<open>Ppu_Branch\<close>: branches, traps, condition register and special registers.
  \<^item> \<open>Ppu_Memory\<close>, \<open>Ppu_Access\<close>, \<open>Ppu_String\<close>: loads and stores with the reservation check of
    \<^verbatim>\<open>ppu_feed_data\<close>; round trips of the fixed-point, vector, string and multiple accesses.
  \<^item> \<open>Ppu_Interpreter\<close>, \<open>Ppu_Registers\<close>: the table of function pointers, \<^verbatim>\<open>ppu_interpreter_rt::decode\<close> and a
    step; which words have no function, and the type invariant of the registers.
  \<^item> \<open>Cell_Sync\<close>, \<open>Cell_Sync_Mutex\<close>, \<open>Cell_Sync_Barrier\<close>, \<open>Cell_Sync_Rwm\<close>, \<open>Cell_Sync_Queue\<close>: the objects of
    \<^verbatim>\<open>ps3fw/cellSync.cpp\<close> and \<^verbatim>\<open>ps3fw/include/rpcsx/fw/ps3/cellSync.h\<close>. A call is the sequence of its atomic
    operations and byte copies; the threads take their steps in any order.

  \<^bold>\<open>Conventions.\<close> Each object theory gives a call twice: on the object and the thread state (\<open>mutex_lock\<close>,
  \<open>cond_wait\<close>), where the lemmas are, and on the whole kernel (\<open>sys_mutex_lock\<close>), with handle lookup and
  result. A call that blocks is split where the source blocks: \<open>Blocked\<close> means that the thread entered
  the wait loop, and a second definition is one round of that loop (\<open>mutex_wait\<close>, \<open>cond_wait_round\<close>).
  Lock-free operations compare with a value loaded earlier; that value is an argument (\<open>seen\<close>, \<open>spins\<close>,
  \<open>mid\<close>, \<open>late\<close>), so that the lemmas hold for every interleaving of the load and the operation. The moment a
  timeout fires and the results of \<^verbatim>\<open>test_stopped\<close> and \<^verbatim>\<open>check_state\<close> are arguments as well. A failed
  \<^verbatim>\<open>ensure\<close> is \<open>Fatal\<close> or the field \<open>fatal\<close>. No fuel is used: loops that need not end are
  \<^verbatim>\<open>partial_function (option)\<close> with \<open>None\<close> for not returning (\<open>drain\<close>, the pointer loops, the update loop of
  the event flag), and the properties show that they return \<open>Some\<close>, or for one of them that it does not.
  An instruction is a function on the register file and memory (the record \<open>ppu\<close>); how it leaves is a
  value of \<open>flow\<close>, with \<open>Throw\<close> for an exception and \<open>Undefined\<close> where the C++ code has no defined behaviour.
  Template flags (\<^verbatim>\<open>has_oe\<close>, \<^verbatim>\<open>has_rc\<close>, \<^verbatim>\<open>use_feed_data\<close>) are boolean arguments, and the time base is one.

  \<^bold>\<open>What is shown.\<close> For any number of threads and any order of calls, by step relations and invariants:
  mutual exclusion and no lost wake-up of the mutex; the monitor discipline of the condition variable; that
  no waiter of an event flag is satisfied and asleep; that an event queue is a bounded FIFO; that the
  lightweight mutex is passed on once per unlock; that the lightweight objects are only destroyed when
  nobody is inside. As refinements: pointer queues implement lists, the semaphore implements an abstract
  counting semaphore, \<^verbatim>\<open>sys_event_flag_set\<close> serves its waiters as if one by one when its update goes through
  at the first attempt (a retried one may wake more, but never leaves a satisfied waiter asleep). Per call: results and
  effects on every branch, bounds of \<^verbatim>\<open>tryreceive\<close>, save and load of the mutex, creation and destruction
  (the property below spans all objects). For the interpreter: the decoder finds the right entry for all
  words; sums, products, quotients, rotates and shifts agree with integer arithmetic, flags included; branches
  go where the branch options say; loads read back what stores wrote, the checked loads that reach into the
  reserved line from an earlier one excepted; the modelled functions keep the registers well-formed. For \<^verbatim>\<open>cellSync\<close>, under every interleaving:
  the ticket lock excludes and, in fair runs, lets every waiting thread in; a barrier works in rounds; the
  buffer is an atomic register and the queue a bounded FIFO although both copy byte by byte. The properties whose statements describe a fault of the code are
  listed last.

  \<^bold>\<open>Not modelled.\<close> The vector arithmetic of the PPU (host vector intrinsics), floating point (host arithmetic),
  the atomic reservation instructions and the single-precision loads and stores (a step whose function is one
  of these is \<open>None\<close>), the PPU recompiler and the SPU, RSX graphics, file system, network and devices (host I/O), the lock-free queue of \<^verbatim>\<open>cellSync\<close> (it
  relies on SPU code), the other firmware modules of \<^verbatim>\<open>ps3fw\<close>, the PS4 kernel, the user interface. Inside the modelled files: logging and profiling counters, host notifications
  (\<^verbatim>\<open>notify_all\<close>, \<^verbatim>\<open>vm::temporary_unlock\<close>), the branch of the scheduler for SPU threads (what an SPU receives
  from an event queue is a result of the model), and the deferred resolution of pointers when a save state is
  loaded. Whether a PPU thread with a given id exists is an argument. The lightweight condition variable changes
  its two waiter counters by two atomic operations that are one step of the model.
\<close>

section \<open>Destroying kernel objects\<close>

definition retires :: "u32 \<Rightarrow> u32 \<Rightarrow> bool \<Rightarrow> kernel \<Rightarrow> kernel \<Rightarrow> bool" where
  "retires b j success k k' \<longleftrightarrow> (\<forall>c n. lv2_look c n (ids k') =
     (if success \<and> c = b \<and> n = j then None else lv2_look c n (ids k)))"

lemma retires_withdraw:
  "(\<And>c n. lv2_look c n (ids k') = (if r = Some 0 \<and> c = b \<and> n = j then None else lv2_look c n (ids (enter t k)))) \<Longrightarrow>
   retires b j (r = Some 0) k k'"
  by (simp add: retires_def)

lemma retires_option:
  assumes "\<And>r k' c n. withdraw_if b j check (enter t k) = (r, k') \<Longrightarrow>
    lv2_look c n (ids k') = (if r = Some 0 \<and> c = b \<and> n = j then None else lv2_look c n (ids (enter t k)))"
  shows "case (case withdraw_if b j check (enter t k) of (None, k1) \<Rightarrow> (CELL_ESRCH, k1) | (Some r, k1) \<Rightarrow> (r, k1)) of
    (r, k1) \<Rightarrow> retires b j (r = CELL_OK) k k1"
proof -
  obtain r k' where w: "withdraw_if b j check (enter t k) = (r, k')" by fastforce
  from retires_withdraw [OF assms [OF w]] w show ?thesis by (cases r) simp_all
qed

text \<open>
  Claim C28. Handles and destruction, for every kind of object. A destroying call that returns \<^verbatim>\<open>CELL_OK\<close>
  removes exactly its own handle from the store, so that every later call on it fails its lookup, and
  leaves all other handles of all types as they were; with any other result no handle changes. (A forced
  destruction of an event queue that a save state interrupts is repeated and not covered.)
\<close>

theorem destroy_retires_handles:
  assumes "idm_inv (ids k)"
  shows "(case sys_mutex_destroy t j k of (r, k') \<Rightarrow> retires mutex_base j (r = CELL_OK) k k') \<and>
    (case sys_cond_destroy t j k of (r, k') \<Rightarrow> retires cond_base j (r = CELL_OK) k k') \<and>
    (case sys_rwlock_destroy t j k of (r, k') \<Rightarrow> retires rwlock_base j (r = CELL_OK) k k') \<and>
    (case sys_semaphore_destroy t j (k, sp) of (r, k', _) \<Rightarrow> retires sema_base j (r = CELL_OK) k k') \<and>
    (case sys_event_flag_destroy t j k of (r, k') \<Rightarrow> retires event_flag_base j (r = CELL_OK) k k') \<and>
    (case sys_event_port_destroy t j k of (r, k') \<Rightarrow> retires event_port_base j (r = CELL_OK) k k') \<and>
    (case sys_event_queue_destroy t j mode k of
       (out, _, k') \<Rightarrow> out = Again \<or> retires event_queue_base j (out = Ret CELL_OK) k k') \<and>
    (case sys_lwmutex_destroy t j first k of (out, k') \<Rightarrow> retires lwmutex_base j (out = Ret CELL_OK) k k') \<and>
    (case sys_lwcond_destroy t j first k of (out, k') \<Rightarrow> retires lwcond_base j (out = Ret CELL_OK) k k')"
proof (intro conjI)
  have i: "idm_inv (ids (enter t k))" using assms by simp
  show "case sys_mutex_destroy t j k of (r, k') \<Rightarrow> retires mutex_base j (r = CELL_OK) k k'"
    unfolding sys_mutex_destroy_def by (rule retires_option) (rule mutex_del.look_after [OF i])
  show "case sys_cond_destroy t j k of (r, k') \<Rightarrow> retires cond_base j (r = CELL_OK) k k'"
    unfolding sys_cond_destroy_def by (rule retires_option) (rule cond_del.look_after [OF i])
  show "case sys_rwlock_destroy t j k of (r, k') \<Rightarrow> retires rwlock_base j (r = CELL_OK) k k'"
    unfolding sys_rwlock_destroy_def by (rule retires_option) (rule rwlock_del.look_after [OF i])
  show "case sys_event_flag_destroy t j k of (r, k') \<Rightarrow> retires event_flag_base j (r = CELL_OK) k k'"
    unfolding sys_event_flag_destroy_def by (rule retires_option) (rule event_flag_del.look_after [OF i])
  show "case sys_event_port_destroy t j k of (r, k') \<Rightarrow> retires event_port_base j (r = CELL_OK) k k'"
    unfolding sys_event_port_destroy_def by (rule retires_option) (rule event_port_del.look_after [OF i])
  show "case sys_semaphore_destroy t j (k, sp) of (r, k', _) \<Rightarrow> retires sema_base j (r = CELL_OK) k k'"
  proof -
    obtain r k' where w: "withdraw_if sema_base j sema_destroy_check (enter t k) = (r, k')" by fastforce
    with retires_withdraw [OF sema_del.look_after [OF i w]] show ?thesis
      by (cases r) (auto simp: sys_semaphore_destroy_def)
  qed
  show "case sys_lwmutex_destroy t j first k of (out, k') \<Rightarrow> retires lwmutex_base j (out = Ret CELL_OK) k k'"
  proof -
    obtain r k' where w: "withdraw_if lwmutex_base j (lwmutex_destroy_check t first) (enter t k) = (r, k')" by fastforce
    with retires_withdraw [OF lwmutex_del.look_after [OF i w]] show ?thesis
      by (cases r) (auto simp: sys_lwmutex_destroy_def)
  qed
  show "case sys_lwcond_destroy t j first k of (out, k') \<Rightarrow> retires lwcond_base j (out = Ret CELL_OK) k k'"
  proof -
    obtain r k' where w: "withdraw_if lwcond_base j (lwcond_destroy_check t first) (enter t k) = (r, k')" by fastforce
    with retires_withdraw [OF lwcond_del.look_after [OF i w]] show ?thesis
      by (cases r) (auto simp: sys_lwcond_destroy_def)
  qed
  show "case sys_event_queue_destroy t j mode k of
       (out, _, k') \<Rightarrow> out = Again \<or> retires event_queue_base j (out = Ret CELL_OK) k k'"
  proof -
    obtain r k' where w: "withdraw_if event_queue_base j (event_queue_destroy_check t mode) (enter t k) = (r, k')" by fastforce
    have h: "retires b j s k (put_obj a x (k1\<lparr>env := e\<rparr>)) = retires b j s k k1" for b j s k1 a x e
      by (simp add: retires_def)
    have n: "retires event_queue_base j False k (enter t k)" by (simp add: retires_def)
    from w retires_withdraw [OF event_queue_del.look_after [OF i w]] h n show ?thesis
      by (cases r) (auto simp: sys_event_queue_destroy_def Let_def split: option.splits lv2_object.splits prod.splits)
  qed
qed

text \<open>Destroying the only mutex of a process.\<close>

theorem destroy_retires_handles_witness:
  "let k = demo_kernel (O_mutex demo_mutex) [3]; (r, k') = sys_mutex_destroy 3 0x85000000 k
   in r = CELL_OK \<and> lv2_look 0x85000000 0x85000000 (ids k) = Some 0 \<and> lv2_look 0x85000000 0x85000000 (ids k') = None"
proof -
  let ?k = "demo_kernel (O_mutex demo_mutex) [3]"
  obtain r k' where d: "sys_mutex_destroy 3 0x85000000 ?k = (r, k')" by fastforce
  have g: "get_obj 0x85000000 0x85000000 ?k = Some (0, O_mutex demo_mutex)"
    using demo_kernel_obj [of "O_mutex demo_mutex" "[3]"] by simp
  then have "lv2_look 0x85000000 0x85000000 (ids ?k) = Some 0"
    using demo_kernel_idm [of "O_mutex demo_mutex" "[3]"] by (auto simp: get_obj_def idm_get_lv2_look split: option.splits)
  moreover have "r = CELL_OK" using d g
    by (auto simp: sys_mutex_destroy_def withdraw_if_def mutex_destroy_check_def demo_mutex_def)
  moreover from destroy_retires_handles [OF demo_kernel_idm [of "O_mutex demo_mutex" "[3]"], where t = 3 and j = "0x85000000"] d
  have "retires 0x85000000 0x85000000 (r = CELL_OK) ?k k'" by simp
  ultimately show ?thesis using d by (simp add: retires_def)
qed

end
